(* ===== verification/Prelude.thy ===== *)
theory Prelude
  imports Main "HOL-Library.Word" "HOL-Library.Multiset"
begin

text \<open>
  Shared vocabulary of the development: the machine integers of the code as words, failed
  assertions and traps as values of a sum type, and the generic lemmas on words, ring indices
  and list updates that the component theories share.
\<close>

unbundle bit_operations_syntax

section \<open>Machine integers\<close>

text \<open>
  The target is the 64-bit ABI the code is built for: \<open>size_t\<close>, \<open>intptr_t\<close> and \<open>long\<close> have
  64 bits, \<open>int\<close> and \<open>unsigned\<close> 32. A signed value is kept as the same word and read with
  \<open>sint\<close>.
\<close>

type_synonym usize = "64 word"
type_synonym u32 = "32 word"
type_synonym u16 = "16 word"
type_synonym cint = "32 word"

section \<open>Failures\<close>

text \<open>
  \<open>Assertion\<close> is a failed \<open>CC_ASSERT\<close> or \<open>CC_RUNTIME_ASSERT\<close> with its message;
  \<open>DivisionByZero\<close> is the trap of an unsigned division by zero and \<open>OutOfRange\<close> an index
  outside of an array. \<open>CC_ASSERT\<close> is compiled out
  of release builds, so the definitions that contain one take a flag \<open>dbg\<close> that says
  whether it is active; \<open>CC_RUNTIME_ASSERT\<close> is always active.
\<close>

datatype failure = Assertion string | DivisionByZero | OutOfRange

definition cc_assert :: "bool \<Rightarrow> bool \<Rightarrow> string \<Rightarrow> failure + unit" where
  "cc_assert dbg c msg = (if dbg \<and> \<not> c then Inl (Assertion msg) else Inr ())"

definition and_then :: "failure + 'a \<Rightarrow> ('a \<Rightarrow> failure + 'b) \<Rightarrow> failure + 'b" where
  "and_then r f = (case r of Inl e \<Rightarrow> Inl e | Inr v \<Rightarrow> f v)"

named_theorems fail_simps \<open>evaluation of assertions and of sequencing\<close>

lemma cc_assert_release [fail_simps]: "cc_assert False c msg = Inr ()"
  by (simp add: cc_assert_def)

lemma cc_assert_ok [fail_simps]: "c \<Longrightarrow> cc_assert dbg c msg = Inr ()"
  by (simp add: cc_assert_def)

lemma cc_assert_fails [fail_simps]: "\<not> c \<Longrightarrow> cc_assert True c msg = Inl (Assertion msg)"
  by (simp add: cc_assert_def)

lemma and_then_Inr [fail_simps]: "and_then (Inr v) f = f v"
  by (simp add: and_then_def)

lemma and_then_Inl [fail_simps]: "and_then (Inl e) f = Inl e"
  by (simp add: and_then_def)

lemma and_then_eq_Inr:
  "and_then r f = Inr w \<longleftrightarrow> (\<exists>v. r = Inr v \<and> f v = Inr w)"
  by (cases r) (simp_all add: and_then_def)

section \<open>Ring indices\<close>

lemma mod_ring_le:
  fixes a i j n :: nat
  assumes "i \<le> j" and "j < n" and "(a + i) mod n = (a + j) mod n"
  shows "i = j"
proof -
  have "n dvd (a + j) - (a + i)"
    using assms(1,3) by (intro mod_eq_dvd_iff_nat [THEN iffD1]) simp_all
  then have "n dvd j - i" by simp
  with assms(1,2) show ?thesis
    by (auto dest: dvd_imp_le)
qed

lemma mod_ring_inj:
  fixes a i j n :: nat
  assumes "i < n" and "j < n" and "(a + i) mod n = (a + j) mod n"
  shows "i = j"
  using mod_ring_le [of i j n a] mod_ring_le [of j i n a] assms by (cases "i \<le> j") auto

lemma mod_ring_eq_iff:
  fixes a i j n :: nat
  shows "i < n \<Longrightarrow> j < n \<Longrightarrow> (a + i) mod n = (a + j) mod n \<longleftrightarrow> i = j"
  using mod_ring_inj by blast

text \<open>Masking with a power of two less one is reduction modulo that power.\<close>

lemma unat_and_mask:
  fixes w :: "'a::len word"
  assumes "k \<le> LENGTH('a)"
  shows "unat (w AND (2 ^ k - 1)) = unat w mod 2 ^ k"
proof -
  have "w AND (2 ^ k - 1) = take_bit k w"
    by (simp add: mask_eq_exp_minus_1 [symmetric] take_bit_eq_mask)
  then have "unat (w AND (2 ^ k - 1)) = take_bit k (unat w)"
    using assms by (simp only: unsigned_take_bit_eq min.absorb1)
  then show ?thesis by (simp only: take_bit_eq_mod)
qed

lemma unat_add_mod_pow2:
  fixes w :: "'a::len word"
  assumes "k \<le> LENGTH('a)"
  shows "unat (w + of_nat j) mod 2 ^ k = (unat w + j) mod 2 ^ k"
proof -
  have dvd: "(2::nat) ^ k dvd 2 ^ LENGTH('a)"
    using assms by (simp add: le_imp_power_dvd)
  have "unat (w + of_nat j) = (unat w + j) mod 2 ^ LENGTH('a)"
    by (simp add: unat_word_ariths unat_of_nat mod_add_right_eq)
  then show ?thesis using dvd by (simp add: mod_mod_cancel)
qed

lemma unat_of_nat_small:
  "m < 2 ^ LENGTH('a::len) \<Longrightarrow> unat (of_nat m :: 'a word) = m"
  by (simp add: unat_of_nat)

lemma sint_word_of_int_small:
  assumes "- (2 ^ (LENGTH('a::len) - 1)) \<le> i" and "i < 2 ^ (LENGTH('a) - 1)"
  shows "sint (word_of_int i :: 'a word) = i"
  using assms by (simp add: sint_sbintrunc' signed_take_bit_int_eq_self)

lemma sint_of_nat_small:
  assumes "m < 2 ^ (LENGTH('a::len) - 1)"
  shows "sint (of_nat m :: 'a word) = int m"
proof -
  have "int m < 2 ^ (LENGTH('a) - 1)"
    using assms by (metis of_nat_less_iff of_nat_numeral of_nat_power)
  then have "sint (word_of_int (int m) :: 'a word) = int m"
    by (intro sint_word_of_int_small) (auto intro: order_trans [of _ 0])
  then show ?thesis by simp
qed

lemma sint_minus_of_nat_small:
  assumes "m \<le> 2 ^ (LENGTH('a::len) - 1)"
  shows "sint (- of_nat m :: 'a word) = - int m"
proof -
  have "int m \<le> 2 ^ (LENGTH('a) - 1)"
    using assms by (metis of_nat_le_iff of_nat_numeral of_nat_power)
  then have "sint (word_of_int (- int m) :: 'a word) = - int m"
    by (intro sint_word_of_int_small) (auto intro: le_less_trans [of _ 0])
  then show ?thesis by simp
qed

lemma unat_minus_one_max: "unat (- 1 :: 'a::len word) = 2 ^ LENGTH('a) - 1"
  by (simp add: unsigned_minus_1_eq_mask mask_eq_exp_minus_1)

lemma ring_succ: "k < n \<Longrightarrow> Suc k mod n = (if Suc k = n then 0 else Suc k)" for k n :: nat
  by simp

lemma ring_distance:
  fixes h t n :: nat
  assumes "h < n" and "t < n"
  shows "(h + n - t) mod n = (if t \<le> h then h - t else h + n - t)"
proof (cases "t \<le> h")
  case True
  then have "(h + n - t) mod n = ((h - t) + n) mod n" by simp
  also have "\<dots> = (h - t) mod n" by (simp only: mod_add_self2)
  finally show ?thesis using True assms by simp
next
  case False
  with assms show ?thesis by simp
qed

text \<open>
  Distance from \<open>t\<close> up to \<open>h\<close> around a ring: it is maximal when \<open>h\<close> is just behind
  \<open>t\<close>, and moving \<open>t\<close> one place on shortens it by one.
\<close>

lemma ring_distance_full:
  fixes h t n :: nat
  assumes "h < n" and "t < n"
  shows "Suc h mod n = t \<longleftrightarrow> Suc ((h + n - t) mod n) = n"
  unfolding ring_distance [OF assms] ring_succ [OF assms(1)] using assms by auto

lemma ring_distance_step:
  fixes h t n :: nat
  assumes "h < n" and "t < n" and "t \<noteq> h"
  shows "Suc ((h + n - Suc t mod n) mod n) = (h + n - t) mod n"
proof -
  have "Suc t mod n < n" using assms(2) by (intro mod_less_divisor) simp
  from ring_distance [OF assms(1) this] ring_distance [OF assms(1,2)] show ?thesis
    unfolding ring_succ [OF assms(2)] using assms by auto
qed

lemma map_upt_update: "(map g [0..<n])[k := x] = map (g(k := x)) [0..<n]"
  by (rule nth_equalityI) (auto simp: nth_list_update)

section \<open>Slices of a ring\<close>

text \<open>
  The \<open>c\<close> elements of a ring buffer \<open>xs\<close> from position \<open>a\<close> on, positions counted without
  reduction: the abstraction shared by the three array queues of the code.
\<close>

definition ring_slice :: "'a list \<Rightarrow> nat \<Rightarrow> nat \<Rightarrow> 'a list" where
  "ring_slice xs a c = map (\<lambda>j. xs ! ((a + j) mod length xs)) [0..<c]"

named_theorems ring_simps \<open>slices of a ring under queue operations\<close>

lemma ring_slice_0 [ring_simps]: "ring_slice xs a 0 = []"
  by (simp add: ring_slice_def)

lemma length_ring_slice [simp]: "length (ring_slice xs a c) = c"
  by (simp add: ring_slice_def)

lemma ring_slice_front:
  "ring_slice xs a (Suc c) = xs ! (a mod length xs) # ring_slice xs (Suc a) c"
  by (simp add: ring_slice_def upt_conv_Cons map_Suc_upt [symmetric] del: upt_Suc)

lemma ring_slice_back:
  "ring_slice xs a (Suc c) = ring_slice xs a c @ [xs ! ((a + c) mod length xs)]"
  by (simp add: ring_slice_def)

lemma ring_slice_mod [ring_simps]: "ring_slice xs (a mod length xs) c = ring_slice xs a c"
  by (simp add: ring_slice_def mod_add_left_eq)

lemma ring_slice_cong_pos:
  "a mod length xs = b mod length xs \<Longrightarrow> ring_slice xs a c = ring_slice xs b c"
  by (metis ring_slice_mod)

lemma ring_slice_update_outside:
  assumes "c \<le> j" and "j < length xs"
  shows "ring_slice (xs[(a + j) mod length xs := v]) a c = ring_slice xs a c"
  unfolding ring_slice_def
proof (rule map_cong)
  fix i assume "i \<in> set [0..<c]"
  then have "i < length xs" "i \<noteq> j" using assms by auto
  then have "(a + i) mod length xs \<noteq> (a + j) mod length xs"
    using mod_ring_eq_iff [of i "length xs" j a] assms(2) by simp
  then show "xs[(a + j) mod length xs := v] ! ((a + i) mod length (xs[(a + j) mod length xs := v]))
      = xs ! ((a + i) mod length xs)"
    by (simp add: nth_list_update_neq)
qed simp

lemma ring_slice_push:
  assumes "c < length xs"
  shows "ring_slice (xs[(a + c) mod length xs := v]) a (Suc c) = ring_slice xs a c @ [v]"
proof -
  have "(a + c) mod length xs < length xs"
    using assms by (intro mod_less_divisor) auto
  then show ?thesis
    using ring_slice_update_outside [of c c xs a v] assms by (simp add: ring_slice_back)
qed

section \<open>Sequences of updates\<close>

lemma fold_update_length [simp]: "length (fold (\<lambda>i d. d[f i := g i]) is d) = length d"
  by (induction "is" arbitrary: d) simp_all

text \<open>The last write to a place stays.\<close>

lemma fold_update_nth:
  assumes "m \<le> i" and "i < n" and "f i < length d" and "\<And>j. i < j \<Longrightarrow> j < n \<Longrightarrow> f j \<noteq> f i"
  shows "fold (\<lambda>i d. d[f i := g i]) [m..<n] d ! f i = g i"
  using assms
proof (induction n)
  case (Suc n)
  show ?case
  proof (cases "i = n")
    case True
    then show ?thesis using Suc.prems(1,3) by simp
  next
    case False
    then have "f n \<noteq> f i" "i < n" using Suc.prems by simp_all
    then show ?thesis using Suc by simp
  qed
qed simp

end
