(* ===== verification/Queue_Spec.thy ===== *)
theory Queue_Spec
  imports Prelude "HOL-Library.Monad_Syntax"
begin

text \<open>
  The contract the scheduler relies on for its four bounded queues (\<open>mTasks\<close>,
  \<open>mIdleFibers\<close>, \<open>mResumableFibers\<close>, \<open>mFreeCounters\<close>), stated as a locale over an
  abstraction to lists, and the two loops of \<open>Scheduler::start\<close> that use it: the population
  loops (lines 816 to 826 of scheduler.cc) and the draining loops (lines 922 to 943). An operation
  returns \<open>None\<close> where its retry loop would not return.
\<close>

section \<open>Client loops\<close>

text \<open>
  \<open>for (i ...) queue.enqueue(i);\<close> with the result of \<open>enqueue\<close> ignored, as the code does.
\<close>

fun enqueue_each :: "('q \<Rightarrow> 'a \<Rightarrow> (bool \<times> 'q) option) \<Rightarrow> 'q \<Rightarrow> 'a list \<Rightarrow> 'q option" where
  "enqueue_each enq q [] = Some q"
| "enqueue_each enq q (x # xs) =
     (case enq q x of None \<Rightarrow> None | Some (_, q') \<Rightarrow> enqueue_each enq q' xs)"

text \<open>\<open>while (queue.dequeue(dump)) {}\<close>.\<close>

partial_function (option) drain :: "('q \<Rightarrow> ('a option \<times> 'q) option) \<Rightarrow> 'q \<Rightarrow> 'q option" where
  "drain deq q =
     (case deq q of
        None \<Rightarrow> None
      | Some r \<Rightarrow> (case fst r of None \<Rightarrow> Some (snd r) | Some _ \<Rightarrow> drain deq (snd r)))"

declare drain.simps [code]

section \<open>Sequences of calls\<close>

text \<open>
  The calls of one thread with their results, on a queue and on the bounded list it stands for: a call of
  \<open>enqueue\<close> says whether it accepted the value, one of \<open>dequeue\<close> which value it took, if any.
\<close>

datatype 'a queue_call = Enqueue 'a | Dequeue

datatype 'a queue_result = Accepted bool | Taken "'a option"

fun queue_run ::
  "('q \<Rightarrow> 'a \<Rightarrow> (bool \<times> 'q) option) \<Rightarrow> ('q \<Rightarrow> ('a option \<times> 'q) option) \<Rightarrow> 'a queue_call list \<Rightarrow> 'q \<Rightarrow>
     ('a queue_result list \<times> 'q) option" where
  "queue_run enq deq [] q = Some ([], q)"
| "queue_run enq deq (Enqueue x # cs) q =
     (case enq q x of None \<Rightarrow> None
      | Some (b, q') \<Rightarrow> map_option (\<lambda>(rs, r). (Accepted b # rs, r)) (queue_run enq deq cs q'))"
| "queue_run enq deq (Dequeue # cs) q =
     (case deq q of None \<Rightarrow> None
      | Some (v, q') \<Rightarrow> map_option (\<lambda>(rs, r). (Taken v # rs, r)) (queue_run enq deq cs q'))"

fun list_run :: "nat \<Rightarrow> 'a queue_call list \<Rightarrow> 'a list \<Rightarrow> 'a queue_result list \<times> 'a list" where
  "list_run n [] xs = ([], xs)"
| "list_run n (Enqueue x # cs) xs =
     (if length xs < n then apfst ((#) (Accepted True)) (list_run n cs (xs @ [x]))
      else apfst ((#) (Accepted False)) (list_run n cs xs))"
| "list_run n (Dequeue # cs) xs =
     (case xs of [] \<Rightarrow> apfst ((#) (Taken None)) (list_run n cs [])
      | y # ys \<Rightarrow> apfst ((#) (Taken (Some y))) (list_run n cs ys))"

section \<open>Taking elements out\<close>

text \<open>
  What a consumer relies on: \<open>deq\<close> returns the elements of \<open>contents\<close> in order, and reports an
  empty queue without changing it.
\<close>

locale queue_source =
  fixes ok :: "'q \<Rightarrow> bool"
    and contents :: "'q \<Rightarrow> 'a list"
    and cap :: "'q \<Rightarrow> nat"
    and deq :: "'q \<Rightarrow> ('a option \<times> 'q) option"
  assumes bounded: "ok q \<Longrightarrow> length (contents q) \<le> cap q"
    and deq_some: "ok q \<Longrightarrow> contents q = y # ys \<Longrightarrow>
      \<exists>q'. deq q = Some (Some y, q') \<and> ok q' \<and> contents q' = ys \<and> cap q' = cap q"
    and deq_none: "ok q \<Longrightarrow> contents q = [] \<Longrightarrow> deq q = Some (None, q)"
begin

lemma deqE:
  assumes "ok q" and "deq q = Some (r, q')"
  obtains (some) y where "r = Some y" "contents q = y # contents q'" "ok q'" "cap q' = cap q"
    | (none) "r = None" "contents q = []" "q' = q"
proof (cases "contents q")
  case Nil
  with deq_none [OF assms(1)] assms(2) show ?thesis by (auto intro: none)
next
  case (Cons y ys)
  with deq_some [OF assms(1) Cons] assms(2) show ?thesis by (auto intro: some)
qed

lemma deq_total: "ok q \<Longrightarrow> \<exists>r q'. deq q = Some (r, q')"
  using deq_some [of q] deq_none [of q] by (cases "contents q") blast+

lemma drain_empties:
  "ok q \<Longrightarrow> \<exists>q'. drain deq q = Some q' \<and> ok q' \<and> contents q' = [] \<and> cap q' = cap q"
proof (induction "contents q" arbitrary: q)
  case Nil
  with deq_none [of q] show ?case by (subst drain.simps) simp
next
  case (Cons y ys)
  from deq_some [of q y ys] Cons.hyps(2) Cons.prems obtain q1 where
    q1: "deq q = Some (Some y, q1)" "ok q1" "contents q1 = ys" "cap q1 = cap q"
    by auto
  from Cons.hyps(1) [of q1] q1 show ?case by (subst drain.simps) simp
qed

end

section \<open>The bounded queue contract\<close>

text \<open>
  A source that also accepts elements while there is room, and otherwise refuses them and leaves
  the queue as it was.
\<close>

locale bounded_queue = queue_source ok contents cap deq
  for ok :: "'q \<Rightarrow> bool"
    and contents :: "'q \<Rightarrow> 'a list"
    and cap :: "'q \<Rightarrow> nat"
    and deq :: "'q \<Rightarrow> ('a option \<times> 'q) option" +
  fixes enq :: "'q \<Rightarrow> 'a \<Rightarrow> (bool \<times> 'q) option"
  assumes enq_room: "ok q \<Longrightarrow> length (contents q) < cap q \<Longrightarrow>
      \<exists>q'. enq q x = Some (True, q') \<and> ok q' \<and> contents q' = contents q @ [x] \<and> cap q' = cap q"
    and enq_full: "ok q \<Longrightarrow> length (contents q) = cap q \<Longrightarrow> enq q x = Some (False, q)"
begin

lemma enqE:
  assumes "ok q" and "enq q x = Some (b, q')"
  obtains (room) "b" "length (contents q) < cap q" "ok q'" "contents q' = contents q @ [x]"
      "cap q' = cap q"
    | (full) "\<not> b" "length (contents q) = cap q" "q' = q"
proof (cases "length (contents q) < cap q")
  case True
  with enq_room [OF assms(1), of x] assms(2) show ?thesis by (auto intro: room)
next
  case False
  with bounded [OF assms(1)] have "length (contents q) = cap q" by simp
  with enq_full [OF assms(1), of x] assms(2) show ?thesis by (auto intro: full)
qed

lemma enq_total: "ok q \<Longrightarrow> \<exists>b q'. enq q x = Some (b, q')"
  using bounded [of q] enq_room [of q x] enq_full [of q x]
  by (cases "length (contents q) < cap q") auto

lemma run_as_list:
  "ok q \<Longrightarrow> \<exists>q'. queue_run enq deq cs q = Some (fst (list_run (cap q) cs (contents q)), q') \<and> ok q' \<and>
     contents q' = snd (list_run (cap q) cs (contents q)) \<and> cap q' = cap q"
proof (induction cs arbitrary: q)
  case Nil
  then show ?case by simp
next
  case (Cons c cs)
  show ?case
  proof (cases c)
    case (Enqueue x)
    obtain b q1 where e: "enq q x = Some (b, q1)" using enq_total [OF Cons.prems] by blast
    from Cons.prems e show ?thesis
    proof (cases rule: enqE)
      case room
      from Cons.IH [OF room(3)] room show ?thesis by (auto simp: Enqueue e)
    next
      case full
      from Cons.IH [OF Cons.prems] full show ?thesis by (auto simp: Enqueue e)
    qed
  next
    case Dequeue
    obtain v q1 where d: "deq q = Some (v, q1)" using deq_total [OF Cons.prems] by blast
    from Cons.prems d show ?thesis
    proof (cases rule: deqE)
      case (some y)
      from Cons.IH [OF some(3)] some show ?thesis by (auto simp: Dequeue d)
    next
      case none
      from Cons.IH [OF Cons.prems] none show ?thesis by (auto simp: Dequeue d)
    qed
  qed
qed

lemma enqueue_each_room:
  "ok q \<Longrightarrow> length (contents q) + length xs \<le> cap q \<Longrightarrow>
   \<exists>q'. enqueue_each enq q xs = Some q' \<and> ok q' \<and> contents q' = contents q @ xs \<and> cap q' = cap q"
proof (induction xs arbitrary: q)
  case Nil
  then show ?case by simp
next
  case (Cons x xs)
  from Cons.prems have "length (contents q) < cap q" by simp
  from enq_room [OF Cons.prems(1) this, of x] obtain q1 where
    q1: "enq q x = Some (True, q1)" "ok q1" "contents q1 = contents q @ [x]" "cap q1 = cap q"
    by blast
  from Cons.IH [of q1] q1 Cons.prems(2) show ?case by auto
qed

end

end
