(* ===== verification/FIFO_Queue.thy ===== *)
theory FIFO_Queue
  imports Queue_Spec
begin

text \<open>
  \<open>container::FIFOQueue\<close> (container/mpsc_queue.hh): the unsynchronised ring buffer that holds the
  resumable fibers pinned to a thread. Head and tail are C++ \<open>int\<close>s, compared with and
  reduced by the \<open>size_t\<close> capacity, so the comparisons happen after conversion to 64 bits.
\<close>

section \<open>State and operations\<close>

record 'a fifo =
  mHead :: cint
  mTail :: cint
  mData :: "'a list"

definition fifo_new :: "'a list \<Rightarrow> 'a fifo" where
  "fifo_new init = \<lparr>mHead = -1, mTail = -1, mData = init\<rparr>"

text \<open>
  \<open>x >= N\<close> and \<open>x -= N\<close> for an \<open>int\<close> x and a \<open>size_t\<close> N: the usual
  arithmetic conversions take x to 64 bits, and the assignment truncates again.
\<close>

definition int_ge_size :: "cint \<Rightarrow> nat \<Rightarrow> bool" where
  "int_ge_size x n = ((of_nat n :: usize) \<le> scast x)"

definition int_sub_size :: "cint \<Rightarrow> nat \<Rightarrow> cint" where
  "int_sub_size x n = ucast ((scast x :: usize) - of_nat n)"

text \<open>\<open>++x; if (x >= N) x -= N;\<close>\<close>

definition ring_next :: "nat \<Rightarrow> cint \<Rightarrow> cint" where
  "ring_next n x = (let x' = x + 1 in if int_ge_size x' n then int_sub_size x' n else x')"

definition fifo_empty :: "'a fifo \<Rightarrow> bool" where
  "fifo_empty q = (mTail q = -1)"

definition fifo_full :: "'a fifo \<Rightarrow> bool" where
  "fifo_full q = (ring_next (length (mData q)) (mHead q) = mTail q)"

definition fifo_dequeue :: "'a fifo \<Rightarrow> 'a option \<times> 'a fifo" where
  "fifo_dequeue q =
     (if fifo_empty q then (None, q)
      else (Some (mData q ! unat (mTail q)),
            if mTail q = mHead q then q\<lparr>mTail := -1, mHead := -1\<rparr>
            else q\<lparr>mTail := ring_next (length (mData q)) (mTail q)\<rparr>))"

text \<open>The body of \<open>enqueue\<close> after its assertion, then \<open>enqueue\<close> itself.\<close>

definition fifo_store :: "'a fifo \<Rightarrow> 'a \<Rightarrow> 'a fifo" where
  "fifo_store q v =
     (let q1 = (if fifo_empty q then q\<lparr>mTail := 0\<rparr> else q);
          h = ring_next (length (mData q)) (mHead q1)
      in q1\<lparr>mHead := h, mData := (mData q)[unat h := v]\<rparr>)"

definition fifo_enqueue :: "bool \<Rightarrow> 'a fifo \<Rightarrow> 'a \<Rightarrow> failure + 'a fifo" where
  "fifo_enqueue dbg q v =
     and_then (cc_assert dbg (\<not> fifo_full q) ''FIFOQueue Full'') (\<lambda>_. Inr (fifo_store q v))"

section \<open>Invariant and abstraction\<close>

definition fifo_ok :: "'a fifo \<Rightarrow> bool" where
  "fifo_ok q \<longleftrightarrow>
     0 < length (mData q) \<and> length (mData q) < 2 ^ 31 \<and>
     (mTail q = -1 \<and> mHead q = -1 \<or>
      unat (mTail q) < length (mData q) \<and> unat (mHead q) < length (mData q))"

definition fifo_count :: "'a fifo \<Rightarrow> nat" where
  "fifo_count q =
     (if mTail q = -1 then 0
      else (unat (mHead q) + length (mData q) - unat (mTail q)) mod length (mData q) + 1)"

definition fifo_list :: "'a fifo \<Rightarrow> 'a list" where
  "fifo_list q = ring_slice (mData q) (unat (mTail q)) (fifo_count q)"

section \<open>Index arithmetic\<close>

lemma scast_of_nat_small:
  assumes "k < 2 ^ 31"
  shows "(scast (of_nat k :: cint) :: usize) = of_nat k"
proof -
  have "sint (of_nat k :: cint) = int k"
    using assms by (intro sint_of_nat_small) simp
  then have "(scast (of_nat k :: cint) :: usize) = word_of_int (int k)"
    by (metis scast_eq)
  then show ?thesis by simp
qed

lemma ring_next_of_nat:
  assumes "k < n" and "n < 2 ^ 31"
  shows "ring_next n (of_nat k) = of_nat ((k + 1) mod n)"
proof -
  obtain m where m: "m = k + 1" by blast
  have suc: "(of_nat k + 1 :: cint) = of_nat m" by (simp add: m)
  have conv: "(scast (of_nat m :: cint) :: usize) = of_nat m"
    by (rule scast_of_nat_small) (use assms m in simp)
  have ge: "int_ge_size (of_nat m) n \<longleftrightarrow> n \<le> m"
    unfolding int_ge_size_def conv using assms m
    by (simp only: word_le_nat_alt) (subst unat_of_nat_small; simp)+
  show ?thesis
  proof (cases "n \<le> m")
    case True
    with assms m have "n = m" by simp
    then show ?thesis
      using ge conv m unfolding ring_next_def Let_def suc int_sub_size_def by simp
  next
    case False
    then have "(k + 1) mod n = m" using m by simp
    with False show ?thesis using ge unfolding ring_next_def Let_def suc by simp
  qed
qed

lemma ring_next_unat:
  assumes "unat x < n" and "n < 2 ^ 31"
  shows "ring_next n x = of_nat ((unat x + 1) mod n)"
    and "unat (ring_next n x) = (unat x + 1) mod n"
proof -
  show eq: "ring_next n x = of_nat ((unat x + 1) mod n)"
    using ring_next_of_nat [of "unat x" n] assms by simp
  have "(unat x + 1) mod n < n" using assms(1) by (intro mod_less_divisor) simp
  then have "(unat x + 1) mod n < 2 ^ 32" using assms(2) by simp
  then show "unat (ring_next n x) = (unat x + 1) mod n"
    unfolding eq by (intro unat_of_nat_small) simp
qed

lemma ring_next_minus_one:
  assumes "0 < n" and "n < 2 ^ 31"
  shows "ring_next n (-1) = 0"
proof -
  have "\<not> int_ge_size 0 n"
    unfolding int_ge_size_def using assms by (simp add: word_le_nat_alt unat_of_nat_small)
  then show ?thesis by (simp add: ring_next_def)
qed

lemma minus_one_not_small:
  fixes x :: cint
  assumes "unat x < n" and "n < 2 ^ 31"
  shows "x \<noteq> -1"
proof
  assume "x = -1"
  then have "unat x = 2 ^ 32 - 1" by (simp only: unat_minus_one_max) simp
  with assms show False by simp
qed

lemma minus_one_not_zero: "(0 :: cint) \<noteq> -1"
  by simp

section \<open>Correctness\<close>

text \<open>The queue is in one of two shapes; every operation is reasoned about in both.\<close>

lemma fifo_cases:
  assumes "fifo_ok q"
  obtains (empty) "mTail q = -1" "mHead q = -1" "fifo_count q = 0"
    | (used) h t where "unat (mTail q) = t" "unat (mHead q) = h" "t < length (mData q)"
        "h < length (mData q)" "mTail q \<noteq> -1"
        "fifo_count q = Suc ((h + length (mData q) - t) mod length (mData q))"
proof (cases "mTail q = -1 \<and> mHead q = -1")
  case True
  then show ?thesis by (intro empty) (simp_all add: fifo_count_def)
next
  case False
  then have b: "unat (mTail q) < length (mData q)" "unat (mHead q) < length (mData q)"
      "length (mData q) < 2 ^ 31"
    using assms by (auto simp: fifo_ok_def)
  from minus_one_not_small [OF b(1,3)] have "mTail q \<noteq> -1" .
  then show ?thesis
    by (intro used [OF refl refl b(1,2)]) (simp_all add: fifo_count_def)
qed

lemma fifo_ok_sizes: "fifo_ok q \<Longrightarrow> 0 < length (mData q) \<and> length (mData q) < 2 ^ 31"
  by (simp add: fifo_ok_def)

lemma fifo_count_le: "fifo_ok q \<Longrightarrow> fifo_count q \<le> length (mData q)"
  by (erule fifo_cases) (auto simp: Suc_le_eq intro: mod_less_divisor)

lemma length_fifo_list [simp]: "length (fifo_list q) = fifo_count q"
  by (simp add: fifo_list_def)

lemma fifo_new_ok:
  "0 < length init \<Longrightarrow> length init < 2 ^ 31 \<Longrightarrow>
   fifo_ok (fifo_new init) \<and> fifo_list (fifo_new init) = []"
  by (simp add: fifo_ok_def fifo_new_def fifo_list_def fifo_count_def ring_simps)

lemma fifo_empty_iff: "fifo_ok q \<Longrightarrow> fifo_empty q \<longleftrightarrow> fifo_list q = []"
  by (erule fifo_cases)
     (auto simp: fifo_empty_def length_0_conv [symmetric] simp del: length_0_conv)

lemma fifo_full_iff: "fifo_ok q \<Longrightarrow> fifo_full q \<longleftrightarrow> fifo_count q = length (mData q)"
proof -
  assume ok: "fifo_ok q"
  note sz = fifo_ok_sizes [OF ok]
  from ok show ?thesis
  proof (cases rule: fifo_cases)
    case empty
    then show ?thesis using sz ring_next_minus_one by (simp add: fifo_full_def)
  next
    case (used h t)
    have "fifo_full q \<longleftrightarrow> unat (ring_next (length (mData q)) (mHead q)) = t"
      using used by (auto simp: fifo_full_def word_unat_eq_iff)
    also have "\<dots> \<longleftrightarrow> Suc h mod length (mData q) = t"
      using ring_next_unat(2) [of "mHead q" "length (mData q)"] used sz by simp
    also have "\<dots> \<longleftrightarrow> fifo_count q = length (mData q)"
      using ring_distance_full [of h "length (mData q)" t] used by simp
    finally show ?thesis .
  qed
qed

lemma fifo_dequeue_none: "fifo_ok q \<Longrightarrow> fifo_list q = [] \<Longrightarrow> fifo_dequeue q = (None, q)"
  by (simp add: fifo_dequeue_def fifo_empty_iff)

lemma fifo_dequeue_some:
  assumes "fifo_ok q" and "fifo_list q = y # ys"
  shows "fst (fifo_dequeue q) = Some y" and "fifo_list (snd (fifo_dequeue q)) = ys"
    and "fifo_ok (snd (fifo_dequeue q))" and "length (mData (snd (fifo_dequeue q))) = length (mData q)"
proof -
  note sz = fifo_ok_sizes [OF assms(1)]
  from assms have ne: "\<not> fifo_empty q" by (simp add: fifo_empty_iff)
  have "length (fifo_list q) = Suc (length ys)" using assms(2) by simp
  then have cnt: "fifo_count q = Suc (length ys)" by simp
  from assms(1) cnt obtain h t where
    ht: "unat (mTail q) = t" "unat (mHead q) = h" "t < length (mData q)" "h < length (mData q)"
      "mTail q \<noteq> -1" "fifo_count q = Suc ((h + length (mData q) - t) mod length (mData q))"
    by (cases rule: fifo_cases) auto
  have split: "y = mData q ! t" "ys = ring_slice (mData q) (Suc t) (length ys)"
    using assms(2) cnt ht(1,3) by (simp_all add: fifo_list_def ring_slice_front)
  show "fst (fifo_dequeue q) = Some y"
    using ne ht(1) split(1) by (simp add: fifo_dequeue_def)
  have eq_iff: "mTail q = mHead q \<longleftrightarrow> t = h"
    using ht(1,2) by (auto simp: word_unat_eq_iff)
  have rest: "fifo_list (snd (fifo_dequeue q)) = ys \<and> fifo_ok (snd (fifo_dequeue q)) \<and>
      length (mData (snd (fifo_dequeue q))) = length (mData q)"
  proof (cases "t = h")
    case True
    then have "ys = []" using ht(6) cnt by simp
    with True show ?thesis
      using ne eq_iff sz
      by (simp add: fifo_dequeue_def fifo_ok_def fifo_list_def fifo_count_def ring_simps)
  next
    case False
    define t' where "t' = Suc t mod length (mData q)"
    have rn: "unat (ring_next (length (mData q)) (mTail q)) = t'"
      using ring_next_unat(2) [of "mTail q" "length (mData q)"] ht(1,3) sz by (simp add: t'_def)
    have t': "t' < length (mData q)" using sz by (simp add: t'_def)
    let ?q = "q\<lparr>mTail := ring_next (length (mData q)) (mTail q)\<rparr>"
    have ok: "fifo_ok ?q" using rn t' ht sz by (simp add: fifo_ok_def)
    have "mTail ?q \<noteq> -1"
      using minus_one_not_small [of "mTail ?q" "length (mData q)"] rn t' sz by simp
    then have "fifo_count ?q = length ys"
      using ring_distance_step [OF ht(4) ht(3) False] rn ht(2) cnt ht(6)
      by (simp add: fifo_count_def t'_def)
    then have "fifo_list ?q = ring_slice (mData q) (Suc t) (length ys)"
      using rn by (simp add: fifo_list_def t'_def ring_simps)
    with split(2) show ?thesis
      using ok ne eq_iff False by (simp add: fifo_dequeue_def)
  qed
  from rest show "fifo_list (snd (fifo_dequeue q)) = ys" and "fifo_ok (snd (fifo_dequeue q))"
    and "length (mData (snd (fifo_dequeue q))) = length (mData q)" by simp_all
qed

lemma length_fifo_store [simp]: "length (mData (fifo_store q v)) = length (mData q)"
  by (simp add: fifo_store_def Let_def)

lemma fifo_store_ok:
  assumes ok: "fifo_ok q"
  shows "fifo_ok (fifo_store q v)"
  using ok
proof (cases rule: fifo_cases)
  case empty
  then show ?thesis
    using ring_next_minus_one [of "length (mData q)"] fifo_ok_sizes [OF ok]
    by (simp add: fifo_ok_def fifo_store_def fifo_empty_def Let_def)
next
  case (used h t)
  note sz = fifo_ok_sizes [OF ok]
  have "unat (ring_next (length (mData q)) (mHead q)) < length (mData q)"
    using ring_next_unat(2) [of "mHead q" "length (mData q)"] used sz by simp
  with used sz show ?thesis by (simp add: fifo_ok_def fifo_store_def fifo_empty_def Let_def)
qed

lemma fifo_store_list:
  assumes "fifo_ok q" and "\<not> fifo_full q"
  shows "fifo_list (fifo_store q v) = fifo_list q @ [v]"
proof -
  let ?n = "length (mData q)"
  note sz = fifo_ok_sizes [OF assms(1)]
  from assms(1) show ?thesis
  proof (cases rule: fifo_cases)
    case empty
    with sz show ?thesis
      using ring_next_minus_one [of ?n] ring_slice_push [of 0 "mData q" 0 v]
      by (simp add: fifo_list_def fifo_store_def fifo_empty_def fifo_count_def ring_simps Let_def)
  next
    case (used h t)
    define h' where "h' = Suc h mod ?n"
    have h': "h' < ?n" using sz by (simp add: h'_def)
    have rn: "unat (ring_next ?n (mHead q)) = h'"
      using ring_next_unat(2) [of "mHead q" ?n] used sz by (simp add: h'_def)
    have room: "Suc ((h + ?n - t) mod ?n) \<noteq> ?n"
      using assms(2) fifo_full_iff [OF assms(1)] used(6) by simp
    then have ne: "h' \<noteq> t"
      using ring_distance_full [OF used(4,3)] by (simp add: h'_def)
    have cnt: "(h' + ?n - t) mod ?n = Suc ((h + ?n - t) mod ?n)"
      unfolding ring_distance [OF h' used(3)] ring_distance [OF used(4,3)]
      using used(3,4) ne unfolding h'_def ring_succ [OF used(4)] by auto
    have pos: "h' = (t + fifo_count q) mod ?n"
    proof -
      have "t + fifo_count q = Suc h \<or> t + fifo_count q = Suc h + ?n"
        unfolding used(6) ring_distance [OF used(4,3)] using used(3,4) by auto
      then show ?thesis by (auto simp: h'_def simp flip: add_Suc)
    qed
    have "fifo_count q < ?n"
      using assms(2) fifo_full_iff [OF assms(1)] fifo_count_le [OF assms(1)] by (simp add: nat_less_le)
    from ring_slice_push [OF this, of t v] show ?thesis
      using used cnt rn pos
      by (simp add: fifo_list_def fifo_store_def fifo_empty_def Let_def
          fifo_count_def [of "q\<lparr>mHead := _, mData := _\<rparr>"])
  qed
qed

text \<open>
  A store into a full queue, which a build without assertions performs: the head catches up with
  the tail, and the queue then holds only the new element.
\<close>

lemma fifo_store_full:
  assumes "fifo_ok q" and "fifo_full q"
  shows "fifo_list (fifo_store q v) = [v]"
proof -
  let ?n = "length (mData q)"
  note sz = fifo_ok_sizes [OF assms(1)]
  have cnt: "fifo_count q = ?n" using assms(2) fifo_full_iff [OF assms(1)] by simp
  from assms(1) cnt sz obtain t where used: "unat (mTail q) = t" "t < ?n" "mTail q \<noteq> -1"
    by (cases rule: fifo_cases) auto
  have "ring_next ?n (mHead q) = mTail q" using assms(2) by (simp add: fifo_full_def)
  with used sz show ?thesis
    by (simp add: fifo_list_def fifo_store_def fifo_empty_def fifo_count_def ring_slice_front
        ring_simps Let_def)
qed

section \<open>The contract\<close>

interpretation fifo: queue_source fifo_ok fifo_list "\<lambda>q. length (mData q)"
    "\<lambda>q. Some (fifo_dequeue q)"
proof unfold_locales
  fix q :: "'a fifo" and y ys
  assume "fifo_ok q" and "fifo_list q = y # ys"
  from fifo_dequeue_some [OF this]
  show "\<exists>q'. Some (fifo_dequeue q) = Some (Some y, q') \<and> fifo_ok q' \<and> fifo_list q' = ys \<and>
      length (mData q') = length (mData q)"
    by (cases "fifo_dequeue q") auto
qed (simp_all add: fifo_count_le fifo_dequeue_none)

text \<open>
  \<open>FIFOQueue::enqueue\<close> on every branch. With room it appends the value. On a full queue a build
  with assertions stops with "FIFOQueue Full"; a build without them goes on and the queue then
  holds the new value only, so that all the elements it held are lost.
\<close>

theorem fifo_enqueue_correct:
  assumes "fifo_ok q"
  shows "if length (fifo_list q) < length (mData q)
    then \<exists>q'. fifo_enqueue dbg q v = Inr q' \<and> fifo_ok q' \<and> fifo_list q' = fifo_list q @ [v]
    else if dbg then fifo_enqueue dbg q v = Inl (Assertion ''FIFOQueue Full'')
    else \<exists>q'. fifo_enqueue dbg q v = Inr q' \<and> fifo_ok q' \<and> fifo_list q' = [v]"
proof (cases "fifo_full q")
  case True
  then have "length (fifo_list q) = length (mData q)"
    using fifo_full_iff [OF assms] by simp
  then show ?thesis
    using True fifo_store_full [OF assms True, of v] fifo_store_ok [OF assms, of v]
    by (cases dbg) (simp_all add: fifo_enqueue_def fail_simps)
next
  case False
  then have "length (fifo_list q) < length (mData q)"
    using fifo_full_iff [OF assms] fifo_count_le [OF assms] by simp
  then show ?thesis
    using False fifo_store_list [OF assms False, of v] fifo_store_ok [OF assms, of v]
    by (simp add: fifo_enqueue_def fail_simps)
qed

text \<open>Evaluation of the ring arithmetic on concrete states.\<close>

lemmas fifo_eval = fifo_new_def fifo_store_def fifo_empty_def fifo_full_def fifo_dequeue_def
  ring_next_def int_ge_size_def int_sub_size_def fifo_list_def fifo_count_def ring_slice_def
  fifo_ok_def Let_def

lemma fifo_two_stores:
  "fifo_store (fifo_store (fifo_new [0, 0]) 7) (8::nat) = \<lparr>mHead = 1, mTail = 0, mData = [7, 8]\<rparr>"
  by code_simp

theorem fifo_enqueue_correct_witness:
  "\<exists>q'. fifo_enqueue False (fifo_store (fifo_store (fifo_new [0, 0]) 7) (8::nat)) 9 = Inr q' \<and>
     fifo_list q' = [9]"
proof -
  let ?q = "\<lparr>mHead = 1, mTail = 0, mData = [7, 8 :: nat]\<rparr>"
  have "fifo_ok ?q" by (simp add: fifo_eval)
  moreover have "\<not> length (fifo_list ?q) < length (mData ?q)" by code_simp
  ultimately show ?thesis
    using fifo_enqueue_correct [of ?q False 9] unfolding fifo_two_stores by auto
qed


text \<open>
  \<open>FIFOQueue::dequeue\<close> returns the oldest element and removes it, and reports an empty queue
  without changing it; the capacity stays the same.
\<close>

theorem fifo_dequeue_correct:
  assumes "fifo_ok q"
  shows "\<exists>r q'. fifo_dequeue q = (r, q') \<and> fifo_ok q' \<and> length (mData q') = length (mData q) \<and>
    fifo_list q = (case r of None \<Rightarrow> [] | Some y \<Rightarrow> y # fifo_list q') \<and> (r = None \<longrightarrow> q' = q)"
proof -
  obtain r q' where e: "Some (fifo_dequeue q) = Some (r, q')" by (cases "fifo_dequeue q") auto
  from assms e show ?thesis
    by (cases rule: fifo.deqE) (use e assms in auto)
qed

theorem fifo_dequeue_correct_witness:
  "\<exists>q'. fifo_dequeue (fifo_store (fifo_store (fifo_new [0, 0]) 7) (8::nat)) = (Some 7, q') \<and>
     fifo_list q' = [8]"
proof -
  let ?q = "\<lparr>mHead = 1, mTail = 0, mData = [7, 8 :: nat]\<rparr>"
  have "fifo_ok ?q" by (simp add: fifo_eval)
  moreover have "fifo_list ?q = [7, 8]" by code_simp
  ultimately show ?thesis
    using fifo_dequeue_correct [of ?q] unfolding fifo_two_stores by (auto split: option.splits)
qed

text \<open>
  C20: \<open>FIFOQueue::enqueue\<close> and \<open>dequeue\<close> on every branch. With room \<open>enqueue\<close> appends the value. On a full queue a
  build with assertions stops with "FIFOQueue Full"; a build without them goes on and the queue then holds
  the new value only, so that all the elements it held are lost. \<open>dequeue\<close> takes the oldest element, or reports
  an empty queue without changing it.
\<close>

theorem fifo_alone:
  assumes "fifo_ok q"
  shows "(if length (fifo_list q) < length (mData q)
      then \<exists>q'. fifo_enqueue dbg q v = Inr q' \<and> fifo_ok q' \<and> fifo_list q' = fifo_list q @ [v]
      else if dbg then fifo_enqueue dbg q v = Inl (Assertion ''FIFOQueue Full'')
      else \<exists>q'. fifo_enqueue dbg q v = Inr q' \<and> fifo_ok q' \<and> fifo_list q' = [v]) \<and>
    (\<exists>r q'. fifo_dequeue q = (r, q') \<and> fifo_ok q' \<and> length (mData q') = length (mData q) \<and>
      fifo_list q = (case r of None \<Rightarrow> [] | Some y \<Rightarrow> y # fifo_list q') \<and> (r = None \<longrightarrow> q' = q))"
  by (rule conjI [OF fifo_enqueue_correct [OF assms] fifo_dequeue_correct [OF assms]])

theorem fifo_alone_witness:
  "\<exists>q'. fifo_enqueue False (fifo_store (fifo_store (fifo_new [0, 0]) 7) (8::nat)) 9 = Inr q' \<and> fifo_list q' = [9]"
proof -
  let ?q = "\<lparr>mHead = 1, mTail = 0, mData = [7, 8 :: nat]\<rparr>"
  have "fifo_ok ?q" by (simp add: fifo_eval)
  moreover have "\<not> length (fifo_list ?q) < length (mData ?q)" by code_simp
  ultimately show ?thesis using fifo_alone [of ?q False 9] unfolding fifo_two_stores by auto
qed

end
