(* ===== verification/MPMC_Queue.thy ===== *)
theory MPMC_Queue
  imports Queue_Spec
begin

text \<open>
  \<open>container::MPMCQueue\<close> (container/mpmc_queue.hh), the bounded multi-producer multi-consumer
  queue with one sequence number per cell. This theory has its state, the atomic actions its
  two operations are made of, the operations run to their end by one thread, and the proof that
  they implement a bounded FIFO list. \<open>MPMC_Concurrent\<close> interleaves the same actions.

  Positions and sequence numbers are 64-bit words that wrap. The code takes the signed
  difference of two of them; \<open>seq_diff\<close> is the two's complement reading of the word
  difference, which is the C++ value whenever that subtraction does not overflow
  (\<open>MPMC_Concurrent.intptr_diff_in_range\<close>).
\<close>

section \<open>State\<close>

record 'a cell =
  cell_seq :: usize
  cell_data :: 'a

record 'a mpmc =
  mBuffer :: "'a cell list"
  mBufferMask :: usize
  mEnqueuePos :: usize
  mDequeuePos :: usize

text \<open>
  The constructor. \<open>new cell[n]()\<close> value-initialises the data, which is the parameter \<open>d\<close> here.
\<close>

definition mpmc_init :: "'a \<Rightarrow> usize \<Rightarrow> 'a mpmc" where
  "mpmc_init d buffer_size =
     \<lparr>mBuffer = map (\<lambda>i. \<lparr>cell_seq = of_nat i, cell_data = d\<rparr>) [0..<unat buffer_size],
      mBufferMask = buffer_size - 1, mEnqueuePos = 0, mDequeuePos = 0\<rparr>"

definition mpmc_new :: "bool \<Rightarrow> 'a \<Rightarrow> usize \<Rightarrow> failure + 'a mpmc" where
  "mpmc_new dbg d buffer_size =
     and_then (cc_assert dbg (buffer_size \<ge> 2 \<and> buffer_size AND (buffer_size - 1) = 0)
       ''MPMCQueue size not a power of two'') (\<lambda>_. Inr (mpmc_init d buffer_size))"

section \<open>Atomic actions\<close>

definition cell_index :: "'a mpmc \<Rightarrow> usize \<Rightarrow> nat" where
  "cell_index q pos = unat (pos AND mBufferMask q)"

definition seq_diff :: "usize \<Rightarrow> usize \<Rightarrow> int" where
  "seq_diff s p = sint (s - p)"

text \<open>What a probe of the sequence number tells: try to claim, give up, or load the position again.\<close>

datatype probe = Claim | Refuse | Reload

definition probe_of :: "int \<Rightarrow> probe" where
  "probe_of diff = (if diff = 0 then Claim else if diff < 0 then Refuse else Reload)"

definition enq_probe :: "'a mpmc \<Rightarrow> usize \<Rightarrow> probe" where
  "enq_probe q pos = probe_of (seq_diff (cell_seq (mBuffer q ! cell_index q pos)) pos)"

definition deq_probe :: "'a mpmc \<Rightarrow> usize \<Rightarrow> probe" where
  "deq_probe q pos = probe_of (seq_diff (cell_seq (mBuffer q ! cell_index q pos)) (pos + 1))"

text \<open>\<open>cell->data_ = data\<close>, \<open>cell->sequence_.store(pos + 1)\<close> and \<open>store(pos + mask + 1)\<close>.\<close>

definition write_data :: "'a mpmc \<Rightarrow> usize \<Rightarrow> 'a \<Rightarrow> 'a mpmc" where
  "write_data q pos x =
     q\<lparr>mBuffer := (mBuffer q)[cell_index q pos := (mBuffer q ! cell_index q pos)\<lparr>cell_data := x\<rparr>]\<rparr>"

definition store_seq :: "'a mpmc \<Rightarrow> usize \<Rightarrow> usize \<Rightarrow> 'a mpmc" where
  "store_seq q pos s =
     q\<lparr>mBuffer := (mBuffer q)[cell_index q pos := (mBuffer q ! cell_index q pos)\<lparr>cell_seq := s\<rparr>]\<rparr>"

definition read_data :: "'a mpmc \<Rightarrow> usize \<Rightarrow> 'a" where
  "read_data q pos = cell_data (mBuffer q ! cell_index q pos)"

section \<open>The operations\<close>

text \<open>
  The retry loops. \<open>compare_exchange_weak\<close> stores the position when it still equals \<open>pos\<close>, and
  otherwise loads it into \<open>pos\<close>. \<open>None\<close> is a loop that never returns.
\<close>

partial_function (option) enqueue_loop ::
  "'a mpmc \<Rightarrow> usize \<Rightarrow> 'a \<Rightarrow> (bool \<times> 'a mpmc) option" where
  "enqueue_loop q pos x =
     (case enq_probe q pos of
        Claim \<Rightarrow>
          if mEnqueuePos q = pos
          then Some (True, store_seq (write_data (q\<lparr>mEnqueuePos := pos + 1\<rparr>) pos x) pos (pos + 1))
          else enqueue_loop q (mEnqueuePos q) x
      | Refuse \<Rightarrow> Some (False, q)
      | Reload \<Rightarrow> enqueue_loop q (mEnqueuePos q) x)"

definition mpmc_enqueue :: "'a mpmc \<Rightarrow> 'a \<Rightarrow> (bool \<times> 'a mpmc) option" where
  "mpmc_enqueue q x = enqueue_loop q (mEnqueuePos q) x"

partial_function (option) dequeue_loop :: "'a mpmc \<Rightarrow> usize \<Rightarrow> ('a option \<times> 'a mpmc) option" where
  "dequeue_loop q pos =
     (case deq_probe q pos of
        Claim \<Rightarrow>
          if mDequeuePos q = pos
          then Some (Some (read_data q pos),
                 store_seq (q\<lparr>mDequeuePos := pos + 1\<rparr>) pos (pos + mBufferMask q + 1))
          else dequeue_loop q (mDequeuePos q)
      | Refuse \<Rightarrow> Some (None, q)
      | Reload \<Rightarrow> dequeue_loop q (mDequeuePos q))"

definition mpmc_dequeue :: "'a mpmc \<Rightarrow> ('a option \<times> 'a mpmc) option" where
  "mpmc_dequeue q = dequeue_loop q (mDequeuePos q)"

declare enqueue_loop.simps [code] dequeue_loop.simps [code]

section \<open>Invariant and abstraction\<close>

definition mpmc_shape :: "'a mpmc \<Rightarrow> bool" where
  "mpmc_shape q \<longleftrightarrow>
     (\<exists>k \<in> {1..62}. length (mBuffer q) = 2 ^ k \<and> mBufferMask q = 2 ^ k - 1)"

definition mpmc_size :: "'a mpmc \<Rightarrow> nat" where
  "mpmc_size q = unat (mEnqueuePos q - mDequeuePos q)"

definition mpmc_list :: "'a mpmc \<Rightarrow> 'a list" where
  "mpmc_list q = map cell_data (ring_slice (mBuffer q) (unat (mDequeuePos q)) (mpmc_size q))"

text \<open>
  Cell \<open>j\<close> places after the dequeue position is full, and marked one past its position, below the
  size, and free, and marked with its position, above it.
\<close>

definition mpmc_ok :: "'a mpmc \<Rightarrow> bool" where
  "mpmc_ok q \<longleftrightarrow>
     mpmc_shape q \<and> mpmc_size q \<le> length (mBuffer q) \<and>
     (\<forall>j < length (mBuffer q).
        cell_seq (mBuffer q ! ((unat (mDequeuePos q) + j) mod length (mBuffer q))) =
          mDequeuePos q + of_nat j + (if j < mpmc_size q then 1 else 0))"

lemma mpmc_shapeE:
  assumes "mpmc_shape q"
  obtains k where "1 \<le> k" "k \<le> 62" "length (mBuffer q) = 2 ^ k" "mBufferMask q = 2 ^ k - 1"
  using assms by (auto simp: mpmc_shape_def)

lemma mpmc_shape_sizes:
  assumes "mpmc_shape q"
  shows "2 \<le> length (mBuffer q)" and "length (mBuffer q) \<le> 2 ^ 62"
    and "of_nat (length (mBuffer q)) = mBufferMask q + 1"
proof -
  from assms obtain k where k: "1 \<le> k" "k \<le> 62" "length (mBuffer q) = 2 ^ k"
      "mBufferMask q = 2 ^ k - 1"
    by (rule mpmc_shapeE)
  show "2 \<le> length (mBuffer q)"
    using k(1,3) power_increasing [of 1 k "2::nat"] by simp
  show "length (mBuffer q) \<le> 2 ^ 62"
    using k(2,3) power_increasing [of k 62 "2::nat"] by simp
  show "of_nat (length (mBuffer q)) = mBufferMask q + 1"
    using k(3,4) by simp
qed

lemma cell_index_mod:
  assumes "mpmc_shape q"
  shows "cell_index q pos = unat pos mod length (mBuffer q)"
proof -
  from assms obtain k where "k \<le> 62" "length (mBuffer q) = 2 ^ k" "mBufferMask q = 2 ^ k - 1"
    by (rule mpmc_shapeE)
  then show ?thesis
    using unat_and_mask [of k pos] by (simp add: cell_index_def)
qed

lemma cell_index_add:
  assumes "mpmc_shape q"
  shows "cell_index q (p + of_nat j) = (unat p + j) mod length (mBuffer q)"
proof -
  from assms obtain k where "k \<le> 62" "length (mBuffer q) = 2 ^ k"
    by (rule mpmc_shapeE)
  then show ?thesis
    using unat_add_mod_pow2 [of k p j] by (simp add: cell_index_mod [OF assms])
qed

lemma cell_index_less: "mpmc_shape q \<Longrightarrow> cell_index q pos < length (mBuffer q)"
  using mpmc_shape_sizes(1) [of q] by (auto simp: cell_index_mod intro!: mod_less_divisor)

lemma enqueue_pos_size: "mEnqueuePos q = mDequeuePos q + of_nat (mpmc_size q)"
  by (simp add: mpmc_size_def)

lemma mpmc_ok_seq:
  assumes "mpmc_ok q" and "j < length (mBuffer q)"
  shows "cell_seq (mBuffer q ! cell_index q (mDequeuePos q + of_nat j)) =
    mDequeuePos q + of_nat j + (if j < mpmc_size q then 1 else 0)"
  using assms by (simp add: mpmc_ok_def cell_index_add)

lemma mpmc_ok_shape: "mpmc_ok q \<Longrightarrow> mpmc_shape q"
  by (simp add: mpmc_ok_def)

lemma mpmc_ok_size: "mpmc_ok q \<Longrightarrow> mpmc_size q \<le> length (mBuffer q)"
  by (simp add: mpmc_ok_def)

lemma mpmc_ok_nonempty: "mpmc_ok q \<Longrightarrow> 0 < length (mBuffer q)"
  using mpmc_shape_sizes(1) [OF mpmc_ok_shape, of q] by linarith

lemma length_mpmc_list [simp]: "length (mpmc_list q) = mpmc_size q"
  by (simp add: mpmc_list_def)

section \<open>Correctness of the sequential operations\<close>

lemma probe_of_simps [simp]:
  "probe_of 0 = Claim" "d < 0 \<Longrightarrow> probe_of d = Refuse" "0 < d \<Longrightarrow> probe_of d = Reload"
  by (simp_all add: probe_of_def)

lemma seq_diff_same [simp]: "seq_diff p p = 0"
  by (simp add: seq_diff_def)

lemma seq_diff_behind:
  assumes "0 < m" and "m \<le> 2 ^ 63"
  shows "seq_diff s (s + of_nat m) < 0"
  using assms sint_minus_of_nat_small [where 'a = 64, of m] by (simp add: seq_diff_def)

lemma mpmc_init_ok:
  assumes "buffer_size = 2 ^ k" and "1 \<le> k" and "k \<le> 62"
  shows "mpmc_ok (mpmc_init d buffer_size)" and "mpmc_list (mpmc_init d buffer_size) = []"
    and "length (mBuffer (mpmc_init d buffer_size)) = 2 ^ k"
proof -
  have len: "unat buffer_size = 2 ^ k"
    using assms unat_of_nat_small [of "2 ^ k", where 'a = 64]
      power_strict_increasing [of k 64 "2::nat"] by simp
  then show "length (mBuffer (mpmc_init d buffer_size)) = 2 ^ k"
    by (simp add: mpmc_init_def)
  show "mpmc_ok (mpmc_init d buffer_size)"
    using len assms by (auto simp: mpmc_ok_def mpmc_init_def mpmc_shape_def mpmc_size_def)
  show "mpmc_list (mpmc_init d buffer_size) = []"
    by (simp add: mpmc_list_def mpmc_init_def mpmc_size_def ring_simps)
qed

lemma enq_probe_room:
  assumes "mpmc_ok q" and "mpmc_size q < length (mBuffer q)"
  shows "enq_probe q (mEnqueuePos q) = Claim"
  using mpmc_ok_seq [OF assms] by (simp add: enq_probe_def enqueue_pos_size)

lemma enq_probe_full:
  assumes "mpmc_ok q" and "mpmc_size q = length (mBuffer q)"
  shows "enq_probe q (mEnqueuePos q) = Refuse"
proof -
  let ?n = "length (mBuffer q)"
  have sh: "mpmc_shape q" using assms(1) by (simp add: mpmc_ok_def)
  note sz = mpmc_shape_sizes [OF sh]
  have "cell_index q (mEnqueuePos q) = cell_index q (mDequeuePos q + of_nat 0)"
    unfolding enqueue_pos_size assms(2) cell_index_add [OF sh] by simp
  then have seq: "cell_seq (mBuffer q ! cell_index q (mEnqueuePos q)) = mDequeuePos q + 1"
    using mpmc_ok_seq [OF assms(1) mpmc_ok_nonempty [OF assms(1)]] assms(2)
      mpmc_ok_nonempty [OF assms(1)] by simp
  have "mEnqueuePos q = (mDequeuePos q + 1) + of_nat (?n - 1)"
    using sz(1) by (simp add: enqueue_pos_size assms(2) of_nat_diff)
  then have "seq_diff (mDequeuePos q + 1) (mEnqueuePos q) < 0"
    using seq_diff_behind [of "?n - 1" "mDequeuePos q + 1"] sz(1,2) by simp
  then show ?thesis by (simp add: enq_probe_def seq)
qed

lemma deq_probe_some:
  assumes "mpmc_ok q" and "0 < mpmc_size q"
  shows "deq_probe q (mDequeuePos q) = Claim"
  using mpmc_ok_seq [OF assms(1) mpmc_ok_nonempty [OF assms(1)]] assms(2)
  by (simp add: deq_probe_def)

lemma deq_probe_empty:
  assumes "mpmc_ok q" and "mpmc_size q = 0"
  shows "deq_probe q (mDequeuePos q) = Refuse"
  using mpmc_ok_seq [OF assms(1) mpmc_ok_nonempty [OF assms(1)]] assms(2)
    seq_diff_behind [of 1 "mDequeuePos q"]
  by (simp add: deq_probe_def)

text \<open>The queue after a successful enqueue and after a successful dequeue.\<close>

definition enq_result :: "'a mpmc \<Rightarrow> 'a \<Rightarrow> 'a mpmc" where
  "enq_result q x =
     (let p = mEnqueuePos q in store_seq (write_data (q\<lparr>mEnqueuePos := p + 1\<rparr>) p x) p (p + 1))"

definition deq_result :: "'a mpmc \<Rightarrow> 'a mpmc" where
  "deq_result q =
     (let p = mDequeuePos q in store_seq (q\<lparr>mDequeuePos := p + 1\<rparr>) p (p + mBufferMask q + 1))"

lemma mpmc_enqueue_room:
  "mpmc_ok q \<Longrightarrow> mpmc_size q < length (mBuffer q) \<Longrightarrow> mpmc_enqueue q x = Some (True, enq_result q x)"
  by (simp add: mpmc_enqueue_def enqueue_loop.simps enq_probe_room enq_result_def Let_def)

lemma mpmc_enqueue_full:
  "mpmc_ok q \<Longrightarrow> mpmc_size q = length (mBuffer q) \<Longrightarrow> mpmc_enqueue q x = Some (False, q)"
  by (simp add: mpmc_enqueue_def enqueue_loop.simps enq_probe_full)

lemma mpmc_dequeue_some:
  "mpmc_ok q \<Longrightarrow> 0 < mpmc_size q \<Longrightarrow>
   mpmc_dequeue q = Some (Some (read_data q (mDequeuePos q)), deq_result q)"
  by (simp add: mpmc_dequeue_def dequeue_loop.simps deq_probe_some deq_result_def Let_def)

lemma mpmc_dequeue_none:
  "mpmc_ok q \<Longrightarrow> mpmc_size q = 0 \<Longrightarrow> mpmc_dequeue q = Some (None, q)"
  by (simp add: mpmc_dequeue_def dequeue_loop.simps deq_probe_empty)

lemma cell_update_both: "c\<lparr>cell_data := x, cell_seq := s\<rparr> = \<lparr>cell_seq = s, cell_data = x\<rparr>"
  for c :: "'a cell"
  by (cases c) simp

lemma enq_result_fields:
  "mDequeuePos (enq_result q x) = mDequeuePos q"
  "mEnqueuePos (enq_result q x) = mEnqueuePos q + 1"
  "mBufferMask (enq_result q x) = mBufferMask q"
  "cell_index q (mEnqueuePos q) < length (mBuffer q) \<Longrightarrow>
   mBuffer (enq_result q x) = (mBuffer q)[cell_index q (mEnqueuePos q) :=
     \<lparr>cell_seq = mEnqueuePos q + 1, cell_data = x\<rparr>]"
  by (simp_all add: enq_result_def store_seq_def write_data_def cell_index_def Let_def
      cell_update_both)

lemma deq_result_fields:
  "mDequeuePos (deq_result q) = mDequeuePos q + 1"
  "mEnqueuePos (deq_result q) = mEnqueuePos q"
  "mBufferMask (deq_result q) = mBufferMask q"
  "mBuffer (deq_result q) = (mBuffer q)[cell_index q (mDequeuePos q) :=
     (mBuffer q ! cell_index q (mDequeuePos q))\<lparr>cell_seq := mDequeuePos q + mBufferMask q + 1\<rparr>]"
  by (simp_all add: deq_result_def store_seq_def cell_index_def Let_def)

lemma enq_result_correct:
  assumes ok: "mpmc_ok q" and room: "mpmc_size q < length (mBuffer q)"
  shows "mpmc_ok (enq_result q x)" and "mpmc_list (enq_result q x) = mpmc_list q @ [x]"
    and "length (mBuffer (enq_result q x)) = length (mBuffer q)"
proof -
  let ?n = "length (mBuffer q)" and ?q = "enq_result q x" and ?d = "unat (mDequeuePos q)"
  let ?c = "\<lparr>cell_seq = mEnqueuePos q + 1, cell_data = x\<rparr>"
  have sh: "mpmc_shape q" using ok by (simp add: mpmc_ok_def)
  note sz = mpmc_shape_sizes [OF sh]
  note f = enq_result_fields(1-3) [of q x] enq_result_fields(4) [OF cell_index_less [OF sh], of x]
  have idx: "cell_index q (mEnqueuePos q) = (?d + mpmc_size q) mod ?n"
    unfolding enqueue_pos_size cell_index_add [OF sh] ..
  show len: "length (mBuffer ?q) = ?n" by (simp add: f)
  have "mEnqueuePos ?q - mDequeuePos ?q = of_nat (Suc (mpmc_size q))"
    by (simp add: f enqueue_pos_size [of q])
  moreover have "unat (of_nat (Suc (mpmc_size q)) :: usize) = Suc (mpmc_size q)"
    by (rule unat_of_nat_small) (use room sz(2) in simp)
  ultimately have size: "mpmc_size ?q = Suc (mpmc_size q)"
    by (simp only: mpmc_size_def [of ?q])
  have buf: "mBuffer ?q = (mBuffer q)[(?d + mpmc_size q) mod ?n := ?c]"
    by (simp add: f idx)
  have "ring_slice (mBuffer ?q) ?d (Suc (mpmc_size q)) = ring_slice (mBuffer q) ?d (mpmc_size q) @ [?c]"
    unfolding buf using room by (rule ring_slice_push)
  then show "mpmc_list ?q = mpmc_list q @ [x]"
    by (simp add: mpmc_list_def size f)
  have seqs: "cell_seq (mBuffer ?q ! ((?d + j) mod ?n)) =
      mDequeuePos q + of_nat j + (if j < Suc (mpmc_size q) then 1 else 0)" if j: "j < ?n" for j
  proof (cases "j = mpmc_size q")
    case True
    moreover have "(?d + mpmc_size q) mod ?n < ?n"
      using mpmc_ok_nonempty [OF ok] by (rule mod_less_divisor)
    ultimately show ?thesis by (simp add: buf enqueue_pos_size)
  next
    case False
    then have "(?d + j) mod ?n \<noteq> (?d + mpmc_size q) mod ?n"
      using mod_ring_eq_iff [OF j room] by simp
    then show ?thesis
      using ok j False by (auto simp: buf mpmc_ok_def)
  qed
  have "mpmc_shape ?q" using sh by (simp add: mpmc_shape_def f)
  then show "mpmc_ok ?q"
    using seqs room by (simp add: mpmc_ok_def size f)
qed

lemma deq_result_correct:
  assumes ok: "mpmc_ok q" and ne: "0 < mpmc_size q"
  shows "mpmc_ok (deq_result q)"
    and "mpmc_list q = read_data q (mDequeuePos q) # mpmc_list (deq_result q)"
    and "length (mBuffer (deq_result q)) = length (mBuffer q)"
proof -
  let ?n = "length (mBuffer q)" and ?q = "deq_result q" and ?d = "unat (mDequeuePos q)"
  note sh = mpmc_ok_shape [OF ok]
  note sz = mpmc_shape_sizes [OF sh]
  note n0 = mpmc_ok_nonempty [OF ok]
  note f = deq_result_fields [of q]
  obtain m where m: "mpmc_size q = Suc m" using ne gr0_implies_Suc by blast
  then have mn: "m < ?n" using mpmc_ok_size [OF ok] by simp
  have idx: "cell_index q (mDequeuePos q) = ?d mod ?n" by (rule cell_index_mod [OF sh])
  show len: "length (mBuffer ?q) = ?n" by (simp add: f)
  have "mEnqueuePos ?q - mDequeuePos ?q = of_nat m"
    by (simp add: f enqueue_pos_size [of q] m)
  moreover have "unat (of_nat m :: usize) = m"
    by (rule unat_of_nat_small) (use mn sz(2) in simp)
  ultimately have size: "mpmc_size ?q = m"
    by (simp only: mpmc_size_def [of ?q])
  have pos: "(unat (mDequeuePos q + 1) + j) mod ?n = (?d + Suc j) mod ?n" for j
    using cell_index_add [OF sh, of "mDequeuePos q" "Suc j"]
      cell_index_add [OF sh, of "mDequeuePos q + 1" j]
    by (simp add: add.assoc)
  have "ring_slice (mBuffer ?q) (unat (mDequeuePos ?q)) m = ring_slice (mBuffer ?q) (Suc ?d) m"
    using pos [of 0] by (intro ring_slice_cong_pos) (simp add: f)
  moreover have "map cell_data (ring_slice (mBuffer ?q) (Suc ?d) m) =
      map cell_data (ring_slice (mBuffer q) (Suc ?d) m)"
    using cell_index_less [OF sh, of "mDequeuePos q"] by (auto simp: ring_slice_def f nth_list_update)
  ultimately show "mpmc_list q = read_data q (mDequeuePos q) # mpmc_list ?q"
    by (simp add: mpmc_list_def size m ring_slice_front read_data_def idx)
  have "cell_seq (mBuffer ?q ! ((unat (mDequeuePos ?q) + j) mod ?n)) =
      mDequeuePos ?q + of_nat j + (if j < m then 1 else 0)" if j: "j < ?n" for j
  proof (cases "Suc j < ?n")
    case True
    then have "(?d + Suc j) mod ?n \<noteq> ?d mod ?n"
      using mod_ring_eq_iff [OF True n0, of ?d] by simp
    moreover have "cell_seq (mBuffer q ! ((?d + Suc j) mod ?n)) =
        mDequeuePos q + of_nat (Suc j) + (if Suc j < mpmc_size q then 1 else 0)"
      using ok True unfolding mpmc_ok_def by blast
    ultimately show ?thesis
      unfolding f pos idx using m by (auto simp: add.assoc)
  next
    case False
    with j have j_eq: "Suc j = ?n" by simp
    then have "(?d + Suc j) mod ?n = ?d mod ?n" by simp
    moreover have "of_nat j = mBufferMask q"
      using sz(3) unfolding j_eq [symmetric] by (simp add: add.commute)
    moreover have "?d mod ?n < ?n" using n0 by (rule mod_less_divisor)
    moreover have "\<not> j < m" using mpmc_ok_size [OF ok] m j_eq by simp
    ultimately show ?thesis
      unfolding f pos idx by (simp add: algebra_simps)
  qed
  moreover have "mpmc_shape ?q" using sh by (simp add: mpmc_shape_def f)
  ultimately show "mpmc_ok ?q"
    using mn by (simp add: mpmc_ok_def size len)
qed

interpretation mpmc: bounded_queue mpmc_ok mpmc_list "\<lambda>q. length (mBuffer q)"
    mpmc_dequeue mpmc_enqueue
proof unfold_locales
  fix q :: "'a mpmc" and x y :: 'a and ys :: "'a list"
  assume ok: "mpmc_ok q"
  then show "length (mpmc_list q) \<le> length (mBuffer q)" by (simp add: mpmc_ok_size)
  show "\<exists>q'. mpmc_enqueue q x = Some (True, q') \<and> mpmc_ok q' \<and> mpmc_list q' = mpmc_list q @ [x] \<and>
      length (mBuffer q') = length (mBuffer q)" if "length (mpmc_list q) < length (mBuffer q)"
    using that enq_result_correct [OF ok] mpmc_enqueue_room [OF ok] by simp
  show "mpmc_enqueue q x = Some (False, q)" if "length (mpmc_list q) = length (mBuffer q)"
    using that mpmc_enqueue_full [OF ok] by simp
  show "mpmc_dequeue q = Some (None, q)" if "mpmc_list q = []"
    using that mpmc_dequeue_none [OF ok] length_mpmc_list [of q] by simp
  show "\<exists>q'. mpmc_dequeue q = Some (Some y, q') \<and> mpmc_ok q' \<and> mpmc_list q' = ys \<and>
      length (mBuffer q') = length (mBuffer q)" if *: "mpmc_list q = y # ys"
  proof -
    have "0 < mpmc_size q" using * length_mpmc_list [of q] by simp
    with * show ?thesis
      using deq_result_correct [OF ok] mpmc_dequeue_some [OF ok] by simp
  qed
qed


section \<open>Properties\<close>

lemma power_of_two_nat:
  "n AND (n - 1) = 0 \<Longrightarrow> 0 < n \<Longrightarrow> \<exists>k. n = 2 ^ k" for n :: nat
proof (induction n rule: less_induct)
  case (less n)
  have rec: "n AND (n - 1) = of_bool (odd n \<and> odd (n - 1)) + 2 * ((n div 2) AND ((n - 1) div 2))"
    by (rule and_nat_rec)
  show ?case
  proof (cases "even n")
    case True
    then obtain m where m: "n = 2 * m" by blast
    then have "m < n" "0 < m" and half: "n div 2 = m" "(n - 1) div 2 = m - 1"
      using less.prems(2) by simp_all
    moreover from rec less.prems(1) have "m AND (m - 1) = 0"
      unfolding half by simp
    ultimately have "m AND (m - 1) = 0" "m < n" "0 < m" by simp_all
    from less.IH [OF this(2,1,3)] obtain k where "m = 2 ^ k" by blast
    with m have "n = 2 ^ Suc k" by simp
    then show ?thesis by blast
  next
    case False
    then obtain m where m: "n = 2 * m + 1" by (elim oddE)
    then have "m = 0" using rec less.prems(1) by simp
    with m show ?thesis by (intro exI [of _ 0]) simp
  qed
qed

lemma power_of_two_word:
  fixes n :: usize
  assumes "n AND (n - 1) = 0" and "2 \<le> n" and "n \<le> 2 ^ 62"
  shows "\<exists>k. n = 2 ^ k \<and> 1 \<le> k \<and> k \<le> 62"
proof -
  have n2: "2 \<le> unat n" using assms(2) by (simp add: word_le_nat_alt)
  have n62: "unat n \<le> 2 ^ 62" using assms(3) by (simp add: word_le_nat_alt)
  have "n \<noteq> 0" using n2 by auto
  then have "unat (n - 1) = unat n - 1"
    by (simp add: unat_minus_one)
  then have "unat n AND (unat n - 1) = 0"
    using assms(1) by (metis unsigned_and_eq unsigned_0)
  then obtain k where k: "unat n = 2 ^ k" using power_of_two_nat n2 by fastforce
  have "k \<le> 62" using n62 unfolding k by (simp only: power_increasing_iff)
  moreover have "1 \<le> k" using n2 unfolding k by (cases k) auto
  moreover have "n = of_nat (2 ^ k)" using k by (metis of_nat_unat ucast_id)
  then have "n = 2 ^ k" by simp
  ultimately show ?thesis by blast
qed

text \<open>
  A build with assertions refuses every size that is not a power of two of at least two; for
  every other size the constructor sets up an empty queue of that capacity that satisfies the
  invariant.
\<close>

theorem mpmc_new_correct:
  assumes "n \<le> 2 ^ 62"
  shows "if 2 \<le> n \<and> n AND (n - 1) = 0
    then \<exists>q. mpmc_new dbg d n = Inr q \<and> mpmc_ok q \<and> mpmc_list q = [] \<and> length (mBuffer q) = unat n
    else mpmc_new True d n = Inl (Assertion ''MPMCQueue size not a power of two'')"
proof (cases "2 \<le> n \<and> n AND (n - 1) = 0")
  case True
  with power_of_two_word [OF _ _ assms] obtain k where k: "n = 2 ^ k" "1 \<le> k" "k \<le> 62" by blast
  have "mpmc_new dbg d n = Inr (mpmc_init d n)" using True by (simp add: mpmc_new_def fail_simps)
  moreover have "length (mBuffer (mpmc_init d n)) = unat n" by (simp add: mpmc_init_def)
  ultimately show ?thesis using True mpmc_init_ok(1,2) [OF k, of d] by simp
next
  case False
  then show ?thesis by (subst if_not_P) (simp_all add: mpmc_new_def cc_assert_def and_then_def)
qed

theorem mpmc_new_correct_witness:
  "\<exists>q. mpmc_new True (0 :: nat) 8 = Inr q \<and> mpmc_list q = []"
proof -
  have "(2 :: usize) \<le> 8 \<and> (8 :: usize) AND (8 - 1) = 0" by simp
  then show ?thesis using mpmc_new_correct [of 8 True "0 :: nat"] by auto
qed

text \<open>
  \<open>enqueue\<close> called by one thread at a time returns on every queue that satisfies the invariant:
  it appends the value while there is room, and otherwise returns false and changes nothing.
\<close>

theorem mpmc_enqueue_correct:
  assumes "mpmc_ok q"
  shows "\<exists>q'. mpmc_enqueue q x = Some (length (mpmc_list q) < length (mBuffer q), q') \<and> mpmc_ok q' \<and>
    mpmc_list q' = (if length (mpmc_list q) < length (mBuffer q) then mpmc_list q @ [x]
                    else mpmc_list q) \<and>
    length (mBuffer q') = length (mBuffer q)"
proof -
  obtain b q' where e: "mpmc_enqueue q x = Some (b, q')" using mpmc.enq_total [OF assms] by blast
  from assms e show ?thesis
    by (cases rule: mpmc.enqE) (use e assms in auto)
qed

theorem mpmc_enqueue_correct_witness:
  "\<exists>q'. mpmc_enqueue (mpmc_init 0 2) (7 :: nat) = Some (True, q') \<and> mpmc_list q' = [7]"
proof -
  have "(2 :: usize) = 2 ^ 1" by simp
  from mpmc_init_ok [OF this, of "0 :: nat"] show ?thesis
    using mpmc_enqueue_correct [of "mpmc_init (0 :: nat) 2" 7] by (auto simp: numeral_2_eq_2)
qed

text \<open>
  \<open>dequeue\<close> called by one thread at a time returns on every queue that satisfies the invariant:
  it takes the oldest value, and returns false on an empty queue, which it leaves as it is.
\<close>

theorem mpmc_dequeue_correct:
  assumes "mpmc_ok q"
  shows "\<exists>r q'. mpmc_dequeue q = Some (r, q') \<and> mpmc_ok q' \<and>
    mpmc_list q = (case r of None \<Rightarrow> [] | Some y \<Rightarrow> y # mpmc_list q') \<and>
    (r = None \<longrightarrow> q' = q) \<and> length (mBuffer q') = length (mBuffer q)"
proof -
  obtain r q' where e: "mpmc_dequeue q = Some (r, q')" using mpmc.deq_total [OF assms] by blast
  from assms e show ?thesis
    by (cases rule: mpmc.deqE) (use e assms in auto)
qed

theorem mpmc_dequeue_correct_witness:
  "\<exists>q'. mpmc_dequeue (enq_result (mpmc_init 0 2) (7 :: nat)) = Some (Some 7, q')"
proof -
  have "(2 :: usize) = 2 ^ 1" by simp
  then have i: "mpmc_ok (mpmc_init (0 :: nat) 2)" "mpmc_list (mpmc_init (0 :: nat) 2) = []"
    using mpmc_init_ok(1,2) [of 2 1 "0 :: nat"] by simp_all
  have "mpmc_size (mpmc_init (0 :: nat) 2) < length (mBuffer (mpmc_init (0 :: nat) 2))" by code_simp
  note e = enq_result_correct(1,2) [OF i(1) this, of 7]
  have ok: "mpmc_ok (enq_result (mpmc_init 0 2) (7 :: nat))"
    and l: "mpmc_list (enq_result (mpmc_init 0 2) (7 :: nat)) = [7]"
    by (simp_all add: e i)
  from mpmc_dequeue_correct [OF ok] l show ?thesis by (auto split: option.splits)
qed

text \<open>
  C19: a queue that the constructor made with a size it accepts answers every sequence of calls of
  \<open>enqueue\<close> and \<open>dequeue\<close> by one thread as the bounded list of that length does, so every call returns. All
  other sizes are refused when assertions are active.
\<close>

theorem mpmc_alone:
  assumes "n \<le> 2 ^ 62"
  shows "if 2 \<le> n \<and> n AND (n - 1) = 0
    then \<exists>q q'. mpmc_new dbg d n = Inr q \<and>
      queue_run mpmc_enqueue mpmc_dequeue cs q = Some (fst (list_run (unat n) cs []), q') \<and>
      mpmc_list q' = snd (list_run (unat n) cs [])
    else mpmc_new True d n = Inl (Assertion ''MPMCQueue size not a power of two'')"
proof (cases "2 \<le> n \<and> n AND (n - 1) = 0")
  case True
  with mpmc_new_correct [OF assms, of dbg d] obtain q where
    q: "mpmc_new dbg d n = Inr q" "mpmc_ok q" "mpmc_list q = []" "length (mBuffer q) = unat n" by auto
  from mpmc.run_as_list [OF q(2), of cs] q True show ?thesis by auto
next
  case False
  with mpmc_new_correct [OF assms, of dbg d] show ?thesis by (simp only: if_False)
qed

theorem mpmc_alone_witness:
  "\<exists>q q'. mpmc_new True (0 :: nat) 2 = Inr q \<and>
     queue_run mpmc_enqueue mpmc_dequeue [Dequeue, Enqueue 7, Enqueue 8, Enqueue 9, Dequeue, Enqueue 5, Dequeue] q =
       Some ([Taken None, Accepted True, Accepted True, Accepted False, Taken (Some 7), Accepted True, Taken (Some 8)], q')"
proof -
  have "(2 :: usize) \<le> 2 \<and> (2 :: usize) AND (2 - 1) = 0" by simp
  with mpmc_alone [of 2 True "0 :: nat"
      "[Dequeue, Enqueue 7, Enqueue 8, Enqueue 9, Dequeue, Enqueue 5, Dequeue]"] show ?thesis by auto
qed

text \<open>A loop whose probe always answers \<open>Reload\<close> does not return.\<close>

lemma dequeue_loop_returns:
  "dequeue_loop q p = Some y \<Longrightarrow> \<not> (deq_probe q p = Reload \<and> p = mDequeuePos q)"
  by (induction rule: dequeue_loop.raw_induct [rotated, consumes 1]) (auto split: probe.splits)

lemma dequeue_loop_diverges:
  "deq_probe q (mDequeuePos q) = Reload \<Longrightarrow> dequeue_loop q (mDequeuePos q) = None"
  using dequeue_loop_returns [of q "mDequeuePos q"]
  by (cases "dequeue_loop q (mDequeuePos q)") auto

text \<open>
  With a buffer of one cell, which only the assertion of the constructor excludes, a build
  without assertions accepts a second value over the first, and \<open>dequeue\<close> then never returns.
\<close>

theorem mpmc_single_cell_livelock:
  "\<exists>q q1 q2. mpmc_new False d 1 = Inr q \<and> mpmc_enqueue q x = Some (True, q1) \<and>
     mpmc_enqueue q1 y = Some (True, q2) \<and> map cell_data (mBuffer q2) = [y] \<and> mpmc_dequeue q2 = None"
proof -
  let ?q = "\<lambda>s v p. \<lparr>mBuffer = [\<lparr>cell_seq = s, cell_data = v\<rparr>], mBufferMask = 0, mEnqueuePos = p,
    mDequeuePos = 0\<rparr>"
  have "mpmc_new False d 1 = Inr (?q 0 d 0)"
    by (simp add: mpmc_new_def mpmc_init_def fail_simps)
  moreover have "mpmc_enqueue (?q 0 d 0) x = Some (True, ?q 1 x 1)"
    and "mpmc_enqueue (?q 1 x 1) y = Some (True, ?q 2 y 2)"
    by (simp_all add: mpmc_enqueue_def enqueue_loop.simps enq_probe_def cell_index_def
        write_data_def store_seq_def)
  moreover have "deq_probe (?q 2 y 2) 0 = Reload"
    by (simp add: deq_probe_def cell_index_def seq_diff_def)
  then have "mpmc_dequeue (?q 2 y 2) = None"
    using dequeue_loop_diverges [of "?q 2 y 2"] by (simp add: mpmc_dequeue_def)
  ultimately show ?thesis by fastforce
qed

end
