(* ===== verification/MPMC_Concurrent.thy ===== *)
theory MPMC_Concurrent
  imports MPMC_Queue
begin

text \<open>
  Any number of threads on one \<open>container::MPMCQueue\<close>: every thread runs \<open>enqueue\<close> and
  \<open>dequeue\<close> as sequences of the atomic actions of \<open>MPMC_Queue\<close>, interleaved arbitrarily
  (sequentially consistent interleaving; the weaker orderings the code asks for are not
  modelled). A ticket is the position a thread has claimed. Two auxiliary fields record the values
  in the order of the enqueue tickets and the number of dequeue tickets, and are only written,
  never read, by the steps.
\<close>

section \<open>Threads\<close>

text \<open>
  Where a thread is in \<open>enqueue\<close> (lines 28 to 50) and \<open>dequeue\<close> (lines 52 to 74), with the values
  its locals \<open>pos\<close> and \<open>data\<close> hold there.
\<close>

datatype 'a pc =
    Outside
  | EnqLoad 'a | EnqProbe usize 'a | EnqCas usize 'a | EnqWrite usize 'a | EnqPublish usize
  | EnqDone bool
  | DeqLoad | DeqProbe usize | DeqCas usize | DeqRead usize | DeqRelease usize 'a
  | DeqDone "'a option"

text \<open>
  One atomic action of a thread; \<open>spurious\<close> is a spurious failure of \<open>compare_exchange_weak\<close>.
\<close>

fun pc_step :: "bool \<Rightarrow> 'a mpmc \<Rightarrow> 'a pc \<Rightarrow> 'a mpmc \<times> 'a pc" where
  "pc_step spurious q (EnqLoad x) = (q, EnqProbe (mEnqueuePos q) x)"
| "pc_step spurious q (EnqProbe pos x) =
     (q, case enq_probe q pos of
           Claim \<Rightarrow> EnqCas pos x | Refuse \<Rightarrow> EnqDone False | Reload \<Rightarrow> EnqLoad x)"
| "pc_step spurious q (EnqCas pos x) =
     (if mEnqueuePos q = pos \<and> \<not> spurious
      then (q\<lparr>mEnqueuePos := pos + 1\<rparr>, EnqWrite pos x)
      else (q, EnqProbe (mEnqueuePos q) x))"
| "pc_step spurious q (EnqWrite pos x) = (write_data q pos x, EnqPublish pos)"
| "pc_step spurious q (EnqPublish pos) = (store_seq q pos (pos + 1), EnqDone True)"
| "pc_step spurious q DeqLoad = (q, DeqProbe (mDequeuePos q))"
| "pc_step spurious q (DeqProbe pos) =
     (q, case deq_probe q pos of
           Claim \<Rightarrow> DeqCas pos | Refuse \<Rightarrow> DeqDone None | Reload \<Rightarrow> DeqLoad)"
| "pc_step spurious q (DeqCas pos) =
     (if mDequeuePos q = pos \<and> \<not> spurious
      then (q\<lparr>mDequeuePos := pos + 1\<rparr>, DeqRead pos)
      else (q, DeqProbe (mDequeuePos q)))"
| "pc_step spurious q (DeqRead pos) = (q, DeqRelease pos (read_data q pos))"
| "pc_step spurious q (DeqRelease pos x) =
     (store_seq q pos (pos + mBufferMask q + 1), DeqDone (Some x))"
| "pc_step spurious q Outside = (q, Outside)"
| "pc_step spurious q (EnqDone b) = (q, EnqDone b)"
| "pc_step spurious q (DeqDone r) = (q, DeqDone r)"

fun returned :: "'a pc \<Rightarrow> bool" where
  "returned Outside = True"
| "returned (EnqDone _) = True"
| "returned (DeqDone _) = True"
| "returned _ = False"

record 'a conc =
  queue :: "'a mpmc"
  pcs :: "nat \<Rightarrow> 'a pc"
  elog :: "'a list"
  dcount :: nat

text \<open>The auxiliary fields change at the two successful exchanges.\<close>

fun log_enq :: "'a pc \<Rightarrow> 'a pc \<Rightarrow> 'a list" where
  "log_enq (EnqCas _ x) (EnqWrite _ _) = [x]"
| "log_enq _ _ = []"

fun log_deq :: "'a pc \<Rightarrow> 'a pc \<Rightarrow> nat" where
  "log_deq (DeqCas _) (DeqRead _) = 1"
| "log_deq _ _ = 0"

definition thread_step :: "bool \<Rightarrow> nat \<Rightarrow> 'a conc \<Rightarrow> 'a conc" where
  "thread_step spurious t s =
     (let pc' = snd (pc_step spurious (queue s) (pcs s t))
      in \<lparr>queue = fst (pc_step spurious (queue s) (pcs s t)), pcs = (pcs s)(t := pc'),
          elog = elog s @ log_enq (pcs s t) pc', dcount = dcount s + log_deq (pcs s t) pc'\<rparr>)"

inductive mpmc_step :: "'a conc \<Rightarrow> 'a conc \<Rightarrow> bool" where
  call_enqueue: "returned (pcs s t) \<Longrightarrow> mpmc_step s (s\<lparr>pcs := (pcs s)(t := EnqLoad x)\<rparr>)"
| call_dequeue: "returned (pcs s t) \<Longrightarrow> mpmc_step s (s\<lparr>pcs := (pcs s)(t := DeqLoad)\<rparr>)"
| run: "\<not> returned (pcs s t) \<Longrightarrow> mpmc_step s (thread_step spurious t s)"

definition conc_init :: "'a \<Rightarrow> usize \<Rightarrow> 'a conc" where
  "conc_init d buffer_size =
     \<lparr>queue = mpmc_init d buffer_size, pcs = (\<lambda>_. Outside), elog = [], dcount = 0\<rparr>"

inductive mpmc_reach :: "'a \<Rightarrow> usize \<Rightarrow> 'a conc \<Rightarrow> bool" for d bsize where
  start: "mpmc_reach d bsize (conc_init d bsize)"
| step: "mpmc_reach d bsize s \<Longrightarrow> mpmc_step s s' \<Longrightarrow> mpmc_reach d bsize s'"

section \<open>Cells by ticket\<close>

text \<open>The cell that ticket \<open>P\<close> uses: its sequence number, as a natural number, and its data.\<close>

definition tseq :: "'a mpmc \<Rightarrow> nat \<Rightarrow> nat" where
  "tseq q P = unat (cell_seq (mBuffer q ! (P mod length (mBuffer q))))"

definition tdat :: "'a mpmc \<Rightarrow> nat \<Rightarrow> 'a" where
  "tdat q P = cell_data (mBuffer q ! (P mod length (mBuffer q)))"

named_theorems ticket_simps \<open>effect of the atomic actions on the cells\<close>

lemma action_fields [ticket_simps]:
  "length (mBuffer (write_data q pos x)) = length (mBuffer q)"
  "length (mBuffer (store_seq q pos v)) = length (mBuffer q)"
  "mBufferMask (write_data q pos x) = mBufferMask q"
  "mBufferMask (store_seq q pos v) = mBufferMask q"
  "mEnqueuePos (write_data q pos x) = mEnqueuePos q"
  "mEnqueuePos (store_seq q pos v) = mEnqueuePos q"
  "mDequeuePos (write_data q pos x) = mDequeuePos q"
  "mDequeuePos (store_seq q pos v) = mDequeuePos q"
  by (simp_all add: write_data_def store_seq_def)

lemma shape_actions [ticket_simps]:
  "mpmc_shape (write_data q pos x) = mpmc_shape q"
  "mpmc_shape (store_seq q pos v) = mpmc_shape q"
  "mpmc_shape (q\<lparr>mEnqueuePos := p\<rparr>) = mpmc_shape q"
  "mpmc_shape (q\<lparr>mDequeuePos := p\<rparr>) = mpmc_shape q"
  by (simp_all add: mpmc_shape_def ticket_simps)

lemma ticket_positions [ticket_simps]:
  "tseq (q\<lparr>mEnqueuePos := p\<rparr>) P = tseq q P" "tdat (q\<lparr>mEnqueuePos := p\<rparr>) P = tdat q P"
  "tseq (q\<lparr>mDequeuePos := p\<rparr>) P = tseq q P" "tdat (q\<lparr>mDequeuePos := p\<rparr>) P = tdat q P"
  by (simp_all add: tseq_def tdat_def)

lemma ticket_write:
  assumes "mpmc_shape q"
  shows "tseq (write_data q pos x) P = tseq q P"
    and "tdat (write_data q pos x) P =
      (if P mod length (mBuffer q) = unat pos mod length (mBuffer q) then x else tdat q P)"
  using cell_index_less [OF assms, of pos]
  by (auto simp: tseq_def tdat_def write_data_def cell_index_mod [OF assms] nth_list_update)

lemma ticket_store:
  assumes "mpmc_shape q"
  shows "tseq (store_seq q pos v) P =
      (if P mod length (mBuffer q) = unat pos mod length (mBuffer q) then unat v else tseq q P)"
    and "tdat (store_seq q pos v) P = tdat q P"
  using cell_index_less [OF assms, of pos]
  by (auto simp: tseq_def tdat_def store_seq_def cell_index_mod [OF assms] nth_list_update)

lemma read_data_ticket: "mpmc_shape q \<Longrightarrow> read_data q pos = tdat q (unat pos)"
  by (simp add: read_data_def tdat_def cell_index_mod)

lemma probe_of_Claim: "probe_of d = Claim \<longleftrightarrow> d = 0"
  by (simp add: probe_of_def)

lemma seq_diff_zero [simp]: "seq_diff a b = 0 \<longleftrightarrow> a = b"
proof -
  have "sint (a - b) = 0 \<longleftrightarrow> a - b = 0"
    by (metis sint_0 signed_word_eqI)
  then show ?thesis by (simp add: seq_diff_def)
qed

lemma enq_probe_Claim: "mpmc_shape q \<Longrightarrow> enq_probe q pos = Claim \<longleftrightarrow> tseq q (unat pos) = unat pos"
  by (simp add: enq_probe_def probe_of_Claim tseq_def cell_index_mod word_unat_eq_iff)

lemma deq_probe_Claim:
  "mpmc_shape q \<Longrightarrow> deq_probe q pos = Claim \<longleftrightarrow> tseq q (unat pos) = unat (pos + 1)"
  by (simp add: deq_probe_def probe_of_Claim tseq_def cell_index_mod word_unat_eq_iff)

text \<open>Two tickets less than a ring apart that share a cell are the same.\<close>

lemma same_cell:
  fixes P Q a n :: nat
  assumes "P mod n = Q mod n" and "a \<le> P" "P < a + n" and "a \<le> Q" "Q < a + n"
  shows "P = Q"
proof -
  have "P - a = Q - a"
    by (rule mod_ring_inj [of _ n _ a]) (use assms in auto)
  with assms(2,4) show ?thesis by simp
qed

section \<open>The invariant\<close>

text \<open>The ticket a thread holds, between its exchange and its store of the sequence number.\<close>

fun enq_claim :: "'a pc \<Rightarrow> nat option" where
  "enq_claim (EnqWrite pos _) = Some (unat pos)"
| "enq_claim (EnqPublish pos) = Some (unat pos)"
| "enq_claim _ = None"

fun deq_claim :: "'a pc \<Rightarrow> nat option" where
  "deq_claim (DeqRead pos) = Some (unat pos)"
| "deq_claim (DeqRelease pos _) = Some (unat pos)"
| "deq_claim _ = None"

text \<open>
  The ring: a queue \<open>q\<close>, the values \<open>l\<close> in ticket order, the number \<open>d\<close> of dequeue tickets, and
  the tickets \<open>ce\<close> and \<open>cd\<close> the threads hold. Held tickets lie in their window, mark their cell as
  busy and have one holder; a ticket between the positions that nobody is filling is full, with
  its value; a ticket of the next round whose cell nobody is emptying is free.
\<close>

definition ring_positions :: "'a mpmc \<Rightarrow> 'a list \<Rightarrow> nat \<Rightarrow> bool" where
  "ring_positions q l d \<longleftrightarrow>
     mpmc_shape q \<and> unat (mEnqueuePos q) = length l \<and> unat (mDequeuePos q) = d \<and>
     d \<le> length l \<and> length l \<le> d + length (mBuffer q)"

definition ring_filling :: "'a mpmc \<Rightarrow> 'a list \<Rightarrow> nat \<Rightarrow> (nat \<Rightarrow> nat option) \<Rightarrow> bool" where
  "ring_filling q l d ce \<longleftrightarrow>
     (\<forall>t P. ce t = Some P \<longrightarrow> d \<le> P \<and> P < length l \<and> tseq q P = P) \<and>
     (\<forall>t u P. ce t = Some P \<longrightarrow> ce u = Some P \<longrightarrow> t = u)"

definition ring_emptying :: "'a mpmc \<Rightarrow> 'a list \<Rightarrow> nat \<Rightarrow> (nat \<Rightarrow> nat option) \<Rightarrow> bool" where
  "ring_emptying q l d cd \<longleftrightarrow>
     (\<forall>t P. cd t = Some P \<longrightarrow>
        P < d \<and> length l \<le> P + length (mBuffer q) \<and> tseq q P = Suc P) \<and>
     (\<forall>t u P. cd t = Some P \<longrightarrow> cd u = Some P \<longrightarrow> t = u)"

definition ring_full :: "'a mpmc \<Rightarrow> 'a list \<Rightarrow> nat \<Rightarrow> (nat \<Rightarrow> nat option) \<Rightarrow> bool" where
  "ring_full q l d ce \<longleftrightarrow>
     (\<forall>P. d \<le> P \<longrightarrow> P < length l \<longrightarrow> (\<forall>t. ce t \<noteq> Some P) \<longrightarrow>
        tseq q P = Suc P \<and> tdat q P = l ! P)"

definition ring_free :: "'a mpmc \<Rightarrow> 'a list \<Rightarrow> nat \<Rightarrow> (nat \<Rightarrow> nat option) \<Rightarrow> bool" where
  "ring_free q l d cd \<longleftrightarrow>
     (\<forall>P. length l \<le> P \<longrightarrow> P < d + length (mBuffer q) \<longrightarrow>
        (\<forall>t Q. cd t = Some Q \<longrightarrow> P \<noteq> Q + length (mBuffer q)) \<longrightarrow> tseq q P = P)"

definition ring_inv ::
  "'a mpmc \<Rightarrow> 'a list \<Rightarrow> nat \<Rightarrow> (nat \<Rightarrow> nat option) \<Rightarrow> (nat \<Rightarrow> nat option) \<Rightarrow> bool" where
  "ring_inv q l d ce cd \<longleftrightarrow> ring_positions q l d \<and> ring_filling q l d ce \<and>
     ring_emptying q l d cd \<and> ring_full q l d ce \<and> ring_free q l d cd"

text \<open>What a thread knows at each place.\<close>

fun pc_ok :: "'a mpmc \<Rightarrow> 'a list \<Rightarrow> nat \<Rightarrow> 'a pc \<Rightarrow> bool" where
  "pc_ok q l d (EnqProbe pos x) \<longleftrightarrow> unat pos \<le> length l"
| "pc_ok q l d (EnqCas pos x) \<longleftrightarrow>
     unat pos \<le> length l \<and> (unat pos = length l \<longrightarrow> tseq q (unat pos) = unat pos)"
| "pc_ok q l d (EnqWrite pos x) \<longleftrightarrow> l ! unat pos = x"
| "pc_ok q l d (EnqPublish pos) \<longleftrightarrow> tdat q (unat pos) = l ! unat pos"
| "pc_ok q l d (DeqProbe pos) \<longleftrightarrow> unat pos \<le> d"
| "pc_ok q l d (DeqCas pos) \<longleftrightarrow>
     unat pos \<le> d \<and> (unat pos = d \<longrightarrow> tseq q (unat pos) = Suc (unat pos))"
| "pc_ok q l d (DeqRead pos) \<longleftrightarrow> tdat q (unat pos) = l ! unat pos"
| "pc_ok q l d (DeqRelease pos v) \<longleftrightarrow> v = l ! unat pos"
| "pc_ok q l d _ \<longleftrightarrow> True"

definition enq_claims :: "'a conc \<Rightarrow> nat \<Rightarrow> nat option" where
  "enq_claims s t = enq_claim (pcs s t)"

definition deq_claims :: "'a conc \<Rightarrow> nat \<Rightarrow> nat option" where
  "deq_claims s t = deq_claim (pcs s t)"

definition mpmc_inv :: "'a conc \<Rightarrow> bool" where
  "mpmc_inv s \<longleftrightarrow> ring_inv (queue s) (elog s) (dcount s) (enq_claims s) (deq_claims s) \<and>
     (\<forall>t. pc_ok (queue s) (elog s) (dcount s) (pcs s t))"

text \<open>
  The number of tickets stays below the sign bit: 2 to the 63rd less the buffer size. At one
  operation per nanosecond that is about 292 years of operation.
\<close>

definition in_range :: "'a conc \<Rightarrow> bool" where
  "in_range s \<longleftrightarrow> length (elog s) + length (mBuffer (queue s)) < 2 ^ 63"

section \<open>Consequences of the ring invariant\<close>

lemma ring_shape:
  assumes "ring_inv q l d ce cd"
  shows "mpmc_shape q" and "2 \<le> length (mBuffer q)" and "length (mBuffer q) \<le> 2 ^ 62"
    and "0 < length (mBuffer q)"
proof -
  show sh: "mpmc_shape q" using assms by (simp add: ring_inv_def ring_positions_def)
  show "2 \<le> length (mBuffer q)" by (rule mpmc_shape_sizes(1) [OF sh])
  then show "0 < length (mBuffer q)" by linarith
  show "length (mBuffer q) \<le> 2 ^ 62" by (rule mpmc_shape_sizes(2) [OF sh])
qed

lemma ring_pos:
  assumes "ring_inv q l d ce cd"
  shows "unat (mEnqueuePos q) = length l" and "unat (mDequeuePos q) = d" and "d \<le> length l"
    and "length l \<le> d + length (mBuffer q)"
  using assms by (auto simp: ring_inv_def ring_positions_def)

lemma ring_fillingD:
  assumes "ring_inv q l d ce cd" and "ce t = Some P"
  shows "d \<le> P" and "P < length l" and "tseq q P = P" and "ce u = Some P \<Longrightarrow> u = t"
  using assms by (auto simp: ring_inv_def ring_filling_def)

lemma ring_emptyingD:
  assumes "ring_inv q l d ce cd" and "cd t = Some P"
  shows "P < d" and "length l \<le> P + length (mBuffer q)" and "tseq q P = Suc P"
    and "cd u = Some P \<Longrightarrow> u = t"
  using assms by (auto simp: ring_inv_def ring_emptying_def)

lemma ring_fullD:
  assumes "ring_inv q l d ce cd" and "d \<le> P" and "P < length l" and "\<And>t. ce t \<noteq> Some P"
  shows "tseq q P = Suc P" and "tdat q P = l ! P"
  using assms by (auto simp: ring_inv_def ring_full_def)

lemma ring_freeD:
  assumes "ring_inv q l d ce cd" and "length l \<le> P" and "P < d + length (mBuffer q)"
    and "\<And>t Q. cd t = Some Q \<Longrightarrow> P \<noteq> Q + length (mBuffer q)"
  shows "tseq q P = P"
  using assms by (auto simp: ring_inv_def ring_free_def)

lemma ring_invI:
  assumes "ring_positions q l d"
    and "\<And>t P. ce t = Some P \<Longrightarrow> d \<le> P \<and> P < length l \<and> tseq q P = P"
    and "\<And>t u P. ce t = Some P \<Longrightarrow> ce u = Some P \<Longrightarrow> t = u"
    and "\<And>t P. cd t = Some P \<Longrightarrow> P < d \<and> length l \<le> P + length (mBuffer q) \<and> tseq q P = Suc P"
    and "\<And>t u P. cd t = Some P \<Longrightarrow> cd u = Some P \<Longrightarrow> t = u"
    and "\<And>P. d \<le> P \<Longrightarrow> P < length l \<Longrightarrow> (\<And>t. ce t \<noteq> Some P) \<Longrightarrow>
      tseq q P = Suc P \<and> tdat q P = l ! P"
    and "\<And>P. length l \<le> P \<Longrightarrow> P < d + length (mBuffer q) \<Longrightarrow>
      (\<And>t Q. cd t = Some Q \<Longrightarrow> P \<noteq> Q + length (mBuffer q)) \<Longrightarrow> tseq q P = P"
  shows "ring_inv q l d ce cd"
proof -
  have "ring_filling q l d ce" unfolding ring_filling_def using assms(2,3) by blast
  moreover have "ring_emptying q l d cd" unfolding ring_emptying_def using assms(4,5) by blast
  moreover have "ring_full q l d ce" unfolding ring_full_def using assms(6) by blast
  moreover have "ring_free q l d cd" unfolding ring_free_def using assms(7) by blast
  ultimately show ?thesis using assms(1) by (simp add: ring_inv_def)
qed

lemma tseq_ring: "tseq q (P + length (mBuffer q)) = tseq q P"
  by (simp add: tseq_def)

text \<open>Between the positions a ticket's cell carries the ticket or its successor.\<close>

lemma tseq_between:
  assumes "ring_inv q l d ce cd" and "d \<le> P" and "P < length l"
  shows "tseq q P = P \<or> tseq q P = Suc P"
  using ring_fillingD(3) [OF assms(1)] ring_fullD(1) [OF assms] by blast

text \<open>The exchanges only succeed on a free cell, and on a full one.\<close>

lemma enq_cas_room:
  assumes inv: "ring_inv q l d ce cd" and seq: "tseq q (length l) = length l"
  shows "length l < d + length (mBuffer q)"
    and "cd t = Some Q \<Longrightarrow> length l \<noteq> Q + length (mBuffer q)"
proof -
  let ?n = "length (mBuffer q)"
  note n = ring_shape(2) [OF inv]
  show "cd t = Some Q \<Longrightarrow> length l \<noteq> Q + ?n"
    using ring_emptyingD(3) [OF inv, of t Q] seq n tseq_ring [of q Q] by auto
  show "length l < d + ?n"
  proof (rule ccontr)
    assume "\<not> length l < d + ?n"
    then have e: "length l = d + ?n" using ring_pos(4) [OF inv] by simp
    then have "tseq q d = d + ?n" using seq tseq_ring [of q d] by simp
    moreover have "tseq q d = d \<or> tseq q d = Suc d"
      by (rule tseq_between [OF inv]) (use e n in auto)
    ultimately show False using n by auto
  qed
qed

lemma deq_cas_some:
  assumes inv: "ring_inv q l d ce cd" and seq: "tseq q d = Suc d"
  shows "d < length l" and "ce t \<noteq> Some d" and "tdat q d = l ! d"
proof -
  let ?n = "length (mBuffer q)"
  note n = ring_shape(2) [OF inv]
  have none: "ce t \<noteq> Some d" for t
    using ring_fillingD(3) [OF inv, of t d] seq by auto
  then show "ce t \<noteq> Some d" .
  show lt: "d < length l"
  proof (rule ccontr)
    assume "\<not> d < length l"
    then have e: "length l = d" using ring_pos(3) [OF inv] by simp
    have "d \<noteq> Q + ?n" if "cd u = Some Q" for u Q
      using ring_emptyingD(3) [OF inv that] seq n tseq_ring [of q Q] by auto
    then have "tseq q d = d"
      by (intro ring_freeD [OF inv]) (use e n in auto)
    with seq show False by simp
  qed
  show "tdat q d = l ! d"
    by (rule ring_fullD(2) [OF inv order_refl lt none])
qed

text \<open>
  Every ticket's cell is the cell of one ticket of the current window, and its number is that
  ticket (free, or being filled), its successor (full), or the successor of the ticket one
  round before (being emptied).
\<close>

lemma window_ticket:
  fixes d n P :: nat
  assumes "0 < n"
  obtains R where "d \<le> R" "R < d + n" "R mod n = P mod n" "P < d \<Longrightarrow> P + n \<le> R"
proof -
  define R where "R = d + (P + n * d - d) mod n"
  have R: "d \<le> R" "R < d + n" using assms by (simp_all add: R_def)
  have "d \<le> n * d" using assms by (cases n) auto
  then have "d + (P + n * d - d) = P + n * d"
    by (intro le_add_diff_inverse trans_le_add2)
  moreover have "R mod n = (d + (P + n * d - d)) mod n" by (simp only: R_def mod_add_right_eq)
  ultimately have eq: "R mod n = P mod n" by simp
  have "P + n \<le> R" if "P < d"
  proof -
    have "n dvd R - P"
      using eq that R(1) by (intro mod_eq_dvd_iff_nat [THEN iffD1]) simp_all
    then show ?thesis using that R(1) dvd_imp_le [of n "R - P"] by simp
  qed
  with R eq show ?thesis by (rule that)
qed

lemma tseq_window:
  assumes inv: "ring_inv q l d ce cd" and R: "d \<le> R" "R < d + length (mBuffer q)"
  obtains (ticket) "tseq q R = R" | (full) "tseq q R = Suc R" "R < length l"
    | (emptying) t Q where "cd t = Some Q" "R = Q + length (mBuffer q)" "tseq q R = Suc Q"
        "length l \<le> R"
proof (cases "R < length l")
  case True
  with tseq_between [OF inv R(1) True] show ?thesis by (auto intro: ticket full)
next
  case False
  show ?thesis
  proof (cases "\<exists>t Q. cd t = Some Q \<and> R = Q + length (mBuffer q)")
    case True
    then obtain t Q where Q: "cd t = Some Q" "R = Q + length (mBuffer q)" by blast
    with ring_emptyingD(3) [OF inv Q(1)] tseq_ring [of q Q] have "tseq q R = Suc Q" by simp
    with Q False show ?thesis by (intro emptying) auto
  next
    case no: False
    have "tseq q R = R" by (rule ring_freeD [OF inv]) (use False R(2) no in auto)
    then show ?thesis by (rule ticket)
  qed
qed

text \<open>A sequence number is never behind a ticket that has been given out, and stays in range.\<close>

lemma tseq_past:
  assumes inv: "ring_inv q l d ce cd" and "P < d"
  shows "P < tseq q P"
proof -
  obtain R where R: "d \<le> R" "R < d + length (mBuffer q)"
      "R mod length (mBuffer q) = P mod length (mBuffer q)" "P < d \<Longrightarrow> P + length (mBuffer q) \<le> R"
    using window_ticket [OF ring_shape(4) [OF inv], of d P] by blast
  have "tseq q P = tseq q R" using R(3) by (simp add: tseq_def)
  moreover have "P + 2 \<le> R" using R(4) assms(2) ring_shape(2) [OF inv] by linarith
  ultimately show ?thesis using R(4) [OF assms(2)]
    by (cases rule: tseq_window [OF inv R(1,2)]) linarith+
qed

lemma tseq_lower:
  assumes inv: "ring_inv q l d ce cd" and "P < length l"
  shows "P \<le> tseq q P"
  using tseq_past [OF inv, of P] tseq_between [OF inv, of P] assms(2) by (cases "d \<le> P") auto

lemma tseq_upper:
  assumes inv: "ring_inv q l d ce cd"
  shows "tseq q P \<le> length l + length (mBuffer q)"
proof -
  obtain R where R: "d \<le> R" "R < d + length (mBuffer q)"
      "R mod length (mBuffer q) = P mod length (mBuffer q)" "P < d \<Longrightarrow> P + length (mBuffer q) \<le> R"
    using window_ticket [OF ring_shape(4) [OF inv], of d P] by blast
  have "tseq q P = tseq q R" using R(3) by (simp add: tseq_def)
  with ring_pos(3) [OF inv] R(2) show ?thesis
    by (cases rule: tseq_window [OF inv R(1,2)]) auto
qed

section \<open>Preservation\<close>

lemma unat_Suc_pos: "Suc (unat p) < 2 ^ 64 \<Longrightarrow> unat (p + 1) = Suc (unat p)" for p :: usize
proof -
  assume "Suc (unat p) < 2 ^ 64"
  moreover have "p + 1 = of_nat (Suc (unat p))" by simp
  ultimately show ?thesis using unat_of_nat_small [of "Suc (unat p)", where 'a = 64]
    by (simp only: len_num1 len_bit0 mult_2 one_add_one) simp
qed

lemma ring_enq_cas:
  assumes inv: "ring_inv q l d ce cd" and pos: "mEnqueuePos q = pos" and t: "ce t = None"
    and seq: "tseq q (length l) = length l" and range: "Suc (length l) < 2 ^ 64"
  shows "ring_inv (q\<lparr>mEnqueuePos := pos + 1\<rparr>) (l @ [x]) d (ce(t := Some (length l))) cd"
proof -
  note p = ring_pos [OF inv]
  note room = enq_cas_room [OF inv seq]
  have no: "ce u \<noteq> Some (length l)" for u
    using ring_fillingD(2) [OF inv, of u "length l"] by auto
  show ?thesis
  proof (rule ring_invI, goal_cases)
    case 1
    show ?case
      using p room(1) ring_shape(1) [OF inv] unat_Suc_pos [of pos] pos range
      by (simp add: ring_positions_def ticket_simps)
  next
    case (2 u P)
    then show ?case
      using ring_fillingD(1-3) [OF inv] p(3) seq
      by (auto simp: ticket_simps less_Suc_eq split: if_splits)
  next
    case (3 u v P)
    then show ?case using ring_fillingD(4) [OF inv] no by (auto split: if_splits)
  next
    case (4 u P)
    then show ?case
      using ring_emptyingD(1-3) [OF inv 4] room(2) [OF 4] by (simp add: ticket_simps)
  next
    case (5 u v P)
    then show ?case using ring_emptyingD(4) [OF inv] by blast
  next
    case (6 P)
    have "P \<noteq> length l" using 6(3) [of t] by auto
    with 6 have P: "P < length l" by simp
    have "ce u \<noteq> Some P" for u
      using 6(3) [of u] t by (cases "u = t") auto
    with ring_fullD [OF inv 6(1) P] P show ?case by (simp add: ticket_simps nth_append)
  next
    case (7 P)
    then show ?case by (auto simp: ticket_simps intro!: ring_freeD [OF inv])
  qed
qed

lemma ring_enq_write:
  assumes inv: "ring_inv q l d ce cd" and t: "ce t = Some (unat pos)"
  shows "ring_inv (write_data q pos x) l d ce cd"
proof -
  let ?q = "write_data q pos x" and ?n = "length (mBuffer q)"
  note w = ticket_write [OF ring_shape(1) [OF inv], of pos x]
  note f = ring_fillingD [OF inv t]
  have other: "tdat ?q P = tdat q P" if "d \<le> P" "P < length l" "P \<noteq> unat pos" for P
    using same_cell [of P ?n "unat pos" d] that f(1,2) ring_pos(4) [OF inv] by (auto simp: w)
  show ?thesis
  proof (rule ring_invI, goal_cases)
    case 1
    show ?case using inv by (simp add: ring_inv_def ring_positions_def ticket_simps)
  next
    case (6 P)
    have "P \<noteq> unat pos" using 6(3) [of t] t by auto
    with 6 show ?case using ring_fullD [OF inv] other by (simp add: w(1))
  next
    case (7 P)
    then show ?case using ring_freeD [OF inv] by (simp add: w(1) ticket_simps)
  qed (use ring_fillingD [OF inv] ring_emptyingD [OF inv] in \<open>auto simp: w(1) ticket_simps\<close>)
qed

lemma ring_enq_publish:
  assumes inv: "ring_inv q l d ce cd" and t: "ce t = Some (unat pos)"
    and dat: "tdat q (unat pos) = l ! unat pos" and range: "length l < 2 ^ 64"
  shows "ring_inv (store_seq q pos (pos + 1)) l d (ce(t := None)) cd"
proof -
  let ?q = "store_seq q pos (pos + 1)" and ?n = "length (mBuffer q)"
  note w = ticket_store [OF ring_shape(1) [OF inv], of pos "pos + 1"]
  note f = ring_fillingD [OF inv t]
  have succ: "unat (pos + 1) = Suc (unat pos)"
    using f(2) range by (intro unat_Suc_pos) simp
  have this_one: "tseq ?q (unat pos) = Suc (unat pos)" by (simp add: w succ)
  have other: "tseq ?q P = tseq q P" if "d \<le> P" "P < d + ?n" "P \<noteq> unat pos" for P
    using same_cell [of P ?n "unat pos" d] that f(1,2) ring_pos(4) [OF inv] by (auto simp: w)
  have behind: "tseq ?q P = tseq q P" if "P < d" "length l \<le> P + ?n" for P
    using same_cell [of P ?n "unat pos" P] that f(1,2) ring_shape(4) [OF inv] by (auto simp: w)
  have claim: "P \<noteq> unat pos" if "(ce(t := None)) u = Some P" for u P
    using that f(4) by (auto split: if_splits)
  show ?thesis
  proof (rule ring_invI, goal_cases)
    case 1
    show ?case using inv by (simp add: ring_inv_def ring_positions_def ticket_simps)
  next
    case (2 u P)
    then have "ce u = Some P" by (simp split: if_splits)
    from ring_fillingD(1-3) [OF inv this] other [of P] claim [OF 2] ring_pos(4) [OF inv]
    show ?case by simp
  next
    case (3 u v P)
    then show ?case using ring_fillingD(4) [OF inv] by (auto split: if_splits)
  next
    case (4 u P)
    from ring_emptyingD(1-3) [OF inv 4] behind [of P] show ?case by (simp add: ticket_simps)
  next
    case (5 u v P)
    then show ?case using ring_emptyingD(4) [OF inv] by blast
  next
    case (6 P)
    show ?case
    proof (cases "P = unat pos")
      case True
      with this_one dat show ?thesis by (simp add: w(2))
    next
      case False
      have "ce u \<noteq> Some P" for u using 6(3) [of u] t False by (cases "u = t") auto
      from ring_fullD [OF inv 6(1,2) this] show ?thesis
        using other [OF 6(1) _ False] 6(2) ring_pos(4) [OF inv] by (simp add: w(2))
    qed
  next
    case (7 P)
    then have "P \<noteq> unat pos" "d \<le> P" using f(2) ring_pos(3) [OF inv] by auto
    with other [of P] ring_freeD [OF inv, of P] 7 show ?case by (simp add: ticket_simps)
  qed
qed

lemma ring_deq_cas:
  assumes inv: "ring_inv q l d ce cd" and pos: "mDequeuePos q = pos" and t: "cd t = None"
    and seq: "tseq q d = Suc d" and range: "length l < 2 ^ 64"
  shows "ring_inv (q\<lparr>mDequeuePos := pos + 1\<rparr>) l (Suc d) ce (cd(t := Some d))"
proof -
  note p = ring_pos [OF inv]
  note some = deq_cas_some [OF inv seq]
  have no: "cd u \<noteq> Some d" for u
    using ring_emptyingD(1) [OF inv, of u d] by auto
  show ?thesis
  proof (rule ring_invI, goal_cases)
    case 1
    show ?case
      using p some(1) ring_shape(1) [OF inv] unat_Suc_pos [of pos] pos range
      by (simp add: ring_positions_def ticket_simps)
  next
    case (2 u P)
    have "P \<noteq> d" using some(2) [of u] 2 by auto
    with ring_fillingD(1-3) [OF inv 2] show ?case by (simp add: ticket_simps)
  next
    case (3 u v P)
    then show ?case using ring_fillingD(4) [OF inv] by blast
  next
    case (4 u P)
    then show ?case
      using ring_emptyingD(1-3) [OF inv, of u P] p(4) seq
      by (auto simp: ticket_simps less_Suc_eq split: if_splits)
  next
    case (5 u v P)
    then show ?case using ring_emptyingD(4) [OF inv] no by (auto split: if_splits)
  next
    case (6 P)
    then show ?case using ring_fullD [OF inv, of P] by (simp add: ticket_simps)
  next
    case (7 P)
    have "P \<noteq> d + length (mBuffer q)" using 7(3) [of t d] by simp
    with 7(2) have "P < d + length (mBuffer q)" by simp
    moreover have "P \<noteq> Q + length (mBuffer q)" if "cd u = Some Q" for u Q
      using 7(3) [of u Q] that t by (cases "u = t") auto
    ultimately show ?case using 7(1) ring_freeD [OF inv, of P] by (simp add: ticket_simps)
  qed
qed

lemma unat_release_pos:
  assumes "mpmc_shape q" and "unat pos + length (mBuffer q) < 2 ^ 64"
  shows "unat (pos + mBufferMask q + 1) = unat pos + length (mBuffer q)"
proof -
  have "pos + mBufferMask q + 1 = of_nat (unat pos + length (mBuffer q))"
    using mpmc_shape_sizes(3) [OF assms(1)] by (simp add: add.assoc)
  moreover have "unat (of_nat (unat pos + length (mBuffer q)) :: usize) = unat pos + length (mBuffer q)"
    by (rule unat_of_nat_small) (use assms(2) in simp)
  ultimately show ?thesis by (simp only:)
qed

lemma ring_deq_release:
  assumes inv: "ring_inv q l d ce cd" and t: "cd t = Some (unat pos)"
    and range: "length l + length (mBuffer q) < 2 ^ 64"
  shows "ring_inv (store_seq q pos (pos + mBufferMask q + 1)) l d ce (cd(t := None))"
proof -
  let ?q = "store_seq q pos (pos + mBufferMask q + 1)" and ?n = "length (mBuffer q)"
  note w = ticket_store [OF ring_shape(1) [OF inv], of pos "pos + mBufferMask q + 1"]
  note f = ring_emptyingD [OF inv t]
  note n = ring_shape(4) [OF inv]
  have nxt: "unat (pos + mBufferMask q + 1) = unat pos + ?n"
    by (rule unat_release_pos [OF ring_shape(1) [OF inv]])
       (use f(1) ring_pos(3) [OF inv] range in linarith)
  have this_one: "tseq ?q (unat pos + ?n) = unat pos + ?n" by (simp add: w nxt)
  have front: "tseq ?q P = tseq q P" if "d \<le> P" "P < length l" for P
    using same_cell [of P ?n "unat pos" "unat pos"] that f(1,2) n by (auto simp: w)
  have behind: "tseq ?q P = tseq q P" if "P < d" "length l \<le> P + ?n" "P \<noteq> unat pos" for P
  proof -
    have "P mod ?n \<noteq> unat pos mod ?n"
    proof
      assume "P mod ?n = unat pos mod ?n"
      then have "P = unat pos"
        by (rule same_cell [where a = "min P (unat pos)"])
           (use that f(1,2) n ring_pos(3) [OF inv] in \<open>auto simp: min_def\<close>)
      with that(3) show False by simp
    qed
    then show ?thesis by (simp add: w)
  qed
  have ahead: "tseq ?q P = tseq q P" if "length l \<le> P" "P < d + ?n" "P \<noteq> unat pos + ?n" for P
    using same_cell [of P ?n "unat pos + ?n" "length l"] that f(1,2) n ring_pos(3) [OF inv]
    by (auto simp: w)
  have claim: "P \<noteq> unat pos" if "(cd(t := None)) u = Some P" for u P
    using that f(4) by (auto split: if_splits)
  show ?thesis
  proof (rule ring_invI, goal_cases)
    case 1
    show ?case using inv by (simp add: ring_inv_def ring_positions_def ticket_simps)
  next
    case (2 u P)
    from ring_fillingD(1-3) [OF inv 2] front [of P] show ?case by simp
  next
    case (3 u v P)
    then show ?case using ring_fillingD(4) [OF inv] by blast
  next
    case (4 u P)
    then have "cd u = Some P" by (simp split: if_splits)
    from ring_emptyingD(1-3) [OF inv this] behind [of P] claim [OF 4]
    show ?case by (simp add: ticket_simps)
  next
    case (5 u v P)
    then show ?case using ring_emptyingD(4) [OF inv] by (auto split: if_splits)
  next
    case (6 P)
    with ring_fullD [OF inv 6] front [OF 6(1,2)] show ?case by (simp add: w(2))
  next
    case (7 P)
    then have P: "length l \<le> P" "P < d + ?n" by (simp_all add: ticket_simps)
    show ?case
    proof (cases "P = unat pos + ?n")
      case True
      with this_one show ?thesis by simp
    next
      case False
      have "P \<noteq> Q + ?n" if "cd u = Some Q" for u Q
        using 7(3) [of u Q] that t False by (cases "u = t") (auto simp: ticket_simps)
      from ring_freeD [OF inv P this] ahead [OF P False] show ?thesis by simp
    qed
  qed
qed

section \<open>The invariant of the machine\<close>

lemma claims_update:
  "enq_claims (s\<lparr>pcs := (pcs s)(t := pc)\<rparr>) = (enq_claims s)(t := enq_claim pc)"
  "deq_claims (s\<lparr>pcs := (pcs s)(t := pc)\<rparr>) = (deq_claims s)(t := deq_claim pc)"
  "enq_claims \<lparr>queue = q, pcs = (pcs s)(t := pc), elog = l, dcount = d\<rparr> =
    (enq_claims s)(t := enq_claim pc)"
  "deq_claims \<lparr>queue = q, pcs = (pcs s)(t := pc), elog = l, dcount = d\<rparr> =
    (deq_claims s)(t := deq_claim pc)"
  by (auto simp: enq_claims_def deq_claims_def)

text \<open>A step that only moves a thread which holds no ticket, before and after.\<close>

lemma inv_move:
  assumes "mpmc_inv s" and "enq_claim (pcs s t) = None" "deq_claim (pcs s t) = None"
    and "enq_claim pc = None" "deq_claim pc = None" "pc_ok (queue s) (elog s) (dcount s) pc"
  shows "mpmc_inv (s\<lparr>pcs := (pcs s)(t := pc)\<rparr>)"
proof -
  have "(enq_claims s)(t := None) = enq_claims s" "(deq_claims s)(t := None) = deq_claims s"
    using assms(2,3) by (auto simp: enq_claims_def deq_claims_def)
  with assms show ?thesis by (simp add: mpmc_inv_def claims_update)
qed

text \<open>The threads that do not move keep what they know.\<close>

lemma others_enq_cas:
  assumes inv: "ring_inv q l d ce cd" and "pc_ok q l d pc"
    and "enq_claim pc = ce u" "deq_claim pc = cd u"
  shows "pc_ok (q\<lparr>mEnqueuePos := p\<rparr>) (l @ [x]) d pc"
proof -
  have "P < length l" if "enq_claim pc = Some P \<or> deq_claim pc = Some P" for P
    using that assms(3,4) ring_fillingD(2) [OF inv, of u P] ring_emptyingD(1) [OF inv, of u P]
      ring_pos(3) [OF inv] by auto
  with assms(2) show ?thesis by (cases pc) (auto simp: ticket_simps nth_append)
qed

lemma others_deq_cas:
  assumes "pc_ok q l d pc"
  shows "pc_ok (q\<lparr>mDequeuePos := p\<rparr>) l (Suc d) pc"
  using assms by (cases pc) (auto simp: ticket_simps)

lemma others_enq_write:
  assumes inv: "ring_inv q l d ce cd" and t: "ce t = Some (unat pos)" and u: "u \<noteq> t"
    and "pc_ok q l d pc" "enq_claim pc = ce u" "deq_claim pc = cd u"
  shows "pc_ok (write_data q pos x) l d pc"
proof -
  let ?n = "length (mBuffer q)"
  note w = ticket_write [OF ring_shape(1) [OF inv], of pos x]
  note f = ring_fillingD [OF inv t]
  have e: "tdat (write_data q pos x) P = tdat q P" if "ce u = Some P" for P
  proof -
    have "P \<noteq> unat pos" using that f(4) u by auto
    then show ?thesis
      using same_cell [of P ?n "unat pos" d] ring_fillingD(1,2) [OF inv that] f(1,2)
        ring_pos(4) [OF inv] by (auto simp: w)
  qed
  have d: "tdat (write_data q pos x) P = tdat q P" if "cd u = Some P" for P
    using same_cell [of P ?n "unat pos" P] ring_emptyingD(1,2) [OF inv that] f(1,2)
      ring_shape(4) [OF inv] by (auto simp: w)
  show ?thesis
    using assms(4-) by (cases pc) (auto simp: w(1) e d)
qed

lemma others_enq_publish:
  assumes inv: "ring_inv q l d ce cd" and t: "ce t = Some (unat pos)" and "pc_ok q l d pc"
  shows "pc_ok (store_seq q pos v) l d pc"
proof -
  let ?n = "length (mBuffer q)"
  note w = ticket_store [OF ring_shape(1) [OF inv], of pos v]
  note f = ring_fillingD [OF inv t]
  have keep: "tseq (store_seq q pos v) P = tseq q P" if "d \<le> P" "P < d + ?n" "P \<noteq> unat pos" for P
    using same_cell [of P ?n "unat pos" d] that f(1,2) ring_pos(4) [OF inv] by (auto simp: w)
  have "tseq (store_seq q pos v) (length l) = length l" if "tseq q (length l) = length l"
    using keep [of "length l"] enq_cas_room(1) [OF inv that] ring_pos(3) [OF inv] f(2) that by simp
  moreover have "tseq (store_seq q pos v) d = Suc d" if "tseq q d = Suc d"
    using keep [of d] deq_cas_some(2) [OF inv that, of t] ring_shape(4) [OF inv] t that by auto
  ultimately show ?thesis
    using assms(3) by (cases pc) (auto simp: w(2))
qed

lemma others_deq_release:
  assumes inv: "ring_inv q l d ce cd" and t: "cd t = Some (unat pos)" and "pc_ok q l d pc"
  shows "pc_ok (store_seq q pos v) l d pc"
proof -
  let ?n = "length (mBuffer q)"
  note w = ticket_store [OF ring_shape(1) [OF inv], of pos v]
  note f = ring_emptyingD [OF inv t]
  note n = ring_shape(4) [OF inv]
  have "tseq (store_seq q pos v) (length l) = length l" if "tseq q (length l) = length l"
    using same_cell [of "length l" ?n "unat pos + ?n" "length l"] f(1,2) n that
      enq_cas_room(1) [OF inv that]
      enq_cas_room(2) [OF inv that, of t "unat pos"] t ring_pos(3) [OF inv] by (auto simp: w)
  moreover have "tseq (store_seq q pos v) d = Suc d" if "tseq q d = Suc d"
    using same_cell [of d ?n "unat pos" "unat pos"] f(1,2) n that deq_cas_some(1) [OF inv that]
    by (auto simp: w)
  ultimately show ?thesis
    using assms(3) by (cases pc) (auto simp: w(2))
qed

lemma inv_commit:
  assumes "ring_inv q l d ((enq_claims s)(t := enq_claim pc)) ((deq_claims s)(t := deq_claim pc))"
    and "pc_ok q l d pc" and "\<And>u. u \<noteq> t \<Longrightarrow> pc_ok q l d (pcs s u)"
  shows "mpmc_inv \<lparr>queue = q, pcs = (pcs s)(t := pc), elog = l, dcount = d\<rparr>"
  using assms by (simp add: mpmc_inv_def claims_update)

lemma thread_step_move:
  assumes "fst (pc_step w (queue s) (pcs s t)) = queue s"
    and "log_enq (pcs s t) (snd (pc_step w (queue s) (pcs s t))) = []"
    and "log_deq (pcs s t) (snd (pc_step w (queue s) (pcs s t))) = 0"
  shows "thread_step w t s = s\<lparr>pcs := (pcs s)(t := snd (pc_step w (queue s) (pcs s t)))\<rparr>"
  using assms by (simp add: thread_step_def Let_def)

lemma inv_parts:
  assumes "mpmc_inv s"
  shows "ring_inv (queue s) (elog s) (dcount s) (enq_claims s) (deq_claims s)"
    and "pc_ok (queue s) (elog s) (dcount s) (pcs s t)"
  using assms by (simp_all add: mpmc_inv_def)

lemma claims_at: "enq_claim (pcs s t) = enq_claims s t" "deq_claim (pcs s t) = deq_claims s t"
  by (simp_all add: enq_claims_def deq_claims_def)

lemma upd_same: "f t = v \<Longrightarrow> f(t := v) = f"
  by auto

lemma step_enq_cas:
  assumes inv: "mpmc_inv s" and pc: "pcs s t = EnqCas pos x"
    and pos: "mEnqueuePos (queue s) = pos" and range: "Suc (length (elog s)) < 2 ^ 64"
  shows "mpmc_inv \<lparr>queue = (queue s)\<lparr>mEnqueuePos := pos + 1\<rparr>, pcs = (pcs s)(t := EnqWrite pos x),
    elog = elog s @ [x], dcount = dcount s\<rparr>"
proof -
  note r = inv_parts(1) [OF inv]
  have posn: "unat pos = length (elog s)" using ring_pos(1) [OF r] pos by simp
  have seq: "tseq (queue s) (length (elog s)) = length (elog s)"
    using inv_parts(2) [OF inv, of t] posn by (simp add: pc)
  have none: "enq_claims s t = None" "deq_claims s t = None"
    by (simp_all add: pc enq_claims_def deq_claims_def)
  show ?thesis
  proof (rule inv_commit, goal_cases)
    case 1
    from ring_enq_cas [OF r pos none(1) seq range] show ?case
      by (simp add: posn upd_same none(2))
  next
    case 3
    show ?case by (rule others_enq_cas [OF r inv_parts(2) [OF inv] claims_at])
  qed (simp add: posn)
qed

lemma step_enq_write:
  assumes inv: "mpmc_inv s" and pc: "pcs s t = EnqWrite pos x"
  shows "mpmc_inv \<lparr>queue = write_data (queue s) pos x, pcs = (pcs s)(t := EnqPublish pos),
    elog = elog s, dcount = dcount s\<rparr>"
proof -
  note r = inv_parts(1) [OF inv]
  have claim: "enq_claims s t = Some (unat pos)" "deq_claims s t = None"
    by (simp_all add: pc enq_claims_def deq_claims_def)
  have "elog s ! unat pos = x" using inv_parts(2) [OF inv, of t] by (simp add: pc)
  then have dat: "tdat (write_data (queue s) pos x) (unat pos) = elog s ! unat pos"
    by (simp add: ticket_write [OF ring_shape(1) [OF r]])
  show ?thesis
  proof (rule inv_commit, goal_cases)
    case 1
    from ring_enq_write [OF r claim(1)] show ?case by (simp add: upd_same claim)
  next
    case (3 u)
    then show ?case by (rule others_enq_write [OF r claim(1) _ inv_parts(2) [OF inv] claims_at])
  qed (simp add: dat)
qed

lemma step_enq_publish:
  assumes inv: "mpmc_inv s" and pc: "pcs s t = EnqPublish pos" and range: "length (elog s) < 2 ^ 64"
  shows "mpmc_inv \<lparr>queue = store_seq (queue s) pos (pos + 1), pcs = (pcs s)(t := EnqDone True),
    elog = elog s, dcount = dcount s\<rparr>"
proof -
  note r = inv_parts(1) [OF inv]
  have claim: "enq_claims s t = Some (unat pos)" "deq_claims s t = None"
    by (simp_all add: pc enq_claims_def deq_claims_def)
  have dat: "tdat (queue s) (unat pos) = elog s ! unat pos"
    using inv_parts(2) [OF inv, of t] by (simp add: pc)
  show ?thesis
  proof (rule inv_commit, goal_cases)
    case 1
    from ring_enq_publish [OF r claim(1) dat range] show ?case by (simp add: upd_same claim(2))
  next
    case (3 u)
    show ?case by (rule others_enq_publish [OF r claim(1) inv_parts(2) [OF inv]])
  qed simp
qed

lemma step_deq_cas:
  assumes inv: "mpmc_inv s" and pc: "pcs s t = DeqCas pos"
    and pos: "mDequeuePos (queue s) = pos" and range: "length (elog s) < 2 ^ 64"
  shows "mpmc_inv \<lparr>queue = (queue s)\<lparr>mDequeuePos := pos + 1\<rparr>, pcs = (pcs s)(t := DeqRead pos),
    elog = elog s, dcount = Suc (dcount s)\<rparr>"
proof -
  note r = inv_parts(1) [OF inv]
  have posn: "unat pos = dcount s" using ring_pos(2) [OF r] pos by simp
  have seq: "tseq (queue s) (dcount s) = Suc (dcount s)"
    using inv_parts(2) [OF inv, of t] posn by (simp add: pc)
  have none: "enq_claims s t = None" "deq_claims s t = None"
    by (simp_all add: pc enq_claims_def deq_claims_def)
  show ?thesis
  proof (rule inv_commit, goal_cases)
    case 1
    from ring_deq_cas [OF r pos none(2) seq range] show ?case
      by (simp add: posn upd_same none(1))
  next
    case 2
    show ?case by (simp add: posn ticket_simps deq_cas_some(3) [OF r seq])
  next
    case 3
    show ?case by (rule others_deq_cas [OF inv_parts(2) [OF inv]])
  qed
qed

lemma step_deq_release:
  assumes inv: "mpmc_inv s" and pc: "pcs s t = DeqRelease pos x"
    and range: "length (elog s) + length (mBuffer (queue s)) < 2 ^ 64"
  shows "mpmc_inv \<lparr>queue = store_seq (queue s) pos (pos + mBufferMask (queue s) + 1),
    pcs = (pcs s)(t := DeqDone (Some x)), elog = elog s, dcount = dcount s\<rparr>"
proof -
  note r = inv_parts(1) [OF inv]
  have claim: "deq_claims s t = Some (unat pos)" "enq_claims s t = None"
    by (simp_all add: pc enq_claims_def deq_claims_def)
  show ?thesis
  proof (rule inv_commit, goal_cases)
    case 1
    from ring_deq_release [OF r claim(1) range] show ?case by (simp add: upd_same claim(2))
  next
    case (3 u)
    show ?case by (rule others_deq_release [OF r claim(1) inv_parts(2) [OF inv]])
  qed simp
qed

text \<open>Loads of positions, probes and failed exchanges only move the thread.\<close>

lemma step_moves:
  assumes inv: "mpmc_inv s"
    and "enq_claim (pcs s t) = None" "deq_claim (pcs s t) = None"
    and "fst (pc_step w (queue s) (pcs s t)) = queue s" and range: "Suc (length (elog s)) < 2 ^ 64"
  shows "mpmc_inv (s\<lparr>pcs := (pcs s)(t := snd (pc_step w (queue s) (pcs s t)))\<rparr>)"
proof -
  note r = inv_parts(1) [OF inv]
  note sh = ring_shape(1) [OF r]
  let ?pc = "snd (pc_step w (queue s) (pcs s t))"
  have next_pos: "unat (p + 1) = Suc (dcount s)" if "unat p = dcount s" for p :: usize
    using that unat_Suc_pos [of p] range ring_pos(3) [OF r] by simp
  have "enq_claim ?pc = None \<and> deq_claim ?pc = None \<and>
      pc_ok (queue s) (elog s) (dcount s) ?pc"
    using assms(2-4) inv_parts(2) [OF inv, of t] ring_pos(1,2) [OF r]
    by (cases "pcs s t")
       (auto split: probe.splits if_splits simp: enq_probe_Claim [OF sh] deq_probe_Claim [OF sh]
        next_pos dest: arg_cong [where f = mEnqueuePos] arg_cong [where f = mDequeuePos])
  with inv assms(2,3) show ?thesis by (intro inv_move) auto
qed

lemma thread_step_inv:
  assumes inv: "mpmc_inv s" and "\<not> returned (pcs s t)" and range: "in_range (thread_step w t s)"
  shows "mpmc_inv (thread_step w t s)"
proof -
  let ?n = "length (mBuffer (queue s))"
  have n: "length (mBuffer (fst (pc_step w (queue s) (pcs s t)))) = ?n"
    by (cases "pcs s t") (auto simp: ticket_simps)
  have sh: "2 \<le> ?n" by (rule ring_shape(2) [OF inv_parts(1) [OF inv]])
  have e: "length (elog s) + ?n < 2 ^ 63"
    using range n by (simp add: in_range_def thread_step_def Let_def)
  then have small: "length (elog s) < 2 ^ 64" "Suc (length (elog s)) < 2 ^ 64"
      "length (elog s) + ?n < 2 ^ 64"
    using sh by auto
  have move: "mpmc_inv (thread_step w t s)"
    if "enq_claim (pcs s t) = None" "deq_claim (pcs s t) = None"
      and "fst (pc_step w (queue s) (pcs s t)) = queue s"
      and "log_enq (pcs s t) (snd (pc_step w (queue s) (pcs s t))) = []"
      and "log_deq (pcs s t) (snd (pc_step w (queue s) (pcs s t))) = 0"
    using step_moves [OF inv that(1-3) small(2)] thread_step_move [OF that(3-5)] by simp
  show ?thesis
  proof (cases "pcs s t")
    case (EnqCas pos x)
    then show ?thesis
      using step_enq_cas [OF inv EnqCas _ small(2)] move
      by (cases "mEnqueuePos (queue s) = pos \<and> \<not> w") (auto simp: thread_step_def)
  next
    case (EnqWrite pos x)
    with step_enq_write [OF inv EnqWrite] show ?thesis by (simp add: thread_step_def)
  next
    case (EnqPublish pos)
    with step_enq_publish [OF inv EnqPublish small(1)] show ?thesis by (simp add: thread_step_def)
  next
    case (DeqCas pos)
    then show ?thesis
      using step_deq_cas [OF inv DeqCas _ small(1)] move
      by (cases "mDequeuePos (queue s) = pos \<and> \<not> w") (auto simp: thread_step_def)
  next
    case (DeqRead pos)
    note r = inv_parts(1) [OF inv]
    have claim: "deq_claims s t = Some (unat pos)" "enq_claims s t = None"
      by (simp_all add: DeqRead enq_claims_def deq_claims_def)
    have "tdat (queue s) (unat pos) = elog s ! unat pos"
      using inv_parts(2) [OF inv, of t] by (simp add: DeqRead)
    then have "mpmc_inv \<lparr>queue = queue s, pcs = (pcs s)(t := DeqRelease pos (read_data (queue s) pos)),
        elog = elog s, dcount = dcount s\<rparr>"
      by (intro inv_commit)
         (use r inv_parts(2) [OF inv] in \<open>simp_all add: upd_same claim
           read_data_ticket [OF ring_shape(1) [OF r]]\<close>)
    then show ?thesis by (simp add: thread_step_def DeqRead)
  next
    case (DeqRelease pos x)
    with step_deq_release [OF inv DeqRelease small(3)] show ?thesis by (simp add: thread_step_def)
  qed (use move assms(2) in \<open>auto split: probe.splits\<close>)
qed

lemma mpmc_step_inv: "mpmc_step s s' \<Longrightarrow> mpmc_inv s \<Longrightarrow> in_range s' \<Longrightarrow> mpmc_inv s'"
proof (induction rule: mpmc_step.induct)
  case (call_enqueue s t x)
  then show ?case by (intro inv_move) (auto elim: returned.elims)
next
  case (call_dequeue s t)
  then show ?case by (intro inv_move) (auto elim: returned.elims)
next
  case (run s t w)
  then show ?case by (intro thread_step_inv) auto
qed

lemma mpmc_step_mono:
  "mpmc_step s s' \<Longrightarrow> length (mBuffer (queue s')) = length (mBuffer (queue s)) \<and>
     length (elog s) \<le> length (elog s')"
proof (induction rule: mpmc_step.induct)
  case (run s t w)
  show ?case by (cases "pcs s t") (auto simp: thread_step_def Let_def ticket_simps)
qed auto

lemma mpmc_step_in_range: "mpmc_step s s' \<Longrightarrow> in_range s' \<Longrightarrow> in_range s"
  by (drule mpmc_step_mono) (auto simp: in_range_def)

lemma conc_init_inv:
  assumes "bsize = 2 ^ k" and "1 \<le> k" and "k \<le> 62"
  shows "mpmc_inv (conc_init d bsize)"
proof -
  let ?q = "mpmc_init d bsize"
  note i = mpmc_init_ok [OF assms, of d]
  have seqs: "tseq ?q P = P" if "P < 2 ^ k" for P
  proof -
    have "(2::nat) ^ k < 2 ^ 64" using assms(3) by (intro power_strict_increasing) auto
    with that i(3) show ?thesis
      by (simp add: tseq_def mpmc_init_def unat_of_nat_small)
  qed
  have "ring_inv ?q [] 0 (enq_claims (conc_init d bsize)) (deq_claims (conc_init d bsize))"
    using mpmc_ok_shape [OF i(1)] i(3) seqs
    by (intro ring_invI) (simp_all add: ring_positions_def enq_claims_def deq_claims_def
        conc_init_def mpmc_init_def)
  then show ?thesis by (simp add: mpmc_inv_def conc_init_def)
qed

lemma mpmc_reach_inv:
  assumes "mpmc_reach d bsize s" and "bsize = 2 ^ k" "1 \<le> k" "k \<le> 62" and "in_range s"
  shows "mpmc_inv s"
  using assms(1,5)
proof (induction rule: mpmc_reach.induct)
  case start
  show ?case by (rule conc_init_inv [OF assms(2-4)])
next
  case (step s s')
  then show ?case using mpmc_step_inv mpmc_step_in_range by blast
qed

section \<open>Schedules\<close>

text \<open>
  The steps as executable actions: a call, or one atomic action of a thread inside an operation.
\<close>

datatype 'a action = CallEnqueue nat 'a | CallDequeue nat | Run bool nat

fun perform :: "'a action \<Rightarrow> 'a conc \<Rightarrow> 'a conc option" where
  "perform (CallEnqueue t x) s =
     (if returned (pcs s t) then Some (s\<lparr>pcs := (pcs s)(t := EnqLoad x)\<rparr>) else None)"
| "perform (CallDequeue t) s =
     (if returned (pcs s t) then Some (s\<lparr>pcs := (pcs s)(t := DeqLoad)\<rparr>) else None)"
| "perform (Run w t) s = (if returned (pcs s t) then None else Some (thread_step w t s))"

fun perform_all :: "'a action list \<Rightarrow> 'a conc \<Rightarrow> 'a conc option" where
  "perform_all [] s = Some s"
| "perform_all (a # as) s = (case perform a s of None \<Rightarrow> None | Some s' \<Rightarrow> perform_all as s')"

lemma mpmc_step_iff: "mpmc_step s s' \<longleftrightarrow> (\<exists>a. perform a s = Some s')"
proof
  assume "mpmc_step s s'"
  then show "\<exists>a. perform a s = Some s'"
  proof (induction rule: mpmc_step.induct)
    case (call_enqueue s t x)
    then show ?case by (intro exI [of _ "CallEnqueue t x"]) simp
  next
    case (call_dequeue s t)
    then show ?case by (intro exI [of _ "CallDequeue t"]) simp
  next
    case (run s t w)
    then show ?case by (intro exI [of _ "Run w t"]) simp
  qed
next
  assume "\<exists>a. perform a s = Some s'"
  then obtain a where "perform a s = Some s'" by blast
  then show "mpmc_step s s'"
    by (cases a) (auto split: if_splits intro: mpmc_step.intros)
qed

lemma perform_all_reach:
  "mpmc_reach d bsize s \<Longrightarrow> perform_all as s = Some s' \<Longrightarrow> mpmc_reach d bsize s'"
proof (induction as arbitrary: s)
  case (Cons a as)
  then obtain s1 where "perform a s = Some s1" "perform_all as s1 = Some s'"
    by (auto split: option.splits)
  with Cons show ?case by (meson mpmc_reach.step mpmc_step_iff)
qed simp

section \<open>Properties\<close>

text \<open>The abstract queue: the values of the enqueue tickets that no dequeue ticket has taken.\<close>

definition abs_queue :: "'a conc \<Rightarrow> 'a list" where
  "abs_queue s = drop (dcount s) (elog s)"


text \<open>A concrete run: thread 0 enqueues 7 to the end, thread 1 dequeues up to its copy of the data.\<close>

definition sample_prefix :: "nat action list" where
  "sample_prefix = CallEnqueue 0 7 # replicate 5 (Run False 0) @ CallDequeue 1 # replicate 2 (Run False 1)"

definition sample_state :: "nat action list \<Rightarrow> nat conc" where
  "sample_state as = the (perform_all as (conc_init 0 2))"

lemma sample_reach:
  "perform_all as (conc_init 0 2) \<noteq> None \<Longrightarrow> mpmc_reach 0 2 (sample_state as)"
  unfolding sample_state_def using perform_all_reach [OF mpmc_reach.start] by fastforce

lemma sample_in_range:
  "length (elog s) < 4 \<and> length (mBuffer (queue s)) = 2 \<Longrightarrow> in_range s" for s :: "nat conc"
  by (auto simp: in_range_def)

lemma sample_runs:
  "perform_all sample_prefix (conc_init 0 2) \<noteq> None"
  "perform_all (sample_prefix @ [Run False 1]) (conc_init 0 2) \<noteq> None"
  "perform_all (sample_prefix @ [Run False 1, Run False 1]) (conc_init 0 2) \<noteq> None"
  by code_simp+

lemma perform_all_append:
  "perform_all (as @ bs) s = (case perform_all as s of None \<Rightarrow> None | Some s' \<Rightarrow> perform_all bs s')"
  by (induction as arbitrary: s) (auto split: option.splits)

lemma sample_step:
  assumes "perform_all (as @ [a]) (conc_init 0 2) \<noteq> None"
  shows "mpmc_step (sample_state as) (sample_state (as @ [a]))"
  using assms unfolding mpmc_step_iff sample_state_def
  by (intro exI [of _ a]) (auto simp: perform_all_append split: option.splits)


text \<open>
  The value a thread is about to return from \<open>dequeue\<close> is the value that the \<open>enqueue\<close> with the
  same ticket was called with, and no other thread holds that ticket, so that every value is
  returned at most once.
\<close>

lemma mpmc_delivery:
  assumes "mpmc_reach d bsize s" and "in_range s" and "bsize = 2 ^ k" "1 \<le> k" "k \<le> 62"
    and "pcs s t = DeqRelease pos v"
  shows "unat pos < dcount s \<and> elog s ! unat pos = v \<and>
    (\<forall>u. u \<noteq> t \<longrightarrow> deq_claim (pcs s u) \<noteq> Some (unat pos) \<and> enq_claim (pcs s u) \<noteq> Some (unat pos))"
proof -
  have inv: "mpmc_inv s" by (rule mpmc_reach_inv [OF assms(1,3-5,2)])
  note r = inv_parts(1) [OF inv]
  have claim: "deq_claims s t = Some (unat pos)" by (simp add: deq_claims_def assms(6))
  have "elog s ! unat pos = v" using inv_parts(2) [OF inv, of t] assms(6) by simp
  moreover have "deq_claim (pcs s u) \<noteq> Some (unat pos)" if "u \<noteq> t" for u
    using that ring_emptyingD(4) [OF r claim, of u] by (auto simp: deq_claims_def)
  moreover have "enq_claim (pcs s u) \<noteq> Some (unat pos)" for u
    using ring_fillingD(1) [OF r, of u "unat pos"] ring_emptyingD(1) [OF r claim]
    by (auto simp: enq_claims_def)
  ultimately show ?thesis using ring_emptyingD(1) [OF r claim] by blast
qed

lemma mpmc_delivery_sample:
  "\<exists>s. mpmc_reach 0 2 s \<and> pcs s 1 = DeqRelease 0 (7 :: nat) \<and> elog s ! 0 = 7 \<and>
    deq_claim (pcs s 0) \<noteq> Some 0"
proof -
  let ?s = "sample_state (sample_prefix @ [Run False 1, Run False 1])"
  have pc: "pcs ?s 1 = DeqRelease 0 7" by code_simp
  have rng: "in_range ?s" by (rule sample_in_range) code_simp
  have "(2 :: usize) = 2 ^ 1" by simp
  from mpmc_delivery [OF sample_reach [OF sample_runs(3)] rng this _ _ pc] pc show ?thesis
    using sample_reach [OF sample_runs(3)] by (intro exI [of _ ?s]) simp
qed

text \<open>The exact difference of two values below the sign bit.\<close>

lemma nat_diff_bounds:
  "m < 2 ^ 63 \<Longrightarrow> k < 2 ^ 63 \<Longrightarrow> \<bar>int m - int k\<bar> < 2 ^ 63" for m k :: nat
  by simp

lemma seq_diff_exact:
  assumes "unat a < 2 ^ 63" and "unat b < 2 ^ 63"
  shows "seq_diff a b = sint a - sint b" and "\<bar>sint a - sint b\<bar> < 2 ^ 63"
    and "seq_diff a b < 0 \<longleftrightarrow> unat a < unat b"
proof -
  have s: "sint w = int (unat w)" if "unat w < 2 ^ 63" for w :: usize
    using that sint_of_nat_small [of "unat w", where 'a = 64] by simp
  have eq: "sint a - sint b = int (unat a) - int (unat b)"
    by (simp only: s [OF assms(1)] s [OF assms(2)])
  show b: "\<bar>sint a - sint b\<bar> < 2 ^ 63"
    unfolding eq by (rule nat_diff_bounds [OF assms])
  have "seq_diff a b = signed_take_bit 63 (sint a - sint b)"
    by (simp add: seq_diff_def sint_word_diff)
  also have "\<dots> = sint a - sint b"
    using b by (intro signed_take_bit_int_eq_self) (simp_all add: abs_less_iff)
  finally show d: "seq_diff a b = sint a - sint b" .
  show "seq_diff a b < 0 \<longleftrightarrow> unat a < unat b"
    unfolding d eq by (simp only: diff_less_0_iff_less of_nat_less_iff)
qed

lemma probe_of_Refuse: "probe_of d = Refuse \<longleftrightarrow> d < 0"
  by (simp add: probe_of_def)

text \<open>The sequence number and the position a thread probes with are both below the sign bit.\<close>

lemma probe_values:
  assumes "mpmc_inv s" and "in_range s"
  shows "unat (cell_seq (mBuffer (queue s) ! cell_index (queue s) pos)) = tseq (queue s) (unat pos)"
    and "tseq (queue s) P < 2 ^ 63"
    and "pcs s t = EnqProbe pos x \<Longrightarrow> unat pos < 2 ^ 63"
    and "pcs s t = DeqProbe pos \<Longrightarrow> unat (pos + 1) < 2 ^ 63 \<and> unat (pos + 1) = Suc (unat pos)"
proof -
  note r = inv_parts(1) [OF assms(1)]
  have rng: "length (elog s) + length (mBuffer (queue s)) < 2 ^ 63"
    using assms(2) by (simp add: in_range_def)
  show "unat (cell_seq (mBuffer (queue s) ! cell_index (queue s) pos)) = tseq (queue s) (unat pos)"
    by (simp add: tseq_def cell_index_mod [OF ring_shape(1) [OF r]])
  show "tseq (queue s) P < 2 ^ 63" using tseq_upper [OF r, of P] rng by simp
  show "pcs s t = EnqProbe pos x \<Longrightarrow> unat pos < 2 ^ 63"
    using inv_parts(2) [OF assms(1), of t] rng by simp
  assume "pcs s t = DeqProbe pos"
  then have "Suc (unat pos) < 2 ^ 63"
    using inv_parts(2) [OF assms(1), of t] rng ring_pos(3) [OF r] ring_shape(2) [OF r] by simp
  then show "unat (pos + 1) < 2 ^ 63 \<and> unat (pos + 1) = Suc (unat pos)"
    using unat_Suc_pos [of pos] by simp
qed

text \<open>
  C18: the signed subtraction of the code never overflows while the tickets are in range: for
  every position a thread probes with, the exact difference fits into \<open>intptr_t\<close> and is the value
  the model uses.
\<close>

theorem intptr_diff_in_range:
  assumes "mpmc_reach d bsize s" and "in_range s" and "bsize = 2 ^ k" "1 \<le> k" "k \<le> 62"
    and "pcs s t = EnqProbe pos x \<and> target = pos \<or> pcs s t = DeqProbe pos \<and> target = pos + 1"
    and "seq = cell_seq (mBuffer (queue s) ! cell_index (queue s) pos)"
  shows "seq_diff seq target = sint seq - sint target \<and> \<bar>sint seq - sint target\<bar> < 2 ^ 63"
proof -
  have inv: "mpmc_inv s" by (rule mpmc_reach_inv [OF assms(1,3-5,2)])
  note v = probe_values [OF inv assms(2)]
  have "unat seq < 2 ^ 63" using v(1,2) assms(7) by simp
  moreover have "unat target < 2 ^ 63" using assms(6) v(3,4) by blast
  ultimately show ?thesis using seq_diff_exact(1,2) by blast
qed

theorem intptr_diff_in_range_witness:
  "seq_diff (cell_seq (mBuffer (queue (sample_state [CallEnqueue 0 7, Run False 0])) ! 0)) 0 = 0"
proof -
  let ?s = "sample_state [CallEnqueue 0 7, Run False 0]"
  have pc: "pcs ?s 0 = EnqProbe 0 7" by code_simp
  have rng: "in_range ?s" by (rule sample_in_range) code_simp
  have run: "perform_all [CallEnqueue 0 7, Run False 0] (conc_init (0 :: nat) 2) \<noteq> None"
    by code_simp
  have eq: "cell_seq (mBuffer (queue ?s) ! 0) = 0" "cell_index (queue ?s) 0 = 0" by code_simp+
  have "(2 :: usize) = 2 ^ 1" by simp
  from intptr_diff_in_range [OF sample_reach [OF run] rng this _ _ disjI1 [OF conjI [OF pc refl]] refl]
  show ?thesis by (simp add: eq)
qed

lemma enqueue_gives_up:
  assumes "mpmc_reach d bsize s" and "in_range s" and "bsize = 2 ^ k" "1 \<le> k" "k \<le> 62"
    and pc: "pcs s t = EnqProbe pos x" and "enq_probe (queue s) pos = Refuse"
  shows "length (abs_queue s) = length (mBuffer (queue s)) \<or>
    (\<exists>u Q. deq_claim (pcs s u) = Some Q \<and> Q + length (mBuffer (queue s)) = length (elog s))"
proof -
  have inv: "mpmc_inv s" by (rule mpmc_reach_inv [OF assms(1,3-5,2)])
  note r = inv_parts(1) [OF inv] and v = probe_values [OF inv assms(2)]
  have less: "tseq (queue s) (unat pos) < unat pos"
    using assms(7) seq_diff_exact(3) v(1,2) v(3) [OF pc]
    by (simp add: enq_probe_def probe_of_Refuse)
  moreover have "unat pos \<le> length (elog s)" using inv_parts(2) [OF inv, of t] pc by simp
  ultimately have pos: "unat pos = length (elog s)"
    using tseq_lower [OF r, of "unat pos"] by (metis le_neq_implies_less not_less)
  show ?thesis
  proof (cases "length (elog s) < dcount s + length (mBuffer (queue s))")
    case True
    from ring_pos(3) [OF r] True show ?thesis
      using less pos ring_freeD [OF r order_refl True] by (fastforce simp: deq_claims_def)
  next
    case False
    with ring_pos(4) [OF r] show ?thesis by (simp add: abs_queue_def)
  qed
qed

lemma dequeue_gives_up:
  assumes "mpmc_reach d bsize s" and "in_range s" and "bsize = 2 ^ k" "1 \<le> k" "k \<le> 62"
    and pc: "pcs s t = DeqProbe pos" and "deq_probe (queue s) pos = Refuse"
  shows "abs_queue s = [] \<or> (\<exists>u. enq_claim (pcs s u) = Some (dcount s))"
proof -
  have inv: "mpmc_inv s" by (rule mpmc_reach_inv [OF assms(1,3-5,2)])
  note r = inv_parts(1) [OF inv] and v = probe_values [OF inv assms(2)]
  have less: "tseq (queue s) (unat pos) < Suc (unat pos)"
    using assms(7) seq_diff_exact(3) v(1,2) v(4) [OF pc]
    by (simp add: deq_probe_def probe_of_Refuse)
  moreover have "unat pos \<le> dcount s" using inv_parts(2) [OF inv, of t] pc by simp
  ultimately have pos: "unat pos = dcount s"
    using tseq_past [OF r, of "unat pos"] by (metis Suc_leI le_neq_implies_less not_less)
  show ?thesis
  proof (cases "dcount s < length (elog s)")
    case True
    from less pos show ?thesis
      using ring_fullD(1) [OF r order_refl True] by (fastforce simp: enq_claims_def)
  next
    case False
    then show ?thesis by (simp add: abs_queue_def)
  qed
qed

text \<open>
  C17: an operation gives up only for a reason. \<open>enqueue\<close>: all cells are held by values that have not been
  taken, or by a \<open>dequeue\<close> that has taken the oldest ticket but not released its cell yet. \<open>dequeue\<close>: no
  ticket is waiting, or the oldest one is being filled by an \<open>enqueue\<close> that has not published it yet.
\<close>

theorem refusals_justified:
  assumes "mpmc_reach d bsize s" and "in_range s" and "bsize = 2 ^ k" "1 \<le> k" "k \<le> 62"
  shows "(pcs s t = EnqProbe pos x \<and> enq_probe (queue s) pos = Refuse \<longrightarrow>
      length (abs_queue s) = length (mBuffer (queue s)) \<or>
      (\<exists>u Q. deq_claim (pcs s u) = Some Q \<and> Q + length (mBuffer (queue s)) = length (elog s))) \<and>
    (pcs s t = DeqProbe pos \<and> deq_probe (queue s) pos = Refuse \<longrightarrow>
      abs_queue s = [] \<or> (\<exists>u. enq_claim (pcs s u) = Some (dcount s)))"
  using enqueue_gives_up [OF assms] dequeue_gives_up [OF assms] by blast

text \<open>Thread 0 fills both cells and probes for a third value.\<close>

definition full_prefix :: "nat action list" where
  "full_prefix = CallEnqueue 0 7 # replicate 5 (Run False 0) @ CallEnqueue 0 8 # replicate 5 (Run False 0)
     @ [CallEnqueue 0 9, Run False 0]"

theorem refusals_justified_witness:
  "length (abs_queue (sample_state full_prefix)) = 2 \<and>
   (abs_queue (sample_state [CallDequeue 1, Run False 1]) = [] \<or>
    (\<exists>u. enq_claim (pcs (sample_state [CallDequeue 1, Run False 1]) u) = Some 0))"
proof -
  let ?s = "sample_state full_prefix"
  let ?r = "sample_state [CallDequeue 1, Run False 1]"
  have two: "(2 :: usize) = 2 ^ 1" by simp
  have pc: "pcs ?s 0 = EnqProbe 2 9" "pcs ?r 1 = DeqProbe 0" by code_simp+
  have rng: "in_range ?s" by (rule sample_in_range) code_simp
  have rng': "in_range ?r" by (rule sample_in_range) code_simp
  have run: "perform_all full_prefix (conc_init 0 2) \<noteq> None" by code_simp
  have run': "perform_all [CallDequeue 1, Run False 1] (conc_init (0 :: nat) 2) \<noteq> None" by code_simp
  have refuse: "enq_probe (queue ?s) 2 = Refuse" "deq_probe (queue ?r) 0 = Refuse" by code_simp+
  have len: "length (mBuffer (queue ?s)) = 2" "length (elog ?s) = 2" "dcount ?s = 0" "dcount ?r = 0" by code_simp+
  have "length (abs_queue ?s) = 2"
    using refusals_justified [OF sample_reach [OF run] rng two, of 0 2 9] pc refuse by (simp add: len abs_queue_def)
  moreover have "abs_queue ?r = [] \<or> (\<exists>u. enq_claim (pcs ?r u) = Some 0)"
    using refusals_justified [OF sample_reach [OF run'] rng' two, of 1 0] pc refuse unfolding len by (simp del: One_nat_def)
  ultimately show ?thesis by blast
qed

end
