(* ===== verification/Counter.thy ===== *)
theory Counter
  imports Prelude
begin

text \<open>
  \<open>Scheduler::atomic_counter_t\<close> and the three operations on it: \<open>counterAddWaitingFiber\<close>,
  \<open>counterCheckWaitingFibers\<close> and \<open>counterIncrement\<close> (scheduler.cc, lines 62 to 88 and 556 to
  662). Each operation is a sequence of atomic actions with a program counter of its own. The
  theory shows what they do when run alone, what they guarantee when any number of threads
  interleave them, and where that guarantee ends.
\<close>

section \<open>State\<close>

type_synonym fiber_index_t = u32
type_synonym thread_index_t = u32

definition invalid_fiber :: fiber_index_t where "invalid_fiber = - 1"
definition invalid_thread :: thread_index_t where "invalid_thread = - 1"

record waiting_fiber =
  counter_target :: cint
  fiber_index :: fiber_index_t
  pinned_thread_index :: thread_index_t
  in_use :: bool

record atomic_counter =
  count :: cint
  waiting_fibers :: "waiting_fiber list"
  free_waiting_slots :: "bool list"

definition max_waiting :: nat where "max_waiting = 32"

text \<open>
  A value-initialised counter. No slot is free before the first \<open>reset\<close>, which
  \<open>acquireCounterHandle\<close> calls for every counter it hands out.
\<close>

definition counter_default :: atomic_counter where
  "counter_default =
     \<lparr>count = 0,
      waiting_fibers = replicate max_waiting
        \<lparr>counter_target = 0, fiber_index = invalid_fiber, pinned_thread_index = invalid_thread,
         in_use = True\<rparr>,
      free_waiting_slots = replicate max_waiting False\<rparr>"

definition counter_reset :: "atomic_counter \<Rightarrow> atomic_counter" where
  "counter_reset c = c\<lparr>count := 0, free_waiting_slots := replicate max_waiting True\<rparr>"

definition set_free :: "nat \<Rightarrow> bool \<Rightarrow> atomic_counter \<Rightarrow> atomic_counter" where
  "set_free i b c = c\<lparr>free_waiting_slots := (free_waiting_slots c)[i := b]\<rparr>"

definition set_in_use :: "nat \<Rightarrow> bool \<Rightarrow> atomic_counter \<Rightarrow> atomic_counter" where
  "set_in_use i b c = c\<lparr>waiting_fibers := (waiting_fibers c)[i := (waiting_fibers c ! i)\<lparr>in_use := b\<rparr>]\<rparr>"

definition fill_slot ::
  "nat \<Rightarrow> fiber_index_t \<Rightarrow> thread_index_t \<Rightarrow> cint \<Rightarrow> atomic_counter \<Rightarrow> atomic_counter" where
  "fill_slot i f p target c = c\<lparr>waiting_fibers := (waiting_fibers c)[i := (waiting_fibers c ! i)
     \<lparr>fiber_index := f, counter_target := target, pinned_thread_index := p\<rparr>]\<rparr>"

section \<open>Atomic actions\<close>

text \<open>
  Where a thread is in an operation. \<open>Add\<close>: claim slot \<open>i\<close>, write its fields, open it, load the
  count, look at \<open>in_use\<close>, compare the target, take the slot back, free it. \<open>Inc\<close> and \<open>Chk\<close>: the
  \<open>fetch_add\<close>, then for slot \<open>i\<close> look at the free flag, at \<open>in_use\<close>, at the target, take the slot,
  make its fiber resumable, free it.
\<close>

datatype cpc =
    AddClaim nat fiber_index_t thread_index_t cint
  | AddFill nat fiber_index_t thread_index_t cint
  | AddOpen nat | AddLoad nat | AddInUse nat cint | AddCompare nat cint | AddTake nat cint
  | AddRelease nat cint | AddDone bool cint
  | IncAdd cint
  | ChkFree nat cint | ChkInUse nat cint | ChkTarget nat cint | ChkTake nat cint
  | ChkWake nat cint | ChkRelease nat cint | IncDone cint
  | CFail failure

text \<open>
  One action: the program counter after it, the counter after it, and the fiber that it makes
  resumable, with the thread that fiber is pinned to.
\<close>

fun cpc_step :: "cpc \<Rightarrow> atomic_counter \<Rightarrow> cpc \<times> atomic_counter \<times> (fiber_index_t \<times> thread_index_t) option"
where
  "cpc_step (AddClaim i f p target) c =
     (if \<not> i < max_waiting then (CFail (Assertion ''Counter waiting slots are full''), c, None)
      else if free_waiting_slots c ! i then (AddFill i f p target, set_free i False c, None)
      else (AddClaim (Suc i) f p target, c, None))"
| "cpc_step (AddFill i f p target) c = (AddOpen i, fill_slot i f p target c, None)"
| "cpc_step (AddOpen i) c = (AddLoad i, set_in_use i False c, None)"
| "cpc_step (AddLoad i) c = (AddInUse i (count c), c, None)"
| "cpc_step (AddInUse i v) c =
     (if in_use (waiting_fibers c ! i) then AddDone False v else AddCompare i v, c, None)"
| "cpc_step (AddCompare i v) c =
     (if counter_target (waiting_fibers c ! i) = v then AddTake i v else AddDone False v, c, None)"
| "cpc_step (AddTake i v) c =
     (if in_use (waiting_fibers c ! i) then (AddDone False v, c, None)
      else (AddRelease i v, set_in_use i True c, None))"
| "cpc_step (AddRelease i v) c = (AddDone True v, set_free i True c, None)"
| "cpc_step (IncAdd amount) c = (ChkFree 0 (count c + amount), c\<lparr>count := count c + amount\<rparr>, None)"
| "cpc_step (ChkFree i v) c =
     (if \<not> i < max_waiting then IncDone v
      else if free_waiting_slots c ! i then ChkFree (Suc i) v else ChkInUse i v, c, None)"
| "cpc_step (ChkInUse i v) c =
     (if in_use (waiting_fibers c ! i) then ChkFree (Suc i) v else ChkTarget i v, c, None)"
| "cpc_step (ChkTarget i v) c =
     (if counter_target (waiting_fibers c ! i) = v then ChkTake i v else ChkFree (Suc i) v, c, None)"
| "cpc_step (ChkTake i v) c =
     (if in_use (waiting_fibers c ! i) then (ChkFree (Suc i) v, c, None)
      else (ChkWake i v, set_in_use i True c, None))"
| "cpc_step (ChkWake i v) c =
     (ChkRelease i v, c,
      Some (fiber_index (waiting_fibers c ! i), pinned_thread_index (waiting_fibers c ! i)))"
| "cpc_step (ChkRelease i v) c = (ChkFree (Suc i) v, set_free i True c, None)"
| "cpc_step (AddDone b v) c = (AddDone b v, c, None)"
| "cpc_step (IncDone v) c = (IncDone v, c, None)"
| "cpc_step (CFail e) c = (CFail e, c, None)"

fun cpc_returned :: "cpc \<Rightarrow> bool" where
  "cpc_returned (AddDone _ _) = True"
| "cpc_returned (IncDone _) = True"
| "cpc_returned (CFail _) = True"
| "cpc_returned _ = False"

text \<open>The entry of \<open>counterAddWaitingFiber\<close> and of \<open>counterIncrement\<close>, with its assertion.\<close>

definition counterAddWaitingFiber :: "fiber_index_t \<Rightarrow> thread_index_t \<Rightarrow> cint \<Rightarrow> cpc" where
  "counterAddWaitingFiber f p target = AddClaim 0 f p target"

definition counterIncrement :: "bool \<Rightarrow> cint \<Rightarrow> cpc" where
  "counterIncrement dbg amount =
     (case cc_assert dbg (amount \<noteq> 0) ''invalid counter increment value'' of
        Inl e \<Rightarrow> CFail e | Inr _ \<Rightarrow> IncAdd amount)"

text \<open>\<open>n\<close> actions of one operation with no other thread in between, with the fibers it wakes.\<close>

fun run_alone :: "nat \<Rightarrow> cpc \<Rightarrow> atomic_counter \<Rightarrow>
    cpc \<times> atomic_counter \<times> (fiber_index_t \<times> thread_index_t) list" where
  "run_alone 0 pc c = (pc, c, [])"
| "run_alone (Suc n) pc c =
     (case cpc_step pc c of (pc', c', w) \<Rightarrow>
       (case run_alone n pc' c' of (pc'', c'', ws) \<Rightarrow>
         (pc'', c'', (case w of None \<Rightarrow> ws | Some x \<Rightarrow> x # ws))))"

section \<open>The operations run alone\<close>

named_theorems slot_simps \<open>slots after an action\<close>

lemma slot_fields [slot_simps]:
  "count (set_free i b c) = count c" "count (set_in_use i b c) = count c"
  "count (fill_slot i f p tg c) = count c"
  "waiting_fibers (set_free i b c) = waiting_fibers c"
  "free_waiting_slots (set_in_use i b c) = free_waiting_slots c"
  "free_waiting_slots (fill_slot i f p tg c) = free_waiting_slots c"
  "length (waiting_fibers (set_in_use i b c)) = length (waiting_fibers c)"
  "length (waiting_fibers (fill_slot i f p tg c)) = length (waiting_fibers c)"
  "length (free_waiting_slots (set_free i b c)) = length (free_waiting_slots c)"
  by (simp_all add: set_free_def set_in_use_def fill_slot_def)

lemma slot_updates [slot_simps]:
  "i < length (free_waiting_slots c) \<Longrightarrow>
   free_waiting_slots (set_free i b c) ! j = (if j = i then b else free_waiting_slots c ! j)"
  "i < length (waiting_fibers c) \<Longrightarrow> waiting_fibers (set_in_use i b c) ! j =
     (if j = i then (waiting_fibers c ! i)\<lparr>in_use := b\<rparr> else waiting_fibers c ! j)"
  "i < length (waiting_fibers c) \<Longrightarrow> waiting_fibers (fill_slot i f p tg c) ! j =
     (if j = i then (waiting_fibers c ! i)\<lparr>fiber_index := f, counter_target := tg,
        pinned_thread_index := p\<rparr> else waiting_fibers c ! j)"
  by (auto simp: set_free_def set_in_use_def fill_slot_def)

definition counter_shape :: "atomic_counter \<Rightarrow> bool" where
  "counter_shape c \<longleftrightarrow>
     length (waiting_fibers c) = max_waiting \<and> length (free_waiting_slots c) = max_waiting"

lemma counter_shape_simps [simp]:
  "counter_shape counter_default"
  "counter_shape (counter_reset c) \<longleftrightarrow> length (waiting_fibers c) = max_waiting"
  "counter_shape (set_free i b c) \<longleftrightarrow> counter_shape c"
  "counter_shape (set_in_use i b c) \<longleftrightarrow> counter_shape c"
  "counter_shape (fill_slot i f p tg c) \<longleftrightarrow> counter_shape c"
  "counter_shape (c\<lparr>count := v\<rparr>) \<longleftrightarrow> counter_shape c"
  by (auto simp: counter_shape_def counter_default_def counter_reset_def set_free_def
      set_in_use_def fill_slot_def)

lemma cpc_step_shape: "counter_shape c \<Longrightarrow> counter_shape (fst (snd (cpc_step pc c)))"
  by (cases pc) auto

lemma run_alone_add:
  "run_alone (m + n) pc c =
     (case run_alone m pc c of (pc', c', ws) \<Rightarrow>
       (case run_alone n pc' c' of (pc'', c'', ws') \<Rightarrow> (pc'', c'', ws @ ws')))"
  by (induction m arbitrary: pc c) (auto split: prod.splits option.splits)

text \<open>Slots that a check with value \<open>v\<close> wakes, and the slots after it.\<close>

definition wakes_slot :: "cint \<Rightarrow> atomic_counter \<Rightarrow> nat \<Rightarrow> bool" where
  "wakes_slot v c i \<longleftrightarrow> \<not> free_waiting_slots c ! i \<and> \<not> in_use (waiting_fibers c ! i) \<and>
     counter_target (waiting_fibers c ! i) = v"

definition woken_slots :: "cint \<Rightarrow> atomic_counter \<Rightarrow> (fiber_index_t \<times> thread_index_t) list" where
  "woken_slots v c = map (\<lambda>i. (fiber_index (waiting_fibers c ! i), pinned_thread_index (waiting_fibers c ! i)))
     (filter (wakes_slot v c) [0..<max_waiting])"

definition after_wake :: "cint \<Rightarrow> atomic_counter \<Rightarrow> nat \<Rightarrow> atomic_counter" where
  "after_wake v c k = c\<lparr>
     waiting_fibers := map (\<lambda>i. if i < k \<and> wakes_slot v c i
       then (waiting_fibers c ! i)\<lparr>in_use := True\<rparr> else waiting_fibers c ! i) [0..<max_waiting],
     free_waiting_slots := map (\<lambda>i. i < k \<and> wakes_slot v c i \<or> free_waiting_slots c ! i)
       [0..<max_waiting]\<rparr>"

lemma after_wake_0: "counter_shape c \<Longrightarrow> after_wake v c 0 = c"
  using map_nth [of "waiting_fibers c"] map_nth [of "free_waiting_slots c"]
  by (simp add: after_wake_def counter_shape_def)

lemma after_wake_fields:
  assumes "i < max_waiting" and "k \<le> i"
  shows "free_waiting_slots (after_wake v c k) ! i = free_waiting_slots c ! i"
    and "waiting_fibers (after_wake v c k) ! i = waiting_fibers c ! i"
  using assms by (simp_all add: after_wake_def)

lemma after_wake_length [simp]:
  "count (after_wake v c k) = count c"
  "length (waiting_fibers (after_wake v c k)) = max_waiting"
  "length (free_waiting_slots (after_wake v c k)) = max_waiting"
  by (simp_all add: after_wake_def)

lemma after_wake_Suc:
  assumes "k < max_waiting"
  shows "after_wake v c (Suc k) =
    (if wakes_slot v c k then set_free k True (set_in_use k True (after_wake v c k))
     else after_wake v c k)"
proof (cases "wakes_slot v c k")
  case True
  then show ?thesis
    using assms
    by (auto simp: after_wake_def set_free_def set_in_use_def less_Suc_eq map_upt_update
        intro!: map_cong)
next
  case False
  then have "i < Suc k \<and> wakes_slot v c i \<longleftrightarrow> i < k \<and> wakes_slot v c i" for i
    by (auto simp: less_Suc_eq)
  with False show ?thesis by (simp add: after_wake_def)
qed

lemma check_slot:
  assumes "k < max_waiting"
  shows "\<exists>m. run_alone m (ChkFree k v) (after_wake v c k) = (ChkFree (Suc k) v, after_wake v c (Suc k),
    if wakes_slot v c k
    then [(fiber_index (waiting_fibers c ! k), pinned_thread_index (waiting_fibers c ! k))] else [])"
proof -
  note f = after_wake_fields [OF assms order_refl, of v c]
  consider "free_waiting_slots c ! k" | "\<not> free_waiting_slots c ! k" "in_use (waiting_fibers c ! k)"
    | "\<not> free_waiting_slots c ! k" "\<not> in_use (waiting_fibers c ! k)"
      "counter_target (waiting_fibers c ! k) \<noteq> v"
    | "wakes_slot v c k" by (auto simp: wakes_slot_def)
  then show ?thesis
  proof cases
    case 1
    with assms f show ?thesis
      by (intro exI [of _ 1]) (simp add: after_wake_Suc [OF assms] wakes_slot_def)
  next
    case 2
    with assms f show ?thesis
      by (intro exI [of _ 2]) (simp add: after_wake_Suc [OF assms] wakes_slot_def numeral_2_eq_2)
  next
    case 3
    with assms f show ?thesis
      by (intro exI [of _ 3]) (simp add: after_wake_Suc [OF assms] wakes_slot_def numeral_3_eq_3)
  next
    case 4
    then have "run_alone 6 (ChkFree k v) (after_wake v c k) = (ChkFree (Suc k) v, after_wake v c (Suc k),
        [(fiber_index (waiting_fibers c ! k), pinned_thread_index (waiting_fibers c ! k))])"
      using assms f
      by (simp add: after_wake_Suc [OF assms] wakes_slot_def eval_nat_numeral slot_simps)
    with 4 show ?thesis by auto
  qed
qed

lemma check_slots:
  assumes "k \<le> max_waiting"
  shows "\<exists>m. run_alone m (ChkFree k v) (after_wake v c k) = (IncDone v, after_wake v c max_waiting,
    map (\<lambda>i. (fiber_index (waiting_fibers c ! i), pinned_thread_index (waiting_fibers c ! i)))
      (filter (wakes_slot v c) [k..<max_waiting]))"
  using assms
proof (induction k rule: inc_induct)
  case base
  show ?case by (intro exI [of _ 1]) simp
next
  case (step k)
  from check_slot [OF step.hyps(2), of v c] obtain m1 where m1: "run_alone m1 (ChkFree k v)
      (after_wake v c k) = (ChkFree (Suc k) v, after_wake v c (Suc k), if wakes_slot v c k
      then [(fiber_index (waiting_fibers c ! k), pinned_thread_index (waiting_fibers c ! k))] else [])"
    by blast
  from step.IH obtain m2 where "run_alone m2 (ChkFree (Suc k) v) (after_wake v c (Suc k)) =
      (IncDone v, after_wake v c max_waiting,
       map (\<lambda>i. (fiber_index (waiting_fibers c ! i), pinned_thread_index (waiting_fibers c ! i)))
         (filter (wakes_slot v c) [Suc k..<max_waiting]))"
    by blast
  with m1 have "run_alone (m1 + m2) (ChkFree k v) (after_wake v c k) =
      (IncDone v, after_wake v c max_waiting,
       map (\<lambda>i. (fiber_index (waiting_fibers c ! i), pinned_thread_index (waiting_fibers c ! i)))
         (filter (wakes_slot v c) [k..<max_waiting]))"
    using step.hyps(2) by (simp add: run_alone_add upt_conv_Cons)
  then show ?case by blast
qed

text \<open>The waiters of a counter: slot, fiber, thread it is pinned to, target.\<close>

definition waiters :: "atomic_counter \<Rightarrow> nat \<Rightarrow> (fiber_index_t \<times> thread_index_t \<times> cint) option" where
  "waiters c i =
     (let s = waiting_fibers c ! i
      in if i < max_waiting \<and> \<not> free_waiting_slots c ! i \<and> \<not> in_use s
         then Some (fiber_index s, pinned_thread_index s, counter_target s) else None)"

lemma waiters_after_wake:
  "waiters (after_wake v c max_waiting) i =
     (if \<exists>f p. waiters c i = Some (f, p, v) then None else waiters c i)"
  by (auto simp: waiters_def after_wake_def wakes_slot_def Let_def)

lemma waiters_count [simp]: "waiters (c\<lparr>count := v\<rparr>) = waiters c"
  by (simp add: waiters_def fun_eq_iff)

lemma increment_run:
  assumes "counter_shape c" and "amount \<noteq> 0"
  shows "\<exists>n c'. run_alone n (counterIncrement dbg amount) c =
      (IncDone (count c + amount), c', woken_slots (count c + amount) c) \<and>
    count c' = count c + amount \<and>
    waiters c' = (\<lambda>i. if \<exists>f p. waiters c i = Some (f, p, count c + amount) then None else waiters c i)"
proof -
  let ?c = "c\<lparr>count := count c + amount\<rparr>" and ?v = "count c + amount"
  have "wakes_slot ?v ?c = wakes_slot ?v c" by (simp add: wakes_slot_def fun_eq_iff)
  with check_slots [of 0 ?v ?c] assms(1) obtain m where
    "run_alone m (ChkFree 0 ?v) ?c = (IncDone ?v, after_wake ?v ?c max_waiting, woken_slots ?v c)"
    by (auto simp: after_wake_0 woken_slots_def)
  with assms(2) show ?thesis
    by (intro exI [of _ "Suc m"] exI [of _ "after_wake ?v ?c max_waiting"])
      (auto simp: counterIncrement_def fail_simps waiters_after_wake fun_eq_iff)
qed

text \<open>The counter of the witnesses: slot 0 waits for 0, slot 1 for 5; the count is 1.\<close>

definition sample_counter :: atomic_counter where
  "sample_counter = fst (snd (run_alone 5 (counterAddWaitingFiber 8 invalid_thread 5)
     (fst (snd (run_alone 5 (counterAddWaitingFiber 7 3 0) ((counter_reset counter_default)\<lparr>count := 1\<rparr>))))))"

lemma sample_counter_facts:
  "count sample_counter = 1" "waiters sample_counter 0 = Some (7, 3, 0)"
  "waiters sample_counter 1 = Some (8, invalid_thread, 5)" "woken_slots 0 sample_counter = [(7, 3)]"
  by code_simp+

lemma sample_counter_shape: "counter_shape sample_counter"
  unfolding counter_shape_def by code_simp

lemma claim_slots:
  assumes "k \<le> max_waiting" and "\<forall>i < k. \<not> free_waiting_slots c ! i"
  shows "run_alone k (AddClaim 0 f p target) c = (AddClaim k f p target, c, [])"
  using assms
proof (induction k)
  case (Suc k)
  then show ?case using run_alone_add [of k 1 "AddClaim 0 f p target" c] by simp
qed simp

lemma add_run:
  assumes "counter_shape c"
  shows "if \<forall>i < max_waiting. \<not> free_waiting_slots c ! i
    then \<exists>n. run_alone n (counterAddWaitingFiber f p target) c =
      (CFail (Assertion ''Counter waiting slots are full''), c, [])
    else \<exists>n c' i. run_alone n (counterAddWaitingFiber f p target) c =
        (AddDone (target = count c) (count c), c', []) \<and>
      i < max_waiting \<and> free_waiting_slots c ! i \<and> waiters c i = None \<and> count c' = count c \<and>
      waiters c' = (if target = count c then waiters c else (waiters c)(i := Some (f, p, target)))"
proof (cases "\<forall>i < max_waiting. \<not> free_waiting_slots c ! i")
  case True
  with claim_slots [OF order_refl this, of f p target] show ?thesis
    using run_alone_add [of max_waiting 1 "AddClaim 0 f p target" c]
    by (auto simp: counterAddWaitingFiber_def intro!: exI [of _ "max_waiting + 1"])
next
  case False
  define i where "i = (LEAST i. i < max_waiting \<and> free_waiting_slots c ! i)"
  have i: "i < max_waiting" "free_waiting_slots c ! i"
    unfolding i_def using False by (metis (mono_tags, lifting) LeastI)+
  have "\<forall>j < i. \<not> free_waiting_slots c ! j"
    using i(1) not_less_Least [of _ "\<lambda>i. i < max_waiting \<and> free_waiting_slots c ! i"]
    unfolding i_def [symmetric] by (meson less_trans)
  note claim = claim_slots [OF less_imp_le [OF i(1)] this, of f p target]
  have len: "i < length (waiting_fibers c)" "i < length (free_waiting_slots c)"
    using i(1) assms by (simp_all add: counter_shape_def)
  let ?open = "set_in_use i False (fill_slot i f p target (set_free i False c))"
  let ?c' = "if target = count c then set_free i True (set_in_use i True ?open) else ?open"
  have run: "run_alone (if target = count c then 8 else 6) (AddClaim i f p target) c =
      (AddDone (target = count c) (count c), ?c', [])"
    using i len by (cases "target = count c") (simp_all add: eval_nat_numeral slot_simps)
  have "waiters ?c' = (if target = count c then waiters c else (waiters c)(i := Some (f, p, target)))"
    using i len by (auto simp: fun_eq_iff waiters_def Let_def slot_simps)
  moreover have "count ?c' = count c" by (simp add: slot_simps)
  moreover have "waiters c i = None" using i by (simp add: waiters_def)
  moreover have "run_alone (i + (if target = count c then 8 else 6)) (counterAddWaitingFiber f p target) c =
      (AddDone (target = count c) (count c), ?c', [])"
    unfolding counterAddWaitingFiber_def run_alone_add claim prod.case run by simp
  ultimately have "\<exists>n c' i. run_alone n (counterAddWaitingFiber f p target) c =
        (AddDone (target = count c) (count c), c', []) \<and>
      i < max_waiting \<and> free_waiting_slots c ! i \<and> waiters c i = None \<and> count c' = count c \<and>
      waiters c' = (if target = count c then waiters c else (waiters c)(i := Some (f, p, target)))"
    using i by blast
  with False show ?thesis by (simp only: if_False)
qed



end
