(* ===== verification/Counter_Concurrent.thy ===== *)
theory Counter_Concurrent
  imports Counter
begin

text \<open>
  Any number of threads on one counter between two calls of \<open>reset\<close>: every thread runs
  \<open>counterAddWaitingFiber\<close> and \<open>counterIncrement\<close> as sequences of the atomic actions of
  \<open>Counter\<close>, interleaved arbitrarily. As long as no slot is claimed twice no waiter is lost and
  none is woken twice. The runs at the end of the theory show what happens outside of that.
\<close>

section \<open>Threads\<close>

record cconc =
  ctr :: atomic_counter
  cpcs :: "nat \<Rightarrow> cpc"
  claims :: "nat \<Rightarrow> nat"
  reg :: "nat \<Rightarrow> fiber_index_t \<times> thread_index_t \<times> cint"
  wlog :: "(nat \<times> fiber_index_t \<times> thread_index_t) list"
  kept :: "nat list"

text \<open>
  The auxiliary fields record how often a slot has been claimed and for whom, the slots whose
  fiber has been made resumable, and the slots that their own thread took back.
\<close>

fun log_claim :: "cpc \<Rightarrow> cpc \<Rightarrow> cconc \<Rightarrow> cconc" where
  "log_claim (AddClaim _ _ _ _) pc s =
     (case pc of AddFill i f p tg \<Rightarrow>
        s\<lparr>claims := (claims s)(i := Suc (claims s i)), reg := (reg s)(i := (f, p, tg))\<rparr> | _ \<Rightarrow> s)"
| "log_claim (AddTake _ _) pc s = (case pc of AddRelease i _ \<Rightarrow> s\<lparr>kept := i # kept s\<rparr> | _ \<Rightarrow> s)"
| "log_claim (ChkWake i _) pc s =
     s\<lparr>wlog := (i, fiber_index (waiting_fibers (ctr s) ! i),
                 pinned_thread_index (waiting_fibers (ctr s) ! i)) # wlog s\<rparr>"
| "log_claim _ _ s = s"

definition cthread_step :: "nat \<Rightarrow> cconc \<Rightarrow> cconc" where
  "cthread_step t s =
     (let r = cpc_step (cpcs s t) (ctr s)
      in (log_claim (cpcs s t) (fst r) s)\<lparr>ctr := fst (snd r), cpcs := (cpcs s)(t := fst r)\<rparr>)"

inductive counter_step :: "cconc \<Rightarrow> cconc \<Rightarrow> bool" where
  call_add: "cpc_returned (cpcs s t) \<Longrightarrow>
    counter_step s (s\<lparr>cpcs := (cpcs s)(t := counterAddWaitingFiber f p target)\<rparr>)"
| call_increment: "cpc_returned (cpcs s t) \<Longrightarrow>
    counter_step s (s\<lparr>cpcs := (cpcs s)(t := counterIncrement dbg amount)\<rparr>)"
| run: "\<not> cpc_returned (cpcs s t) \<Longrightarrow> counter_step s (cthread_step t s)"

definition cconc_init :: cconc where
  "cconc_init = \<lparr>ctr = counter_reset counter_default, cpcs = (\<lambda>_. IncDone 0), claims = (\<lambda>_. 0),
     reg = (\<lambda>_. (0, 0, 0)), wlog = [], kept = []\<rparr>"

inductive counter_reach :: "cconc \<Rightarrow> bool" where
  start: "counter_reach cconc_init"
| step: "counter_reach s \<Longrightarrow> counter_step s s' \<Longrightarrow> counter_reach s'"

section \<open>The invariant\<close>

text \<open>
  The roles of a thread for slot \<open>i\<close>: it is setting it up, it is past opening it, it holds the lock
  \<open>in_use\<close>, it has found it claimed and looks closer, and it will come by with value \<open>v\<close>.
\<close>

fun filling :: "nat \<Rightarrow> cpc \<Rightarrow> bool" where
  "filling i (AddFill j _ _ _) = (j = i)"
| "filling i (AddOpen j) = (j = i)"
| "filling i _ = False"

fun opened :: "nat \<Rightarrow> cpc \<Rightarrow> bool" where
  "opened i (AddLoad j) = (j = i)"
| "opened i (AddInUse j _) = (j = i)"
| "opened i (AddCompare j _) = (j = i)"
| "opened i (AddTake j _) = (j = i)"
| "opened i _ = False"

fun holding :: "nat \<Rightarrow> cpc \<Rightarrow> bool" where
  "holding i (AddRelease j _) = (j = i)"
| "holding i (ChkWake j _) = (j = i)"
| "holding i (ChkRelease j _) = (j = i)"
| "holding i _ = False"

fun probing :: "nat \<Rightarrow> cpc \<Rightarrow> bool" where
  "probing i (ChkInUse j _) = (j = i)"
| "probing i (ChkTarget j _) = (j = i)"
| "probing i (ChkTake j _) = (j = i)"
| "probing i _ = False"

fun taking :: "nat \<Rightarrow> cint \<Rightarrow> cpc \<Rightarrow> bool" where
  "taking i v (ChkTake j w) = (j = i \<and> w = v)"
| "taking i v (AddTake j w) = (j = i \<and> w = v)"
| "taking i v _ = False"

text \<open>A thread that will still see a waiter with target \<open>v\<close> in slot \<open>i\<close>.\<close>

fun will_see :: "nat \<Rightarrow> cint \<Rightarrow> cpc \<Rightarrow> bool" where
  "will_see i v (AddLoad j) = (j = i)"
| "will_see i v (AddInUse j w) = (j = i \<and> w = v)"
| "will_see i v (AddCompare j w) = (j = i \<and> w = v)"
| "will_see i v (AddTake j w) = (j = i \<and> w = v)"
| "will_see i v (ChkFree j w) = (j \<le> i \<and> w = v)"
| "will_see i v (ChkInUse j w) = (j \<le> i \<and> w = v)"
| "will_see i v (ChkTarget j w) = (j \<le> i \<and> w = v)"
| "will_see i v (ChkTake j w) = (j \<le> i \<and> w = v)"
| "will_see i v (ChkWake j w) = (j < i \<and> w = v)"
| "will_see i v (ChkRelease j w) = (j < i \<and> w = v)"
| "will_see i v _ = False"

definition adding :: "nat \<Rightarrow> cpc \<Rightarrow> bool" where
  "adding i pc \<longleftrightarrow> filling i pc \<or> opened i pc"

definition slot_free :: "cconc \<Rightarrow> nat \<Rightarrow> bool" where
  "slot_free s i = free_waiting_slots (ctr s) ! i"

definition slot_locked :: "cconc \<Rightarrow> nat \<Rightarrow> bool" where
  "slot_locked s i = in_use (waiting_fibers (ctr s) ! i)"

definition slot_target :: "cconc \<Rightarrow> nat \<Rightarrow> cint" where
  "slot_target s i = counter_target (waiting_fibers (ctr s) ! i)"

definition finished :: "cconc \<Rightarrow> nat list" where
  "finished s = map fst (wlog s) @ kept s"

definition slot_fresh :: "cconc \<Rightarrow> nat \<Rightarrow> bool" where
  "slot_fresh s i \<longleftrightarrow> claims s i = 0 \<longrightarrow>
     slot_free s i \<and> slot_locked s i \<and> i \<notin> set (finished s) \<and>
     (\<forall>t. \<not> adding i (cpcs s t) \<and> \<not> holding i (cpcs s t) \<and> \<not> probing i (cpcs s t))"

definition slot_owner :: "cconc \<Rightarrow> nat \<Rightarrow> bool" where
  "slot_owner s i \<longleftrightarrow>
     (\<forall>t u. adding i (cpcs s t) \<longrightarrow> adding i (cpcs s u) \<longrightarrow> t = u) \<and>
     (\<forall>t u. holding i (cpcs s t) \<longrightarrow> holding i (cpcs s u) \<longrightarrow> t = u) \<and>
     (\<forall>t u. filling i (cpcs s t) \<longrightarrow> \<not> holding i (cpcs s u)) \<and>
     (\<forall>t. filling i (cpcs s t) \<or> holding i (cpcs s t) \<longrightarrow> \<not> slot_free s i \<and> slot_locked s i)"

definition slot_lock :: "cconc \<Rightarrow> nat \<Rightarrow> bool" where
  "slot_lock s i \<longleftrightarrow>
     (\<not> slot_free s i \<and> slot_locked s i \<longrightarrow> (\<exists>t. filling i (cpcs s t) \<or> holding i (cpcs s t))) \<and>
     (\<not> slot_locked s i \<longrightarrow> \<not> slot_free s i)"

definition slot_log :: "cconc \<Rightarrow> nat \<Rightarrow> bool" where
  "slot_log s i \<longleftrightarrow>
     (claims s i = 1 \<longrightarrow> slot_free s i \<longrightarrow> i \<in> set (finished s)) \<and>
     (\<not> slot_locked s i \<longrightarrow> i \<notin> set (finished s)) \<and>
     (\<forall>t. filling i (cpcs s t) \<longrightarrow> i \<notin> set (finished s)) \<and>
     (\<forall>t v. cpcs s t = ChkWake i v \<longrightarrow> i \<notin> set (finished s)) \<and>
     (\<forall>t v. cpcs s t = ChkRelease i v \<or> cpcs s t = AddRelease i v \<longrightarrow> i \<in> set (finished s)) \<and>
     count_list (finished s) i \<le> 1"

definition slot_fields :: "cconc \<Rightarrow> nat \<Rightarrow> fiber_index_t \<times> thread_index_t \<times> cint" where
  "slot_fields s i = (let w = waiting_fibers (ctr s) ! i
     in (fiber_index w, pinned_thread_index w, counter_target w))"

definition slot_reg :: "cconc \<Rightarrow> nat \<Rightarrow> bool" where
  "slot_reg s i \<longleftrightarrow>
     (\<forall>t f p tg. cpcs s t = AddFill i f p tg \<longrightarrow> reg s i = (f, p, tg)) \<and>
     (\<forall>t. cpcs s t = AddOpen i \<or> holding i (cpcs s t) \<longrightarrow> slot_fields s i = reg s i) \<and>
     (\<not> slot_locked s i \<longrightarrow> slot_fields s i = reg s i) \<and>
     (\<forall>f p. (i, f, p) \<in> set (wlog s) \<longrightarrow> (\<exists>tg. reg s i = (f, p, tg)))"

definition slot_value :: "cconc \<Rightarrow> nat \<Rightarrow> bool" where
  "slot_value s i \<longleftrightarrow>
     (\<forall>t v. taking i v (cpcs s t) \<longrightarrow> slot_target s i = v) \<and>
     (\<forall>t u v. cpcs s t = ChkTarget i v \<or> taking i v (cpcs s t) \<longrightarrow> \<not> filling i (cpcs s u))"

definition slot_seen :: "cconc \<Rightarrow> nat \<Rightarrow> bool" where
  "slot_seen s i \<longleftrightarrow>
     (\<not> slot_locked s i \<longrightarrow> slot_target s i = count (ctr s) \<longrightarrow>
        (\<exists>t. will_see i (slot_target s i) (cpcs s t)))"

definition slot_inv :: "cconc \<Rightarrow> nat \<Rightarrow> bool" where
  "slot_inv s i \<longleftrightarrow> slot_fresh s i \<and> slot_owner s i \<and> slot_lock s i \<and> slot_log s i \<and>
     slot_reg s i \<and> slot_value s i \<and> slot_seen s i"

definition single_use :: "cconc \<Rightarrow> bool" where
  "single_use s \<longleftrightarrow> (\<forall>i. claims s i \<le> 1)"


section \<open>Preservation\<close>

lemma inc_start: "counterIncrement dbg amount = IncAdd amount \<or> (\<exists>e. counterIncrement dbg amount = CFail e)"
  by (auto simp: counterIncrement_def split: sum.splits)

lemma returned_roles:
  "cpc_returned pc \<Longrightarrow> \<not> adding i pc \<and> \<not> holding i pc \<and> \<not> probing i pc \<and> \<not> taking i v pc \<and> \<not> will_see i v pc"
  by (cases pc) (auto simp: adding_def)

lemma roles_imp:
  "taking i v pc \<Longrightarrow> opened i pc \<or> probing i pc"
  "filling i pc \<Longrightarrow> \<not> opened i pc \<and> \<not> holding i pc \<and> \<not> probing i pc"
  by (cases pc; simp)+

lemma slot_inv_init: "i < max_waiting \<Longrightarrow> slot_inv cconc_init i"
  by (simp add: slot_inv_def slot_fresh_def slot_owner_def slot_lock_def slot_log_def slot_reg_def
      slot_value_def slot_seen_def slot_free_def slot_locked_def finished_def adding_def
      cconc_init_def counter_reset_def counter_default_def)

lemma slot_invD:
  assumes "slot_inv s i"
  shows "slot_fresh s i" "slot_owner s i" "slot_lock s i" "slot_log s i" "slot_reg s i"
    "slot_value s i" "slot_seen s i"
  using assms by (simp_all add: slot_inv_def)

text \<open>
  A step of thread \<open>t\<close> that writes nothing of slot \<open>i\<close> and neither sets it up nor holds it, before
  and after, keeps the invariant of that slot if it takes note of a waiter it was to see.
\<close>

lemma slot_inv_neutral:
  assumes inv: "slot_inv s i" and pcs: "cpcs s' = (cpcs s)(t := pc')"
    and shared: "slot_free s' i = slot_free s i" "slot_locked s' i = slot_locked s i"
      "slot_fields s' i = slot_fields s i" "slot_target s' i = slot_target s i"
      "claims s' i = claims s i" "reg s' i = reg s i"
      "count_list (finished s') i = count_list (finished s) i"
      "\<And>f p. (i, f, p) \<in> set (wlog s') \<longleftrightarrow> (i, f, p) \<in> set (wlog s)"
    and idle: "\<not> filling i (cpcs s t)" "\<not> filling i pc'" "\<not> holding i (cpcs s t)" "\<not> holding i pc'"
    and op: "opened i pc' \<Longrightarrow> opened i (cpcs s t)"
    and pr: "probing i pc' \<Longrightarrow> claims s i \<noteq> 0"
    and take: "\<And>v. taking i v pc' \<Longrightarrow> slot_target s i = v"
    and look: "\<And>u v. pc' = ChkTarget i v \<or> taking i v pc' \<Longrightarrow> \<not> filling i (cpcs s u)"
    and see: "\<not> slot_locked s i \<Longrightarrow> slot_target s i = count (ctr s') \<Longrightarrow>
      will_see i (slot_target s i) pc' \<or>
      count (ctr s) = count (ctr s') \<and> \<not> will_see i (slot_target s i) (cpcs s t)"
  shows "slot_inv s' i"
proof -
  note [simp] = pcs shared
  have fin: "i \<in> set (finished s') \<longleftrightarrow> i \<in> set (finished s)"
    using shared(7) by (metis count_list_0_iff)
  have adding': "adding i pc' \<Longrightarrow> adding i (cpcs s t)"
    using op idle by (auto simp: adding_def)
  have "slot_fresh s' i" using slot_invD(1) [OF inv] fin idle adding' pr
    by (auto simp: slot_fresh_def)
  moreover have "slot_owner s' i" using slot_invD(2) [OF inv] adding' idle
    unfolding slot_owner_def pcs shared by (simp add: fun_upd_def) (metis (full_types))
  moreover have "slot_lock s' i"
  proof -
    have "\<exists>u. filling i (cpcs s' u) \<or> holding i (cpcs s' u)"
      if "filling i (cpcs s u) \<or> holding i (cpcs s u)" for u
      using that idle by (intro exI [of _ u]) auto
    with slot_invD(3) [OF inv] show ?thesis unfolding slot_lock_def shared by blast
  qed
  moreover have "slot_log s' i" using slot_invD(4) [OF inv] idle
    unfolding slot_log_def fin shared by (auto simp: fun_upd_def)
  moreover have "slot_reg s' i" using slot_invD(5) [OF inv] idle
    by (auto simp: slot_reg_def)
  moreover have "slot_value s' i" using slot_invD(6) [OF inv] idle take look
    by (auto simp: slot_value_def)
  moreover have "slot_seen s' i"
  proof -
    have "\<exists>u. will_see i (slot_target s i) (cpcs s' u)"
      if "\<not> slot_locked s i" "slot_target s i = count (ctr s')"
    proof (cases "will_see i (slot_target s i) pc'")
      case True
      then show ?thesis by (intro exI [of _ t]) simp
    next
      case False
      with see that slot_invD(7) [OF inv] obtain u where
        "will_see i (slot_target s i) (cpcs s u)" "\<not> will_see i (slot_target s i) (cpcs s t)"
        unfolding slot_seen_def by force
      then show ?thesis by (intro exI [of _ u]) auto
    qed
    then show ?thesis unfolding slot_seen_def shared by blast
  qed
  ultimately show ?thesis by (simp add: slot_inv_def)
qed

lemmas state_defs = slot_free_def slot_locked_def slot_target_def slot_fields_def finished_def

text \<open>A thread that is between operations and starts one changes no role.\<close>

lemma slot_inv_call:
  assumes inv: "slot_inv s i" and ret: "cpc_returned (cpcs s t)"
    and pc: "(\<exists>f p tg. pc = AddClaim 0 f p tg) \<or> (\<exists>a. pc = IncAdd a) \<or> (\<exists>e. pc = CFail e)"
  shows "slot_inv (s\<lparr>cpcs := (cpcs s)(t := pc)\<rparr>) i"
  by (rule slot_inv_neutral [OF inv, of _ t pc])
    (use pc returned_roles [OF ret, of i] in \<open>auto simp: state_defs adding_def\<close>)


text \<open>The effect of one action on the state, as far as slot \<open>i\<close> is concerned.\<close>

lemma cthread_step_pcs: "cpcs (cthread_step t s) = (cpcs s)(t := fst (cpc_step (cpcs s t) (ctr s)))"
  by (simp add: cthread_step_def Let_def)

lemma cthread_step_ctr: "ctr (cthread_step t s) = fst (snd (cpc_step (cpcs s t) (ctr s)))"
  by (simp add: cthread_step_def Let_def)

lemma log_claim_same:
  "ctr (log_claim pc pc' s) = ctr s" "cpcs (log_claim pc pc' s) = cpcs s"
  by (cases pc; auto split: cpc.splits)+

fun slot_of :: "cpc \<Rightarrow> nat option" where
  "slot_of (AddClaim i _ _ _) = Some i"
| "slot_of (AddFill i _ _ _) = Some i"
| "slot_of (AddOpen i) = Some i"
| "slot_of (AddTake i _) = Some i"
| "slot_of (AddRelease i _) = Some i"
| "slot_of (ChkTake i _) = Some i"
| "slot_of (ChkWake i _) = Some i"
| "slot_of (ChkRelease i _) = Some i"
| "slot_of _ = None"

lemma slot_facts:
  assumes "slot_inv s i"
  shows "filling i (cpcs s u) \<Longrightarrow> slot_locked s i \<and> \<not> slot_free s i"
    and "\<not> slot_locked s i \<Longrightarrow> \<not> slot_free s i"
    and "claims s i = 0 \<Longrightarrow> slot_free s i"
    and "opened i (cpcs s t) \<Longrightarrow> \<not> filling i (cpcs s u)"
    and "cpcs s t = ChkTarget i v \<or> taking i v (cpcs s t) \<Longrightarrow> \<not> filling i (cpcs s u)"
    and "taking i v (cpcs s t) \<Longrightarrow> slot_target s i = v"
    and "claims s i = 0 \<Longrightarrow> \<not> probing i (cpcs s t)"
  using slot_invD [OF assms] roles_imp(2) [of i "cpcs s u"] roles_imp(1) [of i v "cpcs s t"]
  unfolding slot_owner_def slot_lock_def slot_fresh_def slot_value_def adding_def
  by blast+

lemma log_claim_other:
  assumes "slot_of pc \<noteq> Some i"
  shows "claims (log_claim pc (fst (cpc_step pc c)) s) i = claims s i"
    and "reg (log_claim pc (fst (cpc_step pc c)) s) i = reg s i"
    and "count_list (kept (log_claim pc (fst (cpc_step pc c)) s)) i = count_list (kept s) i"
    and "count_list (map fst (wlog (log_claim pc (fst (cpc_step pc c)) s))) i =
      count_list (map fst (wlog s)) i"
    and "(i, f, p) \<in> set (wlog (log_claim pc (fst (cpc_step pc c)) s)) \<longleftrightarrow> (i, f, p) \<in> set (wlog s)"
  using assms by (cases pc; force)+

text \<open>Actions that are not a write of slot \<open>i\<close> nor of the count.\<close>

lemma slot_inv_elsewhere:
  assumes inv: "slot_inv s i" and i: "i < max_waiting"
    and other: "slot_of (cpcs s t) \<noteq> Some i" and "\<And>a. cpcs s t \<noteq> IncAdd a"
  shows "slot_inv (cthread_step t s) i"
proof -
  let ?s = "cthread_step t s"
  note facts = slot_facts [OF inv]
  have shared: "slot_free ?s i = slot_free s i" "slot_locked ?s i = slot_locked s i"
    "slot_fields ?s i = slot_fields s i" "slot_target ?s i = slot_target s i"
    "count (ctr ?s) = count (ctr s)"
    using other assms(4) by (cases "cpcs s t"; simp add: state_defs cthread_step_ctr set_free_def
        set_in_use_def fill_slot_def)+
  have logs: "claims ?s i = claims s i" "reg ?s i = reg s i"
    "count_list (finished ?s) i = count_list (finished s) i"
    "(i, f, p) \<in> set (wlog ?s) \<longleftrightarrow> (i, f, p) \<in> set (wlog s)" for f p
    by (simp_all add: cthread_step_def Let_def finished_def log_claim_other [OF other])
  let ?pc = "fst (cpc_step (cpcs s t) (ctr s))"
  have idle: "\<not> filling i (cpcs s t)" "\<not> filling i ?pc" "\<not> holding i (cpcs s t)" "\<not> holding i ?pc"
    "opened i ?pc \<Longrightarrow> opened i (cpcs s t)"
    using other by (cases "cpcs s t"; simp split: if_splits)+
  have probe: "probing i ?pc \<Longrightarrow> claims s i \<noteq> 0"
    using other facts(3) facts(7) [of t] by (cases "cpcs s t") (auto simp: slot_free_def split: if_splits)
  have take: "taking i v ?pc \<Longrightarrow> slot_target s i = v" for v
    using other by (cases "cpcs s t") (auto simp: slot_target_def split: if_splits)
  have look: "?pc = ChkTarget i v \<or> taking i v ?pc \<Longrightarrow> \<not> filling i (cpcs s u)" for u v
    using other facts(1) [of u] facts(4) [of t u] facts(5) [of t v u]
    by (cases "cpcs s t") (auto simp: slot_locked_def split: if_splits)
  have see: "\<not> slot_locked s i \<Longrightarrow> slot_target s i = count (ctr s) \<Longrightarrow>
      will_see i (slot_target s i) (cpcs s t) \<Longrightarrow> will_see i (slot_target s i) ?pc"
    using other facts(2) i
    by (cases "cpcs s t") (auto simp: slot_locked_def slot_free_def slot_target_def Suc_le_eq le_less
        split: if_splits)
  show ?thesis
    by (rule slot_inv_neutral [OF inv cthread_step_pcs shared(1-4) logs(1,2) logs(3,4)
          idle probe take look])
      (use see shared(5) in auto)
qed


text \<open>The writes of slot \<open>i\<close>. First the count: the thread then starts to look at every slot.\<close>

lemma slot_inv_count:
  assumes inv: "slot_inv s i" and pc: "cpcs s t = IncAdd a"
  shows "slot_inv (cthread_step t s) i"
proof (rule slot_inv_neutral [OF inv cthread_step_pcs])
qed (simp_all add: pc cthread_step_def state_defs)


text \<open>A step of the only thread that sets slot \<open>i\<close> up or holds it, if any does.\<close>

lemma slot_inv_write:
  assumes inv: "slot_inv s i" and pcs: "cpcs s' = (cpcs s)(t := pc')" and claimed: "claims s' i = 1"
    and others: "\<And>u. u \<noteq> t \<Longrightarrow> \<not> filling i (cpcs s u) \<and> \<not> holding i (cpcs s u)"
    and uniq: "\<And>u. adding i pc' \<Longrightarrow> u \<noteq> t \<Longrightarrow> \<not> opened i (cpcs s u)"
    and lock: "filling i pc' \<or> holding i pc' \<longleftrightarrow> \<not> slot_free s' i \<and> slot_locked s' i"
      "\<not> slot_locked s' i \<Longrightarrow> \<not> slot_free s' i"
    and log: "i \<in> set (finished s') \<longleftrightarrow>
        slot_free s' i \<or> (\<exists>v. pc' = ChkRelease i v \<or> pc' = AddRelease i v)"
      "count_list (finished s') i \<le> 1"
    and reg: "\<And>f p tg. pc' = AddFill i f p tg \<Longrightarrow> reg s' i = (f, p, tg)"
      "pc' = AddOpen i \<or> holding i pc' \<or> \<not> slot_locked s' i \<Longrightarrow> slot_fields s' i = reg s' i"
      "\<And>f p. (i, f, p) \<in> set (wlog s') \<Longrightarrow> \<exists>tg. reg s' i = (f, p, tg)"
    and val: "\<And>u v. u \<noteq> t \<Longrightarrow> taking i v (cpcs s u) \<Longrightarrow> slot_target s' i = v"
      "\<And>v. \<not> taking i v pc'" "\<And>v. pc' \<noteq> ChkTarget i v"
      "\<And>u v. filling i pc' \<Longrightarrow> u \<noteq> t \<Longrightarrow> cpcs s u \<noteq> ChkTarget i v \<and> \<not> taking i v (cpcs s u)"
    and seen: "\<not> slot_locked s' i \<Longrightarrow> will_see i (slot_target s' i) pc'"
  shows "slot_inv s' i"
proof -
  note [simp] = pcs
  have "slot_fresh s' i" using claimed by (simp add: slot_fresh_def)
  moreover have "slot_owner s' i"
  proof -
    have old: "u = w" if "adding i (cpcs s u)" "adding i (cpcs s w)" for u w
      using that slot_invD(2) [OF inv] by (simp add: slot_owner_def)
    have new: "\<not> adding i (cpcs s u)" if "adding i pc'" "u \<noteq> t" for u
      using that uniq others by (simp add: adding_def)
    have at: "u = t \<and> (filling i pc' \<or> holding i pc')"
      if "filling i (cpcs s' u) \<or> holding i (cpcs s' u)" for u
      using that others by (auto split: if_splits)
    show ?thesis
      unfolding slot_owner_def
    proof (intro conjI allI impI)
      fix u w
      show "u = w" if "adding i (cpcs s' u)" "adding i (cpcs s' w)"
        using that old [of u w] new [of u] new [of w] by (cases "u = t"; cases "w = t") auto
      show "u = w" if "holding i (cpcs s' u)" "holding i (cpcs s' w)"
        using that at by blast
      show "\<not> holding i (cpcs s' w)" if "filling i (cpcs s' u)"
        using at [of u] at [of w] that lock(1) roles_imp(2) [of i pc'] pcs by (metis fun_upd_same)
    next
      fix u
      assume "filling i (cpcs s' u) \<or> holding i (cpcs s' u)"
      with at lock(1) show "\<not> slot_free s' i" "slot_locked s' i" by blast+
    qed
  qed
  moreover have "slot_lock s' i"
  proof -
    have "cpcs s' t = pc'" by simp
    with lock show ?thesis unfolding slot_lock_def by metis
  qed
  moreover have "slot_log s' i"
  proof -
    have no: "\<not> filling i pc' \<and> pc' \<noteq> ChkWake i v \<and> slot_locked s' i" if "i \<in> set (finished s')" for v
      using that log(1) lock roles_imp(2) [of i pc'] by auto
    show ?thesis
      unfolding slot_log_def
    proof (intro conjI allI impI)
      fix u v
      show "i \<notin> set (finished s')" if "filling i (cpcs s' u)"
        using that no others [of u] by (cases "u = t") auto
      show "i \<notin> set (finished s')" if "cpcs s' u = ChkWake i v"
        using that no others [of u] by (cases "u = t") auto
      show "i \<in> set (finished s')" if "cpcs s' u = ChkRelease i v \<or> cpcs s' u = AddRelease i v"
        using that log(1) others [of u] by (cases "u = t") auto
    qed (use log no in auto)
  qed
  moreover have "slot_reg s' i"
  proof -
    have ne: False if "u \<noteq> t" "cpcs s u = AddFill i f p tg \<or> cpcs s u = AddOpen i" for u f p tg
      using others [OF that(1)] that(2) by auto
    show ?thesis unfolding slot_reg_def using reg others by (auto dest: ne)
  qed
  moreover have "slot_value s' i"
    unfolding slot_value_def using val others slot_facts(5) [OF inv] by auto
  moreover have "slot_seen s' i"
    unfolding slot_seen_def using seen by (auto intro!: exI [of _ t])
  ultimately show ?thesis by (simp add: slot_inv_def)
qed


lemma role_facts:
  assumes inv: "slot_inv s i" and "claims s i \<le> 1"
  shows "filling i (cpcs s t) \<or> holding i (cpcs s t) \<or> opened i (cpcs s t) \<or> probing i (cpcs s t) \<Longrightarrow>
      claims s i = 1"
    and "filling i (cpcs s t) \<Longrightarrow> u \<noteq> t \<Longrightarrow>
      \<not> filling i (cpcs s u) \<and> \<not> holding i (cpcs s u) \<and> \<not> opened i (cpcs s u)"
    and "holding i (cpcs s t) \<Longrightarrow> u \<noteq> t \<Longrightarrow> \<not> filling i (cpcs s u) \<and> \<not> holding i (cpcs s u)"
    and "\<not> slot_locked s i \<Longrightarrow> \<not> filling i (cpcs s u) \<and> \<not> holding i (cpcs s u)"
    and "filling i (cpcs s t) \<or> holding i (cpcs s t) \<Longrightarrow> \<not> slot_free s i \<and> slot_locked s i"
    and "filling i (cpcs s t) \<or> (\<exists>v. cpcs s t = ChkWake i v) \<or> \<not> slot_locked s i \<Longrightarrow>
      i \<notin> set (finished s)"
proof -
  note o = slot_invD(2) [OF inv, unfolded slot_owner_def adding_def]
  have "claims s i = 0 \<or> claims s i = 1" using assms(2) by auto
  then show "filling i (cpcs s t) \<or> holding i (cpcs s t) \<or> opened i (cpcs s t) \<or> probing i (cpcs s t) \<Longrightarrow>
      claims s i = 1"
    using slot_invD(1) [OF inv] by (auto simp: slot_fresh_def adding_def)
  show "filling i (cpcs s t) \<Longrightarrow> u \<noteq> t \<Longrightarrow>
      \<not> filling i (cpcs s u) \<and> \<not> holding i (cpcs s u) \<and> \<not> opened i (cpcs s u)"
    using o by blast
  show "holding i (cpcs s t) \<Longrightarrow> u \<noteq> t \<Longrightarrow> \<not> filling i (cpcs s u) \<and> \<not> holding i (cpcs s u)"
    using o by blast
  show "\<not> slot_locked s i \<Longrightarrow> \<not> filling i (cpcs s u) \<and> \<not> holding i (cpcs s u)"
    using o by blast
  show "filling i (cpcs s t) \<or> holding i (cpcs s t) \<Longrightarrow> \<not> slot_free s i \<and> slot_locked s i"
    using o by blast
  show "filling i (cpcs s t) \<or> (\<exists>v. cpcs s t = ChkWake i v) \<or> \<not> slot_locked s i \<Longrightarrow>
      i \<notin> set (finished s)"
    using slot_invD(4) [OF inv] by (auto simp: slot_log_def)
qed

lemma not_finished_count: "i \<notin> set xs \<Longrightarrow> count_list xs i = 0"
  by (rule count_notin)

lemma not_finished_wlog:
  "i \<notin> set (finished s) \<Longrightarrow> (i, g, h) \<notin> set (wlog s)" "i \<notin> set (finished s) \<Longrightarrow> i \<notin> set (kept s)"
  by (force simp: finished_def)+

lemmas write_simps = cthread_step_def Let_def state_defs slot_simps counter_shape_def

text \<open>The actions of \<open>counterAddWaitingFiber\<close> on its own slot.\<close>

lemma slot_inv_claim:
  assumes inv: "slot_inv s i" and i: "i < max_waiting" and shape: "counter_shape (ctr s)"
    and pc: "cpcs s t = AddClaim i f p tg" and use: "claims (cthread_step t s) i \<le> 1"
  shows "slot_inv (cthread_step t s) i"
proof (cases "free_waiting_slots (ctr s) ! i")
  case True
  then have c0: "claims s i = 0" using use i pc by (simp add: cthread_step_def Let_def)
  then have none: "\<not> filling i (cpcs s u) \<and> \<not> opened i (cpcs s u) \<and> \<not> holding i (cpcs s u) \<and>
      \<not> probing i (cpcs s u)" "i \<notin> set (finished s)" "slot_locked s i" for u
    using slot_invD(1) [OF inv] by (auto simp: slot_fresh_def adding_def)
  have wake: "(i, g, r) \<notin> set (wlog s)" for g r
    using none(2) by (force simp: finished_def)
  have take: "\<not> taking i v (cpcs s u)" "cpcs s u \<noteq> ChkTarget i v" for u v
    using none(1) [of u] roles_imp(1) [of i v "cpcs s u"] by auto
  show ?thesis
    by (rule slot_inv_write [OF inv cthread_step_pcs])
      (use True i shape c0 none wake take in
        \<open>auto simp: pc write_simps not_finished_count [OF none(2), unfolded finished_def, simplified]\<close>)
next
  case False
  show ?thesis
    by (rule slot_inv_neutral [OF inv cthread_step_pcs])
      (use False pc i in \<open>auto simp: state_defs cthread_step_def Let_def\<close>)
qed


lemma slot_inv_fill:
  assumes inv: "slot_inv s i" and i: "i < max_waiting" and shape: "counter_shape (ctr s)"
    and use: "claims s i \<le> 1"
    and pc: "cpcs s t = AddFill i f p tg \<or> cpcs s t = AddOpen i"
  shows "slot_inv (cthread_step t s) i"
proof -
  have fill: "filling i (cpcs s t)" using pc by auto
  note r = role_facts [OF inv use]
  have fin: "i \<notin> set (finished s)" using r(6) fill by blast
  have regs: "cpcs s t = AddFill i f p tg \<Longrightarrow> reg s i = (f, p, tg)"
    "cpcs s t = AddOpen i \<Longrightarrow> slot_fields s i = reg s i"
    "(i, g, h) \<in> set (wlog s) \<Longrightarrow> \<exists>tg. reg s i = (g, h, tg)" for g h
    using slot_invD(5) [OF inv] unfolding slot_reg_def by blast+
  have take: "\<not> taking i v (cpcs s u)" "cpcs s u \<noteq> ChkTarget i v" for u v
    using slot_facts(5) [OF inv, of u v t] fill by auto
  have no: "\<not> slot_free s i" "slot_locked s i" "claims s i = 1" using r(1,5) fill by blast+
  show ?thesis
    by (rule slot_inv_write [OF inv cthread_step_pcs])
      (use pc i shape no regs take r(2) [OF fill] in
        \<open>auto simp: write_simps not_finished_count [OF fin, unfolded finished_def, simplified]
          not_finished_wlog [OF fin]\<close>)
qed

text \<open>Taking the lock of an open slot, in either operation.\<close>

lemma slot_inv_take:
  assumes inv: "slot_inv s i" and i: "i < max_waiting" and shape: "counter_shape (ctr s)"
    and use: "claims s i \<le> 1" and pc: "cpcs s t = AddTake i v \<or> cpcs s t = ChkTake i v"
  shows "slot_inv (cthread_step t s) i"
proof (cases "slot_locked s i")
  case True
  then show ?thesis
    by (intro slot_inv_neutral [OF inv cthread_step_pcs])
      (use pc in \<open>auto simp: state_defs cthread_step_def Let_def\<close>)
next
  case False
  note r = role_facts [OF inv use] and f = slot_facts [OF inv]
  have fin: "i \<notin> set (finished s)" using r(6) False by blast
  have cl: "claims s i = 1" using r(1) [of t] pc by auto
  have regs: "slot_fields s i = reg s i" "(i, g, h) \<in> set (wlog s) \<Longrightarrow> \<exists>tg. reg s i = (g, h, tg)" for g h
    using slot_invD(5) [OF inv] False unfolding slot_reg_def by blast+
  have take: "taking i w (cpcs s u) \<Longrightarrow> slot_target s i = w" for u w
    using f(6) by blast
  show ?thesis
    by (rule slot_inv_write [OF inv cthread_step_pcs])
      (use pc i shape False cl regs take f(2) [OF False] r(4) [OF False] in
        \<open>auto simp: write_simps adding_def not_finished_count [OF fin, unfolded finished_def, simplified]
          not_finished_wlog [OF fin]\<close>)
qed

text \<open>The holder of the lock.\<close>

lemma slot_inv_hold:
  assumes inv: "slot_inv s i" and i: "i < max_waiting" and shape: "counter_shape (ctr s)"
    and use: "claims s i \<le> 1" and hold: "holding i (cpcs s t)"
  shows "slot_inv (cthread_step t s) i"
proof -
  note r = role_facts [OF inv use]
  have cl: "claims s i = 1" using r(1) [of t] hold by blast
  have no: "\<not> slot_free s i" "slot_locked s i" using r(5) hold by blast+
  have regs: "slot_fields s i = reg s i" "(i, g, h) \<in> set (wlog s) \<Longrightarrow> \<exists>tg. reg s i = (g, h, tg)" for g h
    using slot_invD(5) [OF inv] hold unfolding slot_reg_def by blast+
  have take: "taking i w (cpcs s u) \<Longrightarrow> slot_target s i = w" for u w
    using slot_facts(6) [OF inv] by blast
  have log: "cpcs s t = ChkRelease i v \<or> cpcs s t = AddRelease i v \<Longrightarrow> i \<in> set (finished s)"
    "count_list (finished s) i \<le> 1" for v
    using slot_invD(4) [OF inv] unfolding slot_log_def by blast+
  show ?thesis
  proof (cases "\<exists>v. cpcs s t = ChkWake i v")
    case True
    then have fin: "i \<notin> set (finished s)" using r(6) by blast
    show ?thesis
      by (rule slot_inv_write [OF inv cthread_step_pcs])
        (use True i shape no cl regs(1) [symmetric] regs(2) take r(3) [OF hold] in
          \<open>auto simp: write_simps adding_def not_finished_count [OF fin, unfolded finished_def, simplified]\<close>)
  next
    case False
    with hold have pc: "\<exists>v. cpcs s t = AddRelease i v \<or> cpcs s t = ChkRelease i v"
      by (cases "cpcs s t") auto
    then have fin: "i \<in> set (finished s)" using log(1) by blast
    show ?thesis
      by (rule slot_inv_write [OF inv cthread_step_pcs])
        (use pc fin i shape no cl regs take log(2) r(3) [OF hold] in
          \<open>auto simp: write_simps adding_def\<close>)
  qed
qed

lemma slot_inv_run:
  assumes inv: "slot_inv s i" and i: "i < max_waiting" and shape: "counter_shape (ctr s)"
    and use: "claims s i \<le> 1" "claims (cthread_step t s) i \<le> 1"
  shows "slot_inv (cthread_step t s) i"
proof (cases "cpcs s t")
  case (IncAdd a)
  then show ?thesis by (rule slot_inv_count [OF inv])
next
  case (AddClaim j f p tg)
  then show ?thesis
    using slot_inv_claim [OF inv i shape _ use(2)] slot_inv_elsewhere [OF inv i]
    by (cases "j = i") auto
next
  case (AddFill j f p tg)
  then show ?thesis
    using slot_inv_fill [OF inv i shape use(1)] slot_inv_elsewhere [OF inv i] by (cases "j = i") auto
next
  case (AddOpen j)
  then show ?thesis
    using slot_inv_fill [OF inv i shape use(1)] slot_inv_elsewhere [OF inv i] by (cases "j = i") auto
next
  case (AddTake j v)
  then show ?thesis
    using slot_inv_take [OF inv i shape use(1)] slot_inv_elsewhere [OF inv i] by (cases "j = i") auto
next
  case (ChkTake j v)
  then show ?thesis
    using slot_inv_take [OF inv i shape use(1)] slot_inv_elsewhere [OF inv i] by (cases "j = i") auto
next
  case (AddRelease j v)
  then show ?thesis
    using slot_inv_hold [OF inv i shape use(1)] slot_inv_elsewhere [OF inv i] by (cases "j = i") auto
next
  case (ChkWake j v)
  then show ?thesis
    using slot_inv_hold [OF inv i shape use(1)] slot_inv_elsewhere [OF inv i] by (cases "j = i") auto
next
  case (ChkRelease j v)
  then show ?thesis
    using slot_inv_hold [OF inv i shape use(1)] slot_inv_elsewhere [OF inv i] by (cases "j = i") auto
qed (use slot_inv_elsewhere [OF inv i] in auto)


section \<open>Reachable states\<close>

lemma counter_step_shape:
  assumes "counter_step s s'" and "counter_shape (ctr s)"
  shows "counter_shape (ctr s')"
  using assms by (cases rule: counter_step.cases) (auto simp: cthread_step_ctr cpc_step_shape)

lemma log_claim_mono: "claims s i \<le> claims (log_claim pc pc' s) i"
  by (cases pc) (auto split: cpc.splits)

lemma counter_step_claims:
  assumes "counter_step s s'"
  shows "claims s i \<le> claims s' i"
  using assms
  by (cases rule: counter_step.cases) (auto simp: cthread_step_def Let_def log_claim_mono)

lemma counter_step_inv:
  assumes st: "counter_step s s'" and use: "single_use s'" and shape: "counter_shape (ctr s)"
    and inv: "\<And>i. i < max_waiting \<Longrightarrow> slot_inv s i" and i: "i < max_waiting"
  shows "slot_inv s' i"
proof -
  have le: "claims s i \<le> 1" "claims s' i \<le> 1"
    using use counter_step_claims [OF st, of i] by (auto simp: single_use_def intro: order_trans)
  from st show ?thesis
  proof (cases rule: counter_step.cases)
    case (call_add t f p tg)
    then show ?thesis
      using slot_inv_call [OF inv [OF i], of t] by (auto simp: counterAddWaitingFiber_def)
  next
    case (call_increment t dbg amount)
    then show ?thesis
      using slot_inv_call [OF inv [OF i], of t "counterIncrement dbg amount"] inc_start [of dbg amount]
      by auto
  next
    case (run t)
    then show ?thesis using slot_inv_run [OF inv [OF i] i shape] le by auto
  qed
qed

lemma counter_reach_shape: "counter_reach s \<Longrightarrow> counter_shape (ctr s)"
  by (induction rule: counter_reach.induct)
    (auto simp: cconc_init_def counter_default_def intro: counter_step_shape)

lemma counter_reach_inv:
  assumes "counter_reach s" and "single_use s" and "i < max_waiting"
  shows "slot_inv s i"
  using assms
proof (induction arbitrary: i rule: counter_reach.induct)
  case start
  then show ?case by (intro slot_inv_init)
next
  case (step s s')
  have "single_use s"
    using step.prems(1) counter_step_claims [OF step.hyps(2)] by (auto simp: single_use_def intro: order_trans)
  with step show ?case using counter_step_inv counter_reach_shape by blast
qed

section \<open>Properties\<close>

text \<open>
  C9: no waiter is lost and none is handled twice: in every state in which all operations have
  returned, a slot that has been claimed once either still holds its fiber, and the count is not at
  its target, or it was finished exactly once, by making the fiber resumable or by telling the
  waiting thread to go on. This holds for every interleaving in which no slot is claimed twice.
\<close>

theorem counter_no_lost_waiter:
  assumes "counter_reach s" and "single_use s" and "\<forall>t. cpc_returned (cpcs s t)"
    and "i < max_waiting" and "claims s i = 1"
  shows "waiters (ctr s) i = Some (reg s i) \<and> snd (snd (reg s i)) \<noteq> count (ctr s) \<and>
      i \<notin> set (finished s) \<or>
    waiters (ctr s) i = None \<and> count_list (finished s) i = 1"
proof -
  note inv = counter_reach_inv [OF assms(1,2,4)]
  note d = slot_invD [OF inv]
  have none: "\<not> filling i (cpcs s t)" "\<not> holding i (cpcs s t)" "\<not> will_see i v (cpcs s t)" for t v
    using returned_roles [of "cpcs s t" i v] assms(3) roles_imp(2) [of i "cpcs s t"]
    by (auto simp: adding_def)
  have "slot_free s i \<and> slot_locked s i \<or> \<not> slot_free s i \<and> \<not> slot_locked s i"
    using d(3) none unfolding slot_lock_def by blast
  then show ?thesis
  proof
    assume st: "slot_free s i \<and> slot_locked s i"
    then have "i \<in> set (finished s)" and "count_list (finished s) i \<le> 1"
      using d(4) assms(5) by (auto simp: slot_log_def)
    then have "count_list (finished s) i = 1"
      by (metis count_list_0_iff le_antisym less_one linorder_not_less)
    with st show ?thesis by (simp add: waiters_def slot_free_def)
  next
    assume st: "\<not> slot_free s i \<and> \<not> slot_locked s i"
    then have "slot_target s i \<noteq> count (ctr s)"
      using d(7) none unfolding slot_seen_def by blast
    moreover have fields: "reg s i = slot_fields s i" using d(5) st by (simp add: slot_reg_def)
    moreover have "i \<notin> set (finished s)" using d(4) st by (simp add: slot_log_def)
    ultimately show ?thesis
      using st assms(4) by (simp add: fields waiters_def Let_def state_defs)
  qed
qed

text \<open>
  C10: at every moment of such a run, a fiber that has been made resumable is the one that claimed
  the slot, with the thread it is pinned to; it has been made resumable once, and its own thread has
  not been told to go on.
\<close>

theorem counter_wakes_once:
  assumes "counter_reach s" and "single_use s" and "i < max_waiting" and "(i, f, p) \<in> set (wlog s)"
  shows "(\<exists>target. reg s i = (f, p, target)) \<and> count_list (map fst (wlog s)) i = 1 \<and> i \<notin> set (kept s)"
proof -
  note d = slot_invD [OF counter_reach_inv [OF assms(1-3)]]
  have "\<exists>target. reg s i = (f, p, target)" using d(5) assms(4) by (auto simp: slot_reg_def)
  moreover have "i \<in> set (map fst (wlog s))" using assms(4) by force
  then have "1 \<le> count_list (map fst (wlog s)) i"
    by (metis count_list_0_iff less_one not_le)
  moreover have "count_list (map fst (wlog s)) i + count_list (kept s) i \<le> 1"
    using d(4) by (simp add: slot_log_def finished_def)
  ultimately show ?thesis by (auto simp: count_list_0_iff [symmetric])
qed

section \<open>Runs\<close>

datatype counter_action = CAdd nat fiber_index_t thread_index_t cint | CInc nat cint | CRun nat

fun cperform :: "counter_action \<Rightarrow> cconc \<Rightarrow> cconc option" where
  "cperform (CAdd t f p tg) s = (if cpc_returned (cpcs s t)
     then Some (s\<lparr>cpcs := (cpcs s)(t := counterAddWaitingFiber f p tg)\<rparr>) else None)"
| "cperform (CInc t a) s = (if cpc_returned (cpcs s t)
     then Some (s\<lparr>cpcs := (cpcs s)(t := counterIncrement True a)\<rparr>) else None)"
| "cperform (CRun t) s = (if cpc_returned (cpcs s t) then None else Some (cthread_step t s))"

fun cperform_all :: "counter_action list \<Rightarrow> cconc \<Rightarrow> cconc option" where
  "cperform_all [] s = Some s"
| "cperform_all (a # as) s = (case cperform a s of None \<Rightarrow> None | Some s' \<Rightarrow> cperform_all as s')"

lemma cperform_step: "cperform a s = Some s' \<Longrightarrow> counter_step s s'"
  by (cases a) (auto split: if_splits intro: counter_step.intros)

lemma cperform_all_reach:
  "counter_reach s \<Longrightarrow> cperform_all as s = Some s' \<Longrightarrow> counter_reach s'"
  by (induction as arbitrary: s) (auto split: option.splits dest: cperform_step intro: counter_reach.step)

definition cstate :: "counter_action list \<Rightarrow> cconc" where
  "cstate as = the (cperform_all as cconc_init)"

lemma cstate_reach: "cperform_all as cconc_init \<noteq> None \<Longrightarrow> counter_reach (cstate as)"
  unfolding cstate_def using cperform_all_reach [OF counter_reach.start] by fastforce

lemma cperform_all_append:
  "cperform_all (as @ bs) s = (case cperform_all as s of None \<Rightarrow> None | Some s' \<Rightarrow> cperform_all bs s')"
  by (induction as arbitrary: s) (auto split: option.splits)

text \<open>Only the thread of an action moves.\<close>

fun actor :: "counter_action \<Rightarrow> nat" where
  "actor (CAdd t _ _ _) = t"
| "actor (CInc t _) = t"
| "actor (CRun t) = t"

lemma cperform_others: "cperform a s = Some s' \<Longrightarrow> t \<noteq> actor a \<Longrightarrow> cpcs s' t = cpcs s t"
  by (cases a) (auto split: if_splits simp: cthread_step_pcs)

lemma cperform_all_others:
  "cperform_all as s = Some s' \<Longrightarrow> t \<notin> actor ` set as \<Longrightarrow> cpcs s' t = cpcs s t"
  by (induction as arbitrary: s) (auto split: option.splits dest: cperform_others)


text \<open>
  The run of the witnesses: thread 0 submits a task, its fiber 5 waits for 0, thread 1 finishes the
  task.
\<close>

definition wake_run :: "counter_action list" where
  "wake_run = CInc 0 1 # replicate 34 (CRun 0) @ CAdd 0 5 invalid_thread 0 # replicate 6 (CRun 0)
     @ CInc 1 (- 1) # replicate 39 (CRun 1)"

lemma wake_run_facts:
  "cperform_all wake_run cconc_init \<noteq> None"
  "wlog (cstate wake_run) = [(0, 5, invalid_thread)]" "kept (cstate wake_run) = []"
  "claims (cstate wake_run) 0 = 1"
  "count (ctr (cstate wake_run)) = 0" "reg (cstate wake_run) 0 = (5, invalid_thread, 0)"
  "cpc_returned (cpcs (cstate wake_run) 0)" "cpc_returned (cpcs (cstate wake_run) 1)"
  by code_simp+


lemma claims_bound:
  assumes "counter_reach s" and "max_waiting \<le> i"
  shows "claims s i = 0"
  using assms
proof (induction rule: counter_reach.induct)
  case start
  show ?case by (simp add: cconc_init_def)
next
  case (step s s')
  from step.hyps(2) show ?case
  proof (cases rule: counter_step.cases)
    case (run t)
    then show ?thesis
      using step by (cases "cpcs s t") (auto simp: cthread_step_def Let_def)
  qed (use step in auto)
qed

lemma single_useI:
  assumes "counter_reach s" and "list_all (\<lambda>i. claims s i \<le> 1) [0..<max_waiting]"
  shows "single_use s"
  using claims_bound [OF assms(1)] assms(2)
  by (auto simp: single_use_def list_all_iff not_less [symmetric])

lemma all_returnedI:
  assumes "cperform_all as cconc_init \<noteq> None" and "\<forall>t \<in> actor ` set as. cpc_returned (cpcs (cstate as) t)"
  shows "\<forall>t. cpc_returned (cpcs (cstate as) t)"
proof
  fix t
  obtain s where s: "cperform_all as cconc_init = Some s" using assms(1) by blast
  show "cpc_returned (cpcs (cstate as) t)"
  proof (cases "t \<in> actor ` set as")
    case False
    with cperform_all_others [OF s] s show ?thesis by (simp add: cstate_def cconc_init_def)
  qed (use assms(2) in blast)
qed

lemma wake_run_reach: "counter_reach (cstate wake_run)"
  by (rule cstate_reach [OF wake_run_facts(1)])

lemma wake_run_single: "single_use (cstate wake_run)"
  by (rule single_useI [OF wake_run_reach]) code_simp

lemma wake_run_returned: "\<forall>t. cpc_returned (cpcs (cstate wake_run) t)"
  by (rule all_returnedI [OF wake_run_facts(1)])
    (use wake_run_facts(7,8) in \<open>auto simp: wake_run_def\<close>)

theorem counter_no_lost_waiter_witness:
  "waiters (ctr (cstate wake_run)) 0 = None \<and> count_list (finished (cstate wake_run)) 0 = 1"
proof -
  have "(0 :: nat) < max_waiting" by (simp add: max_waiting_def)
  from counter_no_lost_waiter [OF wake_run_reach wake_run_single wake_run_returned this wake_run_facts(4)]
  show ?thesis by (simp add: wake_run_facts)
qed

theorem counter_wakes_once_witness:
  "count_list (map fst (wlog (cstate wake_run))) 0 = 1 \<and> 0 \<notin> set (kept (cstate wake_run))"
proof -
  have "(0 :: nat) < max_waiting" by (simp add: max_waiting_def)
  moreover have "(0, 5, invalid_thread) \<in> set (wlog (cstate wake_run))" by (simp add: wake_run_facts)
  ultimately show ?thesis
    using counter_wakes_once [OF wake_run_reach wake_run_single] by blast
qed

section \<open>Where the guarantee ends\<close>

text \<open>
  Thread 0 submits a task; thread 1 runs it and its decrement reaches 0, but it has not looked at
  the slots yet. Thread 0 submits a second task on the same counter, so that the count is 1 again,
  and waits for 0: it parks its fiber, because the count is 1. Only then does thread 1 look.
\<close>

definition early_prefix :: "counter_action list" where
  "early_prefix = CInc 0 1 # replicate 34 (CRun 0) @ [CInc 1 (- 1), CRun 1] @ CInc 0 1 # replicate 34 (CRun 0)"

definition early_wait :: "counter_action list" where
  "early_wait = CAdd 0 5 invalid_thread 0 # replicate 6 (CRun 0)"

definition early_scan :: "counter_action list" where
  "early_scan = replicate 38 (CRun 1)"

text \<open>
  \<open>wait\<close> can return while a task of its counter is outstanding. In the run above the fiber starts
  to wait when the count is 1, the count stays 1 (no thread is about to change it), every slot is
  claimed at most once, and yet the fiber is made resumable.
\<close>

theorem counter_premature_wake:
  "\<exists>s0 s1 s2. counter_reach s0 \<and> count (ctr s0) = 1 \<and> cpcs s0 1 = ChkFree 0 0 \<and>
     cperform_all early_wait s0 = Some s1 \<and> cpcs s1 0 = AddDone False 1 \<and>
     waiters (ctr s1) 0 = Some (5, invalid_thread, 0) \<and> count (ctr s1) = 1 \<and>
     cperform_all early_scan s1 = Some s2 \<and> count (ctr s2) = 1 \<and> single_use s2 \<and>
     wlog s2 = [(0, 5, invalid_thread)]"
proof -
  let ?s0 = "cstate early_prefix" and ?s1 = "cstate (early_prefix @ early_wait)"
    and ?s2 = "cstate (early_prefix @ early_wait @ early_scan)"
  have ok: "cperform_all (early_prefix @ early_wait @ early_scan) cconc_init \<noteq> None" by code_simp
  then obtain s0 s1 s2 where run: "cperform_all early_prefix cconc_init = Some s0"
      "cperform_all early_wait s0 = Some s1" "cperform_all early_scan s1 = Some s2"
    by (auto simp: cperform_all_append split: option.splits)
  have eq: "?s0 = s0" "?s1 = s1" "?s2 = s2"
    using run by (simp_all add: cstate_def cperform_all_append)
  have f0: "count (ctr ?s0) = 1" "cpcs ?s0 1 = ChkFree 0 0" by code_simp+
  have f1: "cpcs ?s1 0 = AddDone False 1" "waiters (ctr ?s1) 0 = Some (5, invalid_thread, 0)"
    "count (ctr ?s1) = 1" by code_simp+
  have f2: "count (ctr ?s2) = 1" "wlog ?s2 = [(0, 5, invalid_thread)]" by code_simp+
  have "single_use ?s2"
    by (rule single_useI [OF cstate_reach [OF ok]]) code_simp
  moreover have "counter_reach ?s0" by (rule cstate_reach) (simp add: run)
  ultimately show ?thesis using run f0 f1 f2 unfolding eq by blast
qed

text \<open>
  Thread 0 registers fiber 5 while the count is 1. Thread 1 decrements to 0 and takes the slot;
  thread 0 loads the count, 0. Thread 1 makes fiber 5 resumable and frees the slot, thread 2 submits
  a task and registers fiber 6 in the same slot. Thread 0 goes on with the slot as if it were its own.
\<close>

definition reuse_run :: "counter_action list" where
  "reuse_run = CInc 2 1 # replicate 34 (CRun 2) @ CAdd 0 5 invalid_thread 0 # replicate 3 (CRun 0)
     @ CInc 1 (- 1) # replicate 5 (CRun 1) @ CRun 0 # replicate 34 (CRun 1)
     @ CInc 2 1 # replicate 34 (CRun 2) @ CAdd 2 6 invalid_thread 0 # replicate 6 (CRun 2)
     @ replicate 4 (CRun 0) @ CInc 1 (- 1) # replicate 34 (CRun 1)"

text \<open>
  C12: without the restriction to one claim per slot a waiter is lost: in the run above all operations
  return, the count is 0, fiber 6 has been told to wait for 0 in slot 0, and it is neither in that
  slot any more nor has it been made resumable.
\<close>

theorem counter_lost_waiter:
  "\<exists>s. counter_reach s \<and> (\<forall>t. cpc_returned (cpcs s t)) \<and> count (ctr s) = 0 \<and> claims s 0 = 2 \<and>
     reg s 0 = (6, invalid_thread, 0) \<and> cpcs s 2 = AddDone False 1 \<and>
     list_all (\<lambda>i. waiters (ctr s) i = None) [0..<max_waiting] \<and> wlog s = [(0, 5, invalid_thread)]"
proof -
  let ?s = "cstate reuse_run"
  have ok: "cperform_all reuse_run cconc_init \<noteq> None" by code_simp
  have "cpc_returned (cpcs ?s 0)" "cpc_returned (cpcs ?s 1)" "cpc_returned (cpcs ?s 2)" by code_simp+
  then have "\<forall>t. cpc_returned (cpcs ?s t)"
    by (intro all_returnedI [OF ok]) (auto simp: reuse_run_def)
  moreover have "count (ctr ?s) = 0" "claims ?s 0 = 2" "reg ?s 0 = (6, invalid_thread, 0)"
    "cpcs ?s 2 = AddDone False 1" "wlog ?s = [(0, 5, invalid_thread)]" by code_simp+
  moreover have "list_all (\<lambda>i. waiters (ctr ?s) i = None) [0..<max_waiting]" by code_simp
  ultimately show ?thesis using cstate_reach [OF ok] by blast
qed

end
