(* ===== verification/Task.thy ===== *)
theory Task
  imports Prelude
begin

text \<open>
  \<open>container::task\<close> (container/task.hh): a block of one cache line with a buffer for the function
  object, two bytes of metadata and a pointer to the code that runs the buffer's content. The
  variant with heap-allocated lambdas (TD_ALLOW_HEAP_TASKS) is off by default and not modelled.
\<close>

section \<open>Bytes of a pointer\<close>

type_synonym byte = "8 word"
type_synonym pointer = "64 word"

definition bytes_of :: "pointer \<Rightarrow> byte list" where
  "bytes_of p = map (\<lambda>i. ucast (drop_bit (8 * i) p)) [0..<8]"

definition pointer_of :: "byte list \<Rightarrow> pointer" where
  "pointer_of bs = foldr (\<lambda>b p. ucast b OR push_bit 8 p) bs 0"

lemma bytes_of_suffix:
  fixes p :: pointer
  assumes "k \<le> 8"
  shows "foldr (\<lambda>b p. ucast b OR push_bit 8 p) (map (\<lambda>i. ucast (drop_bit (8 * i) p) :: byte) [k..<8]) 0 =
    drop_bit (8 * k) p"
  using assms
proof (induction k rule: inc_induct)
  case base
  show ?case by (rule bit_word_eqI) (simp add: bit_simps)
next
  case (step k)
  have "ucast (ucast (drop_bit (8 * k) p) :: byte) OR push_bit 8 (drop_bit (8 * Suc k) p) = drop_bit (8 * k) p"
  proof (rule bit_word_eqI)
    fix n assume "n < LENGTH(64)"
    moreover have "8 * Suc k + (n - 8) = 8 * k + n" if "8 \<le> n" using that by simp
    ultimately show "bit (ucast (ucast (drop_bit (8 * k) p) :: byte) OR push_bit 8 (drop_bit (8 * Suc k) p)) n =
        bit (drop_bit (8 * k) p) n"
      by (cases "8 \<le> n") (simp_all add: bit_simps)
  qed
  with step show ?case by (simp add: upt_conv_Cons)
qed

lemma pointer_of_bytes_of [simp]: "pointer_of (bytes_of p) = p"
  using bytes_of_suffix [of 0 p] by (simp add: pointer_of_def bytes_of_def)

lemma length_bytes_of [simp]: "length (bytes_of p) = 8"
  by (simp add: bytes_of_def)

section \<open>State\<close>

text \<open>
  The code pointer: the one \<open>ptr\<close> installs, or the one \<open>lambda\<close> installs for the type \<open>T\<close> of the
  function object, given here by a number and its size. What running the task calls: a function pointer with its argument,
  or the call operator (and then the destructor) of a function object with the given bytes.
\<close>

datatype exec_func = ExecPtr | ExecLambda nat nat

datatype task_call = CallPtr pointer pointer | CallLambda nat "byte list"

record task =
  task_buffer :: "byte list"
  task_metadata :: u16
  task_exec :: exec_func

definition task_size :: nat where "task_size = 64"

definition usable_buffer_size :: nat where "usable_buffer_size = task_size - 2 - 8"

text \<open>Placement new at an offset of the buffer.\<close>

definition place :: "nat \<Rightarrow> byte list \<Rightarrow> byte list \<Rightarrow> byte list" where
  "place off bs buf = take off buf @ bs @ drop (off + length bs) buf"

section \<open>Operations\<close>

text \<open>\<open>lambda\<close> for a type that fits; a larger one does not compile, which is \<open>None\<close> here.\<close>

definition task_lambda :: "nat \<Rightarrow> byte list \<Rightarrow> task \<Rightarrow> task option" where
  "task_lambda T bs tk =
     (if length bs \<le> usable_buffer_size
      then Some (tk\<lparr>task_buffer := place 0 bs (task_buffer tk), task_exec := ExecLambda T (length bs)\<rparr>)
      else None)"

definition task_ptr :: "pointer \<Rightarrow> pointer \<Rightarrow> task \<Rightarrow> task" where
  "task_ptr func userdata tk =
     tk\<lparr>task_buffer := place 8 (bytes_of userdata) (place 0 (bytes_of func) (task_buffer tk)),
        task_exec := ExecPtr\<rparr>"

definition set_metadata :: "u16 \<Rightarrow> task \<Rightarrow> task" where
  "set_metadata m tk = tk\<lparr>task_metadata := m\<rparr>"

definition get_metadata :: "task \<Rightarrow> u16" where
  "get_metadata tk = task_metadata tk"

definition execute_and_cleanup :: "task \<Rightarrow> task_call" where
  "execute_and_cleanup tk =
     (case task_exec tk of
        ExecPtr \<Rightarrow> CallPtr (pointer_of (take 8 (task_buffer tk))) (pointer_of (take 8 (drop 8 (task_buffer tk))))
      | ExecLambda T n \<Rightarrow> CallLambda T (take n (task_buffer tk)))"

section \<open>Properties\<close>

lemma length_place: "off + length bs \<le> length buf \<Longrightarrow> length (place off bs buf) = length buf"
  by (simp add: place_def)

text \<open>
  C28: a task made from a function pointer calls exactly that function with exactly that argument, and
  one made from a function object calls that object, also after \<open>set_metadata\<close>, which only changes
  what \<open>get_metadata\<close> returns; the buffer keeps its size.
\<close>

theorem task_roundtrip:
  assumes "length (task_buffer tk) = usable_buffer_size"
  shows "execute_and_cleanup (set_metadata m (task_ptr f u tk)) = CallPtr f u \<and>
    get_metadata (set_metadata m (task_ptr f u tk)) = m \<and>
    length (task_buffer (task_ptr f u tk)) = usable_buffer_size \<and>
    (case task_lambda T bs tk of
       None \<Rightarrow> usable_buffer_size < length bs
     | Some tk' \<Rightarrow> execute_and_cleanup (set_metadata m tk') = CallLambda T bs \<and>
         get_metadata (set_metadata m tk') = m \<and> length (task_buffer tk') = usable_buffer_size)"
  using assms
  by (auto simp: execute_and_cleanup_def set_metadata_def get_metadata_def task_ptr_def task_lambda_def
      place_def usable_buffer_size_def task_size_def)

theorem task_roundtrip_witness:
  "execute_and_cleanup (set_metadata 3 (task_ptr 4096 77
     \<lparr>task_buffer = replicate 54 0, task_metadata = 0, task_exec = ExecPtr\<rparr>)) =
   CallPtr 4096 77"
proof -
  let ?tk = "\<lparr>task_buffer = replicate 54 0, task_metadata = 0, task_exec = ExecPtr\<rparr>"
  have "length (task_buffer ?tk) = usable_buffer_size"
    by (simp add: usable_buffer_size_def task_size_def)
  from task_roundtrip [OF this] show ?thesis by blast
qed

end
