(* ===== verification/Scheduler.thy ===== *)
theory Scheduler
  imports MPMC_Queue FIFO_Queue Counter Task
begin

text \<open>
  The scheduler (scheduler.hh, scheduler.cc): its threads, fibers, counters and queues, the fiber
  functions as programs with an explicit position, and one step relation for all threads. A step is
  one access to shared state with the thread-local work around it; the operations of the queues are
  atomic steps (\<open>MPMC_Concurrent.mpmc_linearizable\<close>; the pinned queues are used under their lock),
  and those of a counter are the single actions of \<open>Counter\<close>. User code inside a task may call any
  function of the interface at any time, and return at any time.

  \<open>cc::atomic_linked_pool\<close>, the pool of counter handles, is not part of the repository: its
  operations are a parameter.
\<close>

section \<open>State\<close>

type_synonym counter_index_t = u16
type_synonym handle_t = u32

definition lc_min_backoff_pauses :: u32 where "lc_min_backoff_pauses = 1"
definition lc_max_backoff_pauses :: u32 where "lc_max_backoff_pauses = 1024"

text \<open>The task whose user code a fiber runs, and the last result the interface returned to it.\<close>

datatype user_context = MainTask task | WorkerTask task

datatype api_result = NoResult | IntResult cint | BoolResult bool | HandleResult handle_t

text \<open>What a fiber goes on with when a counter operation has returned.\<close>

datatype counter_cont =
    AfterTask
  | AfterApi user_context
  | AfterSubmit user_context "task list" counter_index_t
  | AfterWait user_context

text \<open>
  The position of a fiber. \<open>Resumed k\<close>: \<open>switch_to_fiber\<close> has just returned to it (or entered
  it for the first time), it cleans up the previous fiber and goes on with \<open>k\<close>. \<open>LoopTop\<close> to
  \<open>NoTask\<close> are the loop of \<open>fiber_func\<close> with \<open>getNextTask\<close>, with the number of backoff pauses;
  \<open>Running\<close> is user code; the others are inside functions of the interface.
\<close>

datatype fiber_pc =
    Resumed fiber_pc
  | LoopTop u32
  | GetPinned u32 | TryPinned u32 fiber_index_t | BackPinned u32 fiber_index_t
  | GetGlobal u32 | TryGlobal u32 fiber_index_t | BackGlobal u32 fiber_index_t
  | GetTask u32 | NoTask u32
  | Running user_context api_result
  | InCounter nat cpc counter_cont
  | WaitYield user_context cint | WaitOver user_context cint
  | SubmitEnq user_context "task list" counter_index_t bool
  | Ended

datatype fiber_destination_e = dest_none | dest_waiting | dest_pool

record worker_thread =
  pinned_resumable_fibers :: "fiber_index_t fifo"

record worker_fiber =
  native :: fiber_pc
  is_waiting_cleaned_up :: bool

record tls =
  current_fiber_index :: fiber_index_t
  previous_fiber_index :: fiber_index_t
  previous_fiber_dest :: fiber_destination_e
  thread_index :: thread_index_t
  is_thread_waiting :: bool

text \<open>A thread is on its thread fiber before it has a fiber, on a fiber, or back for good.\<close>

datatype thread_mode = Starting | OnFiber | Returned

record 'h sched =
  mIsShuttingDown :: bool
  mThreads :: "worker_thread list"
  mFibers :: "worker_fiber list"
  mCounters :: "atomic_counter list"
  mTasks :: "task mpmc"
  mIdleFibers :: "fiber_index_t mpmc"
  mResumableFibers :: "fiber_index_t mpmc"
  mFreeCounters :: "counter_index_t mpmc"
  mCounterHandles :: 'h
  s_tls :: "nat \<Rightarrow> tls"
  tmodes :: "nat \<Rightarrow> thread_mode"
  main_task :: task
  failed :: "failure option"

record 'h pool_ops =
  pool_acquire :: "'h \<Rightarrow> handle_t \<times> 'h"
  pool_index :: "'h \<Rightarrow> handle_t \<Rightarrow> counter_index_t"
  pool_set_index :: "'h \<Rightarrow> handle_t \<Rightarrow> counter_index_t \<Rightarrow> 'h"
  pool_release :: "'h \<Rightarrow> handle_t \<Rightarrow> 'h"
  pool_is_alive :: "'h \<Rightarrow> handle_t \<Rightarrow> bool"

section \<open>Accesses\<close>

text \<open>
  Operations return \<open>None\<close> where a retry loop inside them never returns. A failed assertion is
  recorded and stops the program.
\<close>

definition fail :: "failure \<Rightarrow> 'h sched \<Rightarrow> 'h sched option" where
  "fail e s = Some (s\<lparr>failed := Some e\<rparr>)"

definition current :: "nat \<Rightarrow> 'h sched \<Rightarrow> nat" where
  "current t s = unat (current_fiber_index (s_tls s t))"

definition set_native :: "nat \<Rightarrow> fiber_pc \<Rightarrow> 'h sched \<Rightarrow> 'h sched" where
  "set_native f pc s = s\<lparr>mFibers := (mFibers s)[f := (mFibers s ! f)\<lparr>native := pc\<rparr>]\<rparr>"

definition goto :: "nat \<Rightarrow> fiber_pc \<Rightarrow> 'h sched \<Rightarrow> 'h sched" where
  "goto t pc s = set_native (current t s) pc s"

definition set_cleaned_up :: "nat \<Rightarrow> bool \<Rightarrow> 'h sched \<Rightarrow> 'h sched" where
  "set_cleaned_up f b s =
     s\<lparr>mFibers := (mFibers s)[f := (mFibers s ! f)\<lparr>is_waiting_cleaned_up := b\<rparr>]\<rparr>"

definition set_tls :: "nat \<Rightarrow> tls \<Rightarrow> 'h sched \<Rightarrow> 'h sched" where
  "set_tls t l s = s\<lparr>s_tls := (s_tls s)(t := l)\<rparr>"

definition set_pinned :: "nat \<Rightarrow> fiber_index_t fifo \<Rightarrow> 'h sched \<Rightarrow> 'h sched" where
  "set_pinned i q s =
     s\<lparr>mThreads := (mThreads s)[i := (mThreads s ! i)\<lparr>pinned_resumable_fibers := q\<rparr>]\<rparr>"

definition return_thread :: "nat \<Rightarrow> 'h sched \<Rightarrow> 'h sched" where
  "return_thread t s = s\<lparr>tmodes := (tmodes s)(t := Returned)\<rparr>"

section \<open>Switching fibers\<close>

definition cleanUpPrevFiber :: "nat \<Rightarrow> 'h sched \<Rightarrow> 'h sched option" where
  "cleanUpPrevFiber t s =
     (let l = s_tls s t;
          l' = l\<lparr>previous_fiber_index := invalid_fiber, previous_fiber_dest := dest_none\<rparr>
      in case previous_fiber_dest l of
           dest_none \<Rightarrow> Some s
         | dest_pool \<Rightarrow>
             (case mpmc_enqueue (mIdleFibers s) (previous_fiber_index l) of
                None \<Rightarrow> None
              | Some (_, q) \<Rightarrow> Some (set_tls t l' (s\<lparr>mIdleFibers := q\<rparr>)))
         | dest_waiting \<Rightarrow>
             Some (set_tls t l' (set_cleaned_up (unat (previous_fiber_index l)) True s)))"

text \<open>The yielding fiber is left at \<open>Resumed k\<close>; the thread goes on with the target fiber.\<close>

definition yieldToFiber ::
  "bool \<Rightarrow> nat \<Rightarrow> fiber_index_t \<Rightarrow> fiber_destination_e \<Rightarrow> fiber_pc \<Rightarrow> 'h sched \<Rightarrow> 'h sched option" where
  "yieldToFiber dbg t target own_destination k s =
     (let l = s_tls s t
      in if dbg \<and> (current_fiber_index l = invalid_fiber \<or> target = invalid_fiber)
         then fail (Assertion ''previous_fiber_index != invalid_fiber && current_fiber_index != invalid_fiber'') s
         else Some (set_tls t (l\<lparr>previous_fiber_index := current_fiber_index l,
                                previous_fiber_dest := own_destination,
                                current_fiber_index := target\<rparr>) (goto t (Resumed k) s)))"

definition tryResumeFiber ::
  "bool \<Rightarrow> nat \<Rightarrow> fiber_index_t \<Rightarrow> fiber_pc \<Rightarrow> fiber_pc \<Rightarrow> 'h sched \<Rightarrow> 'h sched option" where
  "tryResumeFiber dbg t f success failure s =
     (if \<not> unat f < length (mFibers s) then fail OutOfRange s
      else if is_waiting_cleaned_up (mFibers s ! unat f)
      then yieldToFiber dbg t f dest_pool success (set_cleaned_up (unat f) False s)
      else Some (goto t failure s))"

section \<open>Counters\<close>

text \<open>Make a fiber resumable: in the global queue, or in that of the thread it is pinned to.\<close>

definition wake_fiber :: "bool \<Rightarrow> fiber_index_t \<times> thread_index_t \<Rightarrow> 'h sched \<Rightarrow> 'h sched option" where
  "wake_fiber dbg w s =
     (case w of (f, pinned) \<Rightarrow>
        if pinned = invalid_thread
        then (case mpmc_enqueue (mResumableFibers s) f of
                None \<Rightarrow> None
              | Some (success, q) \<Rightarrow>
                  (case cc_assert dbg success ''success'' of
                     Inl e \<Rightarrow> fail e s | Inr _ \<Rightarrow> Some (s\<lparr>mResumableFibers := q\<rparr>)))
        else if unat pinned < length (mThreads s)
        then (case fifo_enqueue dbg (pinned_resumable_fibers (mThreads s ! unat pinned)) f of
                Inl e \<Rightarrow> fail e s
              | Inr q \<Rightarrow> Some (set_pinned (unat pinned) q s))
        else fail OutOfRange s)"

definition counter_action :: "bool \<Rightarrow> nat \<Rightarrow> nat \<Rightarrow> cpc \<Rightarrow> counter_cont \<Rightarrow> 'h sched \<Rightarrow> 'h sched option" where
  "counter_action dbg t i pc k s =
     (case cpc_step pc (mCounters s ! i) of (pc', c', w) \<Rightarrow>
        (let s' = goto t (InCounter i pc' k) (s\<lparr>mCounters := (mCounters s)[i := c']\<rparr>)
         in case w of None \<Rightarrow> Some s' | Some x \<Rightarrow> wake_fiber dbg x s'))"

text \<open>The caller's code after a counter operation.\<close>

fun counter_returns :: "cpc \<Rightarrow> counter_cont \<Rightarrow> failure + fiber_pc" where
  "counter_returns (CFail e) k = Inl e"
| "counter_returns (IncDone v) k =
     Inr (case k of AfterApi ctx \<Rightarrow> Running ctx (IntResult v)
                  | AfterSubmit ctx ts c \<Rightarrow> SubmitEnq ctx ts c True
                  | _ \<Rightarrow> LoopTop lc_min_backoff_pauses)"
| "counter_returns (AddDone done v) k =
     Inr (case k of AfterWait ctx \<Rightarrow> if done then WaitOver ctx v else WaitYield ctx v
                  | _ \<Rightarrow> Ended)"
| "counter_returns _ k = Inr Ended"


section \<open>The fiber functions\<close>

text \<open>One attempt of \<open>acquireFreeFiber\<close>.\<close>

definition acquireFreeFiber :: "'h sched \<Rightarrow> (fiber_index_t option \<times> 'h sched) option" where
  "acquireFreeFiber s = map_option (\<lambda>(f, q). (f, s\<lparr>mIdleFibers := q\<rparr>)) (mpmc_dequeue (mIdleFibers s))"

text \<open>
  \<open>getNextTask\<close>, from the pinned fibers over the global ones to the pending tasks.
\<close>

fun getNextTask :: "bool \<Rightarrow> nat \<Rightarrow> fiber_pc \<Rightarrow> 'h sched \<Rightarrow> 'h sched option" where
  "getNextTask dbg t (GetPinned bp) s =
     (let i = unat (thread_index (s_tls s t))
      in case fifo_dequeue (pinned_resumable_fibers (mThreads s ! i)) of
           (None, q) \<Rightarrow> Some (goto t (GetGlobal bp) (set_pinned i q s))
         | (Some f, q) \<Rightarrow> Some (goto t (TryPinned bp f) (set_pinned i q s)))"
| "getNextTask dbg t (TryPinned bp f) s = tryResumeFiber dbg t f (GetGlobal bp) (BackPinned bp f) s"
| "getNextTask dbg t (BackPinned bp f) s =
     (let i = unat (thread_index (s_tls s t))
      in case fifo_enqueue dbg (pinned_resumable_fibers (mThreads s ! i)) f of
           Inl e \<Rightarrow> fail e s
         | Inr q \<Rightarrow> Some (goto t (GetGlobal bp) (set_pinned i q s)))"
| "getNextTask dbg t (GetGlobal bp) s =
     (case mpmc_dequeue (mResumableFibers s) of
        None \<Rightarrow> None
      | Some (None, q) \<Rightarrow> Some (goto t (GetTask bp) (s\<lparr>mResumableFibers := q\<rparr>))
      | Some (Some f, q) \<Rightarrow> Some (goto t (TryGlobal bp f) (s\<lparr>mResumableFibers := q\<rparr>)))"
| "getNextTask dbg t (TryGlobal bp f) s = tryResumeFiber dbg t f (GetTask bp) (BackGlobal bp f) s"
| "getNextTask dbg t (BackGlobal bp f) s =
     (case mpmc_enqueue (mResumableFibers s) f of
        None \<Rightarrow> None
      | Some (_, q) \<Rightarrow> Some (goto t (GetTask bp) (s\<lparr>mResumableFibers := q\<rparr>)))"
| "getNextTask dbg t (GetTask bp) s =
     (case mpmc_dequeue (mTasks s) of
        None \<Rightarrow> None
      | Some (None, q) \<Rightarrow> Some (goto t (NoTask bp) (s\<lparr>mTasks := q\<rparr>))
      | Some (Some tk, q) \<Rightarrow> Some (goto t (Running (WorkerTask tk) NoResult) (s\<lparr>mTasks := q\<rparr>)))"
| "getNextTask dbg t _ s = None"

text \<open>
  The loop of \<open>fiber_func\<close> around it. Waiting for the event has a timeout and leaves no trace, so it
  only takes the thread back to the loop.
\<close>

fun fiber_func :: "nat \<Rightarrow> fiber_pc \<Rightarrow> 'h sched \<Rightarrow> 'h sched option" where
  "fiber_func t (LoopTop bp) s =
     Some (if mIsShuttingDown s then return_thread t (goto t Ended s) else goto t (GetPinned bp) s)"
| "fiber_func t (NoTask bp) s =
     Some (goto t (LoopTop (if bp = lc_max_backoff_pauses \<and> \<not> is_thread_waiting (s_tls s t) then bp
                            else min lc_max_backoff_pauses (push_bit 1 bp))) s)"
| "fiber_func t _ s = None"

text \<open>\<open>wait\<close> from the yield on, and the enqueueing part of \<open>submitTasks\<close>.\<close>

fun wait_yields :: "bool \<Rightarrow> nat \<Rightarrow> fiber_pc \<Rightarrow> 'h sched \<Rightarrow> 'h sched option" where
  "wait_yields dbg t (WaitYield ctx v) s =
     (case acquireFreeFiber s of
        None \<Rightarrow> None
      | Some (None, s') \<Rightarrow> Some s'
      | Some (Some f, s') \<Rightarrow> yieldToFiber dbg t f dest_waiting (WaitOver ctx v) s')"
| "wait_yields dbg t (WaitOver ctx v) s =
     Some (goto t (Running ctx (IntResult v))
       (set_tls t ((s_tls s t)\<lparr>is_thread_waiting := False\<rparr>) s))"
| "wait_yields dbg t _ s = None"

fun submit_enqueues :: "nat \<Rightarrow> fiber_pc \<Rightarrow> 'h sched \<Rightarrow> 'h sched option" where
  "submit_enqueues t (SubmitEnq ctx ts c success) s =
     (case ts of
        [] \<Rightarrow> if success then Some (goto t (Running ctx NoResult) s)
              else fail (Assertion ''Task queue is full, consider increasing config.max_num_tasks'') s
      | tk # ts' \<Rightarrow>
          (case mpmc_enqueue (mTasks s) (set_metadata c tk) of
             None \<Rightarrow> None
           | Some (b, q) \<Rightarrow> Some (goto t (SubmitEnq ctx ts' c (success \<and> b)) (s\<lparr>mTasks := q\<rparr>))))"
| "submit_enqueues t _ s = None"

fun exec_pc :: "bool \<Rightarrow> nat \<Rightarrow> fiber_pc \<Rightarrow> 'h sched \<Rightarrow> 'h sched option" where
  "exec_pc dbg t (Resumed k) s = map_option (goto t k) (cleanUpPrevFiber t s)"
| "exec_pc dbg t (LoopTop bp) s = fiber_func t (LoopTop bp) s"
| "exec_pc dbg t (NoTask bp) s = fiber_func t (NoTask bp) s"
| "exec_pc dbg t (GetPinned bp) s = getNextTask dbg t (GetPinned bp) s"
| "exec_pc dbg t (TryPinned bp f) s = getNextTask dbg t (TryPinned bp f) s"
| "exec_pc dbg t (BackPinned bp f) s = getNextTask dbg t (BackPinned bp f) s"
| "exec_pc dbg t (GetGlobal bp) s = getNextTask dbg t (GetGlobal bp) s"
| "exec_pc dbg t (TryGlobal bp f) s = getNextTask dbg t (TryGlobal bp f) s"
| "exec_pc dbg t (BackGlobal bp f) s = getNextTask dbg t (BackGlobal bp f) s"
| "exec_pc dbg t (GetTask bp) s = getNextTask dbg t (GetTask bp) s"
| "exec_pc dbg t (Running ctx r) s = None"
| "exec_pc dbg t (InCounter i pc k) s =
     (if \<not> i < length (mCounters s) then fail OutOfRange s
      else if cpc_returned pc
      then (case counter_returns pc k of Inl e \<Rightarrow> fail e s | Inr pc' \<Rightarrow> Some (goto t pc' s))
      else counter_action dbg t i pc k s)"
| "exec_pc dbg t (WaitYield ctx v) s = wait_yields dbg t (WaitYield ctx v) s"
| "exec_pc dbg t (WaitOver ctx v) s = wait_yields dbg t (WaitOver ctx v) s"
| "exec_pc dbg t (SubmitEnq ctx ts c success) s = submit_enqueues t (SubmitEnq ctx ts c success) s"
| "exec_pc dbg t Ended s = None"

section \<open>The interface used by tasks\<close>

datatype user_call =
    CallWait handle_t bool cint
  | CallSubmit "task list" handle_t
  | CallIncrement handle_t u32
  | CallDecrement handle_t u32
  | CallAcquire
  | CallRelease handle_t
  | CallReleaseIfOnTarget handle_t cint
  | CallReturn

definition handle_counter :: "'h pool_ops \<Rightarrow> handle_t \<Rightarrow> 'h sched \<Rightarrow> nat" where
  "handle_counter P c s = unat (pool_index P (mCounterHandles s) c)"

definition sched_wait ::
  "bool \<Rightarrow> 'h pool_ops \<Rightarrow> nat \<Rightarrow> user_context \<Rightarrow> handle_t \<Rightarrow> bool \<Rightarrow> cint \<Rightarrow> 'h sched \<Rightarrow> 'h sched option"
where
  "sched_wait dbg P t ctx c pinned target s =
     (case and_then (cc_assert dbg (0 \<le> sint target) ''sync counter target must not be negative'')
        (\<lambda>_. cc_assert dbg (pool_is_alive P (mCounterHandles s) c) ''waited on expired counter handle'') of
        Inl e \<Rightarrow> fail e s
      | Inr _ \<Rightarrow>
          let l = s_tls s t;
              pinned_index = (if pinned then thread_index l else invalid_thread);
              s' = set_tls t (l\<lparr>is_thread_waiting := True\<rparr>) (set_cleaned_up (current t s) False s)
          in Some (goto t (InCounter (handle_counter P c s)
               (counterAddWaitingFiber (current_fiber_index l) pinned_index target) (AfterWait ctx)) s'))"

definition submitTasks ::
  "bool \<Rightarrow> 'h pool_ops \<Rightarrow> nat \<Rightarrow> user_context \<Rightarrow> task list \<Rightarrow> handle_t \<Rightarrow> 'h sched \<Rightarrow> 'h sched option"
where
  "submitTasks dbg P t ctx ts c s =
     Some (goto t (InCounter (handle_counter P c s) (counterIncrement dbg (of_nat (length ts)))
       (AfterSubmit ctx ts (pool_index P (mCounterHandles s) c))) s)"

definition acquireCounterHandle ::
  "'h pool_ops \<Rightarrow> nat \<Rightarrow> user_context \<Rightarrow> 'h sched \<Rightarrow> 'h sched option" where
  "acquireCounterHandle P t ctx s =
     (case mpmc_dequeue (mFreeCounters s) of
        None \<Rightarrow> None
      | Some (None, q) \<Rightarrow>
          fail (Assertion ''No free counters available, consider increasing config.max_num_counters'') s
      | Some (Some free_counter, q) \<Rightarrow>
          if \<not> unat free_counter < length (mCounters s) then fail OutOfRange s
          else (case pool_acquire P (mCounterHandles s) of (res, hs) \<Rightarrow>
            Some (goto t (Running ctx (HandleResult res))
              (s\<lparr>mFreeCounters := q,
                 mCounters := (mCounters s)[unat free_counter := counter_reset (mCounters s ! unat free_counter)],
                 mCounterHandles := pool_set_index P hs res free_counter\<rparr>))))"

text \<open>The common part of the two releases: the handle and the counter become free.\<close>

definition free_counter_of ::
  "'h pool_ops \<Rightarrow> handle_t \<Rightarrow> 'h sched \<Rightarrow> 'h sched option" where
  "free_counter_of P c s =
     (case mpmc_enqueue (mFreeCounters s) (pool_index P (mCounterHandles s) c) of
        None \<Rightarrow> None
      | Some (_, q) \<Rightarrow> Some (s\<lparr>mCounterHandles := pool_release P (mCounterHandles s) c, mFreeCounters := q\<rparr>))"

definition releaseCounter ::
  "'h pool_ops \<Rightarrow> nat \<Rightarrow> user_context \<Rightarrow> handle_t \<Rightarrow> 'h sched \<Rightarrow> 'h sched option" where
  "releaseCounter P t ctx c s =
     (if \<not> handle_counter P c s < length (mCounters s) then fail OutOfRange s
      else map_option (goto t (Running ctx (IntResult (count (mCounters s ! handle_counter P c s)))))
        (free_counter_of P c s))"

definition releaseCounterIfOnTarget ::
  "'h pool_ops \<Rightarrow> nat \<Rightarrow> user_context \<Rightarrow> handle_t \<Rightarrow> cint \<Rightarrow> 'h sched \<Rightarrow> 'h sched option" where
  "releaseCounterIfOnTarget P t ctx c target s =
     (if \<not> handle_counter P c s < length (mCounters s) then fail OutOfRange s
      else if count (mCounters s ! handle_counter P c s) \<noteq> target
      then Some (goto t (Running ctx (BoolResult False)) s)
      else map_option (goto t (Running ctx (BoolResult True))) (free_counter_of P c s))"

text \<open>Return from user code: of a worker's task, and of the main task, which shuts down.\<close>

fun task_returns :: "bool \<Rightarrow> nat \<Rightarrow> user_context \<Rightarrow> 'h sched \<Rightarrow> 'h sched option" where
  "task_returns dbg t (WorkerTask tk) s =
     Some (goto t (InCounter (unat (get_metadata tk)) (counterIncrement dbg (- 1)) AfterTask) s)"
| "task_returns dbg t (MainTask tk) s =
     Some (return_thread t (goto t Ended (s\<lparr>mIsShuttingDown := True\<rparr>)))"

fun api_call ::
  "bool \<Rightarrow> 'h pool_ops \<Rightarrow> nat \<Rightarrow> user_context \<Rightarrow> user_call \<Rightarrow> 'h sched \<Rightarrow> 'h sched option" where
  "api_call dbg P t ctx (CallWait c pinned target) s = sched_wait dbg P t ctx c pinned target s"
| "api_call dbg P t ctx (CallSubmit ts c) s = submitTasks dbg P t ctx ts c s"
| "api_call dbg P t ctx (CallIncrement c amount) s =
     Some (goto t (InCounter (handle_counter P c s) (counterIncrement dbg amount) (AfterApi ctx)) s)"
| "api_call dbg P t ctx (CallDecrement c amount) s =
     Some (goto t (InCounter (handle_counter P c s) (counterIncrement dbg (amount * - 1)) (AfterApi ctx)) s)"
| "api_call dbg P t ctx CallAcquire s = acquireCounterHandle P t ctx s"
| "api_call dbg P t ctx (CallRelease c) s = releaseCounter P t ctx c s"
| "api_call dbg P t ctx (CallReleaseIfOnTarget c target) s = releaseCounterIfOnTarget P t ctx c target s"
| "api_call dbg P t ctx CallReturn s = task_returns dbg t ctx s"

section \<open>Threads\<close>

text \<open>
  A thread takes its first fiber; the main thread, thread 0, makes it the primary fiber, which runs
  the main task.
\<close>

definition thread_start :: "nat \<Rightarrow> 'h sched \<Rightarrow> 'h sched option" where
  "thread_start t s =
     (case acquireFreeFiber s of
        None \<Rightarrow> None
      | Some (None, r) \<Rightarrow> Some r
      | Some (Some f, r) \<Rightarrow>
          let s' = set_tls t ((s_tls r t)\<lparr>current_fiber_index := f\<rparr>)
                     (r\<lparr>tmodes := (tmodes r)(t := OnFiber)\<rparr>)
          in Some (if t = 0 then set_native (unat f) (Running (MainTask (main_task s)) NoResult) s' else s'))"

inductive sched_step :: "bool \<Rightarrow> 'h pool_ops \<Rightarrow> 'h sched \<Rightarrow> 'h sched \<Rightarrow> bool" for dbg P where
  start_thread: "failed s = None \<Longrightarrow> t < length (mThreads s) \<Longrightarrow> tmodes s t = Starting \<Longrightarrow>
    thread_start t s = Some s' \<Longrightarrow> sched_step dbg P s s'"
| run_fiber: "failed s = None \<Longrightarrow> t < length (mThreads s) \<Longrightarrow> tmodes s t = OnFiber \<Longrightarrow>
    exec_pc dbg t (native (mFibers s ! current t s)) s = Some s' \<Longrightarrow> sched_step dbg P s s'"
| user_code: "failed s = None \<Longrightarrow> t < length (mThreads s) \<Longrightarrow> tmodes s t = OnFiber \<Longrightarrow>
    native (mFibers s ! current t s) = Running ctx r \<Longrightarrow>
    api_call dbg P t ctx call s = Some s' \<Longrightarrow> sched_step dbg P s s'"

section \<open>Construction and start\<close>

definition tls_reset :: tls where
  "tls_reset = \<lparr>current_fiber_index = invalid_fiber, previous_fiber_index = invalid_fiber,
     previous_fiber_dest = dest_none, thread_index = invalid_thread, is_thread_waiting = False\<rparr>"

definition fiber_created :: worker_fiber where
  "fiber_created = \<lparr>native = Resumed (LoopTop lc_min_backoff_pauses), is_waiting_cleaned_up = False\<rparr>"

text \<open>The population loops of \<open>start\<close>; a \<open>dequeue\<close> that never returns is \<open>None\<close>.\<close>

definition populate :: "'h sched \<Rightarrow> 'h sched option" where
  "populate s =
     (case enqueue_each mpmc_enqueue (mIdleFibers s) (map of_nat [0..<length (mFibers s)]) of
        None \<Rightarrow> None
      | Some idle \<Rightarrow>
          (case enqueue_each mpmc_enqueue (mFreeCounters s) (map of_nat [0..<length (mCounters s)]) of
             None \<Rightarrow> None
           | Some free \<Rightarrow> Some (s\<lparr>mIdleFibers := idle, mFreeCounters := free\<rparr>)))"

text \<open>\<open>start\<close> up to the launch of the worker threads, for queues as the constructor made them.\<close>

definition sched_arrays :: "nat \<Rightarrow> nat \<Rightarrow> nat \<Rightarrow> 'h \<Rightarrow> task \<Rightarrow> 'h sched \<Rightarrow> 'h sched" where
  "sched_arrays threads fibers counters pool main s =
     s\<lparr>mIsShuttingDown := False,
       mThreads := replicate threads \<lparr>pinned_resumable_fibers = fifo_new (replicate 32 0)\<rparr>,
       mFibers := replicate fibers fiber_created,
       mCounters := replicate counters counter_default,
       mCounterHandles := pool,
       s_tls := (\<lambda>t. tls_reset\<lparr>thread_index := of_nat t\<rparr>),
       tmodes := (\<lambda>_. Starting), main_task := main, failed := None\<rparr>"

definition sched_start ::
  "nat \<Rightarrow> nat \<Rightarrow> nat \<Rightarrow> 'h \<Rightarrow> task \<Rightarrow> 'h sched \<Rightarrow> 'h sched option" where
  "sched_start threads fibers counters pool main s =
     populate (sched_arrays threads fibers counters pool main s)"

text \<open>The four draining loops at the end of \<open>start\<close>.\<close>

definition drain_queues :: "'h sched \<Rightarrow> 'h sched option" where
  "drain_queues s =
     (case drain mpmc_dequeue (mTasks s) of None \<Rightarrow> None | Some ts \<Rightarrow>
     (case drain mpmc_dequeue (mIdleFibers s) of None \<Rightarrow> None | Some idle \<Rightarrow>
     (case drain mpmc_dequeue (mResumableFibers s) of None \<Rightarrow> None | Some res \<Rightarrow>
     (case drain mpmc_dequeue (mFreeCounters s) of None \<Rightarrow> None | Some free \<Rightarrow>
        Some (s\<lparr>mTasks := ts, mIdleFibers := idle, mResumableFibers := res, mFreeCounters := free\<rparr>)))))"

end
