(* ===== verification/Fiber_Ownership.thy ===== *)
theory Fiber_Ownership
  imports Scheduler
begin

text \<open>
  Every fiber of the scheduler is at every moment in exactly one place: in the pool of idle fibers,
  on one thread, left behind by one thread that has not cleaned it up yet, or waiting. So no fiber
  ever runs on two threads, a fiber is only switched to when its context has been saved, and the
  pool, whose \<open>enqueue\<close> result the code ignores, never overflows.
\<close>

section \<open>Owners\<close>

text \<open>The fibers a thread owns: the one it runs, and the one it has left and not cleaned up.\<close>

definition thread_fibers :: "nat \<Rightarrow> 'h sched \<Rightarrow> nat multiset" where
  "thread_fibers t s =
     (if tmodes s t = Starting then {#}
      else add_mset (current t s)
        (if previous_fiber_dest (s_tls s t) = dest_none then {#}
         else {#unat (previous_fiber_index (s_tls s t))#}))"

definition idle_fibers :: "'h sched \<Rightarrow> nat multiset" where
  "idle_fibers s = mset (map unat (mpmc_list (mIdleFibers s)))"

definition parked :: "'h sched \<Rightarrow> nat set" where
  "parked s = {f. f < length (mFibers s) \<and> is_waiting_cleaned_up (mFibers s ! f)}"

definition owners :: "'h sched \<Rightarrow> nat multiset" where
  "owners s = idle_fibers s + (\<Sum>t<length (mThreads s). thread_fibers t s) + mset_set (parked s)"

text \<open>Saved contexts: of a fiber in the pool, and of one that waits.\<close>

fun pooled :: "fiber_pc \<Rightarrow> bool" where
  "pooled (Resumed (LoopTop _)) = True"
| "pooled (Resumed (GetGlobal _)) = True"
| "pooled (Resumed (GetTask _)) = True"
| "pooled _ = False"

fun waiting :: "fiber_pc \<Rightarrow> bool" where
  "waiting (Resumed (WaitOver _ _)) = True"
| "waiting _ = False"

definition pool_queue_ok :: "'h sched \<Rightarrow> bool" where
  "pool_queue_ok s \<longleftrightarrow> mpmc_ok (mIdleFibers s) \<and> length (mBuffer (mIdleFibers s)) = length (mFibers s) \<and>
     length (mFibers s) < 2 ^ 32 - 1"

definition contexts_ok :: "'h sched \<Rightarrow> bool" where
  "contexts_ok s \<longleftrightarrow>
     (\<forall>f \<in># idle_fibers s. pooled (native (mFibers s ! f))) \<and>
     (\<forall>f \<in> parked s. waiting (native (mFibers s ! f))) \<and>
     (\<forall>t < length (mThreads s). tmodes s t \<noteq> Starting \<longrightarrow>
        (case previous_fiber_dest (s_tls s t) of
           dest_none \<Rightarrow> True
         | dest_pool \<Rightarrow> pooled (native (mFibers s ! unat (previous_fiber_index (s_tls s t))))
         | dest_waiting \<Rightarrow> waiting (native (mFibers s ! unat (previous_fiber_index (s_tls s t)))))) \<and>
     (\<forall>t < length (mThreads s). tmodes s t \<noteq> Starting \<longrightarrow>
        previous_fiber_dest (s_tls s t) \<noteq> dest_none \<longrightarrow>
        (\<exists>k. native (mFibers s ! current t s) = Resumed k)) \<and>
     (\<forall>t < length (mThreads s). tmodes s t = Starting \<longrightarrow> previous_fiber_dest (s_tls s t) = dest_none)"

definition fibers_inv :: "'h sched \<Rightarrow> bool" where
  "fibers_inv s \<longleftrightarrow> pool_queue_ok s \<and> owners s = mset_set {..<length (mFibers s)} \<and> contexts_ok s"

section \<open>Consequences\<close>

lemma mset_set_once: "{#f, f#} \<subseteq># mset_set A \<Longrightarrow> False"
proof -
  assume "{#f, f#} \<subseteq># mset_set A"
  then have "2 \<le> Multiset.count (mset_set A) f"
    by (metis add_mset_eq_single count_add_mset count_single mset_subset_eq_count numeral_2_eq_2 One_nat_def)
  then show False
    by (cases "finite A"; cases "f \<in> A") auto
qed

lemma finite_parked [simp]: "finite (parked s)"
  by (simp add: parked_def)

lemma thread_fibers_sub:
  assumes "t < n"
  shows "thread_fibers t s \<subseteq># (\<Sum>t<n. thread_fibers t s)"
  using assms sum.remove [of "{..<n}" t "\<lambda>t. thread_fibers t s"] by simp

lemma two_threads_sub:
  assumes "t < n" "u < n" "t \<noteq> u"
  shows "thread_fibers t s + thread_fibers u s \<subseteq># (\<Sum>t<n. thread_fibers t s)"
proof -
  have "(\<Sum>t<n. thread_fibers t s) =
      thread_fibers t s + (thread_fibers u s + (\<Sum>t\<in>{..<n} - {t} - {u}. thread_fibers t s))"
    using assms sum.remove [of "{..<n}" t "\<lambda>t. thread_fibers t s"]
      sum.remove [of "{..<n} - {t}" u "\<lambda>t. thread_fibers t s"] by simp
  then show ?thesis by (simp add: add.assoc [symmetric])
qed


lemma owners_split:
  assumes "t < length (mThreads s)"
  shows "owners s = idle_fibers s + (thread_fibers t s +
    (\<Sum>u\<in>{..<length (mThreads s)} - {t}. thread_fibers u s)) + mset_set (parked s)"
  using sum.remove [of "{..<length (mThreads s)}" t "\<lambda>u. thread_fibers u s"] assms
  by (simp add: owners_def)

text \<open>The places of a fiber exclude each other.\<close>

lemma places:
  assumes inv: "fibers_inv s" and t: "t < length (mThreads s)"
  shows "f \<in># thread_fibers t s \<Longrightarrow> f < length (mFibers s)"
    and "f \<in># idle_fibers s \<Longrightarrow> f < length (mFibers s)"
    and "f \<in># thread_fibers t s \<Longrightarrow> f \<notin># idle_fibers s"
    and "f \<in># thread_fibers t s \<Longrightarrow> f \<notin> parked s"
    and "f \<in># idle_fibers s \<Longrightarrow> f \<notin> parked s"
    and "f \<in># thread_fibers t s \<Longrightarrow> u < length (mThreads s) \<Longrightarrow> u \<noteq> t \<Longrightarrow> f \<notin># thread_fibers u s"
    and "\<not> {#f, f#} \<subseteq># thread_fibers t s"
    and "Suc (size (idle_fibers s)) \<le> length (mFibers s) + (if thread_fibers t s = {#} then 1 else 0)"
proof -
  let ?F = "mset_set {..<length (mFibers s)}"
  note own = owners_split [OF t]
  have eq: "owners s = ?F" using inv by (simp add: fibers_inv_def)
  have once: "\<not> {#f, f#} \<subseteq># X" if "X \<subseteq># owners s" for X f
    using that mset_set_once unfolding eq by (meson subset_mset.order_trans)
  have both: "f \<notin># Y" if "X + Y \<subseteq># owners s" "f \<in># X" for X Y f
  proof
    assume "f \<in># Y"
    with that(2) have "{#f#} + {#f#} \<subseteq># X + Y"
      by (intro subset_mset.add_mono) simp_all
    with once [OF that(1), of f] show False by simp
  qed
  have mem: "f < length (mFibers s)" if "f \<in># owners s" for f
    using that unfolding eq by simp
  show "f \<in># thread_fibers t s \<Longrightarrow> f < length (mFibers s)" "f \<in># idle_fibers s \<Longrightarrow> f < length (mFibers s)"
    by (auto intro!: mem simp: own)
  have subs: "thread_fibers t s + idle_fibers s \<subseteq># owners s" "idle_fibers s + mset_set (parked s) \<subseteq># owners s"
    "thread_fibers t s + mset_set (parked s) \<subseteq># owners s" "thread_fibers t s \<subseteq># owners s"
    by (auto simp: own ac_simps intro: mset_subset_eq_add_left)
  show "f \<in># thread_fibers t s \<Longrightarrow> f \<notin># idle_fibers s" by (rule both [OF subs(1)])
  show "f \<in># thread_fibers t s \<Longrightarrow> f \<notin> parked s" using both [OF subs(3)] by auto
  show "f \<in># idle_fibers s \<Longrightarrow> f \<notin> parked s" using both [OF subs(2)] by auto
  show "\<not> {#f, f#} \<subseteq># thread_fibers t s" by (rule once [OF subs(4)])
  show "f \<in># thread_fibers t s \<Longrightarrow> u < length (mThreads s) \<Longrightarrow> u \<noteq> t \<Longrightarrow> f \<notin># thread_fibers u s"
  proof -
    assume "f \<in># thread_fibers t s" "u < length (mThreads s)" "u \<noteq> t"
    moreover from this two_threads_sub [OF t, of u] have "thread_fibers t s + thread_fibers u s \<subseteq># owners s"
      unfolding owners_def by (metis mset_subset_eq_add_left mset_subset_eq_add_right subset_mset.order_trans)
    ultimately show ?thesis using both by blast
  qed
  have "size (thread_fibers t s) + size (idle_fibers s) \<le> size (owners s)"
    using size_mset_mono [OF subs(1)] by simp
  then show "Suc (size (idle_fibers s)) \<le> length (mFibers s) + (if thread_fibers t s = {#} then 1 else 0)"
    unfolding eq by (cases "thread_fibers t s") auto
qed


lemma current_fiber:
  assumes "tmodes s t \<noteq> Starting"
  shows "current t s \<in># thread_fibers t s"
  using assms by (simp add: thread_fibers_def)

lemma previous_fiber:
  assumes "tmodes s t \<noteq> Starting" and "previous_fiber_dest (s_tls s t) \<noteq> dest_none"
  shows "unat (previous_fiber_index (s_tls s t)) \<in># thread_fibers t s"
    and "thread_fibers t s = {#current t s, unat (previous_fiber_index (s_tls s t))#}"
  using assms by (simp_all add: thread_fibers_def)

lemma current_free:
  assumes "fibers_inv s" and "t < length (mThreads s)" and "tmodes s t \<noteq> Starting"
  shows "current t s < length (mFibers s)" and "current t s \<notin># idle_fibers s"
    and "\<not> is_waiting_cleaned_up (mFibers s ! current t s)"
    and "u < length (mThreads s) \<Longrightarrow> u \<noteq> t \<Longrightarrow> current t s \<notin># thread_fibers u s"
  using places(1,3,4,6) [OF assms(1,2) current_fiber [OF assms(3)]] by (auto simp: parked_def)

section \<open>Steps\<close>

text \<open>The invariant only depends on some of the state.\<close>

lemma fibers_inv_cong:
  assumes "mIdleFibers s' = mIdleFibers s" and "mFibers s' = mFibers s"
    and "length (mThreads s') = length (mThreads s)" and "s_tls s' = s_tls s" and "tmodes s' = tmodes s"
  shows "fibers_inv s' \<longleftrightarrow> fibers_inv s"
proof -
  have cur: "current t s' = current t s" for t
    using assms by (simp add: current_def)
  have tf: "thread_fibers t s' = thread_fibers t s" for t
    using assms cur by (simp add: thread_fibers_def)
  have pk: "parked s' = parked s" and id: "idle_fibers s' = idle_fibers s"
    using assms by (simp_all add: parked_def idle_fibers_def)
  show ?thesis
    unfolding fibers_inv_def owners_def pool_queue_ok_def contexts_ok_def tf pk id cur assms ..
qed

lemma fail_inv: "fail e s = Some s' \<Longrightarrow> fibers_inv s' \<longleftrightarrow> fibers_inv s"
  using fibers_inv_cong [of s' s] by (auto simp: fail_def)

lemma owners_sum_other:
  assumes "t < n" and "\<And>u. u < n \<Longrightarrow> u \<noteq> t \<Longrightarrow> thread_fibers u s' = thread_fibers u s"
  shows "(\<Sum>u<n. thread_fibers u s') + thread_fibers t s = (\<Sum>u<n. thread_fibers u s) + thread_fibers t s'"
proof -
  have "(\<Sum>u\<in>{..<n} - {t}. thread_fibers u s') = (\<Sum>u\<in>{..<n} - {t}. thread_fibers u s)"
    using assms(2) by (intro sum.cong) auto
  then show ?thesis
    using assms(1) sum.remove [of "{..<n}" t "\<lambda>u. thread_fibers u s'"]
      sum.remove [of "{..<n}" t "\<lambda>u. thread_fibers u s"] by (simp add: ac_simps)
qed

text \<open>
  A step of thread \<open>t\<close> moves fibers between the pool, its own fibers and the waiting ones, and
  changes contexts only of its current fiber.
\<close>

lemma fibers_inv_move:
  assumes inv: "fibers_inv s" and t: "t < length (mThreads s)"
    and len: "length (mThreads s') = length (mThreads s)" "length (mFibers s') = length (mFibers s)"
    and others: "\<And>u. u \<noteq> t \<Longrightarrow> s_tls s' u = s_tls s u \<and> tmodes s' u = tmodes s u"
    and queue: "mpmc_ok (mIdleFibers s')" "length (mBuffer (mIdleFibers s')) = length (mBuffer (mIdleFibers s))"
    and moved: "idle_fibers s' + thread_fibers t s' + mset_set (parked s') =
      idle_fibers s + thread_fibers t s + mset_set (parked s)"
    and natives: "\<And>f u. f \<noteq> c \<Longrightarrow> native (mFibers s' ! f) = native (mFibers s ! f)"
    and c_other: "\<And>u. u < length (mThreads s) \<Longrightarrow> u \<noteq> t \<Longrightarrow> c \<notin># thread_fibers u s"
    and idle: "\<And>f. f \<in># idle_fibers s' \<Longrightarrow> pooled (native (mFibers s' ! f))"
    and wait: "\<And>f. f \<in> parked s' \<Longrightarrow> waiting (native (mFibers s' ! f))"
    and own: "tmodes s' t = Starting \<Longrightarrow> previous_fiber_dest (s_tls s' t) = dest_none"
      "previous_fiber_dest (s_tls s' t) = dest_pool \<Longrightarrow>
        pooled (native (mFibers s' ! unat (previous_fiber_index (s_tls s' t))))"
      "previous_fiber_dest (s_tls s' t) = dest_waiting \<Longrightarrow>
        waiting (native (mFibers s' ! unat (previous_fiber_index (s_tls s' t))))"
      "previous_fiber_dest (s_tls s' t) \<noteq> dest_none \<Longrightarrow> \<exists>k. native (mFibers s' ! current t s') = Resumed k"
  shows "fibers_inv s'"
proof -
  have tf: "thread_fibers u s' = thread_fibers u s" "current u s' = current u s" if "u \<noteq> t" for u
    using others [OF that] by (simp_all add: thread_fibers_def current_def)
  let ?S = "\<lambda>s. \<Sum>u<length (mThreads s). thread_fibers u s" and ?P = "\<lambda>s. mset_set (parked s)"
  have sum: "(\<Sum>u<length (mThreads s). thread_fibers u s') + thread_fibers t s = ?S s + thread_fibers t s'"
    by (rule owners_sum_other [OF t tf(1)])
  have "owners s' + (idle_fibers s + thread_fibers t s + ?P s) =
      (idle_fibers s' + ?P s' + idle_fibers s + ?P s) +
      ((\<Sum>u<length (mThreads s). thread_fibers u s') + thread_fibers t s)"
    unfolding owners_def len by (simp only: ac_simps)
  also have "\<dots> = owners s + (idle_fibers s' + thread_fibers t s' + ?P s')"
    unfolding sum owners_def by (simp only: ac_simps)
  finally have "owners s' = owners s" unfolding moved by simp
  then have ow: "owners s' = mset_set {..<length (mFibers s')}"
    using inv len by (simp add: fibers_inv_def)
  have pool: "pool_queue_ok s'"
    using inv queue len by (simp add: fibers_inv_def pool_queue_ok_def)
  have nat: "native (mFibers s' ! f) = native (mFibers s ! f)"
    if "u < length (mThreads s)" "u \<noteq> t" "f \<in># thread_fibers u s" for u f
    using natives c_other [OF that(1,2)] that(3) by metis
  note old = inv [unfolded fibers_inv_def contexts_ok_def]
  have "contexts_ok s'"
    unfolding contexts_ok_def len
  proof (intro conjI ballI allI impI)
    fix u assume u: "u < length (mThreads s)" "tmodes s' u \<noteq> Starting"
    show "case previous_fiber_dest (s_tls s' u) of dest_none \<Rightarrow> True
         | dest_pool \<Rightarrow> pooled (native (mFibers s' ! unat (previous_fiber_index (s_tls s' u))))
         | dest_waiting \<Rightarrow> waiting (native (mFibers s' ! unat (previous_fiber_index (s_tls s' u))))"
    proof (cases "u = t")
      case True
      then show ?thesis using own(2,3) by (auto split: fiber_destination_e.split)
    next
      case False
      then show ?thesis
        using old u others [OF False] nat [OF u(1) False] previous_fiber(1) [of s u]
        by (auto split: fiber_destination_e.split)
    qed
    assume d: "previous_fiber_dest (s_tls s' u) \<noteq> dest_none"
    show "\<exists>k. native (mFibers s' ! current u s') = Resumed k"
    proof (cases "u = t")
      case False
      then show ?thesis
        using old u d others [OF False] nat [OF u(1) False current_fiber] tf(2) [OF False] by auto
    qed (use own(4) d in simp)
  next
    fix u assume u: "u < length (mThreads s)" "tmodes s' u = Starting"
    then show "previous_fiber_dest (s_tls s' u) = dest_none"
      using own(1) old others [of u] by (cases "u = t") auto
  qed (use idle wait in auto)
  with ow pool show ?thesis by (simp add: fibers_inv_def)
qed


lemma inv_contexts:
  assumes "fibers_inv s"
  shows "f \<in># idle_fibers s \<Longrightarrow> pooled (native (mFibers s ! f))"
    and "f \<in> parked s \<Longrightarrow> waiting (native (mFibers s ! f))"
    and "t < length (mThreads s) \<Longrightarrow> tmodes s t \<noteq> Starting \<Longrightarrow>
      previous_fiber_dest (s_tls s t) = dest_pool \<Longrightarrow>
      pooled (native (mFibers s ! unat (previous_fiber_index (s_tls s t))))"
    and "t < length (mThreads s) \<Longrightarrow> tmodes s t \<noteq> Starting \<Longrightarrow>
      previous_fiber_dest (s_tls s t) = dest_waiting \<Longrightarrow>
      waiting (native (mFibers s ! unat (previous_fiber_index (s_tls s t))))"
    and "t < length (mThreads s) \<Longrightarrow> tmodes s t \<noteq> Starting \<Longrightarrow>
      previous_fiber_dest (s_tls s t) \<noteq> dest_none \<Longrightarrow> \<exists>k. native (mFibers s ! current t s) = Resumed k"
    and "t < length (mThreads s) \<Longrightarrow> tmodes s t = Starting \<Longrightarrow> previous_fiber_dest (s_tls s t) = dest_none"
  using assms unfolding fibers_inv_def contexts_ok_def by force+

lemma inv_queue:
  assumes "fibers_inv s"
  shows "mpmc_ok (mIdleFibers s)" and "length (mBuffer (mIdleFibers s)) = length (mFibers s)"
    and "length (mFibers s) < 2 ^ 32 - 1"
  using assms by (simp_all add: fibers_inv_def pool_queue_ok_def)

lemma parked_update:
  "f < length (mFibers s) \<Longrightarrow> mFibers s' = (mFibers s)[f := x] \<Longrightarrow>
   parked s' = (if is_waiting_cleaned_up x then insert f (parked s) else parked s - {f})"
  by (auto simp: parked_def nth_list_update)

text \<open>A step that stays on the current fiber.\<close>

lemma fibers_inv_local:
  assumes inv: "fibers_inv s" and t: "t < length (mThreads s)" and mode: "tmodes s t \<noteq> Starting"
    and none: "previous_fiber_dest (s_tls s t) = dest_none"
    and s': "mIdleFibers s' = mIdleFibers s" "length (mThreads s') = length (mThreads s)"
      "mFibers s' = (mFibers s)[current t s := \<lparr>native = pc, is_waiting_cleaned_up = False\<rparr>]"
      "\<And>u. u \<noteq> t \<Longrightarrow> s_tls s' u = s_tls s u \<and> tmodes s' u = tmodes s u"
      "current_fiber_index (s_tls s' t) = current_fiber_index (s_tls s t)"
      "previous_fiber_dest (s_tls s' t) = dest_none" "tmodes s' t \<noteq> Starting"
  shows "fibers_inv s'"
proof -
  note cf = current_free [OF inv t mode]
  have idle: "idle_fibers s' = idle_fibers s" by (simp add: idle_fibers_def s'(1))
  have nt: "current t s \<notin> parked s" using cf(3) by (simp add: parked_def)
  have park: "parked s' = parked s"
    using parked_update [OF cf(1) s'(3)] nt by simp
  have tf: "thread_fibers t s' = thread_fibers t s"
    using s' mode none by (simp add: thread_fibers_def current_def)
  have nat: "f \<noteq> current t s \<Longrightarrow> native (mFibers s' ! f) = native (mFibers s ! f)" for f
    by (simp add: s'(3))
  show ?thesis
  proof (rule fibers_inv_move [OF inv t s'(2) _ s'(4), where c = "current t s"])
    show "pooled (native (mFibers s' ! f))" if "f \<in># idle_fibers s'" for f
      using that cf(2) nat inv_contexts(1) [OF inv] unfolding idle by metis
    show "waiting (native (mFibers s' ! f))" if "f \<in> parked s'" for f
      using that nt nat inv_contexts(2) [OF inv] unfolding park by metis
  qed (use s' inv_queue [OF inv] cf(4) idle park tf nat in simp_all)
qed

lemma goto_fields [simp]:
  "mIdleFibers (goto t pc s) = mIdleFibers s" "mThreads (goto t pc s) = mThreads s"
  "s_tls (goto t pc s) = s_tls s" "tmodes (goto t pc s) = tmodes s" "failed (goto t pc s) = failed s"
  "current u (goto t pc s) = current u s" "mCounters (goto t pc s) = mCounters s"
  by (simp_all add: goto_def set_native_def current_def)

lemma fiber_update: "\<not> is_waiting_cleaned_up w \<Longrightarrow> w\<lparr>native := pc\<rparr> = \<lparr>native = pc, is_waiting_cleaned_up = False\<rparr>"
  by (cases w) simp

text \<open>Most steps: a change of shared state that is of no interest here, and a new position.\<close>

lemma fibers_inv_goto:
  assumes inv: "fibers_inv s" and t: "t < length (mThreads s)" and mode: "tmodes s t \<noteq> Starting"
    and none: "previous_fiber_dest (s_tls s t) = dest_none"
    and r: "mIdleFibers r = mIdleFibers s" "length (mThreads r) = length (mThreads s)"
      "mFibers r = mFibers s" "s_tls r = s_tls s" "tmodes r = tmodes s"
  shows "fibers_inv (goto t pc r)"
proof -
  have cur: "current t r = current t s" by (simp add: current_def r(4))
  have "mFibers (goto t pc r) = (mFibers s)[current t s := \<lparr>native = pc, is_waiting_cleaned_up = False\<rparr>]"
    using fiber_update [OF current_free(3) [OF inv t mode], of pc]
    by (simp add: goto_def set_native_def r(3) cur)
  with fibers_inv_local [OF inv t mode none, of "goto t pc r" pc] show ?thesis
    using mode none by (simp add: r)
qed

section \<open>Switching\<close>

lemma idle_contents: "mset (map unat (mpmc_list q)) = {#} \<longleftrightarrow> mpmc_list q = []"
  by simp

text \<open>
  \<open>cleanUpPrevFiber\<close>: the fiber left behind becomes idle or waiting. The \<open>enqueue\<close> has room.
\<close>

lemma cleanup_inv:
  assumes inv: "fibers_inv s" and t: "t < length (mThreads s)" and mode: "tmodes s t \<noteq> Starting"
  shows "\<exists>s'. cleanUpPrevFiber t s = Some s' \<and> fibers_inv s' \<and>
    previous_fiber_dest (s_tls s' t) = dest_none \<and> tmodes s' = tmodes s \<and> mThreads s' = mThreads s \<and>
    failed s' = failed s"
    and "previous_fiber_dest (s_tls s t) = dest_pool \<Longrightarrow>
      \<exists>q. mpmc_enqueue (mIdleFibers s) (previous_fiber_index (s_tls s t)) = Some (True, q)"
proof -
  let ?l = "s_tls s t" and ?p = "unat (previous_fiber_index (s_tls s t))"
  let ?l' = "?l\<lparr>previous_fiber_index := invalid_fiber, previous_fiber_dest := dest_none\<rparr>"
  note iq = inv_queue [OF inv]
  have room: "\<exists>q. mpmc_enqueue (mIdleFibers s) x = Some (True, q) \<and> mpmc_ok q \<and>
      mpmc_list q = mpmc_list (mIdleFibers s) @ [x] \<and> length (mBuffer q) = length (mBuffer (mIdleFibers s))" for x
  proof -
    have "thread_fibers t s \<noteq> {#}" using current_fiber [OF mode] by auto
    then have "length (mpmc_list (mIdleFibers s)) < length (mBuffer (mIdleFibers s))"
      using places(8) [OF inv t] iq(2) by (simp add: idle_fibers_def)
    with mpmc.enq_room [OF iq(1)] show ?thesis by blast
  qed
  show "previous_fiber_dest (s_tls s t) = dest_pool \<Longrightarrow>
      \<exists>q. mpmc_enqueue (mIdleFibers s) (previous_fiber_index (s_tls s t)) = Some (True, q)"
    using room by blast
  show "\<exists>s'. cleanUpPrevFiber t s = Some s' \<and> fibers_inv s' \<and>
    previous_fiber_dest (s_tls s' t) = dest_none \<and> tmodes s' = tmodes s \<and> mThreads s' = mThreads s \<and>
    failed s' = failed s"
  proof (cases "previous_fiber_dest ?l")
    case dest_none
    then show ?thesis using inv by (simp add: cleanUpPrevFiber_def Let_def)
  next
    case dest_pool
    from room obtain q where q: "mpmc_enqueue (mIdleFibers s) (previous_fiber_index ?l) = Some (True, q)"
      "mpmc_ok q" "mpmc_list q = mpmc_list (mIdleFibers s) @ [previous_fiber_index ?l]"
      "length (mBuffer q) = length (mBuffer (mIdleFibers s))" by blast
    let ?s = "set_tls t ?l' (s\<lparr>mIdleFibers := q\<rparr>)"
    have idle: "idle_fibers ?s = add_mset ?p (idle_fibers s)"
      by (simp add: idle_fibers_def q(3) set_tls_def)
    have park: "parked ?s = parked s" by (simp add: parked_def set_tls_def)
    have "fibers_inv ?s"
    proof (rule fibers_inv_move [OF inv t, where c = "length (mFibers s)"])
      show "idle_fibers ?s + thread_fibers t ?s + mset_set (parked ?s) =
          idle_fibers s + thread_fibers t s + mset_set (parked s)"
        unfolding idle park using previous_fiber(2) [of s t] mode dest_pool
        by (simp add: thread_fibers_def set_tls_def current_def)
      show "length (mFibers s) \<notin># thread_fibers u s" if "u < length (mThreads s)" for u
        using places(1) [OF inv that] by blast
      show "pooled (native (mFibers ?s ! f))" if "f \<in># idle_fibers ?s" for f
        using that inv_contexts(1,3) [OF inv] t mode dest_pool unfolding idle by (auto simp: set_tls_def)
      show "waiting (native (mFibers ?s ! f))" if "f \<in> parked ?s" for f
        using that inv_contexts(2) [OF inv] unfolding park by (simp add: set_tls_def)
    qed (use mode q in \<open>simp_all add: set_tls_def\<close>)
    with dest_pool q(1) show ?thesis by (simp add: cleanUpPrevFiber_def Let_def set_tls_def)
  next
    case dest_waiting
    let ?s = "set_tls t ?l' (set_cleaned_up ?p True s)"
    have pin: "?p \<in># thread_fibers t s" by (rule previous_fiber(1) [OF mode]) (simp add: dest_waiting)
    have pF: "?p < length (mFibers s)" by (rule places(1) [OF inv t pin])
    have pp: "?p \<notin> parked s" by (rule places(4) [OF inv t pin])
    have idle: "idle_fibers ?s = idle_fibers s"
      by (simp add: idle_fibers_def set_tls_def set_cleaned_up_def)
    have park: "parked ?s = insert ?p (parked s)"
      using parked_update [OF pF, of ?s] by (simp add: set_tls_def set_cleaned_up_def)
    have nat: "native (mFibers ?s ! f) = native (mFibers s ! f)" for f
      using pF by (cases "f = ?p") (simp_all add: set_tls_def set_cleaned_up_def)
    have "fibers_inv ?s"
    proof (rule fibers_inv_move [OF inv t, where c = "length (mFibers s)"])
      show "idle_fibers ?s + thread_fibers t ?s + mset_set (parked ?s) =
          idle_fibers s + thread_fibers t s + mset_set (parked s)"
        unfolding idle park using previous_fiber(2) [of s t] mode dest_waiting pp
        by (simp add: thread_fibers_def set_tls_def set_cleaned_up_def current_def)
      show "length (mFibers s) \<notin># thread_fibers u s" if "u < length (mThreads s)" for u
        using places(1) [OF inv that] by blast
      show "pooled (native (mFibers ?s ! f))" if "f \<in># idle_fibers ?s" for f
        using that inv_contexts(1) [OF inv] unfolding idle nat by blast
      show "waiting (native (mFibers ?s ! f))" if "f \<in> parked ?s" for f
        using that inv_contexts(2,4) [OF inv] t mode dest_waiting unfolding park nat by auto
      show "native (mFibers ?s ! f) = native (mFibers s ! f)" for f by (rule nat)
    qed (use mode iq in \<open>simp_all add: set_tls_def set_cleaned_up_def\<close>)
    with dest_waiting show ?thesis
      by (simp add: cleanUpPrevFiber_def Let_def set_tls_def set_cleaned_up_def)
  qed
qed


text \<open>
  \<open>yieldToFiber\<close> to a fiber that has just been taken out of the pool or out of the waiting ones: \<open>s\<close> is
  the state before that, \<open>r\<close> the one after it.
\<close>

lemma saved_context: "pooled pc \<or> waiting pc \<Longrightarrow> \<exists>k. pc = Resumed k"
  by (cases pc) auto

lemma yield_inv:
  assumes inv: "fibers_inv s" and t: "t < length (mThreads s)" and mode: "tmodes s t \<noteq> Starting"
    and none: "previous_fiber_dest (s_tls s t) = dest_none"
    and r: "length (mThreads r) = length (mThreads s)" "length (mFibers r) = length (mFibers s)"
      "s_tls r = s_tls s" "tmodes r = tmodes s" "\<And>g. native (mFibers r ! g) = native (mFibers s ! g)"
      "mpmc_ok (mIdleFibers r)" "length (mBuffer (mIdleFibers r)) = length (mBuffer (mIdleFibers s))"
    and taken: "idle_fibers s = add_mset (unat f) (idle_fibers r) \<and> parked r = parked s \<or>
      idle_fibers r = idle_fibers s \<and> unat f \<in> parked s \<and> parked r = parked s - {unat f}"
    and dest: "d = dest_pool \<and> pooled (Resumed k) \<or> d = dest_waiting \<and> waiting (Resumed k)"
    and y: "yieldToFiber dbg t f d k r = Some s'"
  shows "fibers_inv s'"
proof -
  let ?c = "current t s"
  note cf = current_free [OF inv t mode]
  have cp: "?c \<notin> parked s" using cf(3) by (simp add: parked_def)
  have target: "unat f < length (mFibers s)" "\<exists>k. native (mFibers s ! unat f) = Resumed k" "unat f \<noteq> ?c"
  proof -
    have in_s: "unat f \<in># idle_fibers s \<or> unat f \<in> parked s" using taken by auto
    then show "unat f < length (mFibers s)" using places(2) [OF inv t] by (auto simp: parked_def)
    show "\<exists>k. native (mFibers s ! unat f) = Resumed k"
      using in_s inv_contexts(1,2) [OF inv] saved_context by blast
    show "unat f \<noteq> ?c" using in_s cf(2) cp by auto
  qed
  obtain A where "idle_fibers s = idle_fibers r + A"
    using taken by (metis add_mset_add_single add_0_right)
  then have sub: "idle_fibers r \<subseteq># idle_fibers s" by simp
  have sub2: "parked r \<subseteq> parked s" using taken by blast
  have valid: "current_fiber_index (s_tls s t) \<noteq> invalid_fiber" "f \<noteq> invalid_fiber"
    using cf(1) target(1) inv_queue(3) [OF inv] unat_minus_one_max [where 'a = 32]
    by (auto simp: invalid_fiber_def current_def)
  have moved: "idle_fibers s + mset_set (parked s) = add_mset (unat f) (idle_fibers r + mset_set (parked r))"
    using taken
  proof (elim disjE conjE)
    assume "idle_fibers s = add_mset (unat f) (idle_fibers r)" and "parked r = parked s"
    then show ?thesis by (simp only: union_mset_add_mset_left)
  next
    assume e: "idle_fibers r = idle_fibers s" "unat f \<in> parked s" "parked r = parked s - {unat f}"
    show ?thesis unfolding e(1,3) using mset_set.remove [OF finite_parked e(2)] by simp
  qed
  have cur: "current t r = ?c" by (simp add: current_def r(3))
  have s': "s' = set_tls t ((s_tls s t)\<lparr>previous_fiber_index := current_fiber_index (s_tls s t),
      previous_fiber_dest := d, current_fiber_index := f\<rparr>) (goto t (Resumed k) r)"
    using y valid by (simp add: yieldToFiber_def Let_def r(3))
  have fields: "mIdleFibers s' = mIdleFibers r" "mThreads s' = mThreads r" "tmodes s' = tmodes s"
    "mFibers s' = (mFibers r)[?c := (mFibers r ! ?c)\<lparr>native := Resumed k\<rparr>]"
    "current t s' = unat f" "previous_fiber_dest (s_tls s' t) = d"
    "unat (previous_fiber_index (s_tls s' t)) = ?c" "\<And>u. u \<noteq> t \<Longrightarrow> s_tls s' u = s_tls s u"
    by (simp_all add: s' set_tls_def goto_def set_native_def r(3,4) current_def)
  have idle: "idle_fibers s' = idle_fibers r" by (simp add: idle_fibers_def fields)
  have park: "parked s' = parked r"
    using cf(1) r(2) by (auto simp: parked_def fields nth_list_update)
  have nat: "native (mFibers s' ! g) = native (mFibers s ! g)" if "g \<noteq> ?c" for g
    using that by (simp add: fields r(5))
  have natc: "native (mFibers s' ! ?c) = Resumed k" using cf(1) r(2) by (simp add: fields)
  show ?thesis
  proof (rule fibers_inv_move [OF inv t, where c = ?c])
    have "d \<noteq> dest_none" using dest by auto
    then have "thread_fibers t s' = {#unat f, ?c#}" "thread_fibers t s = {#?c#}"
      using mode none by (simp_all add: thread_fibers_def fields(3,5-7))
    then show "idle_fibers s' + thread_fibers t s' + mset_set (parked s') =
        idle_fibers s + thread_fibers t s + mset_set (parked s)"
      unfolding idle park using moved by (simp add: ac_simps)
    show "?c \<notin># thread_fibers u s" if "u < length (mThreads s)" "u \<noteq> t" for u
      using cf(4) [OF that] .
    show "pooled (native (mFibers s' ! g))" if "g \<in># idle_fibers s'" for g
    proof -
      have "g \<in># idle_fibers s" using that sub unfolding idle by (rule mset_subset_eqD [rotated])
      then show ?thesis using inv_contexts(1) [OF inv] nat [of g] cf(2) by metis
    qed
    show "waiting (native (mFibers s' ! g))" if "g \<in> parked s'" for g
    proof -
      have "g \<in> parked s" using that sub2 unfolding park by blast
      then show ?thesis using inv_contexts(2) [OF inv] nat [of g] cp by metis
    qed
  qed (use r fields mode dest natc nat target in auto)
qed

lemma deq_idle:
  assumes inv: "fibers_inv s" and d: "mpmc_dequeue (mIdleFibers s) = Some (r, q)"
  shows "mpmc_ok q" and "length (mBuffer q) = length (mBuffer (mIdleFibers s))"
    and "r = Some f \<Longrightarrow> idle_fibers s = add_mset (unat f) (mset (map unat (mpmc_list q)))"
    and "r = None \<Longrightarrow> q = mIdleFibers s"
proof -
  from inv_queue(1) [OF inv] d have "(\<exists>y. r = Some y \<and> mpmc_list (mIdleFibers s) = y # mpmc_list q) \<and>
      mpmc_ok q \<and> length (mBuffer q) = length (mBuffer (mIdleFibers s)) \<or>
      r = None \<and> q = mIdleFibers s"
    by (cases rule: mpmc.deqE) auto
  then show "mpmc_ok q" "length (mBuffer q) = length (mBuffer (mIdleFibers s))"
    "r = Some f \<Longrightarrow> idle_fibers s = add_mset (unat f) (mset (map unat (mpmc_list q)))"
    "r = None \<Longrightarrow> q = mIdleFibers s"
    using inv_queue(1) [OF inv] by (auto simp: idle_fibers_def)
qed

lemma try_resume_inv:
  assumes inv: "fibers_inv s" and t: "t < length (mThreads s)" and mode: "tmodes s t \<noteq> Starting"
    and none: "previous_fiber_dest (s_tls s t) = dest_none" and k: "pooled (Resumed k)"
    and y: "tryResumeFiber dbg t f k k' s = Some s'"
  shows "fibers_inv s'"
proof (cases "unat f < length (mFibers s)")
  case f: True
  show ?thesis
  proof (cases "is_waiting_cleaned_up (mFibers s ! unat f)")
    case True
    let ?r = "set_cleaned_up (unat f) False s"
    have y: "yieldToFiber dbg t f dest_pool k ?r = Some s'"
      using y True f by (simp add: tryResumeFiber_def)
    have park: "parked ?r = parked s - {unat f}"
      using parked_update [OF f, of ?r] by (simp add: set_cleaned_up_def)
    have nat: "native (mFibers ?r ! g) = native (mFibers s ! g)" for g
      using f by (cases "g = unat f") (simp_all add: set_cleaned_up_def)
    show ?thesis
      by (rule yield_inv [OF inv t mode none _ _ _ _ nat _ _ _ _ y])
        (use True f park k inv_queue [OF inv] in
          \<open>auto simp: set_cleaned_up_def idle_fibers_def parked_def\<close>)
  next
    case False
    then have "s' = goto t k' s" using y f by (simp add: tryResumeFiber_def)
    with fibers_inv_goto [OF inv t mode none, of s] show ?thesis by simp
  qed
next
  case False
  then show ?thesis using y inv fail_inv by (auto simp: tryResumeFiber_def)
qed

lemma thread_start_inv:
  assumes inv: "fibers_inv s" and t: "t < length (mThreads s)" and mode: "tmodes s t = Starting"
    and y: "thread_start t s = Some s'"
  shows "fibers_inv s'"
proof -
  obtain r q where d: "mpmc_dequeue (mIdleFibers s) = Some (r, q)"
    using y by (auto simp: thread_start_def acquireFreeFiber_def split: option.splits)
  note dq = deq_idle [OF inv d]
  show ?thesis
  proof (cases r)
    case None
    then have "s' = s" using y d dq(4) by (simp add: thread_start_def acquireFreeFiber_def)
    with inv show ?thesis by simp
  next
    case (Some f)
    let ?r = "set_tls t ((s_tls s t)\<lparr>current_fiber_index := f\<rparr>)
      (s\<lparr>mIdleFibers := q, tmodes := (tmodes s)(t := OnFiber)\<rparr>)"
    have s': "s' = (if t = 0 then set_native (unat f) (Running (MainTask (main_task s)) NoResult) ?r else ?r)"
      using y d Some by (cases "t = 0") (auto simp: thread_start_def acquireFreeFiber_def Let_def)
    have idle: "idle_fibers s = add_mset (unat f) (idle_fibers s')"
      using dq(3) [OF Some] by (simp add: s' idle_fibers_def set_tls_def set_native_def)
    have fin: "unat f \<in># idle_fibers s" by (simp add: idle)
    note fF = places(2) [OF inv t fin] and fp = places(5) [OF inv t fin]
    have none: "previous_fiber_dest (s_tls s t) = dest_none" using inv_contexts(6) [OF inv t mode] .
    have none': "previous_fiber_dest (s_tls s' t) = dest_none"
      using none by (cases "t = 0") (simp_all add: s' set_tls_def set_native_def)
    have on: "tmodes s' t = OnFiber" "current t s' = unat f"
      by (auto simp: s' set_tls_def set_native_def current_def)
    have park: "parked s' = parked s"
      using fF by (auto simp: s' parked_def set_tls_def set_native_def nth_list_update)
    have own: "owners s = mset_set {..<length (mFibers s)}" using inv by (simp add: fibers_inv_def)
    have other: "unat f \<notin># thread_fibers u s" if "u < length (mThreads s)" for u
      using places(3) [OF inv that] fin by blast
    have notin: "unat f \<notin># idle_fibers s'"
    proof
      assume "unat f \<in># idle_fibers s'"
      then have "{#unat f, unat f#} \<subseteq># idle_fibers s" unfolding idle by simp
      moreover have "idle_fibers s \<subseteq># owners s" by (simp add: owners_def add.assoc)
      ultimately show False using mset_set_once unfolding own by (meson subset_mset.order_trans)
    qed
    have nat: "native (mFibers s' ! g) = native (mFibers s ! g)" if "g \<noteq> unat f" for g
      using that by (simp add: s' set_tls_def set_native_def)
    show ?thesis
    proof (rule fibers_inv_move [OF inv t, where c = "unat f"])
      have "thread_fibers t s' = {#unat f#}" "thread_fibers t s = {#}"
        using mode none' on by (simp_all add: thread_fibers_def)
      then show "idle_fibers s' + thread_fibers t s' + mset_set (parked s') =
          idle_fibers s + thread_fibers t s + mset_set (parked s)"
        unfolding idle park by simp
      show "pooled (native (mFibers s' ! g))" if "g \<in># idle_fibers s'" for g
        using that notin nat [of g] inv_contexts(1) [OF inv, of g] unfolding idle
        by (cases "g = unat f") auto
      show "waiting (native (mFibers s' ! g))" if "g \<in> parked s'" for g
        using that fp nat [of g] inv_contexts(2) [OF inv, of g] unfolding park by metis
    qed (use dq other nat none' in simp_all, auto simp: s' set_tls_def set_native_def)
  qed
qed


section \<open>All steps\<close>

lemma return_thread_inv:
  assumes inv: "fibers_inv s" and t: "t < length (mThreads s)" and mode: "tmodes s t \<noteq> Starting"
    and none: "previous_fiber_dest (s_tls s t) = dest_none"
  shows "fibers_inv (return_thread t s)"
proof -
  have "(mFibers s)[current t s := \<lparr>native = native (mFibers s ! current t s), is_waiting_cleaned_up = False\<rparr>]
      = mFibers s"
    using fiber_update [OF current_free(3) [OF inv t mode], of "native (mFibers s ! current t s)", symmetric]
    by simp
  then show ?thesis
    using none by (intro fibers_inv_local [OF inv t mode none, where pc = "native (mFibers s ! current t s)"])
      (auto simp: return_thread_def)
qed

lemma wake_fiber_fields:
  assumes "wake_fiber dbg w s = Some s'"
  shows "fibers_inv s' \<longleftrightarrow> fibers_inv s"
proof (rule fibers_inv_cong)
  show "mIdleFibers s' = mIdleFibers s" "mFibers s' = mFibers s" "length (mThreads s') = length (mThreads s)"
    "s_tls s' = s_tls s" "tmodes s' = tmodes s"
    using assms by (auto simp: wake_fiber_def fail_def set_pinned_def split: if_splits option.splits sum.splits prod.splits)
qed

lemma exec_inv:
  assumes inv: "fibers_inv s" and t: "t < length (mThreads s)" and on: "tmodes s t = OnFiber"
    and pc: "native (mFibers s ! current t s) = pc" and ex: "exec_pc dbg t pc s = Some s'"
  shows "fibers_inv s'"
proof (cases "\<exists>k. pc = Resumed k")
  case True
  then obtain k where k: "pc = Resumed k" by blast
  have mode: "tmodes s t \<noteq> Starting" using on by simp
  from cleanup_inv(1) [OF inv t mode] obtain r where r: "cleanUpPrevFiber t s = Some r" "fibers_inv r"
    "previous_fiber_dest (s_tls r t) = dest_none" "tmodes r = tmodes s" "mThreads r = mThreads s" by blast
  then have "s' = goto t k r" using ex k by simp
  then show ?thesis using fibers_inv_goto [OF r(2) _ _ r(3), of r k] r(4,5) t mode by simp
next
  case False
  have mode: "tmodes s t \<noteq> Starting" using on by simp
  have none: "previous_fiber_dest (s_tls s t) = dest_none"
    using inv_contexts(5) [OF inv t mode] False pc by blast
  note go = fibers_inv_goto [OF inv t mode none]
  show ?thesis
  proof (cases pc)
    case (LoopTop bp)
    have "fibers_inv (return_thread t (goto t Ended s))"
      using go [of s Ended] mode t none by (intro return_thread_inv) simp_all
    with ex LoopTop go [of s] show ?thesis by (auto split: if_splits)
  next
    case (TryPinned bp f)
    then show ?thesis using try_resume_inv [OF inv t mode none, of "GetGlobal bp"] ex by simp
  next
    case (TryGlobal bp f)
    then show ?thesis using try_resume_inv [OF inv t mode none, of "GetTask bp"] ex by simp
  next
    case (WaitYield ctx v)
    with ex obtain x q where d: "mpmc_dequeue (mIdleFibers s) = Some (x, q)"
      by (auto simp: acquireFreeFiber_def split: option.splits)
    note dq = deq_idle [OF inv d]
    show ?thesis
    proof (cases x)
      case None
      then show ?thesis using ex d dq(4) WaitYield inv by (simp add: acquireFreeFiber_def)
    next
      case (Some f)
      then have y: "yieldToFiber dbg t f dest_waiting (WaitOver ctx v) (s\<lparr>mIdleFibers := q\<rparr>) = Some s'"
        using ex d WaitYield by (simp add: acquireFreeFiber_def)
      show ?thesis
        by (rule yield_inv [OF inv t mode none _ _ _ _ _ _ _ _ _ y])
          (use dq(1-3) Some in \<open>simp_all add: idle_fibers_def parked_def\<close>)
    qed
  next
    case (InCounter i c k)
    show ?thesis
    proof (cases "i < length (mCounters s) \<and> \<not> cpc_returned c")
      case True
      obtain c' cs w where st: "cpc_step c (mCounters s ! i) = (c', cs, w)" by (metis prod_cases3)
      let ?s = "goto t (InCounter i c' k) (s\<lparr>mCounters := (mCounters s)[i := cs]\<rparr>)"
      have "fibers_inv ?s" by (rule go) simp_all
      moreover have "case w of None \<Rightarrow> s' = ?s | Some x \<Rightarrow> wake_fiber dbg x ?s = Some s'"
        using ex InCounter True st by (auto simp: counter_action_def Let_def split: option.splits)
      ultimately show ?thesis using wake_fiber_fields [of dbg _ ?s s'] by (cases w) auto
    next
      case False
      then show ?thesis
        using ex InCounter inv go [of s] fail_inv by (auto split: sum.splits if_splits)
    qed
  next
    case (WaitOver ctx v)
    let ?s = "goto t (Running ctx (IntResult v)) (set_tls t ((s_tls s t)\<lparr>is_thread_waiting := False\<rparr>) s)"
    have "mFibers ?s = (mFibers s)[current t s := \<lparr>native = Running ctx (IntResult v), is_waiting_cleaned_up = False\<rparr>]"
      using fiber_update [OF current_free(3) [OF inv t mode], of "Running ctx (IntResult v)"]
      by (simp add: goto_def set_native_def set_tls_def current_def)
    then have "fibers_inv ?s"
      using none mode by (intro fibers_inv_local [OF inv t mode none]) (auto simp: set_tls_def)
    then show ?thesis using ex WaitOver by simp
  qed (use ex False inv fail_inv in \<open>auto simp: Let_def set_pinned_def intro!: go
    split: option.splits prod.splits sum.splits list.splits if_splits\<close>)
qed


lemma api_inv:
  assumes inv: "fibers_inv s" and t: "t < length (mThreads s)" and on: "tmodes s t = OnFiber"
    and pc: "native (mFibers s ! current t s) = Running ctx r" and ex: "api_call dbg P t ctx call s = Some s'"
  shows "fibers_inv s'"
proof -
  have mode: "tmodes s t \<noteq> Starting" using on by simp
  have none: "previous_fiber_dest (s_tls s t) = dest_none"
    using inv_contexts(5) [OF inv t mode] pc by auto
  note go = fibers_inv_goto [OF inv t mode none]
  show ?thesis
  proof (cases call)
    case (CallWait c pinned target)
    let ?pc = "InCounter (handle_counter P c s) (counterAddWaitingFiber (current_fiber_index (s_tls s t))
      (if pinned then thread_index (s_tls s t) else invalid_thread) target) (AfterWait ctx)"
    let ?s = "goto t ?pc (set_tls t ((s_tls s t)\<lparr>is_thread_waiting := True\<rparr>)
      (set_cleaned_up (current t s) False s))"
    have "mFibers ?s = (mFibers s)[current t s := \<lparr>native = ?pc, is_waiting_cleaned_up = False\<rparr>]"
      using current_free(1) [OF inv t mode]
      by (cases "mFibers s ! current t s")
        (simp add: goto_def set_native_def set_tls_def set_cleaned_up_def current_def)
    then have "fibers_inv ?s"
      using none mode by (intro fibers_inv_local [OF inv t mode none, where pc = ?pc])
        (auto simp: set_tls_def set_cleaned_up_def)
    then show ?thesis
      using ex CallWait inv fail_inv by (auto simp: sched_wait_def Let_def split: sum.splits)
  next
    case CallReturn
    show ?thesis
    proof (cases ctx)
      case (MainTask tk)
      have "fibers_inv (return_thread t (goto t Ended (s\<lparr>mIsShuttingDown := True\<rparr>)))"
        using go [of "s\<lparr>mIsShuttingDown := True\<rparr>" Ended] mode t none by (intro return_thread_inv) simp_all
      then show ?thesis using ex CallReturn MainTask by simp
    next
      case (WorkerTask tk)
      then show ?thesis using ex CallReturn go [of s] by auto
    qed
  qed (use ex inv fail_inv in \<open>auto simp: submitTasks_def acquireCounterHandle_def releaseCounter_def
    releaseCounterIfOnTarget_def free_counter_of_def intro!: go
    split: option.splits prod.splits if_splits\<close>)
qed

lemma sched_step_inv: "sched_step dbg P s s' \<Longrightarrow> fibers_inv s \<Longrightarrow> fibers_inv s'"
  by (induction rule: sched_step.induct) (blast intro: thread_start_inv exec_inv api_inv)+

section \<open>The start\<close>

text \<open>Queues as the constructor makes them, for a configuration that \<open>is_valid\<close> accepts.\<close>

definition fresh_queues :: "nat \<Rightarrow> nat \<Rightarrow> 'h sched \<Rightarrow> bool" where
  "fresh_queues fibers counters s \<longleftrightarrow>
     mpmc_ok (mIdleFibers s) \<and> mpmc_list (mIdleFibers s) = [] \<and> length (mBuffer (mIdleFibers s)) = fibers \<and>
     mpmc_ok (mFreeCounters s) \<and> mpmc_list (mFreeCounters s) = [] \<and>
     length (mBuffer (mFreeCounters s)) = counters"

lemma populate_total:
  assumes "fresh_queues (length (mFibers s)) (length (mCounters s)) s"
  shows "\<exists>s'. populate s = Some s' \<and>
    mpmc_list (mIdleFibers s') = map of_nat [0..<length (mFibers s)] \<and>
    mpmc_list (mFreeCounters s') = map of_nat [0..<length (mCounters s)] \<and>
    mpmc_ok (mIdleFibers s') \<and> mpmc_ok (mFreeCounters s') \<and>
    length (mBuffer (mIdleFibers s')) = length (mFibers s) \<and>
    length (mBuffer (mFreeCounters s')) = length (mCounters s) \<and>
    s' = s\<lparr>mIdleFibers := mIdleFibers s', mFreeCounters := mFreeCounters s'\<rparr>"
proof -
  note f = assms [unfolded fresh_queues_def]
  have "length (mpmc_list (mIdleFibers s)) + length (map of_nat [0..<length (mFibers s)] :: fiber_index_t list)
      \<le> length (mBuffer (mIdleFibers s))" using f by simp
  from mpmc.enqueue_each_room [OF _ this] f obtain q1 where
    q1: "enqueue_each mpmc_enqueue (mIdleFibers s) (map of_nat [0..<length (mFibers s)]) = Some q1"
      "mpmc_ok q1" "mpmc_list q1 = map of_nat [0..<length (mFibers s)]"
      "length (mBuffer q1) = length (mFibers s)" by auto
  have "length (mpmc_list (mFreeCounters s)) + length (map of_nat [0..<length (mCounters s)] :: counter_index_t list)
      \<le> length (mBuffer (mFreeCounters s))" using f by simp
  from mpmc.enqueue_each_room [OF _ this] f obtain q2 where
    q2: "enqueue_each mpmc_enqueue (mFreeCounters s) (map of_nat [0..<length (mCounters s)]) = Some q2"
      "mpmc_ok q2" "mpmc_list q2 = map of_nat [0..<length (mCounters s)]"
      "length (mBuffer q2) = length (mCounters s)" by auto
  show ?thesis using q1 q2 by (simp add: populate_def)
qed

lemma start_inv:
  assumes "sched_start threads fibers counters pool main s = Some s'"
    and "fresh_queues fibers counters s" and "fibers < 2 ^ 32 - 1"
  shows "fibers_inv s'"
proof -
  let ?s = "sched_arrays threads fibers counters pool main s"
  have arr: "length (mFibers ?s) = fibers" "length (mCounters ?s) = counters"
    "length (mThreads ?s) = threads" "fresh_queues fibers counters ?s"
    using assms(2) by (simp_all add: sched_arrays_def fresh_queues_def)
  from populate_total [of ?s] arr assms(1) obtain
    q: "mpmc_list (mIdleFibers s') = map of_nat [0..<fibers]" "mpmc_ok (mIdleFibers s')"
      "length (mBuffer (mIdleFibers s')) = fibers"
      and s': "s' = ?s\<lparr>mIdleFibers := mIdleFibers s', mFreeCounters := mFreeCounters s'\<rparr>"
    unfolding sched_start_def by auto
  have len: "length (mFibers s') = fibers" "length (mThreads s') = threads"
    by (subst s', simp add: arr)+
  have fib: "mFibers s' = replicate fibers fiber_created" "tmodes s' t = Starting"
    "previous_fiber_dest (s_tls s' t) = dest_none" for t
    by (subst s', simp add: sched_arrays_def tls_reset_def)+
  have "unat (of_nat i :: fiber_index_t) = i" if "i < fibers" for i
    using that assms(3) by (intro unat_of_nat_small) simp
  then have "map unat (map of_nat [0..<fibers] :: fiber_index_t list) = [0..<fibers]"
    unfolding map_map by (intro map_idI) simp
  then have idle: "idle_fibers s' = mset_set {..<fibers}"
    by (simp add: idle_fibers_def q(1) mset_upt lessThan_atLeast0)
  have "\<not> is_waiting_cleaned_up (mFibers s' ! f)" "pooled (native (mFibers s' ! f))" if "f < fibers" for f
    using that by (simp_all add: fib fiber_created_def)
  then have "parked s' = {}" and pool: "\<forall>f \<in># idle_fibers s'. pooled (native (mFibers s' ! f))"
    unfolding parked_def len idle by auto
  moreover have "thread_fibers t s' = {#}" for t by (simp add: thread_fibers_def fib)
  ultimately show ?thesis
    using idle q assms(3) len fib
    by (simp add: fibers_inv_def owners_def pool_queue_ok_def contexts_ok_def)
qed

lemma start_populated:
  assumes "fresh_queues fibers counters s"
  shows "\<exists>s'. sched_start threads fibers counters pool main s = Some s' \<and>
    mpmc_list (mIdleFibers s') = map of_nat [0..<fibers] \<and>
    mpmc_list (mFreeCounters s') = map of_nat [0..<counters] \<and>
    length (mFibers s') = fibers \<and> length (mCounters s') = counters \<and> length (mThreads s') = threads"
proof -
  let ?s = "sched_arrays threads fibers counters pool main s"
  have "length (mFibers ?s) = fibers" "length (mCounters ?s) = counters" "length (mThreads ?s) = threads"
    and "fresh_queues fibers counters ?s"
    using assms by (simp_all add: sched_arrays_def fresh_queues_def)
  with populate_total [of ?s] obtain s' where "populate ?s = Some s'"
    "mpmc_list (mIdleFibers s') = map of_nat [0..<fibers]"
    "mpmc_list (mFreeCounters s') = map of_nat [0..<counters]"
    and s': "s' = ?s\<lparr>mIdleFibers := mIdleFibers s', mFreeCounters := mFreeCounters s'\<rparr>" by auto
  moreover have "length (mFibers s') = fibers" "length (mCounters s') = counters" "length (mThreads s') = threads"
    by (subst s', simp add: sched_arrays_def)+
  ultimately show ?thesis unfolding sched_start_def by blast
qed

inductive sched_reach :: "bool \<Rightarrow> 'h pool_ops \<Rightarrow> nat \<Rightarrow> nat \<Rightarrow> nat \<Rightarrow> 'h sched \<Rightarrow> bool"
  for dbg P threads fibers counters where
  started: "sched_start threads fibers counters pool main s = Some s' \<Longrightarrow>
    fresh_queues fibers counters s \<Longrightarrow> fibers < 2 ^ 32 - 1 \<Longrightarrow> sched_reach dbg P threads fibers counters s'"
| step: "sched_reach dbg P threads fibers counters s \<Longrightarrow> sched_step dbg P s s' \<Longrightarrow>
    sched_reach dbg P threads fibers counters s'"

lemma sched_reach_inv: "sched_reach dbg P threads fibers counters s \<Longrightarrow> fibers_inv s"
  by (induction rule: sched_reach.induct) (auto intro: start_inv sched_step_inv)


section \<open>Properties\<close>


text \<open>
  C2: a fiber never runs on two threads, and while it runs it is neither in the pool nor marked as one
  that can be resumed.
\<close>

theorem fiber_exclusive:
  assumes "sched_reach dbg P threads fibers counters s"
    and "t < length (mThreads s)" and "tmodes s t = OnFiber"
  shows "current t s < length (mFibers s) \<and>
    (\<forall>u < length (mThreads s). u \<noteq> t \<longrightarrow> tmodes s u = OnFiber \<longrightarrow> current u s \<noteq> current t s) \<and>
    current_fiber_index (s_tls s t) \<notin> set (mpmc_list (mIdleFibers s)) \<and>
    \<not> is_waiting_cleaned_up (mFibers s ! current t s)"
proof -
  note inv = sched_reach_inv [OF assms(1)]
  have mode: "tmodes s t \<noteq> Starting" using assms(3) by simp
  note cf = current_free [OF inv assms(2) mode]
  have "current u s \<noteq> current t s" if "u < length (mThreads s)" "u \<noteq> t" "tmodes s u = OnFiber" for u
    using cf(4) [OF that(1,2)] current_fiber [of s u] that(3) by auto
  moreover have "current_fiber_index (s_tls s t) \<notin> set (mpmc_list (mIdleFibers s))"
    using cf(2) by (auto simp: idle_fibers_def current_def)
  ultimately show ?thesis using cf(1,3) by blast
qed

text \<open>
  C3: a fiber that no thread runs has a saved context: it is in the pool, or left for the pool, and
  will go on in its loop with no task in hand, or it is waiting and will go on right behind its wait.
\<close>

theorem fiber_context_saved:
  assumes "sched_reach dbg P threads fibers counters s" and "f < length (mFibers s)"
    and "\<forall>t < length (mThreads s). tmodes s t \<noteq> Starting \<longrightarrow> current t s \<noteq> f"
  shows "pooled (native (mFibers s ! f)) \<or> waiting (native (mFibers s ! f))"
proof -
  note inv = sched_reach_inv [OF assms(1)]
  have "f \<in># owners s" using inv assms(2) by (simp add: fibers_inv_def)
  then consider "f \<in># idle_fibers s" | "f \<in> parked s"
    | u where "u < length (mThreads s)" "f \<in># thread_fibers u s"
    by (auto simp: owners_def set_mset_sum)
  then show ?thesis
  proof cases
    case (3 u)
    then have "f = unat (previous_fiber_index (s_tls s u))" and m: "tmodes s u \<noteq> Starting"
      and "previous_fiber_dest (s_tls s u) \<noteq> dest_none"
      using assms(3) by (auto simp: thread_fibers_def split: if_splits)
    then show ?thesis
      using inv_contexts(3,4) [OF inv 3(1) m] by (cases "previous_fiber_dest (s_tls s u)") auto
  qed (use inv_contexts(1,2) [OF inv] in blast)+
qed



text \<open>
  \<open>start\<close> fills the queues completely: every fiber is idle and every counter free, in order, and no
  \<open>enqueue\<close> of the two loops, whose results the code does not look at, is refused.
\<close>

theorem start_populates:
  assumes "fresh_queues fibers counters s"
  shows "\<exists>s'. sched_start threads fibers counters pool main s = Some s' \<and>
    mpmc_list (mIdleFibers s') = map of_nat [0..<fibers] \<and>
    mpmc_list (mFreeCounters s') = map of_nat [0..<counters] \<and>
    length (mFibers s') = fibers \<and> length (mCounters s') = counters \<and> length (mThreads s') = threads"
  by (rule start_populated [OF assms])

text \<open>
  The draining loops at the end of \<open>start\<close> return and leave the four queues empty and intact, with
  their capacities, so that the scheduler can be started again.
\<close>

theorem drain_allows_restart:
  assumes "mpmc_ok (mTasks s)" and "mpmc_ok (mIdleFibers s)" and "mpmc_ok (mResumableFibers s)"
    and "mpmc_ok (mFreeCounters s)"
  shows "\<exists>s'. drain_queues s = Some s' \<and> mpmc_list (mTasks s') = [] \<and> mpmc_list (mResumableFibers s') = [] \<and>
    fresh_queues (length (mBuffer (mIdleFibers s))) (length (mBuffer (mFreeCounters s))) s'"
proof -
  obtain q1 where "drain mpmc_dequeue (mTasks s) = Some q1" "mpmc_list q1 = []"
    using mpmc.drain_empties [OF assms(1)] by blast
  moreover obtain q2 where "drain mpmc_dequeue (mIdleFibers s) = Some q2" "mpmc_ok q2" "mpmc_list q2 = []"
    "length (mBuffer q2) = length (mBuffer (mIdleFibers s))"
    using mpmc.drain_empties [OF assms(2)] by blast
  moreover obtain q3 where "drain mpmc_dequeue (mResumableFibers s) = Some q3" "mpmc_list q3 = []"
    using mpmc.drain_empties [OF assms(3)] by blast
  moreover obtain q4 where "drain mpmc_dequeue (mFreeCounters s) = Some q4" "mpmc_ok q4" "mpmc_list q4 = []"
    "length (mBuffer q4) = length (mBuffer (mFreeCounters s))"
    using mpmc.drain_empties [OF assms(4)] by blast
  ultimately show ?thesis by (simp add: drain_queues_def fresh_queues_def)
qed

section \<open>A concrete scheduler\<close>

text \<open>
  A handle pool for the witnesses: handles are indices into a list that only grows. Two threads, four
  fibers, two counters, room for four tasks.
\<close>

definition sample_pool :: "counter_index_t list pool_ops" where
  "sample_pool = \<lparr>pool_acquire = (\<lambda>hs. (of_nat (length hs), hs @ [0])),
     pool_index = (\<lambda>hs h. if unat h < length hs then hs ! unat h else 0),
     pool_set_index = (\<lambda>hs h i. hs[unat h := i]), pool_release = (\<lambda>hs h. hs),
     pool_is_alive = (\<lambda>hs h. unat h < length hs)\<rparr>"

definition sample_task :: task where
  "sample_task = \<lparr>task_buffer = replicate 54 0, task_metadata = 0, task_exec = ExecPtr\<rparr>"

definition sample_queues :: "counter_index_t list sched" where
  "sample_queues = \<lparr>mIsShuttingDown = False, mThreads = [], mFibers = [], mCounters = [],
     mTasks = mpmc_init sample_task 4, mIdleFibers = mpmc_init 0 4, mResumableFibers = mpmc_init 0 4,
     mFreeCounters = mpmc_init 0 2, mCounterHandles = [], s_tls = (\<lambda>_. tls_reset),
     tmodes = (\<lambda>_. Starting), main_task = sample_task, failed = None\<rparr>"

lemma sample_fresh: "fresh_queues 4 2 sample_queues"
proof -
  have "(4 :: usize) = 2 ^ 2" "(2 :: usize) = 2 ^ 1" by simp_all
  then show ?thesis
    using mpmc_init_ok [of 4 2 "0 :: fiber_index_t"] mpmc_init_ok [of 2 1 "0 :: counter_index_t"]
    by (simp add: fresh_queues_def sample_queues_def)
qed

definition sample_started :: "counter_index_t list sched" where
  "sample_started = the (sched_start 2 4 2 [] sample_task sample_queues)"

text \<open>Runs as lists of actions.\<close>

datatype sched_action = Start nat | Exec nat | Call nat user_call

fun sched_perform :: "bool \<Rightarrow> 'h pool_ops \<Rightarrow> sched_action \<Rightarrow> 'h sched \<Rightarrow> 'h sched option" where
  "sched_perform dbg P (Start t) s =
     (if failed s = None \<and> t < length (mThreads s) \<and> tmodes s t = Starting
      then thread_start t s else None)"
| "sched_perform dbg P (Exec t) s =
     (if failed s = None \<and> t < length (mThreads s) \<and> tmodes s t = OnFiber
      then exec_pc dbg t (native (mFibers s ! current t s)) s else None)"
| "sched_perform dbg P (Call t c) s =
     (if failed s = None \<and> t < length (mThreads s) \<and> tmodes s t = OnFiber
      then (case native (mFibers s ! current t s) of
              Running ctx r \<Rightarrow> api_call dbg P t ctx c s | _ \<Rightarrow> None) else None)"

fun sched_run :: "bool \<Rightarrow> 'h pool_ops \<Rightarrow> sched_action list \<Rightarrow> 'h sched \<Rightarrow> 'h sched option" where
  "sched_run dbg P [] s = Some s"
| "sched_run dbg P (a # as) s =
     (case sched_perform dbg P a s of None \<Rightarrow> None | Some s' \<Rightarrow> sched_run dbg P as s')"

lemma sched_perform_step: "sched_perform dbg P a s = Some s' \<Longrightarrow> sched_step dbg P s s'"
  by (cases a) (auto split: if_splits fiber_pc.splits intro: sched_step.intros)

lemma sched_run_reach:
  "sched_reach dbg P n m k s \<Longrightarrow> sched_run dbg P as s = Some s' \<Longrightarrow> sched_reach dbg P n m k s'"
  by (induction as arbitrary: s)
    (auto split: option.splits dest: sched_perform_step intro: sched_reach.step)

lemma sched_run_append:
  "sched_run dbg P (as @ bs) s =
     (case sched_run dbg P as s of None \<Rightarrow> None | Some s' \<Rightarrow> sched_run dbg P bs s')"
  by (induction as arbitrary: s) (auto split: option.splits)

definition sample_state :: "sched_action list \<Rightarrow> counter_index_t list sched" where
  "sample_state as = the (sched_run True sample_pool as (the (sched_start 2 4 2 [] sample_task sample_queues)))"

lemma sample_sched_reach:
  assumes "sched_run True sample_pool as (the (sched_start 2 4 2 [] sample_task sample_queues)) \<noteq> None"
  shows "sched_reach True sample_pool 2 4 2 (sample_state as)"
proof -
  obtain s0 where s0: "sched_start 2 4 2 [] sample_task sample_queues = Some s0"
    using start_populated [OF sample_fresh] by blast
  have "sched_reach True sample_pool 2 4 2 s0"
    by (rule sched_reach.started [OF s0 sample_fresh]) simp
  then show ?thesis
    using sched_run_reach assms unfolding sample_state_def s0 by fastforce
qed

text \<open>
  The main task submits a task and waits for it, unpinned; thread 0 goes on with the next fiber, which
  runs the task and then finds the main fiber resumable.
\<close>

definition submit_actions :: "sched_action list" where
  "submit_actions = [Start 0, Call 0 CallAcquire, Call 0 (CallSubmit [sample_task] 0)] @ replicate 37 (Exec 0)"

definition wait_actions :: "sched_action list" where
  "wait_actions = submit_actions @ Call 0 (CallWait 0 False 0) # replicate 8 (Exec 0)"

definition switch_actions :: "sched_action list" where
  "switch_actions = wait_actions @ replicate 5 (Exec 0) @ Call 0 CallReturn # replicate 44 (Exec 0)"

definition switched :: "counter_index_t list sched" where
  "switched = sample_state switch_actions"

lemma switched_run:
  "sched_run True sample_pool switch_actions (the (sched_start 2 4 2 [] sample_task sample_queues)) \<noteq> None"
  by code_simp

lemma switched_reach: "sched_reach True sample_pool 2 4 2 switched"
  unfolding switched_def by (rule sample_sched_reach [OF switched_run])

lemma switched_fields:
  "length (mFibers switched) = 4" "length (mThreads switched) = 2"
  "tmodes switched 0 = OnFiber" "tmodes switched 1 = Starting"
  "current 0 switched = 0" "mpmc_list (mIdleFibers switched) = [2, 3]"
  "previous_fiber_dest (s_tls switched 0) = dest_pool" "previous_fiber_index (s_tls switched 0) = 1"
proof -
  have "(length (mFibers switched), length (mThreads switched), tmodes switched 0, tmodes switched 1,
      current 0 switched, mpmc_list (mIdleFibers switched), previous_fiber_dest (s_tls switched 0),
      previous_fiber_index (s_tls switched 0)) = (4, 2, OnFiber, Starting, 0, [2, 3], dest_pool, 1)"
    by code_simp
  then show "length (mFibers switched) = 4" "length (mThreads switched) = 2"
    "tmodes switched 0 = OnFiber" "tmodes switched 1 = Starting"
    "current 0 switched = 0" "mpmc_list (mIdleFibers switched) = [2, 3]"
    "previous_fiber_dest (s_tls switched 0) = dest_pool" "previous_fiber_index (s_tls switched 0) = 1"
    by simp_all
qed


theorem fiber_exclusive_witness: "current 0 switched < 4 \<and> \<not> is_waiting_cleaned_up (mFibers switched ! 0)"
proof -
  have "0 < length (mThreads switched)" by (simp add: switched_fields)
  from fiber_exclusive [OF switched_reach this switched_fields(3)] show ?thesis
    by (simp add: switched_fields)
qed

theorem fiber_context_saved_witness:
  "pooled (native (mFibers switched ! 1)) \<or> waiting (native (mFibers switched ! 1))"
proof -
  have "1 < length (mFibers switched)" by (simp add: switched_fields)
  moreover have "t = 0 \<or> t = 1" if "t < length (mThreads switched)" for t
    using that by (auto simp: switched_fields)
  then have "\<forall>t < length (mThreads switched). tmodes switched t \<noteq> Starting \<longrightarrow> current t switched \<noteq> 1"
    using switched_fields(4,5) by fastforce
  ultimately show ?thesis by (rule fiber_context_saved [OF switched_reach])
qed


theorem start_populates_witness:
  "\<exists>s'. sched_start 2 4 2 [] sample_task sample_queues = Some s' \<and> mpmc_list (mIdleFibers s') = [0, 1, 2, 3]"
  using start_populates [OF sample_fresh, of 2 "[]" sample_task] by (fastforce simp: upt_rec)

theorem drain_allows_restart_witness:
  "\<exists>s'. drain_queues sample_queues = Some s' \<and> fresh_queues 4 2 s'"
proof -
  have eq: "(4 :: usize) = 2 ^ 2" "(2 :: usize) = 2 ^ 1" by simp_all
  have "mpmc_ok (mTasks sample_queues)" "mpmc_ok (mIdleFibers sample_queues)"
    "mpmc_ok (mResumableFibers sample_queues)" "mpmc_ok (mFreeCounters sample_queues)"
    using mpmc_init_ok(1) [OF eq(1)] mpmc_init_ok(1) [OF eq(2)] by (simp_all add: sample_queues_def)
  moreover have "length (mBuffer (mIdleFibers sample_queues)) = 4" "length (mBuffer (mFreeCounters sample_queues)) = 2"
    by code_simp+
  ultimately show ?thesis using drain_allows_restart [of sample_queues] by auto
qed

section \<open>A wait that returns early\<close>

text \<open>
  The main task submits a task; thread 1 runs it and decrements the counter to 0. Before it looks at
  the waiting slots, the main task submits a second task on the same counter and waits for it.
\<close>

definition early_before :: "sched_action list" where
  "early_before = [Start 0, Start 1, Call 0 CallAcquire, Call 0 (CallSubmit [sample_task] 0)]
     @ replicate 37 (Exec 0) @ replicate 5 (Exec 1) @ [Call 1 CallReturn, Exec 1]
     @ Call 0 (CallSubmit [sample_task] 0) # replicate 37 (Exec 0)"

definition early_after :: "sched_action list" where
  "early_after = Call 0 (CallWait 0 False 0) # replicate 9 (Exec 0) @ replicate 45 (Exec 1)"

definition observe :: "nat \<Rightarrow> counter_index_t list sched \<Rightarrow> fiber_pc \<times> task list \<times> cint" where
  "observe t s = (native (mFibers s ! current t s), mpmc_list (mTasks s), count (mCounters s ! 0))"

lemma early_observations:
  "map_option (observe 0) (sched_run True sample_pool early_before
     (the (sched_start 2 4 2 [] sample_task sample_queues))) =
   Some (Running (MainTask sample_task) NoResult, [set_metadata 0 sample_task], 1)"
  "map_option (observe 1) (sched_run True sample_pool (early_before @ early_after)
     (the (sched_start 2 4 2 [] sample_task sample_queues))) =
   Some (Running (MainTask sample_task) (IntResult 1), [set_metadata 0 sample_task], 1)"
  by code_simp+

text \<open>
  C11: \<open>wait\<close> for 0 on a counter can return to the user while a task submitted on that counter before
  the wait has not even started: in the run above the call returns 1, the counter is 1, and the second
  task is still in the queue.
\<close>

theorem wait_returns_early:
  "\<exists>s s'. sched_reach True sample_pool 2 4 2 s \<and>
     native (mFibers s ! current 0 s) = Running (MainTask sample_task) NoResult \<and>
     mpmc_list (mTasks s) = [set_metadata 0 sample_task] \<and> count (mCounters s ! 0) = 1 \<and>
     sched_run True sample_pool (Call 0 (CallWait 0 False 0) # replicate 9 (Exec 0) @ replicate 45 (Exec 1)) s
       = Some s' \<and>
     native (mFibers s' ! current 1 s') = Running (MainTask sample_task) (IntResult 1) \<and>
     mpmc_list (mTasks s') = [set_metadata 0 sample_task] \<and> count (mCounters s' ! 0) = 1"
proof -
  let ?s0 = "the (sched_start 2 4 2 [] sample_task sample_queues)"
  obtain s where s: "sched_run True sample_pool early_before ?s0 = Some s"
    using early_observations(1) by fastforce
  moreover obtain s' where "sched_run True sample_pool (early_before @ early_after) ?s0 = Some s'"
    using early_observations(2) by fastforce
  ultimately have s': "sched_run True sample_pool early_after s = Some s'"
    "sched_run True sample_pool (early_before @ early_after) ?s0 = Some s'"
    by (simp_all add: sched_run_append)
  have "sched_reach True sample_pool 2 4 2 s"
    using sample_sched_reach [of early_before] s by (simp add: sample_state_def)
  moreover have "observe 0 s = (Running (MainTask sample_task) NoResult, [set_metadata 0 sample_task], 1)"
    "observe 1 s' = (Running (MainTask sample_task) (IntResult 1), [set_metadata 0 sample_task], 1)"
    using early_observations by (simp_all only: s s'(2) option.map option.inject)
  ultimately show ?thesis
    using s'(1) unfolding observe_def prod.inject early_after_def by blast
qed

end
