(* ===== verification/Scheduler_Limits.thy ===== *)
theory Scheduler_Limits
  imports Fiber_Ownership
begin

text \<open>
  What never changes while the scheduler runs: the numbers of its fibers and threads. And what that
  means for a scheduler that has too few fibers.
\<close>

section \<open>The arrays keep their sizes\<close>

definition shape :: "'h sched \<Rightarrow> nat \<times> nat" where
  "shape s = (length (mFibers s), length (mThreads s))"

lemma shape_simps [simp]:
  "shape (set_native f pc s) = shape s" "shape (goto t pc s) = shape s"
  "shape (set_cleaned_up f b s) = shape s" "shape (set_tls t l s) = shape s"
  "shape (set_pinned i q s) = shape s" "shape (return_thread t s) = shape s"
  "shape (s\<lparr>mIdleFibers := qf\<rparr>) = shape s" "shape (s\<lparr>mResumableFibers := qf\<rparr>) = shape s"
  "shape (s\<lparr>mTasks := qt\<rparr>) = shape s" "shape (s\<lparr>mFreeCounters := qc\<rparr>) = shape s"
  "shape (s\<lparr>mCounters := cs\<rparr>) = shape s" "shape (s\<lparr>mCounterHandles := h\<rparr>) = shape s"
  "shape (s\<lparr>failed := e\<rparr>) = shape s" "shape (s\<lparr>tmodes := m\<rparr>) = shape s"
  "shape (s\<lparr>mIsShuttingDown := b\<rparr>) = shape s"
  by (simp_all add: shape_def set_native_def goto_def set_cleaned_up_def set_tls_def set_pinned_def return_thread_def)

lemma fail_shape: "fail e s = Some s' \<Longrightarrow> shape s' = shape s"
  by (auto simp: fail_def)

lemma wake_shape: "wake_fiber dbg w s = Some s' \<Longrightarrow> shape s' = shape s"
  by (auto simp: wake_fiber_def split: prod.splits option.splits sum.splits if_splits dest: fail_shape)

lemma cleanup_shape: "cleanUpPrevFiber t s = Some s' \<Longrightarrow> shape s' = shape s"
  by (auto simp: cleanUpPrevFiber_def Let_def split: prod.splits option.splits fiber_destination_e.splits)

lemma yield_shape: "yieldToFiber dbg t f d k s = Some s' \<Longrightarrow> shape s' = shape s"
  by (auto simp: yieldToFiber_def Let_def split: if_splits dest: fail_shape)

lemma resume_shape: "tryResumeFiber dbg t f k k' s = Some s' \<Longrightarrow> shape s' = shape s"
  by (auto simp: tryResumeFiber_def split: if_splits dest: fail_shape yield_shape)

lemma acquire_shape: "acquireFreeFiber s = Some (r, s') \<Longrightarrow> shape s' = shape s"
  by (auto simp: acquireFreeFiber_def split: option.splits prod.splits)

lemma counter_shape: "counter_action dbg t i pc k s = Some s' \<Longrightarrow> shape s' = shape s"
  by (auto simp: counter_action_def Let_def split: option.splits prod.splits dest!: wake_shape)

lemmas shape_dests = fail_shape wake_shape cleanup_shape yield_shape resume_shape acquire_shape counter_shape

lemma exec_shape: "exec_pc dbg t pc s = Some s' \<Longrightarrow> shape s' = shape s"
  by (cases pc) (auto simp: Let_def split: if_splits option.splits prod.splits sum.splits list.splits dest!: shape_dests)

lemma api_shape: "api_call dbg P t ctx c s = Some s' \<Longrightarrow> shape s' = shape s"
  by (cases c; cases ctx) (auto simp: sched_wait_def submitTasks_def acquireCounterHandle_def releaseCounter_def
    releaseCounterIfOnTarget_def free_counter_of_def Let_def split: if_splits option.splits prod.splits sum.splits dest!: fail_shape)

lemma start_shape: "thread_start t s = Some s' \<Longrightarrow> shape s' = shape s"
  by (auto simp: thread_start_def Let_def split: if_splits option.splits prod.splits dest!: acquire_shape)

lemma step_shape: "sched_step dbg P s s' \<Longrightarrow> shape s' = shape s"
  by (induction rule: sched_step.induct) (auto dest: exec_shape api_shape start_shape)

lemma sched_reach_lengths:
  "sched_reach dbg P threads fibers counters s \<Longrightarrow> length (mFibers s) = fibers \<and> length (mThreads s) = threads"
proof (induction rule: sched_reach.induct)
  case (started pool main s s')
  with start_populated [of fibers counters s threads pool main] show ?case by auto
next
  case (step s s')
  then show ?case using step_shape [of dbg P s s'] by (simp add: shape_def)
qed

section \<open>Properties\<close>

text \<open>
  C31: a scheduler with fewer fibers than threads, which \<open>is_valid\<close> accepts and the default configuration
  has on a machine with more than 256 logical cores, never lets all threads start: in every reachable state some thread still
  spins for its first fiber, and \<open>start\<close> cannot join it.
\<close>

theorem too_few_fibers_starve:
  assumes "sched_reach dbg P threads fibers counters s" and "fibers < threads"
  shows "\<exists>t < threads. tmodes s t = Starting"
proof (rule ccontr)
  assume "\<not> ?thesis"
  then have on: "tmodes s t \<noteq> Starting" if "t < threads" for t using that by blast
  note inv = sched_reach_inv [OF assms(1)] and len = sched_reach_lengths [OF assms(1)]
  have "inj_on (\<lambda>t. current t s) {..<threads}"
  proof (rule inj_onI)
    fix t u assume tu: "t \<in> {..<threads}" "u \<in> {..<threads}" "current t s = current u s"
    show "t = u"
    proof (rule ccontr)
      assume "t \<noteq> u"
      then have "current t s \<notin># thread_fibers u s"
        using current_free(4) [OF inv, of t u] on [of t] tu len by auto
      moreover have "current u s \<in># thread_fibers u s" using current_fiber [of s u] on [of u] tu by auto
      ultimately show False using tu(3) by simp
    qed
  qed
  moreover have "(\<lambda>t. current t s) ` {..<threads} \<subseteq> {..<fibers}"
    using current_free(1) [OF inv] on len by auto
  ultimately have "card {..<threads} \<le> card {..<fibers}" by (intro card_inj_on_le) simp_all
  with assms(2) show False by simp
qed

definition starved :: "counter_index_t list sched" where
  "starved = the (sched_run True sample_pool [Start 2, Start 0]
     (the (sched_start 3 2 2 [] sample_task (sample_queues\<lparr>mIdleFibers := mpmc_init 0 2\<rparr>))))"

theorem too_few_fibers_starve_witness:
  "(\<exists>t < 3. tmodes starved t = Starting) \<and> tmodes starved 2 = OnFiber"
proof -
  let ?q = "sample_queues\<lparr>mIdleFibers := mpmc_init 0 2\<rparr>"
  have "(2 :: usize) = 2 ^ 1" by simp
  then have fresh: "fresh_queues 2 2 ?q"
    using mpmc_init_ok [of 2 1 "0 :: fiber_index_t"] sample_fresh by (simp add: fresh_queues_def)
  then obtain s where s: "sched_start 3 2 2 [] sample_task ?q = Some s"
    using start_populated [OF fresh, of 3 "[]" sample_task] by blast
  then have "sched_reach True sample_pool 3 2 2 s" using fresh by (auto intro: sched_reach.started)
  moreover have run: "map_option (\<lambda>s. tmodes s 2) (sched_run True sample_pool [Start 2, Start 0]
      (the (sched_start 3 2 2 [] sample_task ?q))) = Some OnFiber" by code_simp
  then obtain s' where "sched_run True sample_pool [Start 2, Start 0] s = Some s'" "tmodes s' 2 = OnFiber"
    using s by auto
  moreover from this have "starved = s'" using s by (simp add: starved_def)
  ultimately have "sched_reach True sample_pool 3 2 2 starved" "tmodes starved 2 = OnFiber"
    using sched_run_reach by metis+
  then show ?thesis using too_few_fibers_starve [of True sample_pool 3 2 2 starved] by simp
qed

end
