(* ===== verification/Config.thy ===== *)
theory Config
  imports Fiber_Ownership
begin

text \<open>
  \<open>scheduler_config\<close> (scheduler.hh, scheduler.config.cc), the constructor of the scheduler, and what
  a valid configuration guarantees: the queues the constructor builds are the ones \<open>start\<close> fills.

  \<open>cc::is_pow2\<close> and \<open>cc::ceil_pow2\<close> are not part of the repository; they are parameters, and
  \<open>is_pow2_law\<close> and \<open>ceil_pow2_law\<close> say what their documentation promises.
\<close>

section \<open>The configuration\<close>

definition invalid_counter :: counter_index_t where "invalid_counter = - 1"

record scheduler_config =
  num_fibers :: u32
  num_threads :: u32
  max_num_counters :: u32
  max_num_tasks :: u32
  fiber_stack_size :: u32
  pin_threads_to_cores :: bool
  worker_thread_startstop_function :: pointer
  worker_thread_startstop_userdata :: pointer
  fiber_seh_filter :: pointer
  static_alloc :: pointer

text \<open>The default configuration, for a number of logical cores and the system allocator.\<close>

definition config_default :: "u32 \<Rightarrow> pointer \<Rightarrow> scheduler_config" where
  "config_default cores system_allocator =
     \<lparr>num_fibers = 256, num_threads = cores, max_num_counters = 512, max_num_tasks = 4096,
      fiber_stack_size = 64 * 1024, pin_threads_to_cores = False, worker_thread_startstop_function = 0,
      worker_thread_startstop_userdata = 0, fiber_seh_filter = 0, static_alloc = system_allocator\<rparr>"

definition ceil_to_pow2 :: "(u32 \<Rightarrow> u32) \<Rightarrow> scheduler_config \<Rightarrow> scheduler_config" where
  "ceil_to_pow2 ceil_pow2 c =
     c\<lparr>num_fibers := ceil_pow2 (num_fibers c), max_num_counters := ceil_pow2 (max_num_counters c),
       max_num_tasks := ceil_pow2 (max_num_tasks c)\<rparr>"

definition is_valid :: "(u32 \<Rightarrow> bool) \<Rightarrow> scheduler_config \<Rightarrow> bool" where
  "is_valid is_pow2 c =
     (if static_alloc c = 0 then False
      else num_fibers c > 0 \<and> num_threads c > 0 \<and> max_num_counters c > 0 \<and> max_num_tasks c > 0 \<and>
        is_pow2 (num_fibers c) \<and> is_pow2 (max_num_counters c) \<and> is_pow2 (max_num_tasks c) \<and>
        num_fibers c < invalid_fiber \<and> num_threads c < invalid_thread \<and>
        max_num_counters c < ucast invalid_counter)"

definition validate :: "(u32 \<Rightarrow> u32) \<Rightarrow> (u32 \<Rightarrow> bool) \<Rightarrow> scheduler_config \<Rightarrow> bool \<times> scheduler_config" where
  "validate ceil_pow2 is_pow2 c = (let c' = ceil_to_pow2 ceil_pow2 c in (is_valid is_pow2 c', c'))"

section \<open>The constructor\<close>

text \<open>
  The queues are built first, with their own assertions, then the configuration is checked. \<open>cores\<close>
  is what \<open>num_logical_cores\<close> returns, \<open>d\<close> the value-initialised task and \<open>pool\<close> the state of a
  default-constructed handle pool.
\<close>

definition scheduler_new ::
  "bool \<Rightarrow> (u32 \<Rightarrow> bool) \<Rightarrow> u32 \<Rightarrow> task \<Rightarrow> 'h \<Rightarrow> scheduler_config \<Rightarrow> failure + 'h sched" where
  "scheduler_new dbg is_pow2 cores d pool c =
     and_then (mpmc_new dbg d (ucast (max_num_tasks c))) (\<lambda>tasks.
     and_then (mpmc_new dbg 0 (ucast (num_fibers c))) (\<lambda>idle.
     and_then (mpmc_new dbg 0 (ucast (num_fibers c))) (\<lambda>resumable.
     and_then (mpmc_new dbg 0 (ucast (max_num_counters c))) (\<lambda>free.
     and_then (cc_assert dbg (is_valid is_pow2 c)
       ''Scheduler config invalid, use scheduler_config_t::validate()'') (\<lambda>_.
     and_then (cc_assert dbg (num_threads c \<le> cores)
       ''More threads than physical cores configured'') (\<lambda>_.
     Inr \<lparr>mIsShuttingDown = False, mThreads = [], mFibers = [], mCounters = [], mTasks = tasks,
       mIdleFibers = idle, mResumableFibers = resumable, mFreeCounters = free, mCounterHandles = pool,
       s_tls = (\<lambda>_. tls_reset), tmodes = (\<lambda>_. Starting), main_task = d, failed = None\<rparr>))))))"

definition scheduler_start ::
  "scheduler_config \<Rightarrow> 'h \<Rightarrow> task \<Rightarrow> 'h sched \<Rightarrow> 'h sched option" where
  "scheduler_start c pool main s =
     sched_start (unat (num_threads c)) (unat (num_fibers c)) (unat (max_num_counters c)) pool main s"

section \<open>Powers of two\<close>

definition is_pow2_law :: "(u32 \<Rightarrow> bool) \<Rightarrow> bool" where
  "is_pow2_law p \<longleftrightarrow> (\<forall>v. v \<noteq> 0 \<longrightarrow> p v = (\<exists>k < 32. unat v = 2 ^ k))"

text \<open>\<open>ceil_pow2 v\<close> is the least power of two that is not below \<open>v\<close>, when there is one.\<close>

definition ceil_pow2_law :: "(u32 \<Rightarrow> u32) \<Rightarrow> bool" where
  "ceil_pow2_law f \<longleftrightarrow>
     (\<forall>v. v \<noteq> 0 \<longrightarrow> unat v \<le> 2 ^ 31 \<longrightarrow> (\<exists>k < 32. unat (f v) = 2 ^ k \<and> (\<forall>j. unat v \<le> 2 ^ j \<longleftrightarrow> k \<le> j)))"

lemma ceil_pow2_facts:
  assumes "ceil_pow2_law f" and "v \<noteq> 0" and "unat v \<le> 2 ^ 31"
  shows "\<exists>k < 32. unat (f v) = 2 ^ k" and "v \<le> f v" and "unat (f v) \<le> 2 ^ m \<longleftrightarrow> unat v \<le> 2 ^ m"
    and "unat (f v) < 2 * unat v"
proof -
  obtain k where k: "k < 32" "unat (f v) = 2 ^ k" "\<And>j. unat v \<le> 2 ^ j \<longleftrightarrow> k \<le> j"
    using assms unfolding ceil_pow2_law_def by blast
  then show "\<exists>k < 32. unat (f v) = 2 ^ k" by blast
  show "v \<le> f v" using k(2) k(3) [of k] by (simp add: word_le_nat_alt)
  show "unat (f v) \<le> 2 ^ m \<longleftrightarrow> unat v \<le> 2 ^ m" unfolding k(2,3) by simp
  show "unat (f v) < 2 * unat v"
  proof (cases k)
    case 0
    moreover have "unat v \<noteq> 0" using assms(2) by (simp add: unsigned_eq_0_iff)
    ultimately show ?thesis using k(2) by simp
  next
    case (Suc j)
    then have "2 ^ j < unat v" using k(3) [of j] by (simp add: not_le [symmetric])
    then show ?thesis using k(2) Suc by simp
  qed
qed

lemma ceil_pow2_fixed:
  assumes "ceil_pow2_law f" and "unat v = 2 ^ k" and "k < 32"
  shows "f v = v"
proof -
  have "v \<noteq> 0" using assms(2) by auto
  moreover have "unat v \<le> 2 ^ 31" using assms(2,3) power_increasing [of k 31 "2 :: nat"] by simp
  ultimately have "unat (f v) \<le> unat v" "unat v \<le> unat (f v)"
    using ceil_pow2_facts(2,3) [OF assms(1), of v] assms(2) by (simp_all add: word_le_nat_alt)
  then show ?thesis by (metis le_antisym word_unat_eq_iff)
qed

lemma pow2_counter_bound:
  fixes v :: u32
  assumes "unat v = 2 ^ k"
  shows "v < ucast invalid_counter \<longleftrightarrow> unat v \<le> 2 ^ 15"
proof -
  have "unat (ucast invalid_counter :: u32) = 65535"
    by (simp add: invalid_counter_def unsigned_ucast_eq unsigned_minus_1_eq_mask mask_eq_exp_minus_1 take_bit_eq_mod)
  then have "v < ucast invalid_counter \<longleftrightarrow> 2 ^ k < (65535 :: nat)"
    using assms by (simp add: word_less_nat_alt)
  moreover have "2 ^ k < (65535 :: nat) \<longleftrightarrow> k \<le> 15"
  proof
    assume "2 ^ k < (65535 :: nat)"
    then have "(2 :: nat) ^ k < 2 ^ 16" by simp
    then have "k < 16" by (simp only: power_strict_increasing_iff)
    then show "k \<le> 15" by simp
  next
    assume "k \<le> 15"
    then have "(2 :: nat) ^ k \<le> 2 ^ 15" by (intro power_increasing) simp_all
    then show "2 ^ k < (65535 :: nat)" by simp
  qed
  moreover have "(2 :: nat) ^ k \<le> 2 ^ 15 \<longleftrightarrow> k \<le> 15"
    by (rule power_increasing_iff) simp
  ultimately show ?thesis using assms by (simp only:)
qed

lemma valid_queue_size:
  fixes v :: u32
  assumes "is_pow2_law p" and "p v" and "v \<noteq> 0" and "2 \<le> v"
  shows "\<exists>q. mpmc_new dbg d (ucast v) = Inr q \<and> mpmc_ok q \<and> mpmc_list q = [] \<and>
    length (mBuffer q) = unat v"
proof -
  obtain k where k: "k < 32" "unat v = 2 ^ k" using assms(1-3) unfolding is_pow2_law_def by blast
  have "2 ^ 1 \<le> (2 :: nat) ^ k" using assms(4) k(2) by (simp add: word_le_nat_alt)
  then have "1 \<le> k" by (rule power_le_imp_le_exp [rotated]) simp
  have v: "(ucast v :: usize) = 2 ^ k"
    using k(2) by (metis of_nat_numeral of_nat_power unsigned_of_nat of_nat_unat)
  have "(2 :: usize) ^ k AND (2 ^ k - 1) = 0"
    by (rule bit_word_eqI) (auto simp: bit_simps mask_eq_exp_minus_1 [symmetric])
  moreover have "unat ((2 :: usize) ^ k) = 2 ^ k"
    using k(1) unat_of_nat_small [of "2 ^ k", where 'a = 64] power_strict_increasing [of k 64 "2::nat"] by simp
  moreover from this have "2 \<le> (2 :: usize) ^ k"
    using \<open>2 ^ 1 \<le> 2 ^ k\<close> by (simp add: word_le_nat_alt)
  ultimately have "mpmc_new dbg d (ucast v) = Inr (mpmc_init d (2 ^ k))"
    by (simp add: mpmc_new_def v fail_simps)
  then show ?thesis
    using mpmc_init_ok [OF refl, of k d] \<open>1 \<le> k\<close> k by simp
qed

lemma single_cell_refused: "mpmc_new True d 1 = Inl (Assertion ''MPMCQueue size not a power of two'')"
  by (simp add: mpmc_new_def cc_assert_def and_then_def word_le_nat_alt)

lemma ceil_config:
  assumes "is_pow2_law p" and "ceil_pow2_law f"
    and "num_fibers c \<noteq> 0" and "unat (num_fibers c) \<le> 2 ^ 31"
    and "max_num_counters c \<noteq> 0" and "unat (max_num_counters c) \<le> 2 ^ 31"
    and "max_num_tasks c \<noteq> 0" and "unat (max_num_tasks c) \<le> 2 ^ 31"
  shows "is_valid p (ceil_to_pow2 f c) \<longleftrightarrow>
      static_alloc c \<noteq> 0 \<and> 0 < num_threads c \<and> num_threads c < invalid_thread \<and>
      unat (max_num_counters c) \<le> 2 ^ 15"
    and "ceil_to_pow2 f (ceil_to_pow2 f c) = ceil_to_pow2 f c"
proof -
  note fa = ceil_pow2_facts [OF assms(2,3,4)] and co = ceil_pow2_facts [OF assms(2,5,6)]
    and ta = ceil_pow2_facts [OF assms(2,7,8)]
  have pow2: "f v \<noteq> 0 \<and> 0 < f v \<and> p (f v) \<and> f (f v) = f v" if "\<exists>k < 32. unat (f v) = 2 ^ k" for v
  proof -
    from that obtain k where k: "k < 32" "unat (f v) = 2 ^ k" by blast
    then have "f v \<noteq> 0" by auto
    then show ?thesis
      using k ceil_pow2_fixed [OF assms(2) k(2,1)] assms(1) by (auto simp: is_pow2_law_def word_gt_0)
  qed
  have fib: "f (num_fibers c) < invalid_fiber"
  proof -
    obtain k where "k < 32" "unat (f (num_fibers c)) = 2 ^ k" using fa(1) by blast
    then have "unat (f (num_fibers c)) \<le> 2 ^ 31" using power_increasing [of k 31 "2 :: nat"] by simp
    then show ?thesis by (simp add: invalid_fiber_def word_less_nat_alt unsigned_minus_1_eq_mask mask_eq_exp_minus_1)
  qed
  have cnt: "f (max_num_counters c) < ucast invalid_counter \<longleftrightarrow> unat (max_num_counters c) \<le> 2 ^ 15"
  proof -
    obtain k where "unat (f (max_num_counters c)) = 2 ^ k" using co(1) by blast
    then show ?thesis using pow2_counter_bound co(3) by metis
  qed
  show "is_valid p (ceil_to_pow2 f c) \<longleftrightarrow>
      static_alloc c \<noteq> 0 \<and> 0 < num_threads c \<and> num_threads c < invalid_thread \<and>
      unat (max_num_counters c) \<le> 2 ^ 15"
    using pow2 [OF fa(1)] pow2 [OF co(1)] pow2 [OF ta(1)] fib cnt
    by (auto simp: is_valid_def ceil_to_pow2_def)
  show "ceil_to_pow2 f (ceil_to_pow2 f c) = ceil_to_pow2 f c"
    using pow2 [OF fa(1)] pow2 [OF co(1)] pow2 [OF ta(1)] by (simp add: ceil_to_pow2_def)
qed

lemma scheduler_new_starts:
  assumes "is_pow2_law p" and "is_valid p c" and "num_threads c \<le> cores"
  shows "if 2 \<le> num_fibers c \<and> 2 \<le> max_num_counters c \<and> 2 \<le> max_num_tasks c
    then \<exists>s s'. scheduler_new dbg p cores d pool c = Inr s \<and> scheduler_start c pool' main s = Some s' \<and>
      sched_reach dbg P (unat (num_threads c)) (unat (num_fibers c)) (unat (max_num_counters c)) s' \<and>
      mpmc_list (mIdleFibers s') = map of_nat [0..<unat (num_fibers c)] \<and>
      mpmc_list (mFreeCounters s') = map of_nat [0..<unat (max_num_counters c)]
    else scheduler_new True p cores d pool c = Inl (Assertion ''MPMCQueue size not a power of two'')"
proof -
  have v: "p (num_fibers c)" "num_fibers c \<noteq> 0" "p (max_num_counters c)" "max_num_counters c \<noteq> 0"
    "p (max_num_tasks c)" "max_num_tasks c \<noteq> 0" "num_fibers c < invalid_fiber"
    using assms(2) by (auto simp: is_valid_def split: if_splits)
  have one: "v = 1" if "v \<noteq> 0" "\<not> 2 \<le> v" for v :: u32
    using that by unat_arith
  show ?thesis
  proof (cases "2 \<le> num_fibers c \<and> 2 \<le> max_num_counters c \<and> 2 \<le> max_num_tasks c")
    case True
    then have ge: "2 \<le> num_fibers c" "2 \<le> max_num_counters c" "2 \<le> max_num_tasks c" by simp_all
    obtain tasks where tasks: "mpmc_new dbg d (ucast (max_num_tasks c)) = Inr tasks"
      using valid_queue_size [OF assms(1) v(5,6) ge(3), of dbg d] by blast
    obtain idle :: "fiber_index_t mpmc" where
      idle: "mpmc_new dbg 0 (ucast (num_fibers c)) = Inr idle" "mpmc_ok idle" "mpmc_list idle = []"
        "length (mBuffer idle) = unat (num_fibers c)"
      using valid_queue_size [OF assms(1) v(1,2) ge(1), of dbg 0] by blast
    obtain free :: "counter_index_t mpmc" where
      free: "mpmc_new dbg 0 (ucast (max_num_counters c)) = Inr free" "mpmc_ok free" "mpmc_list free = []"
        "length (mBuffer free) = unat (max_num_counters c)"
      using valid_queue_size [OF assms(1) v(3,4) ge(2), of dbg 0] by blast
    have "\<exists>s. scheduler_new dbg p cores d pool c = Inr s \<and> mIdleFibers s = idle \<and> mFreeCounters s = free"
      unfolding scheduler_new_def tasks idle(1) free(1) using assms(2,3) by (simp add: fail_simps)
    then obtain s where s: "scheduler_new dbg p cores d pool c = Inr s"
      and "mIdleFibers s = idle" "mFreeCounters s = free" by blast
    then have fresh: "fresh_queues (unat (num_fibers c)) (unat (max_num_counters c)) s"
      using idle free by (simp add: fresh_queues_def)
    have "unat (num_fibers c) < 2 ^ 32 - 1"
      using v(7) by (simp add: invalid_fiber_def word_less_nat_alt unsigned_minus_1_eq_mask mask_eq_exp_minus_1)
    then have reach: "sched_reach dbg P (unat (num_threads c)) (unat (num_fibers c)) (unat (max_num_counters c)) s'"
      if "scheduler_start c pool' main s = Some s'" for s'
      using that [unfolded scheduler_start_def] fresh by (intro sched_reach.started)
    obtain s' where "scheduler_start c pool' main s = Some s'"
      "mpmc_list (mIdleFibers s') = map of_nat [0..<unat (num_fibers c)]"
      "mpmc_list (mFreeCounters s') = map of_nat [0..<unat (max_num_counters c)]"
      using start_populated [OF fresh] unfolding scheduler_start_def by blast
    with reach s True show ?thesis by auto
  next
    case False
    then consider "max_num_tasks c = 1" | "2 \<le> max_num_tasks c" "num_fibers c = 1"
      | "2 \<le> max_num_tasks c" "2 \<le> num_fibers c" "max_num_counters c = 1"
      using one [OF v(2)] one [OF v(4)] one [OF v(6)] by blast
    then have "scheduler_new True p cores d pool c = Inl (Assertion ''MPMCQueue size not a power of two'')"
    proof cases
      case 1
      then show ?thesis by (simp add: scheduler_new_def single_cell_refused and_then_def)
    next
      case 2
      obtain tasks where "mpmc_new True d (ucast (max_num_tasks c)) = Inr tasks"
        using valid_queue_size [OF assms(1) v(5,6) 2(1), of True d] by blast
      with 2 show ?thesis by (simp add: scheduler_new_def single_cell_refused and_then_def)
    next
      case 3
      obtain tasks where "mpmc_new True d (ucast (max_num_tasks c)) = Inr tasks"
        using valid_queue_size [OF assms(1) v(5,6) 3(1), of True d] by blast
      moreover obtain idle :: "fiber_index_t mpmc" where "mpmc_new True 0 (ucast (num_fibers c)) = Inr idle"
        using valid_queue_size [OF assms(1) v(1,2) 3(2), of True 0] by blast
      ultimately show ?thesis using 3 by (simp add: scheduler_new_def single_cell_refused and_then_def)
    qed
    with False show ?thesis by (subst if_not_P)
  qed
qed

section \<open>Properties\<close>


text \<open>
  C30: a valid configuration whose sizes are at least two gives a scheduler that starts: the constructor
  passes its assertions and \<open>start\<close> reaches a state with all fibers idle and all counters free. With a
  size of one, which \<open>is_valid\<close> accepts, a build with assertions stops in the constructor.
\<close>

theorem scheduler_new_correct:
  assumes "is_pow2_law p" and "is_valid p c" and "num_threads c \<le> cores"
  shows "if 2 \<le> num_fibers c \<and> 2 \<le> max_num_counters c \<and> 2 \<le> max_num_tasks c
    then \<exists>s s'. scheduler_new dbg p cores d pool c = Inr s \<and> scheduler_start c pool' main s = Some s' \<and>
      sched_reach dbg P (unat (num_threads c)) (unat (num_fibers c)) (unat (max_num_counters c)) s' \<and>
      mpmc_list (mIdleFibers s') = map of_nat [0..<unat (num_fibers c)] \<and>
      mpmc_list (mFreeCounters s') = map of_nat [0..<unat (max_num_counters c)]
    else scheduler_new True p cores d pool c = Inl (Assertion ''MPMCQueue size not a power of two'')"
  using assms by (rule scheduler_new_starts)

section \<open>Concrete configurations\<close>

definition sample_is_pow2 :: "u32 \<Rightarrow> bool" where
  "sample_is_pow2 v = list_ex (\<lambda>k. unat v = 2 ^ k) [0..<32]"

definition sample_ceil_pow2 :: "u32 \<Rightarrow> u32" where
  "sample_ceil_pow2 v = (case find (\<lambda>k. unat v \<le> 2 ^ k) [0..<32] of Some k \<Rightarrow> 2 ^ k | None \<Rightarrow> v)"

lemma sample_is_pow2_law: "is_pow2_law sample_is_pow2"
  by (auto simp: is_pow2_law_def sample_is_pow2_def list_ex_iff)

lemma sample_ceil_pow2_law: "ceil_pow2_law sample_ceil_pow2"
  unfolding ceil_pow2_law_def
proof (intro allI impI)
  fix v :: u32
  assume "unat v \<le> 2 ^ 31"
  then have "\<exists>k \<in> set [0..<32]. unat v \<le> 2 ^ k" by (intro bexI [of _ 31]) simp_all
  then have "find (\<lambda>k. unat v \<le> 2 ^ k) [0..<32] \<noteq> None" by (auto simp only: find_None_iff)
  then obtain k where k: "find (\<lambda>k. unat v \<le> 2 ^ k) [0..<32] = Some k" by blast
  then have k': "k < 32" "unat v \<le> 2 ^ k" "\<And>j. j < k \<Longrightarrow> \<not> unat v \<le> 2 ^ j"
    by (auto simp: find_Some_iff)
  have "unat (2 ^ k :: u32) = 2 ^ k"
    using k'(1) unat_of_nat_small [of "2 ^ k", where 'a = 32] power_strict_increasing [of k 32 "2::nat"] by simp
  moreover have "unat v \<le> 2 ^ j \<longleftrightarrow> k \<le> j" for j
    using k'(2) k'(3) [of j] power_increasing [of k j "2 :: nat"] by (meson le_trans not_le one_le_numeral)
  ultimately show "\<exists>k < 32. unat (sample_ceil_pow2 v) = 2 ^ k \<and> (\<forall>j. unat v \<le> 2 ^ j \<longleftrightarrow> k \<le> j)"
    using k' k by (auto simp: sample_ceil_pow2_def)
qed

definition sample_config :: scheduler_config where
  "sample_config = (config_default 8 4096)\<lparr>num_fibers := 200, max_num_counters := 500\<rparr>"


theorem scheduler_new_correct_witness:
  "\<exists>s s'. scheduler_new True sample_is_pow2 8 sample_task ([] :: counter_index_t list) (config_default 8 4096) = Inr s \<and>
     scheduler_start (config_default 8 4096) [] sample_task s = Some s' \<and>
     mpmc_list (mIdleFibers s') = map of_nat [0..<256]"
proof -
  have pow2: "sample_is_pow2 v" if "unat v = 2 ^ k" and "k < 32" for v k
    using that by (auto simp: sample_is_pow2_def list_ex_iff)
  have "sample_is_pow2 512" "sample_is_pow2 256" "sample_is_pow2 4096"
    using pow2 [of 512 9] pow2 [of 256 8] pow2 [of 4096 12] by simp_all
  then have "is_valid sample_is_pow2 (config_default 8 4096)"
    using pow2_counter_bound [of 512 9]
    by (simp add: is_valid_def config_default_def invalid_fiber_def invalid_thread_def)
  moreover have f: "num_fibers (config_default 8 4096) = 256" "num_threads (config_default 8 4096) = 8"
    "max_num_counters (config_default 8 4096) = 512" "max_num_tasks (config_default 8 4096) = 4096"
    by (simp_all add: config_default_def)
  ultimately show ?thesis
    using scheduler_new_correct [OF sample_is_pow2_law, of "config_default 8 4096" 8 True sample_task
      "[] :: counter_index_t list" "[]" sample_task sample_pool]
    unfolding f by simp blast
qed

end
