(* ===== verification/Spin_Lock.thy ===== *)
theory Spin_Lock
  imports FIFO_Queue
begin

text \<open>
  \<open>SpinLock\<close> and \<open>LockGuard\<close> (common/spin_lock.hh), and their use: the scheduler accesses the queue of
  the fibers pinned to a thread (\<open>FIFO_Queue\<close>, not synchronised itself) from every thread, always
  inside of a guard. The lock is a program of atomic accesses, the queue operations programs of plain
  reads and writes; threads interleave at every one of them. The result is that the guarded
  operations are atomic, which is how \<open>Scheduler\<close> uses them.
\<close>

section \<open>The lock\<close>

text \<open>
  Positions in \<open>lock\<close> (before its exchange, before the load of the inner loop), in \<open>try_lock\<close>, and
  after them.
\<close>

datatype lock_pc = LockExchange | LockSpin | TryLoad | TryExchange | LockHeld | TryFailed

fun lock_step :: "lock_pc \<Rightarrow> bool \<Rightarrow> lock_pc \<times> bool" where
  "lock_step LockExchange mIsLocked = (if mIsLocked then LockSpin else LockHeld, True)"
| "lock_step LockSpin mIsLocked = (if mIsLocked then LockSpin else LockExchange, mIsLocked)"
| "lock_step TryLoad mIsLocked = (if mIsLocked then TryFailed else TryExchange, mIsLocked)"
| "lock_step TryExchange mIsLocked = (if mIsLocked then TryFailed else LockHeld, True)"
| "lock_step LockHeld mIsLocked = (LockHeld, mIsLocked)"
| "lock_step TryFailed mIsLocked = (TryFailed, mIsLocked)"

definition unlock :: "bool \<Rightarrow> bool" where
  "unlock mIsLocked = False"

definition lock_run :: "nat \<Rightarrow> lock_pc \<Rightarrow> bool \<Rightarrow> lock_pc \<times> bool" where
  "lock_run n pc b = ((\<lambda>(pc, b). lock_step pc b) ^^ n) (pc, b)"

section \<open>The queue operations as programs\<close>

datatype 'a queue_op = Enqueue 'a | Dequeue

text \<open>
  \<open>dequeue\<close>: the test for emptiness, the read of the element, the comparison, and the two ways to
  update the indices. \<open>enqueue\<close>: the assertion, the test for emptiness, the updates and the write.
  \<open>Done\<close> carries the result (\<open>None\<close> is \<open>false\<close>, and for \<open>enqueue\<close>, which has no result).
\<close>

datatype 'a cs_pc =
    DeqEmpty | DeqRead | DeqCompare 'a | DeqClearTail 'a | DeqClearHead 'a | DeqIncrement 'a | DeqWrap 'a
  | EnqAssert 'a | EnqEmpty 'a | EnqTailZero 'a | EnqIncrement 'a | EnqWrap 'a | EnqWrite 'a
  | Done "'a option" | Failed failure

fun cs_start :: "'a queue_op \<Rightarrow> 'a cs_pc" where
  "cs_start (Enqueue v) = EnqAssert v"
| "cs_start Dequeue = DeqEmpty"

definition cs_wrap :: "nat \<Rightarrow> cint \<Rightarrow> cint" where
  "cs_wrap n x = (if int_ge_size x n then int_sub_size x n else x)"

fun cs_step :: "bool \<Rightarrow> 'a cs_pc \<Rightarrow> 'a fifo \<Rightarrow> 'a cs_pc \<times> 'a fifo" where
  "cs_step dbg DeqEmpty q = (if fifo_empty q then Done None else DeqRead, q)"
| "cs_step dbg DeqRead q = (DeqCompare (mData q ! unat (mTail q)), q)"
| "cs_step dbg (DeqCompare v) q = (if mTail q = mHead q then DeqClearTail v else DeqIncrement v, q)"
| "cs_step dbg (DeqClearTail v) q = (DeqClearHead v, q\<lparr>mTail := -1\<rparr>)"
| "cs_step dbg (DeqClearHead v) q = (Done (Some v), q\<lparr>mHead := -1\<rparr>)"
| "cs_step dbg (DeqIncrement v) q = (DeqWrap v, q\<lparr>mTail := mTail q + 1\<rparr>)"
| "cs_step dbg (DeqWrap v) q = (Done (Some v), q\<lparr>mTail := cs_wrap (length (mData q)) (mTail q)\<rparr>)"
| "cs_step dbg (EnqAssert v) q =
     (case cc_assert dbg (\<not> fifo_full q) ''FIFOQueue Full'' of
        Inl e \<Rightarrow> (Failed e, q) | Inr _ \<Rightarrow> (EnqEmpty v, q))"
| "cs_step dbg (EnqEmpty v) q = (if fifo_empty q then EnqTailZero v else EnqIncrement v, q)"
| "cs_step dbg (EnqTailZero v) q = (EnqIncrement v, q\<lparr>mTail := 0\<rparr>)"
| "cs_step dbg (EnqIncrement v) q = (EnqWrap v, q\<lparr>mHead := mHead q + 1\<rparr>)"
| "cs_step dbg (EnqWrap v) q = (EnqWrite v, q\<lparr>mHead := cs_wrap (length (mData q)) (mHead q)\<rparr>)"
| "cs_step dbg (EnqWrite v) q = (Done None, q\<lparr>mData := (mData q)[unat (mHead q) := v]\<rparr>)"
| "cs_step dbg (Done r) q = (Done r, q)"
| "cs_step dbg (Failed e) q = (Failed e, q)"

text \<open>The rest of an operation, run without interference: no operation has more than six steps.\<close>

fun cs_finished :: "'a cs_pc \<Rightarrow> bool" where
  "cs_finished (Done r) = True"
| "cs_finished (Failed e) = True"
| "cs_finished _ = False"

fun cs_run :: "nat \<Rightarrow> bool \<Rightarrow> 'a cs_pc \<Rightarrow> 'a fifo \<Rightarrow> 'a cs_pc \<times> 'a fifo" where
  "cs_run 0 dbg pc q = (pc, q)"
| "cs_run (Suc n) dbg pc q = (case cs_step dbg pc q of (pc', q') \<Rightarrow> cs_run n dbg pc' q')"

text \<open>The operation as one step, as \<open>FIFO_Queue\<close> defines it.\<close>

definition atomic_op :: "bool \<Rightarrow> 'a queue_op \<Rightarrow> 'a fifo \<Rightarrow> 'a cs_pc \<times> 'a fifo" where
  "atomic_op dbg op q =
     (case op of
        Enqueue v \<Rightarrow> (case fifo_enqueue dbg q v of Inl e \<Rightarrow> (Failed e, q) | Inr q' \<Rightarrow> (Done None, q'))
      | Dequeue \<Rightarrow> (case fifo_dequeue q of (r, q') \<Rightarrow> (Done r, q')))"

section \<open>Interleaved threads\<close>

text \<open>A thread takes the guard, runs its operation and leaves the guard.\<close>

datatype 'a gpc = Outside | Locking lock_pc "'a queue_op" | Inside "'a cs_pc" "'a queue_op"

text \<open>\<open>glog\<close> is auxiliary: the operations with their results, in the order in which the lock was released.\<close>

record 'a guarded =
  mIsLocked :: bool
  gqueue :: "'a fifo"
  gpcs :: "nat \<Rightarrow> 'a gpc"
  glog :: "('a queue_op \<times> 'a option) list"

fun guard_step :: "bool \<Rightarrow> nat \<Rightarrow> 'a gpc \<Rightarrow> 'a guarded \<Rightarrow> 'a guarded option" where
  "guard_step dbg t Outside s = None"
| "guard_step dbg t (Locking l op) s =
     (case lock_step l (mIsLocked s) of (l', b) \<Rightarrow>
        Some (s\<lparr>mIsLocked := b,
                gpcs := (gpcs s)(t := if l' = LockHeld then Inside (cs_start op) op else Locking l' op)\<rparr>))"
| "guard_step dbg t (Inside pc op) s =
     (case pc of
        Failed e \<Rightarrow> None
      | Done r \<Rightarrow> Some (s\<lparr>mIsLocked := unlock (mIsLocked s), gpcs := (gpcs s)(t := Outside), glog := glog s @ [(op, r)]\<rparr>)
      | _ \<Rightarrow> (case cs_step dbg pc (gqueue s) of (pc', q) \<Rightarrow>
                Some (s\<lparr>gqueue := q, gpcs := (gpcs s)(t := Inside pc' op)\<rparr>)))"

inductive guard_reach :: "bool \<Rightarrow> 'a fifo \<Rightarrow> 'a guarded \<Rightarrow> bool" for dbg q0 where
  initial: "guard_reach dbg q0 \<lparr>mIsLocked = False, gqueue = q0, gpcs = (\<lambda>_. Outside), glog = []\<rparr>"
| enter: "guard_reach dbg q0 s \<Longrightarrow> gpcs s t = Outside \<Longrightarrow>
    guard_reach dbg q0 (s\<lparr>gpcs := (gpcs s)(t := Locking LockExchange op)\<rparr>)"
| step: "guard_reach dbg q0 s \<Longrightarrow> guard_step dbg t (gpcs s t) s = Some s' \<Longrightarrow> guard_reach dbg q0 s'"

text \<open>The operations of a log, one after the other, with the results they must have.\<close>

fun replay :: "bool \<Rightarrow> ('a queue_op \<times> 'a option) list \<Rightarrow> 'a fifo \<Rightarrow> 'a fifo option" where
  "replay dbg [] q = Some q"
| "replay dbg ((op, r) # ops) q =
     (case atomic_op dbg op q of
        (Done r', q') \<Rightarrow> if r' = r then replay dbg ops q' else None
      | _ \<Rightarrow> None)"

section \<open>The invariant\<close>

lemma replay_append:
  "replay dbg (xs @ ys) q = (case replay dbg xs q of None \<Rightarrow> None | Some q' \<Rightarrow> replay dbg ys q')"
  by (induction dbg xs q rule: replay.induct) (auto split: prod.splits cs_pc.splits)

lemma cs_run_finished [simp]: "cs_finished pc \<Longrightarrow> cs_run n dbg pc q = (pc, q)"
  by (induction n) (auto elim: cs_finished.elims)

text \<open>An operation run to its end is the operation of \<open>FIFO_Queue\<close>.\<close>

lemma cs_run_atomic: "cs_run 6 dbg (cs_start op) q = atomic_op dbg op q"
proof -
  have r: "cs_wrap n (x + 1) = ring_next n x" for n x by (simp add: cs_wrap_def ring_next_def Let_def)
  show ?thesis
    by (cases op)
      (simp_all add: numeral_eq_Suc atomic_op_def fifo_dequeue_def fifo_enqueue_def fifo_store_def
        cc_assert_def and_then_def Let_def r fifo_empty_def)
qed

fun cs_rank :: "'a cs_pc \<Rightarrow> nat" where
  "cs_rank DeqEmpty = 5" | "cs_rank DeqRead = 4" | "cs_rank (DeqCompare v) = 3"
| "cs_rank (DeqClearTail v) = 2" | "cs_rank (DeqClearHead v) = 1"
| "cs_rank (DeqIncrement v) = 2" | "cs_rank (DeqWrap v) = 1"
| "cs_rank (EnqAssert v) = 6" | "cs_rank (EnqEmpty v) = 5" | "cs_rank (EnqTailZero v) = 4"
| "cs_rank (EnqIncrement v) = 3" | "cs_rank (EnqWrap v) = 2" | "cs_rank (EnqWrite v) = 1"
| "cs_rank (Done r) = 0" | "cs_rank (Failed e) = 0"

lemma cs_rank_step: "cs_rank (fst (cs_step dbg pc q)) \<le> cs_rank pc - 1"
  by (cases pc) (simp_all add: cc_assert_def)

lemma cs_run_enough: "cs_rank pc \<le> n \<Longrightarrow> n \<le> m \<Longrightarrow> cs_run m dbg pc q = cs_run n dbg pc q"
proof (induction n arbitrary: m pc q)
  case 0
  then have "cs_finished pc" by (cases pc) simp_all
  then show ?case by simp
next
  case (Suc n)
  then obtain m' where m: "m = Suc m'" "n \<le> m'" by (cases m) auto
  have "cs_rank (fst (cs_step dbg pc q)) \<le> n" using cs_rank_step [of dbg pc q] Suc.prems(1) by linarith
  with Suc.IH [of "fst (cs_step dbg pc q)" m' "snd (cs_step dbg pc q)"] m show ?case
    by (simp add: case_prod_beta)
qed

lemma cs_run_step: "cs_run 6 dbg (fst (cs_step dbg pc q)) (snd (cs_step dbg pc q)) = cs_run 6 dbg pc q"
proof -
  have "cs_rank pc \<le> 6" by (cases pc) simp_all
  then have "cs_run 7 dbg pc q = cs_run 6 dbg pc q" by (intro cs_run_enough) simp_all
  then show ?thesis by (simp add: numeral_eq_Suc case_prod_beta)
qed

text \<open>
  Only the thread inside of the guard has the lock, and what the queue becomes when this thread is done
  is what its operation makes of the queue the log leads to.
\<close>

definition inside :: "'a gpc \<Rightarrow> bool" where
  "inside g \<longleftrightarrow> (\<exists>pc op. g = Inside pc op)"

definition guard_inv :: "bool \<Rightarrow> 'a fifo \<Rightarrow> 'a guarded \<Rightarrow> bool" where
  "guard_inv dbg q0 s \<longleftrightarrow>
     (\<exists>q. replay dbg (glog s) q0 = Some q \<and>
        (if mIsLocked s
         then \<exists>t pc op. gpcs s t = Inside pc op \<and> (\<forall>u. u \<noteq> t \<longrightarrow> \<not> inside (gpcs s u)) \<and>
           cs_run 6 dbg pc (gqueue s) = atomic_op dbg op q
         else gqueue s = q \<and> (\<forall>u. \<not> inside (gpcs s u)))) \<and>
     (\<forall>t l op. gpcs s t = Locking l op \<longrightarrow> l = LockExchange \<or> l = LockSpin)"

lemma same_lock: "mIsLocked s \<Longrightarrow> s\<lparr>mIsLocked := True\<rparr> = s" "\<not> mIsLocked s \<Longrightarrow> s\<lparr>mIsLocked := False\<rparr> = s"
  by simp_all

text \<open>A thread that moves outside of the guard.\<close>

lemma guard_inv_outsider:
  assumes inv: "guard_inv dbg q0 s" and t: "\<not> inside (gpcs s t)" and g: "\<not> inside g"
    and l: "\<forall>l op. g = Locking l op \<longrightarrow> l = LockExchange \<or> l = LockSpin"
  shows "guard_inv dbg q0 (s\<lparr>gpcs := (gpcs s)(t := g)\<rparr>)"
proof -
  obtain q where q: "replay dbg (glog s) q0 = Some q" using inv by (auto simp: guard_inv_def)
  have lk: "\<forall>u l op. ((gpcs s)(t := g)) u = Locking l op \<longrightarrow> l = LockExchange \<or> l = LockSpin"
    using inv l unfolding guard_inv_def by simp
  show ?thesis
  proof (cases "mIsLocked s")
    case True
    then obtain u pc uop where u: "gpcs s u = Inside pc uop" "\<forall>v. v \<noteq> u \<longrightarrow> \<not> inside (gpcs s v)"
      "cs_run 6 dbg pc (gqueue s) = atomic_op dbg uop q"
      using inv q by (auto simp: guard_inv_def)
    with t have "u \<noteq> t" by (auto simp: inside_def)
    then have "((gpcs s)(t := g)) u = Inside pc uop \<and> (\<forall>v. v \<noteq> u \<longrightarrow> \<not> inside (((gpcs s)(t := g)) v))"
      using u(1,2) g by simp
    then show ?thesis using u(3) q lk True unfolding guard_inv_def by (simp del: fun_upd_apply) blast
  next
    case False
    then have "gqueue s = q \<and> (\<forall>u. \<not> inside (((gpcs s)(t := g)) u))" using inv q g by (auto simp: guard_inv_def)
    then show ?thesis using q lk False unfolding guard_inv_def by (simp del: fun_upd_apply)
  qed
qed

lemma guard_step_inv:
  assumes inv: "guard_inv dbg q0 s" and st: "guard_step dbg t (gpcs s t) s = Some s'"
  shows "guard_inv dbg q0 s'"
proof -
  obtain q where q: "replay dbg (glog s) q0 = Some q" using inv by (auto simp: guard_inv_def)
  have lk: "gpcs s u = Locking l op \<Longrightarrow> l = LockExchange \<or> l = LockSpin" for u l op
    using inv unfolding guard_inv_def by blast
  show ?thesis
  proof (cases "gpcs s t")
    case Outside
    then show ?thesis using st by simp
  next
    case (Locking l op)
    show ?thesis
    proof (cases "mIsLocked s \<or> l = LockSpin")
      case True
      then have "\<exists>l'. s' = s\<lparr>gpcs := (gpcs s)(t := Locking l' op)\<rparr> \<and> (l' = LockExchange \<or> l' = LockSpin)"
        using st Locking lk [OF Locking] by (cases "mIsLocked s") (auto simp: same_lock)
      then show ?thesis using Locking by (auto intro!: guard_inv_outsider [OF inv] simp: inside_def)
    next
      case False
      then have n: "gqueue s = q" "\<not> inside (gpcs s u)" for u using inv q by (auto simp: guard_inv_def)
      let ?g = "(gpcs s)(t := Inside (cs_start op) op)"
      have s': "s' = s\<lparr>mIsLocked := True, gpcs := ?g\<rparr>"
        using st Locking False lk [OF Locking] by auto
      have "?g t = Inside (cs_start op) op \<and> (\<forall>u. u \<noteq> t \<longrightarrow> \<not> inside (?g u))" using n(2) by simp
      moreover have "\<forall>u l op. ?g u = Locking l op \<longrightarrow> l = LockExchange \<or> l = LockSpin" by (auto dest: lk)
      ultimately show ?thesis
        using n(1) q cs_run_atomic [of dbg op q] unfolding guard_inv_def s' by (simp del: fun_upd_apply) blast
    qed
  next
    case (Inside pc op)
    then have "mIsLocked s" using inv by (auto simp: guard_inv_def inside_def split: if_splits)
    then obtain u pc' op' where u: "gpcs s u = Inside pc' op'" "\<forall>v. v \<noteq> u \<longrightarrow> \<not> inside (gpcs s v)"
      "cs_run 6 dbg pc' (gqueue s) = atomic_op dbg op' q"
      using inv q by (auto simp: guard_inv_def)
    moreover have "u = t" using u(2) Inside by (metis inside_def)
    ultimately have me: "\<forall>u. u \<noteq> t \<longrightarrow> \<not> inside (gpcs s u)" "cs_run 6 dbg pc (gqueue s) = atomic_op dbg op q"
      using Inside by simp_all
    show ?thesis
    proof (cases "cs_finished pc")
      case True
      then obtain r where r: "pc = Done r" using st Inside by (cases pc) auto
      have s': "s' = s\<lparr>mIsLocked := False, gpcs := (gpcs s)(t := Outside), glog := glog s @ [(op, r)]\<rparr>"
        using st Inside r by (simp add: unlock_def)
      have "atomic_op dbg op q = (Done r, gqueue s)" using me(2) r by simp
      then have "replay dbg (glog s @ [(op, r)]) q0 = Some (gqueue s)" by (simp add: replay_append q)
      then show ?thesis using me(1) by (auto simp: guard_inv_def inside_def s' dest: lk)
    next
      case False
      then have "s' = s\<lparr>gqueue := snd (cs_step dbg pc (gqueue s)),
          gpcs := (gpcs s)(t := Inside (fst (cs_step dbg pc (gqueue s))) op)\<rparr>"
        using st Inside by (cases pc) (auto split: prod.splits)
      then show ?thesis using me q \<open>mIsLocked s\<close> cs_run_step [of dbg pc "gqueue s"]
        by (auto simp: guard_inv_def inside_def intro!: exI [of _ t] dest: lk)
    qed
  qed
qed

lemma guard_reach_inv: "guard_reach dbg q0 s \<Longrightarrow> guard_inv dbg q0 s"
proof (induction rule: guard_reach.induct)
  case initial
  show ?case by (simp add: guard_inv_def inside_def)
next
  case (enter s t op)
  then show ?case by (auto intro!: guard_inv_outsider simp: inside_def)
next
  case (step s t s')
  then show ?case by (blast intro: guard_step_inv)
qed

section \<open>Properties\<close>

text \<open>
  C32: for every interleaving the guarded operations are atomic: at most one thread is inside of the
  guard, the results given so far are those of the operations of \<open>FIFO_Queue\<close> done one after the other
  in the order in which the lock was released, and a free lock means a queue as these operations left it.
\<close>

theorem pinned_queue_atomic:
  assumes "guard_reach dbg q0 s"
  shows "(\<forall>t u. inside (gpcs s t) \<longrightarrow> inside (gpcs s u) \<longrightarrow> t = u) \<and>
    (\<exists>q. replay dbg (glog s) q0 = Some q \<and> (\<not> mIsLocked s \<longrightarrow> gqueue s = q)) \<and>
    (mIsLocked s \<longleftrightarrow> (\<exists>t. inside (gpcs s t)))"
proof -
  note inv = guard_reach_inv [OF assms]
  obtain q where q: "replay dbg (glog s) q0 = Some q" using inv by (auto simp: guard_inv_def)
  show ?thesis
  proof (cases "mIsLocked s")
    case True
    then obtain t pc op where "gpcs s t = Inside pc op" "\<forall>u. u \<noteq> t \<longrightarrow> \<not> inside (gpcs s u)"
      using inv by (auto simp: guard_inv_def)
    moreover from this have "inside (gpcs s t)" by (simp add: inside_def)
    ultimately have "(\<forall>t u. inside (gpcs s t) \<longrightarrow> inside (gpcs s u) \<longrightarrow> t = u)" "\<exists>t. inside (gpcs s t)"
      by metis+
    then show ?thesis using q True by simp
  next
    case False
    then show ?thesis using inv q by (auto simp: guard_inv_def)
  qed
qed

text \<open>
  A thread alone gets a free lock with one exchange and never gets a taken one, not even its own;
  \<open>try_lock\<close> succeeds exactly on a free lock, and after \<open>unlock\<close> both succeed.
\<close>

theorem spin_lock_alone:
  "lock_run (Suc n) LockExchange False = (LockHeld, True) \<and>
   fst (lock_run n LockExchange True) \<noteq> LockHeld \<and> snd (lock_run n LockExchange True) \<and>
   lock_run (Suc (Suc n)) TryLoad b = (if b then TryFailed else LockHeld, True) \<and>
   lock_run (Suc n) LockExchange (unlock b) = (LockHeld, True)"
proof -
  have fixp: "((\<lambda>(pc, b). lock_step pc b) ^^ n) (pc, b) = (pc, b)" if "lock_step pc b = (pc, b)" for pc b n
    using that by (induction n) auto
  have spin: "((\<lambda>(pc, b). lock_step pc b) ^^ n) (LockSpin, True) = (LockSpin, True)" for n by (rule fixp) simp
  have locked: "lock_run n LockExchange True = (if n = 0 then LockExchange else LockSpin, True)" for n
    by (cases n) (simp_all add: lock_run_def funpow_swap1 spin)
  have "lock_run (Suc n) LockExchange False = (LockHeld, True)" for n
    by (simp add: lock_run_def funpow_swap1 fixp)
  moreover have "lock_run (Suc (Suc n)) TryLoad b = (if b then TryFailed else LockHeld, True)"
    by (cases b) (simp_all add: lock_run_def funpow_swap1 fixp)
  ultimately show ?thesis using locked by (auto simp: unlock_def)
qed

section \<open>A concrete run\<close>

text \<open>Thread 1 tries to get in while thread 0 is in the middle of its \<open>enqueue\<close>.\<close>

fun guard_run :: "bool \<Rightarrow> nat list \<Rightarrow> 'a guarded \<Rightarrow> 'a guarded option" where
  "guard_run dbg [] s = Some s"
| "guard_run dbg (t # ts) s =
     (case guard_step dbg t (gpcs s t) s of None \<Rightarrow> None | Some s' \<Rightarrow> guard_run dbg ts s')"

lemma guard_run_reach: "guard_run dbg ts s = Some s' \<Longrightarrow> guard_reach dbg q0 s \<Longrightarrow> guard_reach dbg q0 s'"
  by (induction ts arbitrary: s) (auto split: option.splits intro: guard_reach.step)

definition contended :: "nat guarded" where
  "contended = \<lparr>mIsLocked = False, gqueue = fifo_new [0, 0, 0],
     gpcs = (\<lambda>_. Outside)(0 := Locking LockExchange (Enqueue 7), 1 := Locking LockExchange Dequeue), glog = []\<rparr>"

definition contended_end :: "nat guarded" where
  "contended_end = the (guard_run True [0, 0, 0, 1, 0, 0, 1, 0, 0, 0, 1, 1, 1, 1, 1, 1, 1] contended)"

lemma contended_reach: "guard_reach True (fifo_new [0, 0, 0]) contended"
proof -
  have "guard_reach True (fifo_new [0, 0, 0]) \<lparr>mIsLocked = False, gqueue = fifo_new [0, 0, 0 :: nat],
      gpcs = (\<lambda>_. Outside), glog = []\<rparr>" by (rule guard_reach.initial)
  from guard_reach.enter [OF this, of 0 "Enqueue 7"]
  have "guard_reach True (fifo_new [0, 0, 0]) \<lparr>mIsLocked = False, gqueue = fifo_new [0, 0, 0 :: nat],
      gpcs = (\<lambda>_. Outside)(0 := Locking LockExchange (Enqueue 7)), glog = []\<rparr>" by simp
  from guard_reach.enter [OF this, of 1 Dequeue] show ?thesis by (simp add: contended_def)
qed

theorem pinned_queue_atomic_witness:
  "inside (gpcs contended_end 1) \<and> \<not> inside (gpcs contended_end 0) \<and> mIsLocked contended_end \<and>
   glog contended_end = [(Enqueue 7, None)]"
proof -
  have "map_option (\<lambda>s. (gpcs s 1, glog s))
      (guard_run True [0, 0, 0, 1, 0, 0, 1, 0, 0, 0, 1, 1, 1, 1, 1, 1, 1] contended) =
    Some (Inside (Done (Some 7)) Dequeue, [(Enqueue 7, None)])" by code_simp
  then obtain s where s: "guard_run True [0, 0, 0, 1, 0, 0, 1, 0, 0, 0, 1, 1, 1, 1, 1, 1, 1] contended = Some s"
    "gpcs s 1 = Inside (Done (Some 7)) Dequeue" "glog s = [(Enqueue 7, None)]" by auto
  then have e: "contended_end = s" unfolding contended_end_def by (simp only: option.sel)
  have in1: "inside (gpcs s 1)" using s(2) by (simp add: inside_def)
  from pinned_queue_atomic [OF guard_run_reach [OF s(1) contended_reach]] in1
  have "\<not> inside (gpcs s 0)" "mIsLocked s" by (metis zero_neq_one, blast)
  with in1 s(3) show ?thesis unfolding e by simp
qed

end
