(* ===== verification/Version_Ring.thy ===== *)
theory Version_Ring
  imports Prelude
begin

text \<open>
  \<open>container::VersionRing\<close> (container/version_ring.hh): a ring buffer whose slots are addressed by
  handles that expire when the slot is given away again. The number \<open>N\<close> of slots is the length of the
  data. \<open>cc::mod_pow2\<close> is not part of the repository; it is a parameter, with \<open>mod_pow2_law\<close> as its
  documented meaning.
\<close>

section \<open>State and operations\<close>

record 'a version_ring =
  vrData :: "'a list"
  mVersion :: u32

definition vring_size :: "'a version_ring \<Rightarrow> u32" where
  "vring_size r = of_nat (length (vrData r))"

definition vring_new :: "'a list \<Rightarrow> 'a version_ring" where
  "vring_new init = \<lparr>vrData = init, mVersion = 0\<rparr>"

definition isExpired :: "'a version_ring \<Rightarrow> u32 \<Rightarrow> bool" where
  "isExpired r handle = (mVersion r - handle > vring_size r)"

definition slot_of :: "(u32 \<Rightarrow> u32 \<Rightarrow> u32) \<Rightarrow> 'a version_ring \<Rightarrow> u32 \<Rightarrow> nat" where
  "slot_of mod_pow2 r handle = unat (mod_pow2 handle (vring_size r))"

definition vring_get :: "(u32 \<Rightarrow> u32 \<Rightarrow> u32) \<Rightarrow> 'a version_ring \<Rightarrow> u32 \<Rightarrow> 'a" where
  "vring_get mod_pow2 r handle = vrData r ! slot_of mod_pow2 r handle"

text \<open>The two actions of \<open>acquire\<close>: the \<open>fetch_add\<close>, and the assignment through \<open>get\<close>.\<close>

definition take_version :: "'a version_ring \<Rightarrow> u32 \<times> 'a version_ring" where
  "take_version r = (mVersion r, r\<lparr>mVersion := mVersion r + 1\<rparr>)"

definition put_value :: "(u32 \<Rightarrow> u32 \<Rightarrow> u32) \<Rightarrow> u32 \<Rightarrow> 'a \<Rightarrow> 'a version_ring \<Rightarrow> 'a version_ring" where
  "put_value mod_pow2 handle x r = r\<lparr>vrData := (vrData r)[slot_of mod_pow2 r handle := x]\<rparr>"

definition vring_acquire ::
  "(u32 \<Rightarrow> u32 \<Rightarrow> u32) \<Rightarrow> 'a \<Rightarrow> 'a version_ring \<Rightarrow> u32 \<times> 'a version_ring" where
  "vring_acquire mod_pow2 x r = (case take_version r of (handle, r') \<Rightarrow> (handle, put_value mod_pow2 handle x r'))"

definition vring_reset :: "'a version_ring \<Rightarrow> 'a version_ring" where
  "vring_reset r = r\<lparr>mVersion := 0\<rparr>"

text \<open>Several values, one after the other, with the handles they get.\<close>

fun acquire_all ::
  "(u32 \<Rightarrow> u32 \<Rightarrow> u32) \<Rightarrow> 'a list \<Rightarrow> 'a version_ring \<Rightarrow> u32 list \<times> 'a version_ring" where
  "acquire_all m [] r = ([], r)"
| "acquire_all m (x # xs) r =
     (case vring_acquire m x r of (h, r') \<Rightarrow> case acquire_all m xs r' of (hs, r'') \<Rightarrow> (h # hs, r''))"

section \<open>Lemmas\<close>

definition mod_pow2_law :: "(u32 \<Rightarrow> u32 \<Rightarrow> u32) \<Rightarrow> bool" where
  "mod_pow2_law m \<longleftrightarrow> (\<forall>v k. k < 32 \<longrightarrow> m v (2 ^ k) = v mod 2 ^ k)"

lemma pow2_u32: "k < 32 \<Longrightarrow> unat (2 ^ k :: u32) = 2 ^ k"
  using unat_of_nat_small [of "2 ^ k", where 'a = 32] power_strict_increasing [of k 32 "2::nat"] by simp

lemma slot_of_mod:
  assumes "mod_pow2_law m" and "length (vrData r) = 2 ^ k" and "k < 32"
  shows "slot_of m r h = unat h mod 2 ^ k"
proof -
  have "vring_size r = 2 ^ k" by (simp add: vring_size_def assms(2))
  moreover have "m h (2 ^ k) = h mod 2 ^ k" using assms(1,3) by (simp add: mod_pow2_law_def)
  ultimately show ?thesis by (simp add: slot_of_def unat_mod pow2_u32 [OF assms(3)])
qed

text \<open>The value for handle \<open>mVersion + i\<close> goes to slot \<open>(mVersion + i) mod N\<close>.\<close>

lemma acquire_all_result:
  assumes "mod_pow2_law m" and "length (vrData r) = 2 ^ k" and "k < 32"
  shows "acquire_all m xs r =
    (map (\<lambda>i. mVersion r + of_nat i) [0..<length xs],
     r\<lparr>mVersion := mVersion r + of_nat (length xs),
       vrData := fold (\<lambda>i d. d[(unat (mVersion r) + i) mod 2 ^ k := xs ! i]) [0..<length xs] (vrData r)\<rparr>)"
  using assms(2)
proof (induction xs arbitrary: r)
  case Nil
  then show ?case by simp
next
  case (Cons x xs)
  have upt: "[0..<length (x # xs)] = 0 # map Suc [0..<length xs]" by (simp del: upt.simps add: upt_conv_Cons map_Suc_upt)
  let ?r = "r\<lparr>mVersion := mVersion r + 1, vrData := (vrData r)[unat (mVersion r) mod 2 ^ k := x]\<rparr>"
  have a: "vring_acquire m x r = (mVersion r, ?r)"
    using slot_of_mod [OF assms(1) _ assms(3), of "r\<lparr>mVersion := mVersion r + 1\<rparr>"] Cons.prems
    by (simp add: vring_acquire_def take_version_def put_value_def)
  have step: "(unat (mVersion r + 1) + i) mod 2 ^ k = (unat (mVersion r) + Suc i) mod 2 ^ k" for i
  proof -
    have "unat (mVersion r + 1) mod 2 ^ k = (unat (mVersion r) + 1) mod 2 ^ k"
      using unat_add_mod_pow2 [of k "mVersion r" 1] assms(3) by simp
    then show ?thesis by (metis add_Suc_right mod_add_left_eq plus_1_eq_Suc add.assoc add.commute)
  qed
  have "length (vrData ?r) = 2 ^ k" using Cons.prems by simp
  from Cons.IH [OF this] show ?case
    unfolding upt acquire_all.simps a by (simp add: fold_map comp_def step add.assoc)
qed

section \<open>Properties\<close>

text \<open>
  C33: of the values acquired one after the other from any version on, the \<open>i\<close>-th has the version plus
  \<open>i\<close> as its handle; a handle is expired exactly when more than \<open>N\<close> values, counted from its own, have
  been acquired, and a handle that is not gives back its value. Versions and handles may wrap.
\<close>

theorem version_ring_correct:
  assumes "mod_pow2_law m" and "length (vrData r) = 2 ^ k" and "k \<le> 30"
    and "acquire_all m xs r = (hs, r')" and "i < length xs" and "length xs - i < 2 ^ 32"
  shows "hs ! i = mVersion r + of_nat i \<and> (isExpired r' (hs ! i) \<longleftrightarrow> 2 ^ k < length xs - i) \<and>
    (\<not> isExpired r' (hs ! i) \<longrightarrow> vring_get m r' (hs ! i) = xs ! i)"
proof -
  have k32: "k < 32" using assms(3) by simp
  note res = acquire_all_result [OF assms(1,2) k32, of xs, unfolded assms(4)]
  let ?f = "\<lambda>i. (unat (mVersion r) + i) mod 2 ^ k"
  have h: "hs ! i = mVersion r + of_nat i" using res assms(5) by simp
  have len: "length (vrData r') = 2 ^ k" using res assms(2) by simp
  have "mVersion r' - hs ! i = of_nat (length xs - i)"
    using res h assms(5) by (simp add: of_nat_diff)
  moreover have "unat (of_nat (length xs - i) :: u32) = length xs - i"
    using assms(6) by (intro unat_of_nat_small) simp
  moreover have "unat (vring_size r') = 2 ^ k" using pow2_u32 [OF k32] by (simp add: vring_size_def len)
  ultimately have ex: "isExpired r' (hs ! i) \<longleftrightarrow> 2 ^ k < length xs - i"
    by (simp add: isExpired_def word_less_nat_alt)
  have "vring_get m r' (hs ! i) = xs ! i" if "\<not> 2 ^ k < length xs - i"
  proof -
    have "?f j \<noteq> ?f i" if "i < j" "j < length xs" for j
    proof
      assume eq: "?f j = ?f i"
      have "j - i < 2 ^ k" using that \<open>\<not> 2 ^ k < length xs - i\<close> by linarith
      then have "0 = j - i"
        using mod_ring_le [of 0 "j - i" "2 ^ k" "unat (mVersion r) + i"] eq that(1) by simp
      with that(1) show False by simp
    qed
    then have "vrData r' ! ?f i = xs ! i"
      using fold_update_nth [of 0 i "length xs" ?f "vrData r" "\<lambda>i. xs ! i"] res assms(2,5) by simp
    moreover have "slot_of m r' (hs ! i) = ?f i"
      unfolding slot_of_mod [OF assms(1) len k32] h using k32 by (intro unat_add_mod_pow2) simp
    ultimately show ?thesis by (simp add: vring_get_def)
  qed
  with h ex show ?thesis by blast
qed

definition sample_mod :: "u32 \<Rightarrow> u32 \<Rightarrow> u32" where
  "sample_mod v n = v mod n"

lemma sample_mod_law: "mod_pow2_law sample_mod"
  by (simp add: mod_pow2_law_def sample_mod_def)

text \<open>The version wraps between the second and the third value.\<close>

theorem version_ring_correct_witness:
  "\<exists>hs r'. acquire_all sample_mod [10, 20, 30, 40, 50 :: nat] \<lparr>vrData = [0, 0, 0, 0], mVersion = - 2\<rparr> = (hs, r') \<and>
     isExpired r' (hs ! 0) \<and> hs ! 2 = 0 \<and> vring_get sample_mod r' (hs ! 2) = 30"
proof -
  let ?r = "\<lparr>vrData = [0, 0, 0, 0], mVersion = - 2\<rparr> :: nat version_ring"
  obtain hs r' where a: "acquire_all sample_mod [10, 20, 30, 40, 50] ?r = (hs, r')" by fastforce
  have "isExpired r' (hs ! 0)" using version_ring_correct [OF sample_mod_law _ _ a, of 2 0] by (elim meta_impE conjE) simp_all
  moreover have "hs ! 2 = 0 \<and> vring_get sample_mod r' (hs ! 2) = 30"
    using version_ring_correct [OF sample_mod_law _ _ a, of 2 2] by auto
  ultimately show ?thesis using a by blast
qed


end
