(* ===== verification/Task_API.thy ===== *)
theory Task_API
  imports Config
begin

text \<open>
  The interface for user code (sync.hh, td-lean.hh, td.hh): sync objects, launching a scheduler,
  submitting tasks and waiting for them. A function of the interface is a program: a tree of calls of
  the scheduler's functions (\<open>user_call\<close>) that goes on with their results. \<open>prog_run\<close> runs a program
  on a fiber of the scheduler, with no other thread in between.
\<close>

section \<open>Sync objects\<close>

definition null_handle_value :: handle_t where "null_handle_value = - 1"

definition counter_is_valid :: "handle_t \<Rightarrow> bool" where
  "counter_is_valid h = (h \<noteq> null_handle_value)"

definition counter_invalidate :: "handle_t \<Rightarrow> handle_t" where
  "counter_invalidate h = null_handle_value"

record sync =
  sync_handle :: handle_t

definition null_sync :: sync where
  "null_sync = \<lparr>sync_handle = null_handle_value\<rparr>"

section \<open>Programs\<close>

datatype 'a prog = Return 'a | Stop failure | Invoke user_call "api_result \<Rightarrow> 'a prog"

primrec prog_bind :: "'a prog \<Rightarrow> ('a \<Rightarrow> 'b prog) \<Rightarrow> 'b prog" where
  "prog_bind (Return v) f = f v"
| "prog_bind (Stop e) f = Stop e"
| "prog_bind (Invoke c k) f = Invoke c (\<lambda>r. prog_bind (k r) f)"

definition prog_assert :: "bool \<Rightarrow> bool \<Rightarrow> string \<Rightarrow> 'a prog \<Rightarrow> 'a prog" where
  "prog_assert dbg b msg p = (case cc_assert dbg b msg of Inl e \<Rightarrow> Stop e | Inr _ \<Rightarrow> p)"

text \<open>The results of the calls, at the types the functions of the scheduler have.\<close>

fun handle_result :: "api_result \<Rightarrow> handle_t" where
  "handle_result (HandleResult h) = h" | "handle_result _ = null_handle_value"

fun int_result :: "api_result \<Rightarrow> cint" where
  "int_result (IntResult v) = v" | "int_result _ = 0"

fun bool_result :: "api_result \<Rightarrow> bool" where
  "bool_result (BoolResult b) = b" | "bool_result _ = False"

section \<open>Submitting and waiting\<close>

text \<open>\<open>alive\<close> is what \<open>is_scheduler_alive\<close> returns on the calling thread.\<close>

definition submit_raw :: "bool \<Rightarrow> bool \<Rightarrow> sync \<Rightarrow> task list \<Rightarrow> sync prog" where
  "submit_raw dbg alive s ts =
     prog_assert dbg alive ''attempted submit outside of live scheduler''
       (prog_bind
         (if \<not> counter_is_valid (sync_handle s)
          then Invoke CallAcquire (\<lambda>r. Return (s\<lparr>sync_handle := handle_result r\<rparr>))
          else Return s)
         (\<lambda>s'. Invoke (CallSubmit ts (sync_handle s')) (\<lambda>_. Return s')))"

text \<open>The variants that submit one function object, and those that return a new sync object.\<close>

definition submit_lambda :: "bool \<Rightarrow> bool \<Rightarrow> nat \<Rightarrow> byte list \<Rightarrow> task \<Rightarrow> sync \<Rightarrow> sync prog option" where
  "submit_lambda dbg alive T func d s =
     map_option (\<lambda>dispatch. submit_raw dbg alive s [dispatch]) (task_lambda T func d)"

definition submit_raw_new :: "bool \<Rightarrow> bool \<Rightarrow> task list \<Rightarrow> sync prog" where
  "submit_raw_new dbg alive ts = submit_raw dbg alive null_sync ts"

definition single_wait_for :: "sync \<Rightarrow> bool \<Rightarrow> (cint \<times> sync) prog" where
  "single_wait_for s pinned =
     (if \<not> counter_is_valid (sync_handle s) then Return (0, s)
      else Invoke (CallWait (sync_handle s) pinned 0) (\<lambda>res.
        Invoke (CallReleaseIfOnTarget (sync_handle s) 0) (\<lambda>released.
          Return (int_result res,
            if bool_result released then s\<lparr>sync_handle := null_handle_value\<rparr> else s))))"

definition wait_for :: "sync \<Rightarrow> (cint \<times> sync) prog" where
  "wait_for s = single_wait_for s True"

definition wait_for_unpinned :: "sync \<Rightarrow> (cint \<times> sync) prog" where
  "wait_for_unpinned s = single_wait_for s False"

text \<open>The overloads for several sync objects, from left to right.\<close>

primrec wait_for_each :: "bool \<Rightarrow> sync list \<Rightarrow> sync list prog" where
  "wait_for_each pinned [] = Return []"
| "wait_for_each pinned (s # ss) =
     prog_bind (single_wait_for s pinned) (\<lambda>(_, s').
       prog_bind (wait_for_each pinned ss) (\<lambda>ss'. Return (s' # ss')))"

text \<open>The experimental functions on counters.\<close>

definition acquire_counter :: "bool \<Rightarrow> bool \<Rightarrow> handle_t prog" where
  "acquire_counter dbg alive =
     prog_assert dbg alive ''scheduler not alive'' (Invoke CallAcquire (\<lambda>r. Return (handle_result r)))"

definition release_counter :: "handle_t \<Rightarrow> cint prog" where
  "release_counter h = Invoke (CallRelease h) (\<lambda>r. Return (int_result r))"

definition release_counter_if_on_target :: "handle_t \<Rightarrow> cint \<Rightarrow> bool prog" where
  "release_counter_if_on_target h target = Invoke (CallReleaseIfOnTarget h target) (\<lambda>r. Return (bool_result r))"

definition increment_counter :: "handle_t \<Rightarrow> u32 \<Rightarrow> cint prog" where
  "increment_counter h amount = Invoke (CallIncrement h amount) (\<lambda>r. Return (int_result r))"

definition decrement_counter :: "handle_t \<Rightarrow> u32 \<Rightarrow> unit prog" where
  "decrement_counter h amount = Invoke (CallDecrement h amount) (\<lambda>_. Return ())"

definition wait_for_counter :: "handle_t \<Rightarrow> bool \<Rightarrow> cint \<Rightarrow> cint prog" where
  "wait_for_counter h pinned target = Invoke (CallWait h pinned target) (\<lambda>r. Return (int_result r))"

definition submit_on_counter :: "bool \<Rightarrow> bool \<Rightarrow> handle_t \<Rightarrow> task list \<Rightarrow> unit prog" where
  "submit_on_counter dbg alive h ts =
     prog_assert dbg alive ''scheduler not alive'' (Invoke (CallSubmit ts h) (\<lambda>_. Return ()))"

section \<open>Launching\<close>

text \<open>
  \<open>None\<close> inside is the nested case, in which the function is only called. \<open>f\<close> and \<open>p\<close> are
  \<open>cc::ceil_pow2\<close> and \<open>cc::is_pow2\<close>, \<open>main\<close> the task made from the function, \<open>pool\<close> and \<open>pool'\<close> the
  handle pool as constructed and as initialised.
\<close>

definition launch ::
  "bool \<Rightarrow> (u32 \<Rightarrow> u32) \<Rightarrow> (u32 \<Rightarrow> bool) \<Rightarrow> u32 \<Rightarrow> bool \<Rightarrow> 'h \<Rightarrow> 'h \<Rightarrow> task \<Rightarrow> scheduler_config \<Rightarrow> task \<Rightarrow>
     failure + 'h sched option option"
where
  "launch dbg f p cores alive pool pool' d c main =
     (if alive then Inr None
      else let c' = ceil_to_pow2 f c in
        and_then (cc_assert dbg (is_valid p c') ''Scheduler configuration invalid'') (\<lambda>_.
        and_then (scheduler_new dbg p cores d pool c') (\<lambda>s.
        Inr (Some (scheduler_start c' pool' main s)))))"

text \<open>The overload without a configuration takes the default one.\<close>

definition launch_default ::
  "bool \<Rightarrow> (u32 \<Rightarrow> u32) \<Rightarrow> (u32 \<Rightarrow> bool) \<Rightarrow> u32 \<Rightarrow> pointer \<Rightarrow> bool \<Rightarrow> 'h \<Rightarrow> 'h \<Rightarrow> task \<Rightarrow> task \<Rightarrow>
     failure + 'h sched option option"
where
  "launch_default dbg f p cores alloc alive pool pool' d main =
     launch dbg f p cores alive pool pool' d (config_default cores alloc) main"

definition singlethreaded_config :: "u32 \<Rightarrow> pointer \<Rightarrow> scheduler_config" where
  "singlethreaded_config cores alloc = (config_default cores alloc)\<lparr>num_threads := 1\<rparr>"

section \<open>Running a program\<close>

text \<open>
  Thread \<open>t\<close> goes on alone until it is in user code or the program has failed; \<open>None\<close> when it never
  gets there.
\<close>

partial_function (option) user_resume :: "bool \<Rightarrow> nat \<Rightarrow> 'h sched \<Rightarrow> 'h sched option" where
  "user_resume dbg t s =
     (if failed s \<noteq> None then Some s
      else case native (mFibers s ! current t s) of
             Running ctx r \<Rightarrow> Some s
           | pc \<Rightarrow> (case exec_pc dbg t pc s of None \<Rightarrow> None | Some s' \<Rightarrow> user_resume dbg t s'))"

declare user_resume.simps [code]

text \<open>
  A program as the user code of the fiber that thread \<open>t\<close> runs. When a call leaves the thread on another
  fiber, the program is suspended and has no result here.
\<close>

primrec prog_run ::
  "bool \<Rightarrow> 'h pool_ops \<Rightarrow> nat \<Rightarrow> user_context \<Rightarrow> 'a prog \<Rightarrow> 'h sched \<Rightarrow> ((failure + 'a) \<times> 'h sched) option"
where
  "prog_run dbg P t ctx (Return v) = (\<lambda>s. Some (Inr v, s))"
| "prog_run dbg P t ctx (Stop e) = (\<lambda>s. Some (Inl e, s))"
| "prog_run dbg P t ctx (Invoke c k) = (\<lambda>s.
     case api_call dbg P t ctx c s of
       None \<Rightarrow> None
     | Some s1 \<Rightarrow>
         (case user_resume dbg t s1 of
            None \<Rightarrow> None
          | Some s2 \<Rightarrow>
              (case failed s2 of
                 Some e \<Rightarrow> Some (Inl e, s2)
               | None \<Rightarrow>
                   if current t s2 \<noteq> current t s then None
                   else (case native (mFibers s2 ! current t s2) of
                           Running ctx' r \<Rightarrow> prog_run dbg P t ctx (k r) s2
                         | _ \<Rightarrow> None))))"

end
