(* ===== verification/Batches.thy ===== *)
theory Batches
  imports Task_API
begin

text \<open>
  The submit functions of td.hh that make many tasks: one per index, one per element, or one per batch
  of indices. The function object a task captures its arguments in is made by \<open>container::task\<close>
  (\<open>Task\<close>); here \<open>mk\<close> stands for that construction, for given captured arguments.

  \<open>cc::int_div_ceil\<close> is not part of the repository; it is a parameter, with \<open>div_ceil_law\<close> as its
  documented meaning. A division by zero traps.
\<close>

lemma unat_next:
  fixes i n :: "'a::len word"
  assumes "i < n"
  shows "unat (i + 1) = unat i + 1"
proof -
  have "unat n < 2 ^ LENGTH('a)" by (rule unsigned_less)
  with assms have "unat i + 1 < 2 ^ LENGTH('a)" unfolding word_less_nat_alt by linarith
  then show ?thesis by (simp add: unat_word_ariths)
qed

lemma unat_ucast_wide: "unat (ucast i :: usize) = unat (i :: u32)"
proof -
  have "unat i < 2 ^ LENGTH(32)" by (rule unsigned_less)
  then show ?thesis by (simp add: unsigned_ucast_eq take_bit_nat_eq_self)
qed

section \<open>One task per index or element\<close>

text \<open>\<open>for (auto i = 0u; i < n; ++i)\<close>, for a body that makes one task.\<close>

function index_tasks :: "(u32 \<Rightarrow> task) \<Rightarrow> u32 \<Rightarrow> u32 \<Rightarrow> task list" where
  "index_tasks mk i n = (if i < n then mk i # index_tasks mk (i + 1) n else [])"
  by pat_completeness auto

termination
proof (relation "measure (\<lambda>(mk, i, n). unat n - unat i)")
  fix i n :: u32
  assume "i < n"
  then have "unat (i + 1) = unat i + 1" by (rule unat_next)
  then show "((mk :: u32 \<Rightarrow> task, i + 1, n), (mk, i, n)) \<in> measure (\<lambda>(mk, i, n). unat n - unat i)" for mk
    using \<open>i < n\<close> by (simp add: word_less_nat_alt)
qed simp


definition submit_n :: "bool \<Rightarrow> bool \<Rightarrow> sync \<Rightarrow> (u32 \<Rightarrow> task) \<Rightarrow> u32 \<Rightarrow> sync prog" where
  "submit_n dbg alive s mk n = submit_raw dbg alive s (index_tasks mk 0 n)"

text \<open>
  The index of the loop over a span is an \<open>unsigned\<close>, compared with the \<open>size_t\<close> of the span. For a
  span of \<open>2 ^ 32\<close> elements or more that loop never ends; \<open>None\<close> here.
\<close>

partial_function (option) span_tasks :: "('a \<Rightarrow> task) \<Rightarrow> u32 \<Rightarrow> 'a list \<Rightarrow> task list option" where
  "span_tasks mk i vals =
     (if (ucast i :: usize) < of_nat (length vals)
      then Option.bind (span_tasks mk (i + 1) vals) (\<lambda>ts. Some (mk (vals ! unat i) # ts))
      else Some [])"

text \<open>
  \<open>submit_each_ref\<close> captures the address of the element, for an array of elements of \<open>sz\<close> bytes, and
  \<open>submit_each_copy\<close> its value.
\<close>

definition submit_each_copy ::
  "bool \<Rightarrow> bool \<Rightarrow> sync \<Rightarrow> ('a \<Rightarrow> task) \<Rightarrow> 'a list \<Rightarrow> sync prog option" where
  "submit_each_copy dbg alive s mk vals = map_option (submit_raw dbg alive s) (span_tasks mk 0 vals)"

definition submit_each_ref ::
  "bool \<Rightarrow> bool \<Rightarrow> sync \<Rightarrow> (pointer \<Rightarrow> task) \<Rightarrow> pointer \<Rightarrow> nat \<Rightarrow> nat \<Rightarrow> sync prog option" where
  "submit_each_ref dbg alive s mk data sz len =
     submit_each_copy dbg alive s mk (map (\<lambda>i. data + of_nat (i * sz)) [0..<len])"

section \<open>Batches\<close>

definition checked_div_ceil :: "(u32 \<Rightarrow> u32 \<Rightarrow> u32) \<Rightarrow> u32 \<Rightarrow> u32 \<Rightarrow> failure + u32" where
  "checked_div_ceil int_div_ceil n d = (if d = 0 then Inl DivisionByZero else Inr (int_div_ceil n d))"

text \<open>
  The loop of \<open>submit_batched\<close> and \<open>submit_batched_n\<close>, with the captured start, end and batch index of
  every task.
\<close>

function batch_loop :: "u32 \<Rightarrow> u32 \<Rightarrow> u32 \<Rightarrow> u32 \<Rightarrow> u32 \<Rightarrow> u32 \<Rightarrow> (u32 \<times> u32 \<times> u32) list" where
  "batch_loop batch_size num_batches n batch start stop =
     (if batch < num_batches
      then (start, stop, batch) #
        batch_loop batch_size num_batches n (batch + 1) ((batch + 1) * batch_size)
          (min ((batch + 1 + 1) * batch_size) n)
      else [])"
  by pat_completeness auto

termination
  by (relation "measure (\<lambda>(_, num, _, batch, _, _). unat num - unat batch)")
    (auto simp: unat_next word_less_nat_alt)

declare batch_loop.simps [simp del]

definition batches ::
  "(u32 \<Rightarrow> u32 \<Rightarrow> u32) \<Rightarrow> u32 \<Rightarrow> u32 \<Rightarrow> failure + (u32 \<times> u32 \<times> u32) list" where
  "batches int_div_ceil n num_batches_max =
     and_then (checked_div_ceil int_div_ceil n num_batches_max) (\<lambda>batch_size.
     and_then (checked_div_ceil int_div_ceil n batch_size) (\<lambda>num_batches.
     and_then (cc_assert True (num_batches \<le> num_batches_max) ''programmer error'') (\<lambda>_.
     Inr (batch_loop batch_size num_batches n 0 0 (min batch_size n)))))"

definition submit_batched_n ::
  "bool \<Rightarrow> bool \<Rightarrow> (u32 \<Rightarrow> u32 \<Rightarrow> u32) \<Rightarrow> sync \<Rightarrow> (u32 \<Rightarrow> u32 \<Rightarrow> u32 \<Rightarrow> task) \<Rightarrow> u32 \<Rightarrow> u32 \<Rightarrow>
     (u32 \<times> sync) prog" where
  "submit_batched_n dbg alive int_div_ceil s mk n num_batches_max =
     (case batches int_div_ceil n num_batches_max of
        Inl e \<Rightarrow> Stop e
      | Inr bs \<Rightarrow> prog_bind (submit_raw dbg alive s (map (\<lambda>(start, stop, batch). mk start stop batch) bs))
          (\<lambda>s'. Return (of_nat (length bs), s')))"

definition submit_batched ::
  "bool \<Rightarrow> bool \<Rightarrow> (u32 \<Rightarrow> u32 \<Rightarrow> u32) \<Rightarrow> sync \<Rightarrow> (u32 \<Rightarrow> u32 \<Rightarrow> task) \<Rightarrow> u32 \<Rightarrow> u32 \<Rightarrow>
     (u32 \<times> sync) prog" where
  "submit_batched dbg alive int_div_ceil s mk n num_batches_max =
     submit_batched_n dbg alive int_div_ceil s (\<lambda>start stop batch. mk start stop) n num_batches_max"

text \<open>The default for the number of batches: four for each logical core.\<close>

definition default_batches :: "u32 \<Rightarrow> u32" where
  "default_batches num_logical_cores = num_logical_cores * 4"

text \<open>The variants that return a new sync object; the default scratch allocator leaves no trace.\<close>

definition submit_n_new :: "bool \<Rightarrow> bool \<Rightarrow> (u32 \<Rightarrow> task) \<Rightarrow> u32 \<Rightarrow> sync prog" where
  "submit_n_new dbg alive mk n = submit_n dbg alive null_sync mk n"

definition submit_each_copy_new ::
  "bool \<Rightarrow> bool \<Rightarrow> ('a \<Rightarrow> task) \<Rightarrow> 'a list \<Rightarrow> sync prog option" where
  "submit_each_copy_new dbg alive mk vals = submit_each_copy dbg alive null_sync mk vals"

definition submit_each_ref_new ::
  "bool \<Rightarrow> bool \<Rightarrow> (pointer \<Rightarrow> task) \<Rightarrow> pointer \<Rightarrow> nat \<Rightarrow> nat \<Rightarrow> sync prog option" where
  "submit_each_ref_new dbg alive mk data sz len = submit_each_ref dbg alive null_sync mk data sz len"

definition submit_batched_new ::
  "bool \<Rightarrow> bool \<Rightarrow> (u32 \<Rightarrow> u32 \<Rightarrow> u32) \<Rightarrow> (u32 \<Rightarrow> u32 \<Rightarrow> task) \<Rightarrow> u32 \<Rightarrow> u32 \<Rightarrow> sync prog" where
  "submit_batched_new dbg alive int_div_ceil mk n num_batches_max =
     prog_bind (submit_batched dbg alive int_div_ceil null_sync mk n num_batches_max) (\<lambda>(_, s). Return s)"

definition submit_batched_n_new ::
  "bool \<Rightarrow> bool \<Rightarrow> (u32 \<Rightarrow> u32 \<Rightarrow> u32) \<Rightarrow> (u32 \<Rightarrow> u32 \<Rightarrow> u32 \<Rightarrow> task) \<Rightarrow> u32 \<Rightarrow> u32 \<Rightarrow> sync prog" where
  "submit_batched_n_new dbg alive int_div_ceil mk n num_batches_max =
     prog_bind (submit_batched_n dbg alive int_div_ceil null_sync mk n num_batches_max) (\<lambda>(_, s). Return s)"

section \<open>The loops as maps\<close>

definition div_ceil_law :: "(u32 \<Rightarrow> u32 \<Rightarrow> u32) \<Rightarrow> bool" where
  "div_ceil_law f \<longleftrightarrow> (\<forall>n d. d \<noteq> 0 \<longrightarrow> unat (f n d) = (unat n + unat d - 1) div unat d)"

lemma index_tasks_from:
  "i \<le> n \<Longrightarrow> index_tasks mk i n = map (\<lambda>j. mk (of_nat j)) [unat i..<unat n]"
proof (induction mk i n rule: index_tasks.induct)
  case (1 mk i n)
  show ?case
  proof (cases "i < n")
    case True
    then have "[unat i..<unat n] = unat i # [unat (i + 1)..<unat n]"
      by (simp add: unat_next word_less_nat_alt upt_conv_Cons)
    moreover have "i + 1 \<le> n" using True by (simp add: unat_next word_less_nat_alt word_le_nat_alt)
    ultimately show ?thesis using True 1 by (simp del: index_tasks.simps add: index_tasks.simps [of mk i n])
  next
    case False
    then show ?thesis using 1(2) by simp
  qed
qed

lemma span_tasks_from:
  assumes "length vals < 2 ^ 32" and "unat i \<le> length vals"
  shows "span_tasks mk i vals = Some (map mk (drop (unat i) vals))"
  using assms(2)
proof (induction "length vals - unat i" arbitrary: i)
  case 0
  then have "\<not> (ucast i :: usize) < of_nat (length vals)"
    using assms(1) by (simp add: word_less_nat_alt unat_of_nat_small unat_ucast_wide)
  then show ?case using 0 by (simp add: span_tasks.simps)
next
  case (Suc k)
  have u: "unat (ucast i :: usize) = unat i" by (rule unat_ucast_wide)
  then have less: "(ucast i :: usize) < of_nat (length vals)"
    using Suc assms(1) by (simp add: word_less_nat_alt unat_of_nat_small)
  have next': "unat (i + 1) = unat i + 1"
    using Suc(2) assms(1) by (intro unat_next [of i "of_nat (length vals)"]) (simp add: word_less_nat_alt unat_of_nat_small)
  then have "span_tasks mk (i + 1) vals = Some (map mk (drop (unat i + 1) vals))"
    using Suc(1) [of "i + 1"] Suc(2) by simp
  moreover have "drop (unat i) vals = vals ! unat i # drop (unat i + 1) vals"
    using Suc(2) by (simp add: Cons_nth_drop_Suc)
  ultimately show ?case using less by (subst span_tasks.simps) simp
qed

text \<open>The batch size \<open>B\<close> and the number \<open>K\<close> of batches for \<open>N\<close> indices and at most \<open>M\<close> batches.\<close>

lemma batch_numbers:
  fixes N M B K :: nat
  assumes "0 < N" and "0 < M" and B: "B = (N + M - 1) div M" and K: "K = (N + B - 1) div B"
  shows "1 \<le> B" and "1 \<le> K" and "K \<le> M" and "N \<le> K * B" and "K * B < N + B"
proof -
  have up: "(x + d - 1) div d * d < x + d \<and> x \<le> (x + d - 1) div d * d" if "0 < d" for x d :: nat
  proof -
    have "(x + d - 1) div d * d \<le> x + d - 1" by simp
    moreover have "x + d - 1 < (x + d - 1) div d * d + d" using dividend_less_div_times [of d "x + d - 1"] that
      by (simp add: add.commute)
    ultimately show ?thesis using that by linarith
  qed
  have NB: "N \<le> B * M" using up [OF assms(2), of N] by (simp add: B)
  then show "1 \<le> B" using assms(1) by (cases B) simp_all
  then have "0 < B" by simp
  note u = up [OF this, of N, folded K]
  then show "N \<le> K * B" and "K * B < N + B" by simp_all
  then show "1 \<le> K" using assms(1) by (cases K) simp_all
  have "K * B < (M + 1) * B" using u NB by (simp add: algebra_simps)
  then have "K < M + 1" by (rule mult_right_less_imp_less) simp
  then show "K \<le> M" by simp
qed

lemma batch_loop_from:
  assumes n: "unat n = N" and K: "unat num = K" and B: "unat sz = B"
    and range: "K * B < 2 ^ 32" and "j \<le> K" and "j < K \<Longrightarrow> stop = of_nat (min ((j + 1) * B) N)"
  shows "batch_loop sz num n (of_nat j) (of_nat (j * B)) stop =
    map (\<lambda>i. (of_nat (i * B), of_nat (min ((i + 1) * B) N), of_nat i)) [j..<K]"
  using assms(5,6)
proof (induction "K - j" arbitrary: j stop)
  case 0
  then have "num = of_nat j" using K by (metis diff_is_0_eq le_antisym of_nat_unat ucast_id)
  then show ?case using 0 by (simp add: batch_loop.simps)
next
  case (Suc k)
  have "j < 2 ^ 32" using Suc(2) K unsigned_less [of num, where 'a = nat] by simp
  then have less: "of_nat j < num" using Suc(2) K by (simp add: word_less_nat_alt unat_of_nat_small)
  have sz: "sz = of_nat B" using B by (metis of_nat_unat ucast_id)
  have start: "(of_nat j + 1) * sz = of_nat ((j + 1) * B)" by (simp add: sz algebra_simps)
  have stop: "min ((of_nat j + 1 + 1) * sz) n = of_nat (min ((j + 1 + 1) * B) N)" if "j + 1 < K"
  proof -
    have "(j + 1 + 1) * B \<le> K * B" using that by (intro mult_le_mono1) simp
    then have u: "unat (of_nat ((j + 1 + 1) * B) :: u32) = (j + 1 + 1) * B"
      using range by (intro unat_of_nat_small) simp
    have m: "(of_nat j + 1 + 1) * sz = of_nat ((j + 1 + 1) * B)" by (simp add: sz algebra_simps)
    have n': "n = of_nat N" using n by (metis of_nat_unat ucast_id)
    show ?thesis unfolding m using u n n' by (simp add: min_def word_le_nat_alt)
  qed
  have "batch_loop sz num n (of_nat (j + 1)) (of_nat ((j + 1) * B)) (min ((of_nat j + 1 + 1) * sz) n) =
      map (\<lambda>i. (of_nat (i * B), of_nat (min ((i + 1) * B) N), of_nat i)) [j + 1..<K]"
    using Suc(2) by (intro Suc(1) stop) simp_all
  moreover have "[j..<K] = j # [j + 1..<K]" using Suc(2) by (simp add: upt_conv_Cons)
  ultimately show ?case
    using less Suc(2,4) start by (subst batch_loop.simps) (simp add: add.commute)
qed

lemma batches_cover:
  fixes N B :: nat
  shows "concat (map (\<lambda>i. [i * B..<min ((i + 1) * B) N]) [0..<k]) = [0..<min (k * B) N]"
proof (induction k)
  case (Suc k)
  have "[0..<min (k * B) N] @ [k * B..<min (Suc k * B) N] = [0..<min (Suc k * B) N]"
  proof (cases "k * B \<le> N")
    case True
    then have le: "k * B \<le> min (Suc k * B) N" by simp
    obtain d where d: "min (Suc k * B) N = k * B + d" using le_Suc_ex [OF le] by blast
    show ?thesis
      using True upt_add_eq_append [of 0 "k * B" d] unfolding d by (simp only: min.absorb1 le0)
  next
    case False
    then have "N \<le> k * B" "N \<le> Suc k * B" by simp_all
    then show ?thesis by (simp only: min.absorb2 upt_conv_Nil append_Nil2)
  qed
  with Suc show ?case by simp
qed simp

section \<open>Properties\<close>

text \<open>
  The loops of \<open>submit_n\<close> and \<open>submit_each\<close> make one task for each index or element, in order, and
  submit them all; for a span of less than \<open>2 ^ 32\<close> elements the loop ends.
\<close>

lemma submit_loops:
  assumes "length vals < 2 ^ 32"
  shows "submit_n dbg alive s mk n = submit_raw dbg alive s (map (\<lambda>i. mk (of_nat i)) [0..<unat n]) \<and>
    submit_each_copy dbg alive s mk' vals = Some (submit_raw dbg alive s (map mk' vals)) \<and>
    submit_each_ref dbg alive s mk'' data sz (length vals) =
      Some (submit_raw dbg alive s (map (\<lambda>i. mk'' (data + of_nat (i * sz))) [0..<length vals]))"
  using index_tasks_from [of 0 n] span_tasks_from [OF assms, of 0]
    span_tasks_from [of "map (\<lambda>i. data + of_nat (i * sz)) [0..<length vals]" 0] assms
  by (simp add: submit_n_def submit_each_copy_def submit_each_ref_def comp_def)

text \<open>
  C35: \<open>submit_batched\<close> splits the indices from 0 to \<open>n\<close> into at most the given number of batches, none
  empty and none larger than the batch size, that cover every index exactly once and in order, numbered
  from 0. The size of a batch must fit above \<open>n\<close> in 32 bits.
\<close>

theorem batches_partition:
  assumes "div_ceil_law f" and "n \<noteq> 0" and "m \<noteq> 0" and "unat n + unat (f n m) \<le> 2 ^ 32"
  shows "\<exists>bs. batches f n m = Inr bs \<and> 0 < length bs \<and> length bs \<le> unat m \<and>
    concat (map (\<lambda>(start, stop, batch). [unat start..<unat stop]) bs) = [0..<unat n] \<and>
    map (\<lambda>(start, stop, batch). unat batch) bs = [0..<length bs] \<and>
    (\<forall>(start, stop, batch) \<in> set bs. start < stop \<and> unat stop - unat start \<le> unat (f n m))"
proof -
  define N M B K where "N = unat n" and "M = unat m" and "B = unat (f n m)" and "K = unat (f n (f n m))"
  have pos: "0 < N" "0 < M" using assms(2,3) by (simp_all add: N_def M_def unat_gt_0)
  have B: "B = (N + M - 1) div M" using assms(1,3) by (simp add: div_ceil_law_def B_def N_def M_def)
  have "f n m \<noteq> 0"
  proof
    assume "f n m = 0"
    then have "B = 0" by (simp add: B_def)
    with B pos show False by (simp add: div_eq_0_iff)
  qed
  then have K: "K = (N + B - 1) div B" using assms(1) by (simp add: div_ceil_law_def K_def N_def B_def)
  note num = batch_numbers [OF pos B K]
  have range: "K * B < 2 ^ 32" using num(5) assms(4) by (simp add: N_def B_def)
  let ?bs = "map (\<lambda>i. (of_nat (i * B), of_nat (min ((i + 1) * B) N), of_nat i)) [0..<K] :: (u32 \<times> u32 \<times> u32) list"
  have "min (f n m) n = of_nat (min ((0 + 1) * B) N)"
    by (simp add: B_def N_def min_def word_le_nat_alt)
  then have loop: "batch_loop (f n m) (f n (f n m)) n 0 0 (min (f n m) n) = ?bs"
    using batch_loop_from [OF N_def [symmetric] K_def [symmetric] B_def [symmetric] range, of 0] by simp
  have "f n (f n m) \<le> m" using num(3) by (simp add: word_le_nat_alt K_def M_def)
  then have bs: "batches f n m = Inr ?bs"
    using assms(3) \<open>f n m \<noteq> 0\<close> by (simp add: batches_def checked_div_ceil_def fail_simps loop)
  have small: "unat (of_nat x :: u32) = x" if "x \<le> K * B" for x
    using that range by (intro unat_of_nat_small) simp
  have in_range: "i * B \<le> K * B" "min ((i + 1) * B) N \<le> K * B" "i \<le> K * B" "i * B < min ((i + 1) * B) N" if "i < K" for i
  proof -
    have "i * B \<le> (K - 1) * B" using that by (intro mult_le_mono1) simp
    also have "\<dots> < N" using num(5) num(2) by (cases K) simp_all
    finally have "i * B < N" .
    then show "i * B < min ((i + 1) * B) N" using num(1) by simp
    show "i * B \<le> K * B" using that by simp
    show "min ((i + 1) * B) N \<le> K * B" using num(4) by simp
    have "K * 1 \<le> K * B" using num(1) by (rule mult_le_mono2)
    then show "i \<le> K * B" using that by linarith
  qed
  have "map (\<lambda>(start, stop, batch). [unat start..<unat stop]) ?bs = map (\<lambda>i. [i * B..<min ((i + 1) * B) N]) [0..<K]"
    unfolding map_map
  proof (rule map_cong [OF refl])
    fix i assume "i \<in> set [0..<K]"
    then have i: "i < K" by simp
    show "((\<lambda>(start, stop, batch). [unat start..<unat stop]) \<circ>
        (\<lambda>i. (of_nat (i * B) :: u32, of_nat (min ((i + 1) * B) N) :: u32, of_nat i :: u32))) i =
      [i * B..<min ((i + 1) * B) N]"
      by (simp only: comp_def prod.case small [OF in_range(1) [OF i]] small [OF in_range(2) [OF i]])
  qed
  then have "concat (map (\<lambda>(start, stop, batch). [unat start..<unat stop]) ?bs) = [0..<N]"
    using batches_cover [of B N K] num(4) by (simp only: min.absorb2)
  moreover have "map (\<lambda>(start, stop, batch). unat batch) ?bs = [0..<length ?bs]"
    using small [OF in_range(3)] by (intro nth_equalityI) simp_all
  moreover have "\<forall>(start, stop, batch) \<in> set ?bs. start < stop \<and> unat stop - unat start \<le> B"
  proof -
    have "min ((i + 1) * B) N - i * B \<le> B" for i by (simp add: le_diff_conv)
    then show ?thesis
      using small [OF in_range(1)] small [OF in_range(2)] in_range(4) by (auto simp: word_less_nat_alt)
  qed
  ultimately show ?thesis using bs num(2,3) by (simp add: N_def M_def B_def)
qed


section \<open>Concrete instances\<close>

definition sample_div_ceil :: "u32 \<Rightarrow> u32 \<Rightarrow> u32" where
  "sample_div_ceil n d = (if n = 0 then 0 else (n - 1) div d + 1)"

lemma sample_div_ceil_law: "div_ceil_law sample_div_ceil"
  unfolding div_ceil_law_def
proof (intro allI impI)
  fix n d :: u32
  assume d: "d \<noteq> 0"
  show "unat (sample_div_ceil n d) = (unat n + unat d - 1) div unat d"
  proof (cases "n = 0")
    case True
    then show ?thesis using d by (simp add: sample_div_ceil_def div_eq_0_iff unat_gt_0)
  next
    case False
    then have n: "unat (n - 1) = unat n - 1" "0 < unat n" by (simp_all add: unat_minus_one unat_gt_0)
    have "unat ((n - 1) div d) = (unat n - 1) div unat d" by (simp add: unat_div n)
    moreover have "(unat n - 1) div unat d \<le> unat n - 1" by (rule div_le_dividend)
    ultimately have "(n - 1) div d < n" using n(2) unfolding word_less_nat_alt by linarith
    then have "unat (sample_div_ceil n d) = (unat n - 1) div unat d + 1"
      using False unat_next [of "(n - 1) div d" n] by (simp add: sample_div_ceil_def unat_div n)
    also have "\<dots> = (unat n - 1 + unat d) div unat d" using d div_add_self2 [of "unat d" "unat n - 1"] by (simp add: unsigned_eq_0_iff)
    also have "unat n - 1 + unat d = unat n + unat d - 1" using n(2) by simp
    finally show ?thesis .
  qed
qed

lemma submit_loops_sample:
  "submit_each_copy True True null_sync (\<lambda>v. v) [sample_task, sample_task] =
     Some (submit_raw True True null_sync [sample_task, sample_task])"
proof -
  have "length [sample_task, sample_task] < 2 ^ 32" by simp
  from submit_loops [OF this, of True True null_sync "\<lambda>_. sample_task" 0 "\<lambda>v. v" "\<lambda>_. sample_task" 0 0]
  show ?thesis by simp
qed

text \<open>Ten indices in at most four batches: three of three and one of one.\<close>

theorem batches_partition_witness:
  "\<exists>bs. batches sample_div_ceil 10 4 = Inr bs \<and> length bs \<le> 4 \<and>
     concat (map (\<lambda>(start, stop, batch). [unat start..<unat stop]) bs) = [0..<10]"
proof -
  have "unat (10 :: u32) + unat (sample_div_ceil 10 4) \<le> 2 ^ 32" by (simp add: sample_div_ceil_def)
  from batches_partition [OF sample_div_ceil_law _ _ this] show ?thesis by auto
qed


end
