(* ===== verification/API_Runs.thy ===== *)
theory API_Runs
  imports Batches
begin

text \<open>
  The functions of the interface on the scheduler (\<open>Scheduler\<close>): what they leave behind when the
  calling thread runs alone. The lemmas follow a run through the single steps of the scheduler.
\<close>

section \<open>Steps of a run\<close>

lemma goto_goto:
  "current t s < length (mFibers s) \<Longrightarrow> goto t a (goto t b s) = goto t a s"
  by (simp add: goto_def set_native_def current_def)

lemma native_goto:
  "current t s < length (mFibers s) \<Longrightarrow> native (mFibers (goto t pc s) ! current t s) = pc"
  by (simp add: goto_def set_native_def)

lemma goto_shared [simp]:
  "mTasks (goto t pc s) = mTasks s" "mFreeCounters (goto t pc s) = mFreeCounters s"
  "mCounterHandles (goto t pc s) = mCounterHandles s" "mResumableFibers (goto t pc s) = mResumableFibers s"
  "length (mFibers (goto t pc s)) = length (mFibers s)"
  by (simp_all add: goto_def set_native_def)

lemma goto_updates:
  "(goto t pc s)\<lparr>mCounters := cs\<rparr> = goto t pc (s\<lparr>mCounters := cs\<rparr>)"
  "(goto t pc s)\<lparr>mTasks := q\<rparr> = goto t pc (s\<lparr>mTasks := q\<rparr>)"
  by (simp_all add: goto_def set_native_def current_def)

lemma current_updates [simp]:
  "current t (s\<lparr>mCounters := cs\<rparr>) = current t s" "current t (s\<lparr>mTasks := q\<rparr>) = current t s"
  "current t (s\<lparr>mFreeCounters := qc\<rparr>) = current t s" "current t (s\<lparr>mCounterHandles := h\<rparr>) = current t s"
  "current t (s\<lparr>mFreeCounters := qc, mCounters := cs, mCounterHandles := h\<rparr>) = current t s"
  by (simp_all add: current_def)

lemma user_resume_running:
  "failed s = None \<Longrightarrow> native (mFibers s ! current t s) = Running ctx r \<Longrightarrow> user_resume dbg t s = Some s"
  by (subst user_resume.simps) simp

lemma user_resume_arrived:
  assumes "failed s = None" and "current t s < length (mFibers s)"
  shows "user_resume dbg t (goto t (Running ctx r) s) = Some (goto t (Running ctx r) s)"
  using assms by (intro user_resume_running [of _ _ ctx r]) (simp_all add: native_goto)

lemma user_resume_failed: "failed s \<noteq> None \<Longrightarrow> user_resume dbg t s = Some s"
  by (subst user_resume.simps) simp

lemma user_resume_step:
  assumes "failed s = None" and "current t s < length (mFibers s)"
    and "exec_pc dbg t pc (goto t pc s) = Some s'"
  shows "user_resume dbg t (goto t pc s) = user_resume dbg t s'"
proof -
  have "\<nexists>ctx r. pc = Running ctx r" using assms(3) by auto
  then show ?thesis using assms native_goto [OF assms(2), of pc]
    by (subst user_resume.simps) (cases pc; simp del: exec_pc.simps)
qed

text \<open>A counter operation that wakes no fiber.\<close>

lemma run_alone_returned: "cpc_returned pc \<Longrightarrow> run_alone n pc c = (pc, c, [])"
  by (induction n) (auto elim: cpc_returned.elims)

lemma user_resume_counter:
  assumes "i < length (mCounters s)" and "failed s = None" and "current t s < length (mFibers s)"
    and "run_alone n pc (mCounters s ! i) = (pc', c', [])"
  shows "user_resume dbg t (goto t (InCounter i pc k) s) =
    user_resume dbg t (goto t (InCounter i pc' k) (s\<lparr>mCounters := (mCounters s)[i := c']\<rparr>))"
  using assms
proof (induction n arbitrary: pc s)
  case 0
  then show ?case by auto
next
  case (Suc n)
  show ?case
  proof (cases "cpc_returned pc")
    case True
    have "pc' = pc" "c' = mCounters s ! i"
      using Suc.prems(4) unfolding run_alone_returned [OF True] by simp_all
    then show ?thesis by simp
  next
    case False
    obtain pc1 c1 w where st: "cpc_step pc (mCounters s ! i) = (pc1, c1, w)" by (cases "cpc_step pc (mCounters s ! i)")
    then have w: "w = None" and rest: "run_alone n pc1 c1 = (pc', c', [])"
      using Suc.prems(4) by (auto split: prod.splits option.splits)
    let ?s = "s\<lparr>mCounters := (mCounters s)[i := c1]\<rparr>"
    have "exec_pc dbg t (InCounter i pc k) (goto t (InCounter i pc k) s) = Some (goto t (InCounter i pc1 k) ?s)"
      using False Suc.prems(1,3) st w
      by (simp add: counter_action_def goto_updates goto_goto Let_def)
    then have "user_resume dbg t (goto t (InCounter i pc k) s) = user_resume dbg t (goto t (InCounter i pc1 k) ?s)"
      using Suc.prems by (intro user_resume_step) simp_all
    also have "\<dots> = user_resume dbg t (goto t (InCounter i pc' k) (?s\<lparr>mCounters := (mCounters ?s)[i := c']\<rparr>))"
      using Suc.prems rest by (intro Suc.IH) simp_all
    finally show ?thesis by simp
  qed
qed

lemma user_resume_returns:
  assumes "i < length (mCounters s)" and "failed s = None" and "current t s < length (mFibers s)"
    and "cpc_returned pc" and "counter_returns pc k = Inr pc'"
  shows "user_resume dbg t (goto t (InCounter i pc k) s) = user_resume dbg t (goto t pc' s)"
  using assms by (intro user_resume_step) (simp_all add: goto_goto)

lemma user_resume_enqueues:
  assumes "mpmc_ok (mTasks s)" and "length (mpmc_list (mTasks s)) + length ts \<le> length (mBuffer (mTasks s))"
    and "failed s = None" and "current t s < length (mFibers s)"
  shows "\<exists>q. user_resume dbg t (goto t (SubmitEnq ctx ts c True) s) =
      Some (goto t (Running ctx NoResult) (s\<lparr>mTasks := q\<rparr>)) \<and>
    mpmc_ok q \<and> mpmc_list q = mpmc_list (mTasks s) @ map (set_metadata c) ts"
  using assms
proof (induction ts arbitrary: s)
  case Nil
  then have "user_resume dbg t (goto t (SubmitEnq ctx [] c True) s) =
      user_resume dbg t (goto t (Running ctx NoResult) s)"
    by (intro user_resume_step) (simp_all add: goto_goto)
  also have "\<dots> = Some (goto t (Running ctx NoResult) s)"
    using Nil.prems by (intro user_resume_arrived) simp_all
  finally show ?case using Nil.prems(1) by (intro exI [of _ "mTasks s"]) simp
next
  case (Cons tk ts)
  obtain q where q: "mpmc_enqueue (mTasks s) (set_metadata c tk) = Some (True, q)" "mpmc_ok q"
    "mpmc_list q = mpmc_list (mTasks s) @ [set_metadata c tk]" "length (mBuffer q) = length (mBuffer (mTasks s))"
    using mpmc.enq_room [OF Cons.prems(1), of "set_metadata c tk"] Cons.prems(2) by auto
  let ?s = "s\<lparr>mTasks := q\<rparr>"
  have "exec_pc dbg t (SubmitEnq ctx (tk # ts) c True) (goto t (SubmitEnq ctx (tk # ts) c True) s) =
      Some (goto t (SubmitEnq ctx ts c True) ?s)"
    using q(1) Cons.prems(4) by (simp add: goto_updates goto_goto)
  then have "user_resume dbg t (goto t (SubmitEnq ctx (tk # ts) c True) s) =
      user_resume dbg t (goto t (SubmitEnq ctx ts c True) ?s)"
    using Cons.prems by (intro user_resume_step) simp_all
  moreover have "length (mpmc_list (mTasks ?s)) + length ts \<le> length (mBuffer (mTasks ?s))"
    using q(3,4) Cons.prems(2) by simp
  ultimately show ?case using Cons.IH [of ?s] q(2,3) Cons.prems(3,4) by auto
qed

lemma prog_run_invoke:
  assumes "api_call dbg P t ctx c s = Some s1"
    and "user_resume dbg t s1 = Some (goto t (Running ctx' r) s2)" and "failed s2 = None"
    and "current t s2 = current t s" and "current t s < length (mFibers s2)"
  shows "prog_run dbg P t ctx (Invoke c k) s = prog_run dbg P t ctx (k r) (goto t (Running ctx' r) s2)"
  using assms native_goto [of t s2 "Running ctx' r"] by (simp del: api_call.simps)

lemma counter_reset_woken: "woken_slots v (counter_reset c) = []"
  by (auto simp: woken_slots_def wakes_slot_def counter_reset_def filter_empty_conv)

text \<open>\<open>counterIncrement\<close> on a counter nobody waits for, up to the code behind it.\<close>

lemma user_resume_increment:
  assumes "i < length (mCounters s)" and "failed s = None" and "current t s < length (mFibers s)"
    and "counter_shape (mCounters s ! i)" and "amount \<noteq> 0"
    and "woken_slots (count (mCounters s ! i) + amount) (mCounters s ! i) = []"
    and "counter_returns (IncDone (count (mCounters s ! i) + amount)) k = Inr pc'"
  shows "\<exists>c'. user_resume dbg t (goto t (InCounter i (counterIncrement dbg amount) k) s) =
      user_resume dbg t (goto t pc' (s\<lparr>mCounters := (mCounters s)[i := c']\<rparr>)) \<and>
    count c' = count (mCounters s ! i) + amount"
proof -
  let ?v = "count (mCounters s ! i) + amount"
  obtain n c' where run: "run_alone n (counterIncrement dbg amount) (mCounters s ! i) = (IncDone ?v, c', [])"
    and c': "count c' = ?v"
    using increment_run [OF assms(4,5), of dbg] assms(6) by auto
  let ?s = "s\<lparr>mCounters := (mCounters s)[i := c']\<rparr>"
  have "user_resume dbg t (goto t (InCounter i (counterIncrement dbg amount) k) s) =
      user_resume dbg t (goto t (InCounter i (IncDone ?v) k) ?s)"
    using user_resume_counter [OF assms(1-3) run] .
  also have "\<dots> = user_resume dbg t (goto t pc' ?s)"
    using assms(1-3,7) by (intro user_resume_returns) simp_all
  finally show ?thesis using c' by blast
qed

section \<open>Properties\<close>

text \<open>
  \<open>submit_raw\<close> on a fresh sync object, run by one thread alone with a free counter and room for the
  tasks: the sync object gets a valid handle, the counter is reset and then counts the tasks, the tasks
  are appended to the pending ones with the counter as their metadata, and no other counter changes.
\<close>

lemma submit_raw_runs:
  assumes "failed s = None" and "current t s < length (mFibers s)"
    and "native (mFibers s ! current t s) = Running ctx r"
    and "mpmc_ok (mFreeCounters s)" and "mpmc_list (mFreeCounters s) = c # free"
    and "unat c < length (mCounters s)" and "counter_shape (mCounters s ! unat c)"
    and "pool_acquire P (mCounterHandles s) = (h, hs)" and "pool_index P (pool_set_index P hs h c) h = c"
    and "mpmc_ok (mTasks s)" and "length (mpmc_list (mTasks s)) + length ts \<le> length (mBuffer (mTasks s))"
    and "ts \<noteq> []" and "length ts < 2 ^ 32"
  shows "\<exists>s'. prog_run dbg P t ctx (submit_raw dbg True null_sync ts) s = Some (Inr \<lparr>sync_handle = h\<rparr>, s') \<and>
    mpmc_list (mTasks s') = mpmc_list (mTasks s) @ map (set_metadata c) ts \<and>
    mpmc_list (mFreeCounters s') = free \<and> count (mCounters s' ! unat c) = of_nat (length ts) \<and>
    (\<forall>i. i \<noteq> unat c \<longrightarrow> mCounters s' ! i = mCounters s ! i) \<and>
    native (mFibers s' ! current t s') = Running ctx NoResult \<and>
    mResumableFibers s' = mResumableFibers s \<and> mIdleFibers s' = mIdleFibers s"
proof -
  obtain qf where qf: "mpmc_dequeue (mFreeCounters s) = Some (Some c, qf)" "mpmc_list qf = free"
    using mpmc.deq_some [OF assms(4,5)] by blast
  define cr s1 where "cr = counter_reset (mCounters s ! unat c)"
    and "s1 = s\<lparr>mFreeCounters := qf, mCounters := (mCounters s)[unat c := cr],
      mCounterHandles := pool_set_index P hs h c\<rparr>"
  have cr: "counter_shape cr" "count cr = 0" "woken_slots v cr = []" for v
    using assms(7) counter_reset_woken by (simp_all add: cr_def counter_reset_def counter_shape_def)
  have f1: "failed s1 = None" "current t s1 < length (mFibers s1)" "current t s1 = current t s"
    "mFibers s1 = mFibers s" "mTasks s1 = mTasks s" "mCounters s1 = (mCounters s)[unat c := cr]"
    "mFreeCounters s1 = qf" "mResumableFibers s1 = mResumableFibers s" "mIdleFibers s1 = mIdleFibers s"
    "handle_counter P h s1 = unat c" "pool_index P (mCounterHandles s1) h = c"
    using assms(1,2,9) by (simp_all add: s1_def handle_counter_def current_def)
  have "api_call dbg P t ctx CallAcquire s = Some (goto t (Running ctx (HandleResult h)) s1)"
    using qf(1) assms(6,8) by (simp add: acquireCounterHandle_def s1_def cr_def)
  moreover have "user_resume dbg t (goto t (Running ctx (HandleResult h)) s1) = Some (goto t (Running ctx (HandleResult h)) s1)"
    using f1(1,2) by (intro user_resume_arrived) simp_all
  ultimately have run1: "prog_run dbg P t ctx (Invoke CallAcquire k) s =
      prog_run dbg P t ctx (k (HandleResult h)) (goto t (Running ctx (HandleResult h)) s1)" for k
    using f1(1-4) assms(2) by (intro prog_run_invoke) simp_all
  let ?amount = "of_nat (length ts) :: u32"
  have "unat ?amount = length ts" using assms(13) by (intro unat_of_nat_small) simp
  then have amount: "?amount \<noteq> 0" using assms(12) by fastforce
  obtain c' where c': "user_resume dbg t (goto t (InCounter (unat c) (counterIncrement dbg ?amount) (AfterSubmit ctx ts c)) s1) =
      user_resume dbg t (goto t (SubmitEnq ctx ts c True) (s1\<lparr>mCounters := (mCounters s1)[unat c := c']\<rparr>))"
    "count c' = ?amount"
    using user_resume_increment [of "unat c" s1 t ?amount "AfterSubmit ctx ts c" "SubmitEnq ctx ts c True" dbg]
      f1(1,2,6) assms(6) cr amount by auto
  define s2 where "s2 = s1\<lparr>mCounters := (mCounters s1)[unat c := c']\<rparr>"
  have f2: "failed s2 = None" "current t s2 = current t s" "mFibers s2 = mFibers s" "mTasks s2 = mTasks s"
    "mCounters s2 = (mCounters s)[unat c := c']" "mFreeCounters s2 = qf"
    "mResumableFibers s2 = mResumableFibers s" "mIdleFibers s2 = mIdleFibers s"
    using f1 by (simp_all add: s2_def)
  obtain qt where qt: "user_resume dbg t (goto t (SubmitEnq ctx ts c True) s2) =
      Some (goto t (Running ctx NoResult) (s2\<lparr>mTasks := qt\<rparr>))"
    "mpmc_list qt = mpmc_list (mTasks s) @ map (set_metadata c) ts"
    using user_resume_enqueues [of s2 ts t dbg ctx c] assms(2,10,11) f2 by auto
  have sub: "api_call dbg P t ctx (CallSubmit ts h) (goto t (Running ctx (HandleResult h)) s1) =
      Some (goto t (InCounter (unat c) (counterIncrement dbg ?amount) (AfterSubmit ctx ts c)) s1)"
    using f1(2,10,11) by (simp add: submitTasks_def handle_counter_def goto_goto)
  let ?s3 = "goto t (Running ctx NoResult) (s2\<lparr>mTasks := qt\<rparr>)"
  have "user_resume dbg t (goto t (InCounter (unat c) (counterIncrement dbg ?amount) (AfterSubmit ctx ts c)) s1) =
      Some ?s3" using c'(1) qt(1) by (simp add: s2_def)
  then have run2: "prog_run dbg P t ctx (Invoke (CallSubmit ts h) k) (goto t (Running ctx (HandleResult h)) s1) =
      prog_run dbg P t ctx (k NoResult) ?s3" for k
    using sub f2 f1(3) assms(2) by (intro prog_run_invoke) simp_all
  have "prog_run dbg P t ctx (submit_raw dbg True null_sync ts) s = Some (Inr \<lparr>sync_handle = h\<rparr>, ?s3)"
    by (simp add: submit_raw_def prog_assert_def fail_simps null_sync_def counter_is_valid_def run1 run2
        del: prog_run.simps(3))
  moreover have "native (mFibers ?s3 ! current t ?s3) = Running ctx NoResult"
    using native_goto [of t "s2\<lparr>mTasks := qt\<rparr>"] f2(2,3) assms(2) by simp
  ultimately show ?thesis
    using qf(2) qt(2) c'(2) f2 assms(6) by (intro exI [of _ ?s3]) simp
qed

text \<open>
  \<open>wait_for\<close> on a sync object whose counter is at zero, run by one thread alone with a free waiting
  slot: it returns zero without leaving the fiber, gives the counter and the handle back and clears the
  sync object. On a sync object without a handle it returns zero and touches nothing.
\<close>

lemma wait_for_alone:
  assumes "failed s = None" and "current t s < length (mFibers s)"
    and "native (mFibers s ! current t s) = Running ctx r"
    and "h \<noteq> null_handle_value" and "pool_is_alive P (mCounterHandles s) h"
    and "pool_index P (mCounterHandles s) h = c" and "unat c < length (mCounters s)"
    and "counter_shape (mCounters s ! unat c)" and "count (mCounters s ! unat c) = 0"
    and "i < max_waiting" and "free_waiting_slots (mCounters s ! unat c) ! i"
    and "mpmc_ok (mFreeCounters s)" and "length (mpmc_list (mFreeCounters s)) < length (mBuffer (mFreeCounters s))"
  shows "prog_run dbg P t ctx (single_wait_for null_sync pinned) s = Some (Inr (0, null_sync), s) \<and>
    (\<exists>s'. prog_run dbg P t ctx (single_wait_for \<lparr>sync_handle = h\<rparr> pinned) s = Some (Inr (0, null_sync), s') \<and>
      mpmc_list (mFreeCounters s') = mpmc_list (mFreeCounters s) @ [c] \<and>
      mCounterHandles s' = pool_release P (mCounterHandles s) h \<and>
      waiters (mCounters s' ! unat c) = waiters (mCounters s ! unat c) \<and>
      current t s' = current t s \<and> \<not> is_thread_waiting (s_tls s' t) \<and>
      mTasks s' = mTasks s \<and> mIdleFibers s' = mIdleFibers s \<and> mResumableFibers s' = mResumableFibers s)"
proof (rule conjI)
  show "prog_run dbg P t ctx (single_wait_for null_sync pinned) s = Some (Inr (0, null_sync), s)"
    by (simp add: single_wait_for_def null_sync_def counter_is_valid_def)
  let ?l = "s_tls s t" and ?i = "unat c"
  let ?pin = "if pinned then thread_index ?l else invalid_thread"
  let ?add = "counterAddWaitingFiber (current_fiber_index ?l) ?pin 0"
  define s1 where "s1 = set_tls t (?l\<lparr>is_thread_waiting := True\<rparr>) (set_cleaned_up (current t s) False s)"
  have f1: "failed s1 = None" "current t s1 = current t s" "length (mFibers s1) = length (mFibers s)"
    "mCounters s1 = mCounters s" "mTasks s1 = mTasks s" "mIdleFibers s1 = mIdleFibers s"
    "mResumableFibers s1 = mResumableFibers s" "mFreeCounters s1 = mFreeCounters s"
    "mCounterHandles s1 = mCounterHandles s"
    using assms(1) by (simp_all add: s1_def set_tls_def set_cleaned_up_def current_def)
  obtain n c' where run: "run_alone n ?add (mCounters s1 ! ?i) = (AddDone True 0, c', [])"
    and c': "count c' = 0" "waiters c' = waiters (mCounters s ! ?i)"
  proof -
    have nf: "\<not> (\<forall>i < max_waiting. \<not> free_waiting_slots (mCounters s ! ?i) ! i)" using assms(10,11) by blast
    show ?thesis
      using add_run [OF assms(8), of "current_fiber_index ?l" ?pin 0, unfolded if_not_P [OF nf]] that assms(9)
      unfolding f1(4) by auto
  qed
  define s2 where "s2 = s1\<lparr>mCounters := (mCounters s1)[?i := c']\<rparr>"
  define s3 where "s3 = set_tls t ((s_tls s2 t)\<lparr>is_thread_waiting := False\<rparr>) s2"
  have f3: "failed s3 = None" "current t s3 = current t s" "length (mFibers s3) = length (mFibers s)"
    "mCounters s3 = (mCounters s)[?i := c']" "mTasks s3 = mTasks s" "mIdleFibers s3 = mIdleFibers s"
    "mResumableFibers s3 = mResumableFibers s" "mFreeCounters s3 = mFreeCounters s"
    "mCounterHandles s3 = mCounterHandles s" "\<not> is_thread_waiting (s_tls s3 t)"
    using f1 by (simp_all add: s3_def s2_def set_tls_def current_def)
  have f2: "failed s2 = None" "current t s2 = current t s" "length (mFibers s2) = length (mFibers s)"
    using f1 by (simp_all add: s2_def)
  have call: "api_call dbg P t ctx (CallWait h pinned 0) s = Some (goto t (InCounter ?i ?add (AfterWait ctx)) s1)"
    using assms(5,6) by (simp add: sched_wait_def fail_simps s1_def handle_counter_def Let_def)
  have "user_resume dbg t (goto t (InCounter ?i ?add (AfterWait ctx)) s1) =
      user_resume dbg t (goto t (InCounter ?i (AddDone True 0) (AfterWait ctx)) s2)"
    unfolding s2_def using assms(2,7) f1 by (intro user_resume_counter [OF _ _ _ run]) simp_all
  also have "\<dots> = user_resume dbg t (goto t (WaitOver ctx 0) s2)"
    using assms(2,7) f1 f2 by (intro user_resume_returns) (simp_all add: s2_def)
  also have "\<dots> = user_resume dbg t (goto t (Running ctx (IntResult 0)) s3)"
  proof -
    have "exec_pc dbg t (WaitOver ctx 0) (goto t (WaitOver ctx 0) s2) = Some (goto t (Running ctx (IntResult 0)) s3)"
      using assms(2) f2(2,3) by (simp add: s3_def goto_def set_tls_def set_native_def current_def)
    then show ?thesis using assms(2) f2 by (intro user_resume_step) simp_all
  qed
  also have "\<dots> = Some (goto t (Running ctx (IntResult 0)) s3)"
    using f3(1-3) assms(2) by (intro user_resume_arrived) simp_all
  finally have run1: "prog_run dbg P t ctx (Invoke (CallWait h pinned 0) k) s =
      prog_run dbg P t ctx (k (IntResult 0)) (goto t (Running ctx (IntResult 0)) s3)" for k
    using f3(1-3) assms(2) by (intro prog_run_invoke [OF call]) simp_all
  obtain q where q: "mpmc_enqueue (mFreeCounters s) c = Some (True, q)"
    "mpmc_list q = mpmc_list (mFreeCounters s) @ [c]"
    using mpmc.enq_room [OF assms(12,13), of c] by blast
  define s4 where "s4 = s3\<lparr>mCounterHandles := pool_release P (mCounterHandles s) h, mFreeCounters := q\<rparr>"
  have f4: "failed s4 = None" "current t s4 = current t s" "length (mFibers s4) = length (mFibers s)"
    "mCounters s4 = (mCounters s)[?i := c']" "mTasks s4 = mTasks s" "mIdleFibers s4 = mIdleFibers s"
    "mResumableFibers s4 = mResumableFibers s" "mFreeCounters s4 = q"
    "mCounterHandles s4 = pool_release P (mCounterHandles s) h" "\<not> is_thread_waiting (s_tls s4 t)"
    using f3 by (simp_all add: s4_def current_def)
  have "api_call dbg P t ctx (CallReleaseIfOnTarget h 0) (goto t (Running ctx (IntResult 0)) s3) =
      Some (goto t (Running ctx (BoolResult True)) s4)"
    using assms(2,6,7) f3(2-4,8,9) c'(1) q(1)
    by (simp add: releaseCounterIfOnTarget_def handle_counter_def free_counter_of_def s4_def goto_def set_native_def current_def)
  moreover have "user_resume dbg t (goto t (Running ctx (BoolResult True)) s4) = Some (goto t (Running ctx (BoolResult True)) s4)"
    using f4(1-3) assms(2) by (intro user_resume_arrived) simp_all
  ultimately have run2: "prog_run dbg P t ctx (Invoke (CallReleaseIfOnTarget h 0) k) (goto t (Running ctx (IntResult 0)) s3) =
      prog_run dbg P t ctx (k (BoolResult True)) (goto t (Running ctx (BoolResult True)) s4)" for k
    using f3(2) f4(1-3) assms(2) by (intro prog_run_invoke) simp_all
  let ?s = "goto t (Running ctx (BoolResult True)) s4"
  have "prog_run dbg P t ctx (single_wait_for \<lparr>sync_handle = h\<rparr> pinned) s = Some (Inr (0, null_sync), ?s)"
    using assms(4) by (simp add: single_wait_for_def counter_is_valid_def null_sync_def run1 run2 del: prog_run.simps(3))
  then show "\<exists>s'. prog_run dbg P t ctx (single_wait_for \<lparr>sync_handle = h\<rparr> pinned) s = Some (Inr (0, null_sync), s') \<and>
      mpmc_list (mFreeCounters s') = mpmc_list (mFreeCounters s) @ [c] \<and>
      mCounterHandles s' = pool_release P (mCounterHandles s) h \<and>
      waiters (mCounters s' ! ?i) = waiters (mCounters s ! ?i) \<and>
      current t s' = current t s \<and> \<not> is_thread_waiting (s_tls s' t) \<and>
      mTasks s' = mTasks s \<and> mIdleFibers s' = mIdleFibers s \<and> mResumableFibers s' = mResumableFibers s"
    using q(2) c'(2) f4 assms(7) by (intro exI [of _ ?s]) simp
qed

section \<open>A concrete state\<close>

text \<open>One thread in the main task on fiber 0, counters after their reset, the given free counters and handles.\<close>

definition api_state :: "counter_index_t mpmc \<Rightarrow> counter_index_t list \<Rightarrow> counter_index_t list sched" where
  "api_state free handles = sample_queues\<lparr>
     mFibers := replicate 4 \<lparr>native = Running (MainTask sample_task) NoResult, is_waiting_cleaned_up = False\<rparr>,
     mCounters := replicate 2 (counter_reset counter_default), mFreeCounters := free,
     mCounterHandles := handles, s_tls := (\<lambda>_. tls_reset\<lparr>current_fiber_index := 0\<rparr>)\<rparr>"

lemma api_state_fields:
  "failed (api_state free handles) = None" "current t (api_state free handles) = 0"
  "length (mFibers (api_state free handles)) = 4" "length (mCounters (api_state free handles)) = 2"
  "i < 2 \<Longrightarrow> mCounters (api_state free handles) ! i = counter_reset counter_default"
  "i < 4 \<Longrightarrow> native (mFibers (api_state free handles) ! i) = Running (MainTask sample_task) NoResult"
  "mFreeCounters (api_state free handles) = free" "mCounterHandles (api_state free handles) = handles"
  "mTasks (api_state free handles) = mpmc_init sample_task 4"
  by (simp_all add: api_state_def sample_queues_def current_def)

lemma api_queues:
  "mpmc_ok (mpmc_init sample_task 4)" "mpmc_list (mpmc_init sample_task 4) = []"
  "length (mBuffer (mpmc_init sample_task 4)) = 4"
  using mpmc_init_ok [of 4 2 sample_task] by simp_all

lemma api_free_counters:
  fixes cs :: "counter_index_t list"
  assumes "length cs \<le> 2"
  obtains free where "mpmc_ok free" "mpmc_list free = cs" "length (mBuffer free) = 2"
proof -
  note ini = mpmc_init_ok [of 2 1 "0 :: counter_index_t", simplified]
  have "length (mpmc_list (mpmc_init (0 :: counter_index_t) 2)) + length cs \<le> length (mBuffer (mpmc_init (0 :: counter_index_t) 2))"
    using ini assms by simp
  from mpmc.enqueue_each_room [OF ini(1) this] ini that show ?thesis by auto
qed

lemma api_counter:
  "counter_shape (counter_reset counter_default)" "count (counter_reset counter_default) = 0"
  "free_waiting_slots (counter_reset counter_default) ! 0"
  by (simp_all add: counter_reset_def counter_default_def counter_shape_def max_waiting_def)

lemma submit_raw_sample:
  "\<exists>s s'. prog_run True sample_pool 0 (MainTask sample_task) (submit_raw True True null_sync [sample_task]) s =
      Some (Inr \<lparr>sync_handle = 0\<rparr>, s') \<and> mpmc_list (mTasks s') = [set_metadata 0 sample_task] \<and>
    count (mCounters s' ! 0) = 1"
proof -
  obtain free :: "counter_index_t mpmc" where free: "mpmc_ok free" "mpmc_list free = [0, 1]"
    by (rule api_free_counters [of "[0, 1]"]) simp_all
  let ?s = "api_state free []"
  have "failed ?s = None" "current 0 ?s < length (mFibers ?s)"
    "native (mFibers ?s ! current 0 ?s) = Running (MainTask sample_task) NoResult"
    "mpmc_ok (mFreeCounters ?s)" "mpmc_list (mFreeCounters ?s) = 0 # [1]"
    "unat (0 :: counter_index_t) < length (mCounters ?s)"
    "counter_shape (mCounters ?s ! unat (0 :: counter_index_t))"
    "pool_acquire sample_pool (mCounterHandles ?s) = (0, [0])"
    "pool_index sample_pool (pool_set_index sample_pool [0] 0 0) 0 = 0"
    "mpmc_ok (mTasks ?s)" "length (mpmc_list (mTasks ?s)) + length [sample_task] \<le> length (mBuffer (mTasks ?s))"
    using free by (simp_all add: api_state_fields api_queues api_counter sample_pool_def del: counter_shape_simps length_mpmc_list)
  from submit_raw_runs [OF this, of True] show ?thesis
    by (auto simp: api_state_fields api_queues)
qed

lemma wait_for_alone_sample:
  "\<exists>s s'. prog_run True sample_pool 0 (MainTask sample_task) (single_wait_for \<lparr>sync_handle = 0\<rparr> True) s =
      Some (Inr (0, null_sync), s') \<and> mpmc_list (mFreeCounters s') = [1, 0]"
proof -
  obtain free :: "counter_index_t mpmc" where free: "mpmc_ok free" "mpmc_list free = [1]" "length (mBuffer free) = 2"
    by (rule api_free_counters [of "[1]"]) simp_all
  let ?s = "api_state free [0]"
  have "failed ?s = None" "current 0 ?s < length (mFibers ?s)"
    "native (mFibers ?s ! current 0 ?s) = Running (MainTask sample_task) NoResult"
    "(0 :: handle_t) \<noteq> null_handle_value" "pool_is_alive sample_pool (mCounterHandles ?s) 0"
    "pool_index sample_pool (mCounterHandles ?s) 0 = 0"
    "unat (0 :: counter_index_t) < length (mCounters ?s)"
    "counter_shape (mCounters ?s ! unat (0 :: counter_index_t))"
    "count (mCounters ?s ! unat (0 :: counter_index_t)) = 0" "0 < max_waiting"
    "free_waiting_slots (mCounters ?s ! unat (0 :: counter_index_t)) ! 0"
    "mpmc_ok (mFreeCounters ?s)" "length (mpmc_list (mFreeCounters ?s)) < length (mBuffer (mFreeCounters ?s))"
    using free by (simp_all add: api_state_fields api_counter sample_pool_def null_handle_value_def max_waiting_def
        del: counter_shape_simps length_mpmc_list)
  from wait_for_alone [OF this, of True True] show ?thesis
    using free(2) by (auto simp: api_state_fields)
qed

end
