(* ===== verification/Chase_Lev.thy ===== *)
theory Chase_Lev
  imports Prelude
begin

text \<open>
  The work-stealing deque (container/spmc_queue.hh): circular buffers that grow and shrink, the owner's
  end with \<open>push_bottom\<close> and \<open>pop_bottom\<close>, the thieves' end with \<open>steal\<close>, and the reclamation of old
  buffers. Buffers live at addresses of a store, so that a use after \<open>delete\<close> is visible: an operation
  that reads a freed buffer is \<open>None\<close>.

  Positions are \<open>long\<close>s, kept as 64-bit words and compared as signed numbers; a comparison with a
  \<open>size_t\<close> is an unsigned one.
\<close>

section \<open>Buffers\<close>

record 'a buffer =
  buf_id :: usize
  log_size :: nat
  segment :: "'a list"
  next_buffer :: "nat option"

definition buf_size :: "'a buffer \<Rightarrow> usize" where
  "buf_size a = push_bit (log_size a) 1"

text \<open>\<open>new T[1 << log_size]\<close>: elements of unknown value, given by \<open>d\<close>.\<close>

definition buf_new :: "'a \<Rightarrow> nat \<Rightarrow> usize \<Rightarrow> 'a buffer" where
  "buf_new d ls i = \<lparr>buf_id = i, log_size = ls, segment = replicate (2 ^ ls) d, next_buffer = None\<rparr>"

definition buf_get :: "'a buffer \<Rightarrow> usize \<Rightarrow> 'a" where
  "buf_get a i = segment a ! unat (i mod buf_size a)"

definition buf_put :: "usize \<Rightarrow> 'a \<Rightarrow> 'a buffer \<Rightarrow> 'a buffer" where
  "buf_put i x a = a\<lparr>segment := (segment a)[unat (i mod buf_size a) := x]\<rparr>"

text \<open>The copying loop of \<open>resize\<close>, \<open>for (auto i = t; i < b; ++i)\<close>.\<close>

function copy_items :: "'a buffer \<Rightarrow> usize \<Rightarrow> usize \<Rightarrow> 'a buffer \<Rightarrow> 'a buffer" where
  "copy_items old i b new =
     (if sint i < sint b then copy_items old (i + 1) b (buf_put i (buf_get old i) new) else new)"
  by pat_completeness auto

text \<open>The new buffer; the caller links it behind the old one.\<close>

definition buf_resized :: "'a \<Rightarrow> 'a buffer \<Rightarrow> usize \<Rightarrow> usize \<Rightarrow> nat \<Rightarrow> 'a buffer" where
  "buf_resized d a b t ls = copy_items a t b (buf_new d ls (buf_id a + 1))"

section \<open>The deque\<close>

record buffer_tls =
  id_last_used :: usize
  was_idle :: bool

record 'a deque =
  top :: usize
  bottom :: usize
  unlinked :: "nat option"
  log_initial_size :: nat
  id_list :: "buffer_tls list"
  deq_buffer :: nat
  bufs :: "nat \<Rightarrow> 'a buffer option"
  fresh_addr :: nat

definition deque_new :: "'a \<Rightarrow> nat \<Rightarrow> 'a deque" where
  "deque_new d ls = \<lparr>top = 0, bottom = 0, unlinked = None, log_initial_size = ls, id_list = [],
     deq_buffer = 0, bufs = Map.empty(0 \<mapsto> buf_new d ls 0), fresh_addr = 1\<rparr>"

text \<open>\<open>register_thread\<close>: a new entry at the head of the list.\<close>

definition register_thread :: "'a deque \<Rightarrow> 'a deque" where
  "register_thread q = q\<lparr>id_list := \<lparr>id_last_used = 0, was_idle = True\<rparr> # id_list q\<rparr>"

text \<open>
  \<open>resize\<close> of the current buffer, to a new one, which becomes the current one. \<open>new\<close> takes the
  addresses in turn.
\<close>

definition resize_to :: "'a \<Rightarrow> usize \<Rightarrow> usize \<Rightarrow> nat \<Rightarrow> 'a buffer \<Rightarrow> 'a deque \<Rightarrow> 'a deque" where
  "resize_to d b t ls a q =
     q\<lparr>unlinked := (case unlinked q of None \<Rightarrow> Some (deq_buffer q) | Some u \<Rightarrow> Some u),
       bufs := (bufs q)(deq_buffer q \<mapsto> a\<lparr>next_buffer := Some (fresh_addr q)\<rparr>,
                        fresh_addr q \<mapsto> buf_resized d a b t ls),
       deq_buffer := fresh_addr q, fresh_addr := fresh_addr q + 1\<rparr>"

section \<open>Reclamation\<close>

text \<open>\<open>min_id\<close>: the least id that a busy thief may use, at most that of the new buffer. \<open>long\<close>s.\<close>

definition busy_min :: "buffer_tls list \<Rightarrow> usize \<Rightarrow> usize" where
  "busy_min ts m0 = foldl (\<lambda>m e. if was_idle e then m
     else if sint (id_last_used e) < sint m then id_last_used e else m) m0 ts"

text \<open>The deleting loop; \<open>None\<close> when it would follow a null pointer or one to a freed buffer.\<close>

partial_function (option) reclaim_loop :: "usize \<Rightarrow> 'a deque \<Rightarrow> 'a deque option" where
  "reclaim_loop min_id q =
     (case unlinked q of
        None \<Rightarrow> None
      | Some u \<Rightarrow>
          (case bufs q u of
             None \<Rightarrow> None
           | Some a \<Rightarrow>
               if sint (buf_id a) < sint min_id
               then reclaim_loop min_id (q\<lparr>unlinked := next_buffer a, bufs := (bufs q)(u := None)\<rparr>)
               else Some q))"

declare reclaim_loop.simps [code]

definition reclaim_buffers :: "nat \<Rightarrow> 'a deque \<Rightarrow> 'a deque option" where
  "reclaim_buffers new q =
     (case bufs q new of None \<Rightarrow> None | Some a \<Rightarrow> reclaim_loop (busy_min (id_list q) (buf_id a)) q)"

text \<open>The destructor: the old buffers, then the current one. \<open>None\<close> when a freed buffer would be freed again.\<close>

partial_function (option) destroy_loop :: "'a deque \<Rightarrow> 'a deque option" where
  "destroy_loop q =
     (case unlinked q of
        None \<Rightarrow> Some q
      | Some u \<Rightarrow>
          if u = deq_buffer q then Some q
          else (case bufs q u of
                  None \<Rightarrow> None
                | Some a \<Rightarrow> destroy_loop (q\<lparr>unlinked := next_buffer a, bufs := (bufs q)(u := None)\<rparr>)))"

declare destroy_loop.simps [code]

definition deque_destroy :: "'a deque \<Rightarrow> 'a deque option" where
  "deque_destroy q =
     (case destroy_loop q of
        None \<Rightarrow> None
      | Some q' \<Rightarrow>
          (case bufs q' (deq_buffer q') of
             None \<Rightarrow> None
           | Some _ \<Rightarrow> Some (q'\<lparr>bufs := (bufs q')(deq_buffer q' := None)\<rparr>)))"

definition reclaim_if_unlinked :: "'a deque \<Rightarrow> 'a deque option" where
  "reclaim_if_unlinked q = (if unlinked q \<noteq> None then reclaim_buffers (deq_buffer q) q else Some q)"

section \<open>The operations\<close>

text \<open>\<open>d\<close> is the unknown value of the elements of a new buffer.\<close>

definition push_bottom :: "'a \<Rightarrow> 'a \<Rightarrow> 'a deque \<Rightarrow> 'a deque option" where
  "push_bottom d x q =
     (case bufs q (deq_buffer q) of
        None \<Rightarrow> None
      | Some a \<Rightarrow>
          let b = bottom q; t = top q;
              q1 = (if b - t \<ge> buf_size a - 1 then resize_to d b t (log_size a + 1) a q else q)
          in (case reclaim_if_unlinked q1 of
                None \<Rightarrow> None
              | Some q2 \<Rightarrow>
                  (case bufs q2 (deq_buffer q2) of
                     None \<Rightarrow> None
                   | Some a' \<Rightarrow> Some (q2\<lparr>bufs := (bufs q2)(deq_buffer q2 \<mapsto> buf_put b x a'), bottom := b + 1\<rparr>))))"

definition pop_bottom :: "'a \<Rightarrow> 'a deque \<Rightarrow> ('a option \<times> 'a deque) option" where
  "pop_bottom d q =
     (let b = bottom q; q1 = q\<lparr>bottom := b - 1\<rparr>; t = top q1; sz = b - t
      in if sint sz \<le> 0 then Some (None, q1\<lparr>bottom := b\<rparr>)
         else (case bufs q (deq_buffer q) of
                 None \<Rightarrow> None
               | Some a \<Rightarrow>
                   if sz = 1 then Some (Some (buf_get a t), q1\<lparr>top := t + 1, bottom := b\<rparr>)
                   else (let x = buf_get a (b - 1);
                             q2 = (if sz \<le> buf_size a div 3 \<and> sint (push_bit (log_initial_size q) 1 :: cint) < sint sz
                                   then resize_to d b t (log_size a - 1) a q1 else q1)
                         in map_option (Pair (Some x)) (reclaim_if_unlinked q2))))"

text \<open>
  The two halves of \<open>steal\<close>: up to its exchange, which gives the buffer and the position to read, and
  the read. The size is an \<open>int\<close>.
\<close>

definition steal_claim :: "'a deque \<Rightarrow> (nat \<times> usize) option \<times> 'a deque" where
  "steal_claim q =
     (let t = top q; b = bottom q
      in if 0 < sint (ucast (b - t) :: cint) then (Some (deq_buffer q, t), q\<lparr>top := t + 1\<rparr>) else (None, q))"

definition steal_read :: "nat \<times> usize \<Rightarrow> 'a deque \<Rightarrow> 'a option" where
  "steal_read c q = (case c of (addr, t) \<Rightarrow> map_option (\<lambda>a. buf_get a t) (bufs q addr))"

definition steal :: "'a deque \<Rightarrow> ('a option \<times> 'a deque) option" where
  "steal q =
     (case steal_claim q of
        (None, q') \<Rightarrow> Some (None, q')
      | (Some c, q') \<Rightarrow> (case steal_read c q' of None \<Rightarrow> None | Some x \<Rightarrow> Some (Some x, q')))"

text \<open>
  \<open>Stealer::steal\<close> with the entry \<open>i\<close> of its thread: busy while it steals, then idle with the id of the
  buffer it has seen.
\<close>

definition set_tls_entry :: "nat \<Rightarrow> buffer_tls \<Rightarrow> 'a deque \<Rightarrow> 'a deque" where
  "set_tls_entry i e q = q\<lparr>id_list := (id_list q)[i := e]\<rparr>"

definition stealer_steal :: "nat \<Rightarrow> 'a deque \<Rightarrow> ('a option \<times> 'a deque) option" where
  "stealer_steal i q =
     (case steal (set_tls_entry i ((id_list q ! i)\<lparr>was_idle := False\<rparr>) q) of
        None \<Rightarrow> None
      | Some (r, q') \<Rightarrow>
          map_option (\<lambda>b. (r, set_tls_entry i ((id_list q' ! i)\<lparr>was_idle := True, id_last_used := buf_id b\<rparr>) q'))
            (bufs q' (deq_buffer q')))"

section \<open>Positions and indices\<close>

lemma sint_position: "unat x < 2 ^ 63 \<Longrightarrow> sint x = int (unat x)" for x :: usize
  using sint_of_nat_small [of "unat x", where 'a = 64] by simp

lemma sint_less: "unat x < 2 ^ 63 \<Longrightarrow> unat y < 2 ^ 63 \<Longrightarrow> sint x < sint y \<longleftrightarrow> unat x < unat y" for x y :: usize
  by (simp only: sint_position of_nat_less_iff)

lemma position_next: "unat x < unat y \<Longrightarrow> unat (x + 1) = unat x + 1" for x y :: usize
proof -
  assume less: "unat x < unat y"
  have "unat y < 2 ^ LENGTH(64)" by (rule unsigned_less)
  with less have "unat x + 1 < 2 ^ LENGTH(64)" by linarith
  then show ?thesis by (simp add: unat_word_ariths)
qed

lemma position_diff: "unat t \<le> unat b \<Longrightarrow> unat (b - t) = unat b - unat t" for b t :: usize
  by (rule unat_sub) (simp add: word_le_nat_alt)

lemma buf_size_nat: "log_size a < 64 \<Longrightarrow> unat (buf_size a) = 2 ^ log_size a"
  using unat_of_nat_small [of "2 ^ log_size a", where 'a = 64] power_strict_increasing [of "log_size a" 64 "2 :: nat"]
  by (simp add: buf_size_def push_bit_eq_mult)

lemma buf_index: "log_size a < 64 \<Longrightarrow> unat (i mod buf_size a) = unat i mod 2 ^ log_size a"
  by (simp add: unat_mod buf_size_nat)

lemma buf_get_nat: "log_size a < 64 \<Longrightarrow> buf_get a i = segment a ! (unat i mod 2 ^ log_size a)"
  by (simp add: buf_get_def buf_index)

lemma buf_put_nat:
  "log_size a < 64 \<Longrightarrow> buf_put i x a = a\<lparr>segment := (segment a)[unat i mod 2 ^ log_size a := x]\<rparr>"
  by (simp add: buf_put_def buf_index)

text \<open>The copying loop ends, and puts every element at its position in the new buffer.\<close>

termination copy_items
proof (relation "measure (\<lambda>(old, i, b, new). nat (sint b - sint i))")
  fix old new :: "'a buffer" and i b :: usize
  assume less: "sint i < sint b"
  have "sint b \<le> 2 ^ 63 - 1" using sint_lt [of b] by simp
  then have "sint (i + 1) = sint i + 1" using less sint_ge [of i]
    by (simp add: sint_word_ariths signed_take_bit_int_eq_self)
  with less show "((old, i + 1, b, buf_put i (buf_get old i) new), old, i, b, new)
      \<in> measure (\<lambda>(old, i, b, new). nat (sint b - sint i))" by simp
qed simp

declare copy_items.simps [simp del]

lemma copy_items_segment:
  assumes "unat b < 2 ^ 63" and "unat i \<le> unat b" and "log_size old < 64" and "log_size new < 64"
  shows "copy_items old i b new = new\<lparr>segment :=
    fold (\<lambda>j d. d[j mod 2 ^ log_size new := segment old ! (j mod 2 ^ log_size old)]) [unat i..<unat b] (segment new)\<rparr>"
  using assms
proof (induction "unat b - unat i" arbitrary: i new)
  case 0
  then show ?case using sint_less [of i b] by (subst copy_items.simps) simp
next
  case (Suc k)
  then have less: "unat i < unat b" by simp
  note next' = position_next [OF less]
  have "sint i < sint b" using less Suc.prems(1) sint_less [of i b] by simp
  then have "copy_items old i b new = copy_items old (i + 1) b (buf_put i (buf_get old i) new)"
    by (subst copy_items.simps) simp
  also have "\<dots> = (buf_put i (buf_get old i) new)\<lparr>segment :=
      fold (\<lambda>j d. d[j mod 2 ^ log_size new := segment old ! (j mod 2 ^ log_size old)]) [unat (i + 1)..<unat b]
        (segment (buf_put i (buf_get old i) new))\<rparr>"
    using Suc.hyps(1) [of "i + 1" "buf_put i (buf_get old i) new"] Suc.hyps(2) Suc.prems less
    by (simp add: next' buf_put_def)
  finally show ?case
    using less Suc.prems(3,4) by (simp add: next' upt_conv_Cons buf_put_nat buf_get_nat)
qed

lemma buf_resized_fields:
  assumes "unat b < 2 ^ 63" and "unat t \<le> unat b" and "log_size a < 64" and "ls < 64"
  shows "log_size (buf_resized d a b t ls) = ls" and "buf_id (buf_resized d a b t ls) = buf_id a + 1"
    and "length (segment (buf_resized d a b t ls)) = 2 ^ ls"
    and "\<lbrakk>unat t \<le> j; j < unat b; unat b - unat t \<le> 2 ^ ls\<rbrakk> \<Longrightarrow>
      segment (buf_resized d a b t ls) ! (j mod 2 ^ ls) = segment a ! (j mod 2 ^ log_size a)"
proof -
  let ?new = "buf_new d ls (buf_id a + 1)"
  have new: "log_size ?new = ls" "segment ?new = replicate (2 ^ ls) d" by (simp_all add: buf_new_def)
  note cp = copy_items_segment [OF assms(1,2,3), of ?new, unfolded new, OF assms(4)]
  show "log_size (buf_resized d a b t ls) = ls" and "buf_id (buf_resized d a b t ls) = buf_id a + 1"
    and "length (segment (buf_resized d a b t ls)) = 2 ^ ls"
    by (simp_all add: buf_resized_def cp) (simp_all add: buf_new_def)
  assume j: "unat t \<le> j" "j < unat b" "unat b - unat t \<le> 2 ^ ls"
  have "k mod 2 ^ ls \<noteq> j mod 2 ^ ls" if "j < k" "k < unat b" for k
  proof
    assume eq: "k mod 2 ^ ls = j mod 2 ^ ls"
    have "k - j < 2 ^ ls" using that j by linarith
    then have "0 = k - j" using mod_ring_le [of 0 "k - j" "2 ^ ls" j] eq that(1) by simp
    with that(1) show False by simp
  qed
  then show "segment (buf_resized d a b t ls) ! (j mod 2 ^ ls) = segment a ! (j mod 2 ^ log_size a)"
    using fold_update_nth [of "unat t" j "unat b" "\<lambda>j. j mod 2 ^ ls" "replicate (2 ^ ls) d"
        "\<lambda>j. segment a ! (j mod 2 ^ log_size a)"] j
    by (simp add: buf_resized_def cp)
qed

section \<open>The list of buffers\<close>

fun chain :: "(nat \<Rightarrow> 'a buffer option) \<Rightarrow> nat list \<Rightarrow> bool" where
  "chain m [] = False"
| "chain m [u] = (m u \<noteq> None)"
| "chain m (u # v # us) =
     ((case (m u, m v) of
         (Some a, Some b) \<Rightarrow> next_buffer a = Some v \<and> sint (buf_id a) < sint (buf_id b)
       | _ \<Rightarrow> False) \<and> chain m (v # us))"

lemma chain_alloc: "chain m us \<Longrightarrow> u \<in> set us \<Longrightarrow> m u \<noteq> None"
  by (induction m us rule: chain.induct) (auto split: option.splits)

lemma chain_cong: "(\<And>x. x \<in> set us \<Longrightarrow> m x = m' x) \<Longrightarrow> chain m us = chain m' us"
  by (induction m us rule: chain.induct) auto

lemma chain_snoc:
  "chain m us \<Longrightarrow> distinct us \<Longrightarrow> m (last us) = Some a \<Longrightarrow> n \<notin> set us \<Longrightarrow> sint (buf_id a) < sint (buf_id b) \<Longrightarrow>
   chain (m(last us \<mapsto> a\<lparr>next_buffer := Some n\<rparr>, n \<mapsto> b)) (us @ [n])"
proof (induction m us rule: chain.induct)
  case (3 m u v us)
  have l: "last (u # v # us) = last (v # us)" "last (v # us) \<in> set (v # us)" by simp_all
  with 3 have "u \<noteq> last (v # us)" "u \<noteq> n" by (auto simp del: last.simps)
  moreover have "chain (m(last (v # us) \<mapsto> a\<lparr>next_buffer := Some n\<rparr>, n \<mapsto> b)) ((v # us) @ [n])"
    using 3 l by (intro "3.IH") (auto simp del: last.simps)
  ultimately show ?case using 3 l(1) by (auto split: option.splits simp del: last.simps)
qed auto

lemma busy_min_le: "sint (busy_min ts m0) \<le> sint m0"
  unfolding busy_min_def
proof (induction ts arbitrary: m0)
  case (Cons e ts)
  from Cons [of "if was_idle e then m0 else if sint (id_last_used e) < sint m0 then id_last_used e else m0"]
  show ?case by (auto split: if_splits)
qed simp

text \<open>Reclaiming stops at the current buffer at the latest, and deletes only buffers below the least id.\<close>

lemma reclaim_loop_chain:
  assumes "chain (bufs q) us" and "distinct us" and "unlinked q = Some (hd us)"
    and "bufs q (last us) = Some c" and "dom (bufs q) = set us" and "sint m \<le> sint (buf_id c)"
  shows "\<exists>us' fs. reclaim_loop m q = Some (q\<lparr>unlinked := Some (hd us'), bufs := fs\<rparr>) \<and>
    chain fs us' \<and> distinct us' \<and> last us' = last us \<and> dom fs = set us' \<and>
    (\<forall>x. fs x = bufs q x \<or> fs x = None \<and> (\<exists>a. bufs q x = Some a \<and> sint (buf_id a) < sint m))"
  using assms
proof (induction us arbitrary: q rule: induct_list012)
  case 1
  then show ?case by simp
next
  case (2 u)
  then have "reclaim_loop m q = Some q" by (subst reclaim_loop.simps) simp
  with 2 show ?case by (intro exI [of _ "[u]"] exI [of _ "bufs q"]) simp
next
  case (3 u v us)
  obtain a where a: "bufs q u = Some a" "next_buffer a = Some v" using "3.prems"(1) by (auto split: option.splits)
  show ?case
  proof (cases "sint (buf_id a) < sint m")
    case True
    let ?q = "q\<lparr>unlinked := Some v, bufs := (bufs q)(u := None)\<rparr>"
    have st: "reclaim_loop m q = reclaim_loop m ?q"
      using True a "3.prems"(3) by (subst reclaim_loop.simps) simp
    have ch: "chain (bufs ?q) (v # us)"
    proof -
      have "chain ((bufs q)(u := None)) (v # us) = chain (bufs q) (v # us)"
        by (rule chain_cong) (use "3.prems"(2) in auto)
      then show ?thesis using "3.prems"(1) by simp
    qed
    have "last (v # us) \<noteq> u" using "3.prems"(2) last_in_set [of "v # us"] by auto
    then have pre: "distinct (v # us)" "unlinked ?q = Some (hd (v # us))" "bufs ?q (last (v # us)) = Some c"
      using "3.prems"(2,4) by simp_all
    have dom: "dom (bufs ?q) = set (v # us)" using "3.prems"(2,5) by auto
    from "3.IH"(2) [OF ch pre dom "3.prems"(6)] obtain us' fs where r: "reclaim_loop m ?q = Some (?q\<lparr>unlinked := Some (hd us'), bufs := fs\<rparr>)"
      "chain fs us'" "distinct us'" "last us' = last (v # us)" "dom fs = set us'"
      "\<forall>x. fs x = bufs ?q x \<or> fs x = None \<and> (\<exists>a. bufs ?q x = Some a \<and> sint (buf_id a) < sint m)"
      by blast
    have "\<forall>x. fs x = bufs q x \<or> fs x = None \<and> (\<exists>a. bufs q x = Some a \<and> sint (buf_id a) < sint m)"
    proof
      fix x
      show "fs x = bufs q x \<or> fs x = None \<and> (\<exists>a. bufs q x = Some a \<and> sint (buf_id a) < sint m)"
        using r(6) [THEN spec, of x] a(1) True by (cases "x = u") auto
    qed
    then show ?thesis unfolding st using r by (intro exI [of _ us'] exI [of _ fs]) simp
  next
    case False
    then have "reclaim_loop m q = Some q" using a "3.prems"(3) by (subst reclaim_loop.simps) simp
    with "3.prems" show ?thesis by (intro exI [of _ "u # v # us"] exI [of _ "bufs q"]) simp
  qed
qed

section \<open>Invariant and abstraction\<close>

text \<open>
  The old buffers that are not reclaimed yet lead, oldest first, to the current one, and there are no
  others.
\<close>

definition chain_ok :: "'a deque \<Rightarrow> bool" where
  "chain_ok q \<longleftrightarrow> (\<forall>x \<ge> fresh_addr q. bufs q x = None) \<and>
     (\<exists>us. chain (bufs q) us \<and> distinct us \<and> dom (bufs q) = set us \<and> last us = deq_buffer q \<and>
        (case unlinked q of None \<Rightarrow> us = [deq_buffer q] | Some u \<Rightarrow> u = hd us))"

definition deque_ok :: "'a deque \<Rightarrow> bool" where
  "deque_ok q \<longleftrightarrow>
     chain_ok q \<and> log_initial_size q \<le> 30 \<and>
     unat (top q) \<le> unat (bottom q) \<and> unat (bottom q) < 2 ^ 63 \<and>
     (\<exists>a. bufs q (deq_buffer q) = Some a \<and> length (segment a) = 2 ^ log_size a \<and>
        log_initial_size q \<le> log_size a \<and> log_size a \<le> 62 \<and>
        unat (bottom q) - unat (top q) < 2 ^ log_size a)"

text \<open>The elements from the thieves' end to the owner's.\<close>

definition ring_items :: "'a buffer \<Rightarrow> nat \<Rightarrow> nat \<Rightarrow> 'a list" where
  "ring_items a t b = map (\<lambda>i. segment a ! (i mod 2 ^ log_size a)) [t..<b]"

definition deque_list :: "'a deque \<Rightarrow> 'a list" where
  "deque_list q =
     (case bufs q (deq_buffer q) of
        None \<Rightarrow> [] | Some a \<Rightarrow> ring_items a (unat (top q)) (unat (bottom q)))"

text \<open>
  What \<open>n\<close> operations on a new deque can reach at most: the positions and ids advance by one each, and a
  buffer grows only when it is full. That stays far below the limits of the machine integers.
\<close>

definition buf_within :: "nat \<Rightarrow> 'a deque \<Rightarrow> 'a buffer \<Rightarrow> bool" where
  "buf_within n q a \<longleftrightarrow> unat (buf_id a) \<le> n \<and> 2 ^ log_size a \<le> max (2 ^ log_initial_size q) (2 * n)"

definition deque_within :: "nat \<Rightarrow> 'a deque \<Rightarrow> bool" where
  "deque_within n q \<longleftrightarrow> unat (bottom q) \<le> n \<and> (\<forall>a. bufs q (deq_buffer q) = Some a \<longrightarrow> buf_within n q a)"

lemma buf_within_limits:
  assumes "buf_within n q a" and "n < 2 ^ 31" and "log_initial_size q \<le> 30"
  shows "unat (buf_id a) < 2 ^ 62" and "log_size a < 62"
proof -
  show "unat (buf_id a) < 2 ^ 62" using assms by (simp add: buf_within_def)
  have "(2 :: nat) ^ log_initial_size q \<le> 2 ^ 30" using assms(3) by (intro power_increasing) simp_all
  moreover have "2 * n \<le> 2 ^ 32" using assms(2) by simp
  ultimately have "max (2 ^ log_initial_size q) (2 * n) \<le> 2 ^ 32" by simp
  then have "(2 :: nat) ^ log_size a \<le> 2 ^ 32" using assms(1) unfolding buf_within_def by (elim conjE) (rule order_trans)
  then have "log_size a \<le> 32" by (simp only: power_increasing_iff)
  then show "log_size a < 62" by simp
qed

lemma deque_new_ok: "ls \<le> 30 \<Longrightarrow> deque_ok (deque_new d ls) \<and> deque_list (deque_new d ls) = []"
  by (auto simp: deque_ok_def chain_ok_def deque_new_def deque_list_def ring_items_def buf_new_def
      intro!: exI [of _ "[0]"])

lemma ring_items_put:
  assumes "t \<le> b" and "b - t < 2 ^ log_size a" and "length (segment a) = 2 ^ log_size a"
  shows "ring_items (a\<lparr>segment := (segment a)[b mod 2 ^ log_size a := x]\<rparr>) t (Suc b) = ring_items a t b @ [x]"
proof -
  have "b mod 2 ^ log_size a \<noteq> j mod 2 ^ log_size a" if "t \<le> j" "j < b" for j
  proof
    assume eq: "b mod 2 ^ log_size a = j mod 2 ^ log_size a"
    have "b - j < 2 ^ log_size a" using that assms(2) by linarith
    then have "0 = b - j" using mod_ring_le [of 0 "b - j" "2 ^ log_size a" j] eq that(2) by simp
    with that(2) show False by simp
  qed
  then show ?thesis using assms by (auto simp: ring_items_def)
qed

lemma ring_items_resized:
  assumes "unat b < 2 ^ 63" and "unat t \<le> unat b" and "log_size a < 64" and "ls < 64"
    and "unat b - unat t \<le> 2 ^ ls"
  shows "ring_items (buf_resized d a b t ls) (unat t) (unat b) = ring_items a (unat t) (unat b)"
  using buf_resized_fields(1) [OF assms(1-4)] buf_resized_fields(4) [OF assms(1-4) _ _ assms(5)]
  by (auto simp: ring_items_def)

lemma chain_okD:
  assumes "chain_ok q"
  obtains a where "bufs q (deq_buffer q) = Some a"
proof -
  obtain us where us: "chain (bufs q) us" "last us = deq_buffer q" using assms by (auto simp: chain_ok_def)
  then have "us \<noteq> []" by auto
  with us have "bufs q (deq_buffer q) \<noteq> None" using chain_alloc [OF us(1) last_in_set] by simp
  with that show ?thesis by auto
qed

lemma chain_ok_cong:
  "bufs q' = bufs q \<Longrightarrow> unlinked q' = unlinked q \<Longrightarrow> deq_buffer q' = deq_buffer q \<Longrightarrow>
   fresh_addr q' = fresh_addr q \<Longrightarrow> chain_ok q' = chain_ok q"
  by (cases "unlinked q") (simp_all add: chain_ok_def)

lemma chain_update:
  "chain m us \<Longrightarrow> m u = Some a \<Longrightarrow> buf_id a' = buf_id a \<Longrightarrow> next_buffer a' = next_buffer a \<Longrightarrow> chain (m(u \<mapsto> a')) us"
  by (induction m us rule: chain.induct) (auto split: option.splits if_splits)

lemma chain_okI:
  assumes "\<forall>x \<ge> fresh_addr q. bufs q x = None" and "chain (bufs q) us" and "distinct us" and "dom (bufs q) = set us"
    and "last us = deq_buffer q" and "case unlinked q of None \<Rightarrow> us = [deq_buffer q] | Some u \<Rightarrow> u = hd us"
  shows "chain_ok q"
  unfolding chain_ok_def using assms by blast

lemma chain_okE:
  assumes "chain_ok q"
  obtains us where "\<forall>x \<ge> fresh_addr q. bufs q x = None" "chain (bufs q) us" "distinct us" "dom (bufs q) = set us"
    "last us = deq_buffer q" "case unlinked q of None \<Rightarrow> us = [deq_buffer q] | Some u \<Rightarrow> u = hd us" "us \<noteq> []"
  using assms unfolding chain_ok_def by (metis chain.simps(1))

lemma chain_ok_put:
  assumes "chain_ok q" and "bufs q (deq_buffer q) = Some a"
  shows "chain_ok (q\<lparr>bufs := (bufs q)(deq_buffer q \<mapsto> buf_put i x a), bottom := b\<rparr>)"
  using assms(1)
proof (rule chain_okE)
  fix us
  assume us: "\<forall>x \<ge> fresh_addr q. bufs q x = None" "chain (bufs q) us" "distinct us" "dom (bufs q) = set us"
    "last us = deq_buffer q" "case unlinked q of None \<Rightarrow> us = [deq_buffer q] | Some u \<Rightarrow> u = hd us"
  have "chain ((bufs q)(deq_buffer q \<mapsto> buf_put i x a)) us"
    by (rule chain_update [OF us(2) assms(2)]) (simp_all add: buf_put_def)
  moreover have "dom ((bufs q)(deq_buffer q \<mapsto> buf_put i x a)) = set us" unfolding us(4) [symmetric] using assms(2) by auto
  moreover have "deq_buffer q < fresh_addr q" using us(1) assms(2) by (metis not_le option.distinct(1))
  ultimately show ?thesis using us by (intro chain_okI [of _ us]) (cases "unlinked q", simp_all)+
qed

lemma chain_ok_resize:
  assumes "chain_ok q" and "bufs q (deq_buffer q) = Some a"
    and "sint (buf_id a) < sint (buf_id (buf_resized d a b t ls))"
  shows "chain_ok (resize_to d b t ls a q)"
  using assms(1)
proof (rule chain_okE)
  fix us
  let ?n = "fresh_addr q" and ?q = "resize_to d b t ls a q"
  assume us: "\<forall>x \<ge> ?n. bufs q x = None" "chain (bufs q) us" "distinct us" "dom (bufs q) = set us"
    "last us = deq_buffer q" "case unlinked q of None \<Rightarrow> us = [deq_buffer q] | Some u \<Rightarrow> u = hd us" "us \<noteq> []"
  have n: "?n \<notin> set us" using us(1) unfolding us(4) [symmetric] by (simp add: domIff)
  have bufs: "bufs ?q = (bufs q)(last us \<mapsto> a\<lparr>next_buffer := Some ?n\<rparr>, ?n \<mapsto> buf_resized d a b t ls)"
    using us(5) by (simp add: resize_to_def)
  have less: "deq_buffer q < ?n" using us(1) assms(2) by (metis not_le option.distinct(1))
  show ?thesis
  proof (rule chain_okI [of _ "us @ [?n]"])
    show "\<forall>x \<ge> fresh_addr ?q. bufs ?q x = None" using us(1) less by (simp add: resize_to_def)
    show "chain (bufs ?q) (us @ [?n])"
      unfolding bufs using assms(2,3) us(5) by (intro chain_snoc [OF us(2,3) _ n]) simp_all
    show "distinct (us @ [?n])" using us(3) n by simp
    have "deq_buffer q \<in> set us" using us(5,7) last_in_set by metis
    then show "dom (bufs ?q) = set (us @ [?n])" using us(4) by (auto simp: resize_to_def)
    show "last (us @ [?n]) = deq_buffer ?q" by (simp add: resize_to_def)
    show "case unlinked ?q of None \<Rightarrow> us @ [?n] = [deq_buffer ?q] | Some u \<Rightarrow> u = hd (us @ [?n])"
      using us(6,7) by (cases "unlinked q") (simp_all add: resize_to_def)
  qed
qed

text \<open>The destructor frees every buffer, and each once.\<close>

lemma destroy_loop_chain:
  assumes "chain (bufs q) us" and "distinct us" and "unlinked q = Some (hd us)" and "dom (bufs q) = set us"
    and "last us = deq_buffer q"
  shows "\<exists>u fs. destroy_loop q = Some (q\<lparr>unlinked := u, bufs := fs\<rparr>) \<and> dom fs = {deq_buffer q}"
  using assms
proof (induction us arbitrary: q rule: induct_list012)
  case 1
  then show ?case by simp
next
  case (2 u)
  then have "destroy_loop q = Some q" by (subst destroy_loop.simps) simp
  with 2 show ?case by (intro exI [of _ "unlinked q"] exI [of _ "bufs q"]) simp
next
  case (3 u v us)
  obtain a where a: "bufs q u = Some a" "next_buffer a = Some v" using "3.prems"(1) by (auto split: option.splits)
  let ?q = "q\<lparr>unlinked := Some v, bufs := (bufs q)(u := None)\<rparr>"
  have ne: "deq_buffer q \<noteq> u" using "3.prems"(2,5) last_in_set [of "v # us"] by auto
  have "chain ((bufs q)(u := None)) (v # us) = chain (bufs q) (v # us)"
    by (rule chain_cong) (use "3.prems"(2) in auto)
  then have ch: "chain (bufs ?q) (v # us)" using "3.prems"(1) by simp
  have pre: "distinct (v # us)" "unlinked ?q = Some (hd (v # us))" using "3.prems"(2) by simp_all
  have dom: "dom (bufs ?q) = set (v # us)" using "3.prems"(2,4) by auto
  have last: "last (v # us) = deq_buffer ?q" using "3.prems"(5) by simp
  have "destroy_loop q = destroy_loop ?q" using ne a "3.prems"(3) by (subst destroy_loop.simps) simp
  then show ?case using "3.IH"(2) [OF ch pre dom last] by auto
qed

lemma deque_destroy_ok:
  assumes "chain_ok q"
  shows "\<exists>q'. deque_destroy q = Some q' \<and> bufs q' = Map.empty"
  using assms
proof (rule chain_okE)
  fix us
  assume us: "chain (bufs q) us" "distinct us" "dom (bufs q) = set us" "last us = deq_buffer q"
    "case unlinked q of None \<Rightarrow> us = [deq_buffer q] | Some u \<Rightarrow> u = hd us"
  have "\<exists>u fs. destroy_loop q = Some (q\<lparr>unlinked := u, bufs := fs\<rparr>) \<and> dom fs = {deq_buffer q}"
  proof (cases "unlinked q")
    case None
    then have "destroy_loop q = Some q" by (subst destroy_loop.simps) simp
    then show ?thesis using us(3,5) None by (intro exI [of _ None] exI [of _ "bufs q"]) simp
  next
    case (Some u)
    then show ?thesis using us destroy_loop_chain [OF us(1,2) _ us(3,4)] by simp
  qed
  then obtain u fs where d: "destroy_loop q = Some (q\<lparr>unlinked := u, bufs := fs\<rparr>)" "dom fs = {deq_buffer q}" by blast
  then obtain c where "fs = [deq_buffer q \<mapsto> c]" by (auto simp: dom_eq_singleton_conv)
  with d(1) show ?thesis by (simp add: deque_destroy_def)
qed

lemma busy_min_entry:
  "e \<in> set ts \<Longrightarrow> \<not> was_idle e \<Longrightarrow> sint (busy_min ts m0) \<le> sint (id_last_used e)"
proof (induction ts arbitrary: m0)
  case (Cons e' ts)
  let ?m = "if was_idle e' then m0 else if sint (id_last_used e') < sint m0 then id_last_used e' else m0"
  have rec: "busy_min (e' # ts) m0 = busy_min ts ?m" by (simp add: busy_min_def)
  show ?case
  proof (cases "e = e'")
    case True
    then have "sint ?m \<le> sint (id_last_used e)" using Cons.prems(2) by auto
    then show ?thesis unfolding rec using busy_min_le [of ts ?m] by linarith
  next
    case False
    then show ?thesis unfolding rec using Cons by simp
  qed
qed simp

text \<open>What the owner's reclamation changes: it deletes only buffers no thief can be reading.\<close>

definition reclaims :: "'a deque \<Rightarrow> 'a deque \<Rightarrow> bool" where
  "reclaims q q' \<longleftrightarrow>
     (\<exists>un fs. q' = q\<lparr>unlinked := un, bufs := fs\<rparr> \<and>
        (\<forall>x. fs x = bufs q x \<or> x \<noteq> deq_buffer q \<and> fs x = None \<and>
           (\<forall>e \<in> set (id_list q). \<forall>a. \<not> was_idle e \<longrightarrow> bufs q x = Some a \<longrightarrow>
              sint (buf_id a) < sint (id_last_used e))))"

lemma reclaim_if_ok:
  assumes "chain_ok q"
  shows "\<exists>q'. reclaim_if_unlinked q = Some q' \<and> chain_ok q' \<and> reclaims q q'"
proof (cases "unlinked q")
  case None
  then show ?thesis using assms
    by (intro exI [of _ q]) (auto simp: reclaim_if_unlinked_def reclaims_def intro!: exI [of _ None] exI [of _ "bufs q"])
next
  case (Some u)
  obtain c where c: "bufs q (deq_buffer q) = Some c" using chain_okD [OF assms] .
  obtain us where us0: "\<forall>x \<ge> fresh_addr q. bufs q x = None" "chain (bufs q) us" "distinct us" "dom (bufs q) = set us"
    "last us = deq_buffer q" "case unlinked q of None \<Rightarrow> us = [deq_buffer q] | Some u \<Rightarrow> u = hd us" "us \<noteq> []"
    using chain_okE [OF assms] .
  then have us: "chain (bufs q) us" "distinct us" "last us = deq_buffer q" "u = hd us" "dom (bufs q) = set us"
    using Some by simp_all
  let ?m = "busy_min (id_list q) (buf_id c)"
  have "unlinked q = Some (hd us)" "bufs q (last us) = Some c" using Some us c by simp_all
  from reclaim_loop_chain [OF us(1,2) this us(5) busy_min_le] obtain us' fs where
    r: "reclaim_loop ?m q = Some (q\<lparr>unlinked := Some (hd us'), bufs := fs\<rparr>)"
    "chain fs us'" "distinct us'" "last us' = last us" "dom fs = set us'"
    "\<forall>x. fs x = bufs q x \<or> fs x = None \<and> (\<exists>a. bufs q x = Some a \<and> sint (buf_id a) < sint ?m)"
    by blast
  have "fs (deq_buffer q) \<noteq> None"
    using chain_alloc [OF r(2), of "last us'"] last_in_set [of us'] r(2,4) us(3) by (cases "us' = []") auto
  then have "\<forall>x. fs x = bufs q x \<or> x \<noteq> deq_buffer q \<and> fs x = None \<and>
      (\<forall>e \<in> set (id_list q). \<forall>a. \<not> was_idle e \<longrightarrow> bufs q x = Some a \<longrightarrow> sint (buf_id a) < sint (id_last_used e))"
    using r(6) busy_min_entry [of _ "id_list q" "buf_id c"] by (metis (no_types, lifting) option.sel order_less_le_trans)
  then have "reclaims q (q\<lparr>unlinked := Some (hd us'), bufs := fs\<rparr>)" unfolding reclaims_def by blast
  moreover have "\<forall>x \<ge> fresh_addr q. fs x = None" using r(6) assms unfolding chain_ok_def by metis
  then have "chain_ok (q\<lparr>unlinked := Some (hd us'), bufs := fs\<rparr>)"
    using r(2-5) us(3) unfolding chain_ok_def by (intro conjI exI [of _ us']) simp_all
  ultimately show ?thesis using r(1) Some c by (auto simp: reclaim_if_unlinked_def reclaim_buffers_def)
qed

lemma reclaims_fields:
  assumes "reclaims q q'"
  shows "deq_buffer q' = deq_buffer q" "bufs q' (deq_buffer q) = bufs q (deq_buffer q)" "top q' = top q"
    "bottom q' = bottom q" "log_initial_size q' = log_initial_size q" "id_list q' = id_list q"
  using assms by (auto simp: reclaims_def)

text \<open>
  No buffer is freed that a busy thief may have loaded: one as new as the last it has used, or newer.
  The current buffer only gets newer.
\<close>

definition keeps_hazards :: "'a deque \<Rightarrow> 'a deque \<Rightarrow> bool" where
  "keeps_hazards q q' \<longleftrightarrow>
     (\<forall>y a. \<forall>e \<in> set (id_list q). bufs q y = Some a \<longrightarrow> \<not> was_idle e \<longrightarrow>
        sint (id_last_used e) \<le> sint (buf_id a) \<longrightarrow> (\<exists>a'. bufs q' y = Some a' \<and> buf_id a' = buf_id a)) \<and>
     (\<forall>a a'. bufs q (deq_buffer q) = Some a \<longrightarrow> bufs q' (deq_buffer q') = Some a' \<longrightarrow>
        sint (buf_id a) \<le> sint (buf_id a'))"

text \<open>The current buffer of a deque and the positions in it.\<close>

definition window_ok :: "'a deque \<Rightarrow> 'a buffer \<Rightarrow> bool" where
  "window_ok q a \<longleftrightarrow> bufs q (deq_buffer q) = Some a \<and> length (segment a) = 2 ^ log_size a \<and>
     log_initial_size q \<le> log_size a \<and> log_size a \<le> 62 \<and>
     unat (top q) \<le> unat (bottom q) \<and> unat (bottom q) < 2 ^ 63"

lemma window_alloc: "window_ok q a \<Longrightarrow> bufs q (deq_buffer q) \<noteq> None"
  by (simp add: window_ok_def)

lemma deque_okD:
  assumes "deque_ok q"
  obtains a where "chain_ok q" "window_ok q a" "log_initial_size q \<le> 30"
    "unat (bottom q) - unat (top q) < 2 ^ log_size a"
    "deque_list q = ring_items a (unat (top q)) (unat (bottom q))"
  using assms by (auto simp: deque_ok_def window_ok_def deque_list_def)

lemma keeps_hazards_refl: "bufs q' = bufs q \<Longrightarrow> deq_buffer q' = deq_buffer q \<Longrightarrow> keeps_hazards q q'"
  by (simp add: keeps_hazards_def)

lemma keeps_hazards_trans:
  assumes "keeps_hazards q r" and "keeps_hazards r s" and "id_list r = id_list q" and "bufs r (deq_buffer r) \<noteq> None"
  shows "keeps_hazards q s"
  unfolding keeps_hazards_def
proof (intro conjI allI ballI impI)
  fix y a e
  assume e: "e \<in> set (id_list q)" "bufs q y = Some a" "\<not> was_idle e" "sint (id_last_used e) \<le> sint (buf_id a)"
  then obtain b where b: "bufs r y = Some b" "buf_id b = buf_id a" using assms(1) unfolding keeps_hazards_def by blast
  then obtain c where "bufs s y = Some c" "buf_id c = buf_id b"
    using e assms(2,3) unfolding keeps_hazards_def by metis
  then show "\<exists>a'. bufs s y = Some a' \<and> buf_id a' = buf_id a" using b by auto
next
  fix a c
  assume "bufs q (deq_buffer q) = Some a" "bufs s (deq_buffer s) = Some c"
  moreover obtain b where "bufs r (deq_buffer r) = Some b" using assms(4) by blast
  ultimately show "sint (buf_id a) \<le> sint (buf_id c)"
    using assms(1,2) unfolding keeps_hazards_def by (meson order_trans)
qed

lemma keeps_hazards_put:
  assumes "bufs q (deq_buffer q) = Some a"
  shows "keeps_hazards q (q\<lparr>bufs := (bufs q)(deq_buffer q \<mapsto> buf_put i x a), bottom := b\<rparr>)"
  using assms by (auto simp: keeps_hazards_def buf_put_def)

lemma keeps_hazards_resize:
  assumes "chain_ok q" and "bufs q (deq_buffer q) = Some a"
    and "sint (buf_id a) \<le> sint (buf_id (buf_resized d a b t ls))"
  shows "keeps_hazards q (resize_to d b t ls a q)"
proof -
  have "bufs q (fresh_addr q) = None" using assms(1) by (simp add: chain_ok_def)
  then show ?thesis using assms(2,3) by (auto simp: keeps_hazards_def resize_to_def)
qed

lemma resize_window:
  assumes "chain_ok q" and "window_ok q a" and "unat (buf_id a) < 2 ^ 62"
    and "log_initial_size q \<le> ls" and "ls \<le> 62" and "unat (bottom q) - unat (top q) \<le> 2 ^ ls"
  shows "chain_ok (resize_to d (bottom q) (top q) ls a q)"
    and "\<exists>a'. window_ok (resize_to d (bottom q) (top q) ls a q) a' \<and> log_size a' = ls \<and>
      ring_items a' (unat (top q)) (unat (bottom q)) = ring_items a (unat (top q)) (unat (bottom q)) \<and>
      unat (buf_id a') = unat (buf_id a) + 1"
    and "keeps_hazards q (resize_to d (bottom q) (top q) ls a q)"
proof -
  let ?q = "resize_to d (bottom q) (top q) ls a q" and ?a = "buf_resized d a (bottom q) (top q) ls"
  have w: "unat (bottom q) < 2 ^ 63" "unat (top q) \<le> unat (bottom q)" "log_size a < 64" "ls < 64"
    using assms(2,5) by (simp_all add: window_ok_def)
  note f = buf_resized_fields [OF w, where d = d]
  have id: "unat (buf_id a + 1) = unat (buf_id a) + 1"
    using assms(3) by (intro position_next [of _ "2 ^ 63"]) simp
  then have "sint (buf_id a) < sint (buf_id ?a)" unfolding f(2) using assms(3) id by (subst sint_less) simp_all
  then show "chain_ok ?q" and "keeps_hazards q ?q"
    using assms(1,2) by (auto simp: window_ok_def intro!: chain_ok_resize keeps_hazards_resize)
  have "bufs ?q (deq_buffer ?q) = Some ?a" by (simp add: resize_to_def)
  then have "window_ok ?q ?a" using assms(2,4,5) f by (simp add: window_ok_def resize_to_def)
  then show "\<exists>a'. window_ok ?q a' \<and> log_size a' = ls \<and>
      ring_items a' (unat (top q)) (unat (bottom q)) = ring_items a (unat (top q)) (unat (bottom q)) \<and>
      unat (buf_id a') = unat (buf_id a) + 1"
    using f(1) arg_cong [OF f(2), of unat] id ring_items_resized [OF w assms(6), where d = d]
    by (intro exI [of _ ?a]) simp
qed

lemma reclaim_window:
  assumes "chain_ok q" and "window_ok q a"
  obtains q' where "reclaim_if_unlinked q = Some q'" "chain_ok q'" "window_ok q' a" "keeps_hazards q q'"
    "top q' = top q" "bottom q' = bottom q" "log_initial_size q' = log_initial_size q" "id_list q' = id_list q"
proof -
  obtain q' where q': "reclaim_if_unlinked q = Some q'" "chain_ok q'" "reclaims q q'"
    using reclaim_if_ok [OF assms(1)] by blast
  obtain un fs where r: "q' = q\<lparr>unlinked := un, bufs := fs\<rparr>" and fs: "\<forall>x. fs x = bufs q x \<or>
      x \<noteq> deq_buffer q \<and> fs x = None \<and> (\<forall>e \<in> set (id_list q). \<forall>a. \<not> was_idle e \<longrightarrow>
        bufs q x = Some a \<longrightarrow> sint (buf_id a) < sint (id_last_used e))"
    using q'(3) unfolding reclaims_def by blast
  have "fs y = Some a" if "e \<in> set (id_list q)" "bufs q y = Some a" "\<not> was_idle e"
    "sint (id_last_used e) \<le> sint (buf_id a)" for y a e
    using fs [THEN spec, of y] that by auto
  moreover have "fs (deq_buffer q) = bufs q (deq_buffer q)" using fs by blast
  ultimately have "keeps_hazards q q'" by (simp add: r keeps_hazards_def)
  then show ?thesis using that q' assms(2) reclaims_fields [OF q'(3)] by (simp add: window_ok_def)
qed

text \<open>The buffer grows when the new element would fill it.\<close>

definition grown :: "'a \<Rightarrow> 'a buffer \<Rightarrow> 'a deque \<Rightarrow> 'a deque" where
  "grown d a q = (if bottom q - top q \<ge> buf_size a - 1
     then resize_to d (bottom q) (top q) (log_size a + 1) a q else q)"

lemma grown_fields:
  "top (grown d a q) = top q" "bottom (grown d a q) = bottom q" "log_initial_size (grown d a q) = log_initial_size q"
  "id_list (grown d a q) = id_list q"
  by (simp_all add: grown_def resize_to_def)

lemma grown_ok:
  assumes "chain_ok q" and "window_ok q a" and "unat (bottom q) - unat (top q) < 2 ^ log_size a"
    and "unat (bottom q) \<le> n" and "buf_within n q a" and "n < 2 ^ 31" and "log_initial_size q \<le> 30"
  obtains a' where "chain_ok (grown d a q)" "keeps_hazards q (grown d a q)" "window_ok (grown d a q) a'" "buf_within (Suc n) q a'"
    "unat (bottom q) - unat (top q) + 1 < 2 ^ log_size a'"
    "ring_items a' (unat (top q)) (unat (bottom q)) = ring_items a (unat (top q)) (unat (bottom q))"
proof -
  note w = assms(2) [unfolded window_ok_def] and lim = buf_within_limits [OF assms(5-7)]
  have "1 \<le> unat (buf_size a)" using buf_size_nat [of a] lim(2) by simp
  then have "unat (buf_size a - 1) = 2 ^ log_size a - 1"
    using buf_size_nat [of a] lim(2) by (simp add: unat_sub word_le_nat_alt)
  then have cond: "bottom q - top q \<ge> buf_size a - 1 \<longleftrightarrow> 2 ^ log_size a - 1 \<le> unat (bottom q) - unat (top q)"
    using position_diff [of "top q" "bottom q"] w by (simp add: word_le_nat_alt)
  show ?thesis
  proof (cases "bottom q - top q \<ge> buf_size a - 1")
    case True
    have le: "unat (bottom q) - unat (top q) \<le> 2 ^ (log_size a + 1)" "log_size a + 1 \<le> 62"
      "log_initial_size q \<le> log_size a + 1" using assms(3) lim(2) w by simp_all
    have size: "2 ^ (log_size a + 1) \<le> 2 * Suc n" using True cond assms(4) by simp
    note r = resize_window [OF assms(1,2) lim(1) le(3,2,1), where d = d]
    from r(2) obtain a' where a': "window_ok (grown d a q) a'" "log_size a' = log_size a + 1"
      "ring_items a' (unat (top q)) (unat (bottom q)) = ring_items a (unat (top q)) (unat (bottom q))"
      "unat (buf_id a') = unat (buf_id a) + 1" using True unfolding grown_def by (simp only: if_True) blast
    have "buf_within (Suc n) q a'" using a'(2,4) size assms(5) by (simp add: buf_within_def)
    moreover have "chain_ok (grown d a q)" "keeps_hazards q (grown d a q)"
      using r(1,3) True unfolding grown_def by (simp_all only: if_True)
    moreover have "unat (bottom q) - unat (top q) + 1 < 2 ^ log_size a'" using a'(2) assms(3) by simp
    ultimately show ?thesis using a'(1,3) that by blast
  next
    case False
    then have "unat (bottom q) - unat (top q) + 1 < 2 ^ log_size a" using cond by simp
    moreover have "buf_within (Suc n) q a" using assms(5) by (auto simp: buf_within_def)
    moreover have "grown d a q = q" using False by (simp add: grown_def)
    ultimately show ?thesis using assms(1,2) that [of a] keeps_hazards_refl [of q q] by simp
  qed
qed

lemma push_ok:
  assumes "deque_ok q" and "deque_within n q" and "n < 2 ^ 31"
  shows "\<exists>q'. push_bottom d x q = Some q' \<and> deque_ok q' \<and> deque_list q' = deque_list q @ [x] \<and>
    deque_within (Suc n) q' \<and> id_list q' = id_list q \<and> keeps_hazards q q'"
proof -
  obtain a where a: "chain_ok q" "window_ok q a" "log_initial_size q \<le> 30"
    "unat (bottom q) - unat (top q) < 2 ^ log_size a"
    "deque_list q = ring_items a (unat (top q)) (unat (bottom q))" using deque_okD [OF assms(1)] .
  note w = a(2) [unfolded window_ok_def] and pos = grown_fields [of d a q]
  have within: "unat (bottom q) \<le> n" "buf_within n q a" using assms(2) w by (simp_all add: deque_within_def)
  obtain a1 where a1: "chain_ok (grown d a q)" "keeps_hazards q (grown d a q)" "window_ok (grown d a q) a1" "buf_within (Suc n) q a1"
    "unat (bottom q) - unat (top q) + 1 < 2 ^ log_size a1"
    "ring_items a1 (unat (top q)) (unat (bottom q)) = ring_items a (unat (top q)) (unat (bottom q))"
    using grown_ok [OF a(1,2,4) within assms(3) a(3)] .
  obtain q2 where q2: "reclaim_if_unlinked (grown d a q) = Some q2" "chain_ok q2" "window_ok q2 a1"
    "keeps_hazards (grown d a q) q2" "top q2 = top (grown d a q)" "bottom q2 = bottom (grown d a q)"
    "log_initial_size q2 = log_initial_size (grown d a q)" "id_list q2 = id_list (grown d a q)"
    using reclaim_window [OF a1(1,3)] .
  note w2 = q2(3) [unfolded window_ok_def]
  let ?a = "buf_put (bottom q) x a1"
  let ?q = "q2\<lparr>bufs := (bufs q2)(deq_buffer q2 \<mapsto> ?a), bottom := bottom q + 1\<rparr>"
  have put: "?a = a1\<lparr>segment := (segment a1)[unat (bottom q) mod 2 ^ log_size a1 := x]\<rparr>"
    using w2 by (intro buf_put_nat) simp
  have b: "unat (bottom q + 1) = unat (bottom q) + 1"
    using within(1) assms(3) by (intro position_next [of _ "2 ^ 63"]) simp
  have "push_bottom d x q = Some ?q"
    using w w2 q2(1) by (simp add: push_bottom_def Let_def grown_def [symmetric])
  moreover have "deque_ok ?q"
    using chain_ok_put [OF q2(2), where a = a1 and i = "bottom q" and x = x and b = "bottom q + 1"]
      w2 a(3) a1(5) q2(5-7) pos b within(1) assms(3)
    by (simp add: deque_ok_def put)
  moreover have "deque_list ?q = deque_list q @ [x]"
    using ring_items_put [of "unat (top q)" "unat (bottom q)" a1 x] a(5) a1(5,6) w w2 q2(5) pos b
    by (simp add: deque_list_def put)
  moreover have "deque_within (Suc n) ?q"
    using a1(4) within(1) b q2(7) pos(3) by (simp add: deque_within_def buf_within_def put)
  moreover have "keeps_hazards q q2"
    using a1(2) q2(4) pos(4) window_alloc [OF a1(3)] by (rule keeps_hazards_trans)
  then have "keeps_hazards q ?q"
    using keeps_hazards_put [OF conjunct1 [OF w2]] q2(8) [unfolded pos(4)] window_alloc [OF q2(3)] by (rule keeps_hazards_trans)
  ultimately show ?thesis using q2(8) pos(4) by (intro exI [of _ ?q]) simp
qed

lemma ring_items_split:
  "t < b \<Longrightarrow> ring_items a t b = ring_items a t (b - 1) @ [segment a ! ((b - 1) mod 2 ^ log_size a)]"
  "t < b \<Longrightarrow> ring_items a t b = segment a ! (t mod 2 ^ log_size a) # ring_items a (Suc t) b"
proof -
  assume "t < b"
  then obtain k where "b = Suc k" "t \<le> k" by (cases b) auto
  then show "ring_items a t b = ring_items a t (b - 1) @ [segment a ! ((b - 1) mod 2 ^ log_size a)]"
    by (simp add: ring_items_def)
next
  assume "t < b"
  then show "ring_items a t b = segment a ! (t mod 2 ^ log_size a) # ring_items a (Suc t) b"
    by (simp add: ring_items_def upt_conv_Cons)
qed

text \<open>The buffer shrinks when it is at most a third full, but not below its first size.\<close>

definition shrinks :: "'a buffer \<Rightarrow> 'a deque \<Rightarrow> bool" where
  "shrinks a q \<longleftrightarrow> bottom q - top q \<le> buf_size a div 3 \<and>
     sint (push_bit (log_initial_size q) 1 :: cint) < sint (bottom q - top q)"

definition shrunk :: "'a \<Rightarrow> 'a buffer \<Rightarrow> 'a deque \<Rightarrow> 'a deque" where
  "shrunk d a q = (if shrinks a q then resize_to d (bottom q) (top q) (log_size a - 1) a q else q)"

lemma shrunk_fields:
  "top (shrunk d a q) = top q" "bottom (shrunk d a q) = bottom q" "log_initial_size (shrunk d a q) = log_initial_size q"
  "id_list (shrunk d a q) = id_list q"
  by (simp_all add: shrunk_def resize_to_def)

lemma initial_size_int: "k \<le> 30 \<Longrightarrow> sint (push_bit k 1 :: cint) = int (2 ^ k)"
proof -
  assume "k \<le> 30"
  then have "(2 :: nat) ^ k < 2 ^ 31" by (intro power_strict_increasing) simp_all
  then show ?thesis using sint_of_nat_small [of "2 ^ k", where 'a = 32] by (simp add: push_bit_eq_mult)
qed

lemma position_diff_int:
  fixes b t :: usize
  assumes "unat t \<le> unat b" and "unat b < 2 ^ 63"
  shows "sint (b - t) = int (unat b - unat t)"
proof -
  have "unat (b - t) < 2 ^ 63" using assms position_diff [of t b] by linarith
  then show ?thesis using sint_position [of "b - t"] position_diff [OF assms(1)] by (simp only:)
qed

lemma shrunk_ok:
  assumes "chain_ok q" and "window_ok q a" and "unat (bottom q) - unat (top q) < 2 ^ log_size a"
    and "0 < unat (bottom q) - unat (top q)"
    and "buf_within n q a" and "n < 2 ^ 31" and "log_initial_size q \<le> 30"
  obtains a' where "chain_ok (shrunk d a q)" "keeps_hazards q (shrunk d a q)" "window_ok (shrunk d a q) a'" "buf_within (Suc n) q a'"
    "unat (bottom q) - unat (top q) - 1 < 2 ^ log_size a'"
    "ring_items a' (unat (top q)) (unat (bottom q)) = ring_items a (unat (top q)) (unat (bottom q))"
proof (cases "shrinks a q")
  case True
  note w = assms(2) [unfolded window_ok_def] and lim = buf_within_limits [OF assms(5-7)]
  let ?n = "unat (bottom q) - unat (top q)"
  have third: "?n \<le> 2 ^ log_size a div 3"
    using True w position_diff [of "top q" "bottom q"] buf_size_nat [of a] by (simp add: shrinks_def word_le_nat_alt unat_div)
  then obtain l where l: "log_size a = Suc l" using assms(4) by (cases "log_size a") auto
  have half: "?n \<le> 2 ^ l" using third unfolding l by simp
  have "int (2 ^ log_initial_size q) < int ?n"
    using True initial_size_int [OF assms(7)] position_diff_int [of "top q" "bottom q"] w by (simp add: shrinks_def)
  then have "2 ^ log_initial_size q < ?n" by (simp only: of_nat_less_iff)
  then have "(2 :: nat) ^ log_initial_size q < 2 ^ l" using half by linarith
  then have li: "log_initial_size q \<le> l" by (simp only: power_strict_increasing_iff)
  have l62: "l \<le> 62" using w l by simp
  note r = resize_window [OF assms(1,2) lim(1) li l62 half, where d = d]
  have sh: "shrunk d a q = resize_to d (bottom q) (top q) l a q" unfolding shrunk_def l using True by simp
  from r(2) obtain a' where a': "window_ok (shrunk d a q) a'" "log_size a' = l"
    "ring_items a' (unat (top q)) (unat (bottom q)) = ring_items a (unat (top q)) (unat (bottom q))"
    "unat (buf_id a') = unat (buf_id a) + 1" unfolding sh by blast
  have "(2 :: nat) ^ l \<le> 2 ^ Suc l" by simp
  also have "\<dots> \<le> max (2 ^ log_initial_size q) (2 * n)" using assms(5) by (simp only: buf_within_def l)
  finally have "(2 :: nat) ^ l \<le> max (2 ^ log_initial_size q) (2 * Suc n)" by (auto simp: le_max_iff_disj)
  then have "buf_within (Suc n) q a'" using a'(2,4) assms(5) by (simp add: buf_within_def)
  moreover have "?n - 1 < 2 ^ log_size a'" using half assms(4) a'(2) by simp
  ultimately show ?thesis using r(1,3) a'(1,3) that unfolding sh by blast
next
  case False
  then have "shrunk d a q = q" by (simp add: shrunk_def)
  moreover have "buf_within (Suc n) q a" using assms(5) by (auto simp: buf_within_def)
  ultimately show ?thesis using assms(1-3) that [of a] keeps_hazards_refl [of q q] by simp
qed

lemma resize_to_bottom:
  "resize_to d b t ls a (q\<lparr>bottom := x\<rparr>) = (resize_to d b t ls a q)\<lparr>bottom := x\<rparr>"
  by (cases "unlinked q") (simp_all add: resize_to_def)

text \<open>\<open>pop_bottom\<close> by the number of elements.\<close>

lemma pop_bottom_empty:
  assumes "unat (bottom q) = unat (top q)"
  shows "pop_bottom d q = Some (None, q)"
proof -
  have "bottom q = top q" using assms by (simp only: word_unat_eq_iff)
  then have "bottom q - top q = 0" by simp
  then have "sint (bottom q - top q) \<le> 0" by simp
  then show ?thesis by (simp add: pop_bottom_def Let_def)
qed

lemma pop_bottom_one:
  assumes "unat (bottom q) = unat (top q) + 1" and "bufs q (deq_buffer q) = Some a"
  shows "pop_bottom d q = Some (Some (buf_get a (top q)), q\<lparr>top := top q + 1\<rparr>)"
proof -
  have "unat (bottom q - top q) = 1" using assms(1) position_diff [of "top q" "bottom q"] by simp
  then have "bottom q - top q = 1" by (metis unat_1 word_unat_eq_iff)
  then show ?thesis using assms(2) by (simp add: pop_bottom_def Let_def)
qed

lemma pop_bottom_more:
  assumes "unat (top q) + 2 \<le> unat (bottom q)" and "unat (bottom q) < 2 ^ 63" and "bufs q (deq_buffer q) = Some a"
  shows "pop_bottom d q =
    map_option (Pair (Some (buf_get a (bottom q - 1)))) (reclaim_if_unlinked ((shrunk d a q)\<lparr>bottom := bottom q - 1\<rparr>))"
proof -
  have sz: "sint (bottom q - top q) = int (unat (bottom q) - unat (top q))"
    using position_diff_int [of "top q" "bottom q"] assms(1,2) by simp
  have pos: "\<not> sint (bottom q - top q) \<le> 0" using assms(1) unfolding sz by linarith
  have ne: "bottom q - top q \<noteq> 1"
  proof
    assume "bottom q - top q = 1"
    then have "sint (bottom q - top q) = 1" by simp
    then show False unfolding sz using assms(1) by linarith
  qed
  have eq: "(if bottom q - top q \<le> buf_size a div 3 \<and> sint (push_bit (log_initial_size q) 1 :: cint) < sint (bottom q - top q)
      then resize_to d (bottom q) (top q) (log_size a - 1) a (q\<lparr>bottom := bottom q - 1\<rparr>)
      else q\<lparr>bottom := bottom q - 1\<rparr>) = (shrunk d a q)\<lparr>bottom := bottom q - 1\<rparr>"
    by (simp only: shrunk_def shrinks_def resize_to_bottom if_distrib [of "\<lambda>r. r\<lparr>bottom := bottom q - 1\<rparr>"])
  have "top (q\<lparr>bottom := bottom q - 1\<rparr>) = top q" by simp
  then show ?thesis by (simp only: pop_bottom_def Let_def pos ne if_False assms(3) option.case eq)
qed

lemma pop_more_ok:
  assumes "deque_ok q" and "deque_within n q" and "n < 2 ^ 31" and "unat (top q) + 2 \<le> unat (bottom q)"
  shows "\<exists>q'. pop_bottom d q = Some (Some (last (deque_list q)), q') \<and>
    deque_ok q' \<and> deque_list q' = butlast (deque_list q) \<and> deque_within (Suc n) q' \<and> id_list q' = id_list q \<and> keeps_hazards q q'"
proof -
  obtain a where a: "chain_ok q" "window_ok q a" "log_initial_size q \<le> 30"
    "unat (bottom q) - unat (top q) < 2 ^ log_size a"
    "deque_list q = ring_items a (unat (top q)) (unat (bottom q))" using deque_okD [OF assms(1)] .
  note w = a(2) [unfolded window_ok_def] and pos = shrunk_fields [of d a q]
  let ?b = "unat (bottom q)" and ?t = "unat (top q)" and ?r = "(shrunk d a q)\<lparr>bottom := bottom q - 1\<rparr>"
  have ne: "0 < ?b - ?t" using assms(4) by linarith
  have within: "buf_within n q a" "?b \<le> n" using assms(2) w by (simp_all add: deque_within_def)
  have b1: "unat (bottom q - 1) = ?b - 1" "?t \<le> ?b - 1" "?b - 1 < 2 ^ 63"
    using position_diff [of 1 "bottom q"] assms(4) conjunct2 [OF w] by (simp, linarith, linarith)
  obtain a1 where a1: "chain_ok (shrunk d a q)" "keeps_hazards q (shrunk d a q)" "window_ok (shrunk d a q) a1" "buf_within (Suc n) q a1"
    "?b - ?t - 1 < 2 ^ log_size a1" "ring_items a1 ?t ?b = ring_items a ?t ?b"
    using shrunk_ok [OF a(1,2,4) ne within(1) assms(3) a(3)] .
  have ch: "chain_ok ?r" using a1(1) chain_ok_cong [of ?r "shrunk d a q"] by simp
  have wr: "window_ok ?r a1" using a1(3) b1 pos by (simp add: window_ok_def)
  obtain q2 where q2: "reclaim_if_unlinked ?r = Some q2" "chain_ok q2" "window_ok q2 a1"
    "keeps_hazards ?r q2" "top q2 = top ?r" "bottom q2 = bottom ?r"
    "log_initial_size q2 = log_initial_size ?r" "id_list q2 = id_list ?r" using reclaim_window [OF ch wr] .
  note w2 = q2(3) [unfolded window_ok_def]
  have "pop_bottom d q = Some (Some (buf_get a (bottom q - 1)), q2)"
    using pop_bottom_more [OF assms(4)] w q2(1) by simp
  moreover have "buf_get a (bottom q - 1) = last (deque_list q)"
    using a(5) ring_items_split(1) [of ?t ?b a] assms(4) w b1 buf_get_nat [of a "bottom q - 1"] by simp
  moreover have "deque_ok q2" using q2 w2 a1(5) a(3) pos b1 by (simp add: deque_ok_def)
  moreover have "deque_list q2 = butlast (deque_list q)"
    using w2 q2(5,6) pos b1 ring_items_split(1) [of ?t ?b a1] a1(6) a(5) assms(4)
    by (simp add: deque_list_def)
  moreover have "deque_within (Suc n) q2"
    using w2 a1(4) q2(6,7) pos within(2) b1 by (simp add: deque_within_def buf_within_def)
  moreover have "keeps_hazards (shrunk d a q) q2" using q2(4) by (simp add: keeps_hazards_def)
  from a1(2) this have "keeps_hazards q q2"
    using pos(4) window_alloc [OF a1(3)] by (rule keeps_hazards_trans)
  ultimately show ?thesis using q2(8) pos(4) by (intro exI [of _ q2]) simp
qed

lemma deque_list_empty: "deque_ok q \<Longrightarrow> deque_list q = [] \<longleftrightarrow> unat (bottom q) = unat (top q)"
  by (elim deque_okD) (auto simp: window_ok_def ring_items_def)

lemma deque_within_Suc: "deque_within n q \<Longrightarrow> deque_within (Suc n) q"
  by (auto simp: deque_within_def buf_within_def)

text \<open>Taking the oldest element: by the owner when it is the last one, or by a thief.\<close>

lemma take_top_ok:
  assumes "deque_ok q" and "deque_list q \<noteq> []"
  shows "deque_ok (q\<lparr>top := top q + 1\<rparr>)" and "deque_list (q\<lparr>top := top q + 1\<rparr>) = tl (deque_list q)"
    and "bufs q (deq_buffer q) = Some a \<Longrightarrow> buf_get a (top q) = hd (deque_list q)"
proof -
  obtain c where c: "chain_ok q" "window_ok q c" "log_initial_size q \<le> 30"
    "unat (bottom q) - unat (top q) < 2 ^ log_size c"
    "deque_list q = ring_items c (unat (top q)) (unat (bottom q))" using deque_okD [OF assms(1)] .
  note w = c(2) [unfolded window_ok_def]
  have less: "unat (top q) < unat (bottom q)" using assms(2) c(5) by (auto simp: ring_items_def)
  note t1 = position_next [OF less]
  have "chain_ok (q\<lparr>top := top q + 1\<rparr>)" using c(1) chain_ok_cong [of "q\<lparr>top := top q + 1\<rparr>" q] by simp
  then show "deque_ok (q\<lparr>top := top q + 1\<rparr>)" using w t1 less c(3,4) by (simp add: deque_ok_def)
  show "deque_list (q\<lparr>top := top q + 1\<rparr>) = tl (deque_list q)"
    using w t1 c(5) ring_items_split(2) [OF less, of c] by (simp add: deque_list_def)
  show "bufs q (deq_buffer q) = Some a \<Longrightarrow> buf_get a (top q) = hd (deque_list q)"
    using w c(5) ring_items_split(2) [OF less, of c] buf_get_nat [of c "top q"] by simp
qed

lemma pop_ok:
  assumes "deque_ok q" and "deque_within n q" and "n < 2 ^ 31"
  shows "\<exists>q'. pop_bottom d q = Some (if deque_list q = [] then None else Some (last (deque_list q)), q') \<and>
    deque_ok q' \<and> deque_list q' = butlast (deque_list q) \<and> deque_within (Suc n) q' \<and> id_list q' = id_list q \<and> keeps_hazards q q'"
proof -
  obtain a where a: "window_ok q a" "deque_list q = ring_items a (unat (top q)) (unat (bottom q))"
    using deque_okD [OF assms(1)] by metis
  note w = a(1) [unfolded window_ok_def]
  consider "unat (bottom q) = unat (top q)" | "unat (bottom q) = unat (top q) + 1" | "unat (top q) + 2 \<le> unat (bottom q)"
    using w by linarith
  then show ?thesis
  proof cases
    case 1
    moreover from this have "deque_list q = []" using deque_list_empty [OF assms(1)] by simp
    ultimately show ?thesis
      using assms(1,2) by (intro exI [of _ q]) (simp add: pop_bottom_empty deque_within_Suc keeps_hazards_refl)
  next
    case 2
    then have one: "deque_list q = [segment a ! (unat (top q) mod 2 ^ log_size a)]" using a(2) by (simp add: ring_items_def)
    then have ne: "deque_list q \<noteq> []" by simp
    have "deque_within (Suc n) (q\<lparr>top := top q + 1\<rparr>)"
      using assms(2) by (auto simp: deque_within_def buf_within_def)
    then show ?thesis
      using take_top_ok [OF assms(1) ne] w one pop_bottom_one [OF 2, of a d]
      by (intro exI [of _ "q\<lparr>top := top q + 1\<rparr>"]) (simp add: keeps_hazards_refl)
  next
    case 3
    then have "deque_list q \<noteq> []" using deque_list_empty [OF assms(1)] by simp
    then show ?thesis using pop_more_ok [OF assms 3] by simp
  qed
qed

lemma int_size:
  fixes b t :: usize
  assumes "unat (b - t) < 2 ^ 31"
  shows "0 < sint (ucast (b - t) :: cint) \<longleftrightarrow> 0 < unat (b - t)"
proof -
  have "(ucast (b - t) :: cint) = of_nat (unat (b - t))" by simp
  then have "sint (ucast (b - t) :: cint) = int (unat (b - t))"
    using sint_of_nat_small [of "unat (b - t)", where 'a = 32] assms by (simp only:) simp
  then show ?thesis by (simp only: of_nat_0_less_iff)
qed

lemma steal_claim_ok:
  assumes "deque_ok q" and "deque_within n q" and "n < 2 ^ 31"
  shows "steal_claim q = (if deque_list q = [] then (None, q) else (Some (deq_buffer q, top q), q\<lparr>top := top q + 1\<rparr>))"
proof -
  obtain a where a: "window_ok q a" using deque_okD [OF assms(1)] by metis
  note w = a [unfolded window_ok_def]
  have d: "unat (bottom q - top q) = unat (bottom q) - unat (top q)" using position_diff w by blast
  moreover have "unat (bottom q) < 2 ^ 31" using assms(2,3) by (simp add: deque_within_def)
  ultimately have "0 < sint (ucast (bottom q - top q) :: cint) \<longleftrightarrow> unat (top q) < unat (bottom q)"
    using int_size [of "bottom q" "top q"] by simp
  then show ?thesis using deque_list_empty [OF assms(1)] w by (simp add: steal_claim_def Let_def)
qed

lemma steal_ok:
  assumes "deque_ok q" and "deque_within n q" and "n < 2 ^ 31"
  shows "steal q = Some (if deque_list q = [] then (None, q) else (Some (hd (deque_list q)), q\<lparr>top := top q + 1\<rparr>))"
proof -
  obtain a where "bufs q (deq_buffer q) = Some a" using deque_okD [OF assms(1)] by (metis window_ok_def)
  then show ?thesis
    using steal_claim_ok [OF assms] take_top_ok(3) [OF assms(1)] by (simp add: steal_def steal_read_def)
qed

lemma set_tls_entry_simps [simp]:
  "deque_ok (set_tls_entry i e q) = deque_ok q" "deque_list (set_tls_entry i e q) = deque_list q"
  "deque_within n (set_tls_entry i e q) = deque_within n q" "bufs (set_tls_entry i e q) = bufs q"
  "deq_buffer (set_tls_entry i e q) = deq_buffer q" "top (set_tls_entry i e q) = top q"
  "id_list (set_tls_entry i e q) = (id_list q)[i := e]"
  by (simp_all add: set_tls_entry_def deque_ok_def chain_ok_def deque_list_def deque_within_def buf_within_def
      cong: option.case_cong)

end
