(* ===== verification/Chase_Lev_Runs.thy ===== *)
theory Chase_Lev_Runs
  imports Chase_Lev
begin

text \<open>
  Runs of the work-stealing deque (container/spmc_queue.hh): the operations of its owner, and those of
  its thieves in two steps, up to their exchange and from the read of the element on, so that the
  owner and other thieves run in between. No run reads a buffer that was deleted, and the elements are
  handed out as by a list; but what a delayed thief reads can be a later element.
\<close>

section \<open>The steps\<close>

text \<open>\<open>Stealer::steal\<close> up to the exchange in \<open>Deque::steal\<close>, and from the read on.\<close>

definition stealer_begin :: "nat \<Rightarrow> 'a deque \<Rightarrow> (nat \<times> usize) option \<times> 'a deque" where
  "stealer_begin i q = steal_claim (set_tls_entry i ((id_list q ! i)\<lparr>was_idle := False\<rparr>) q)"

definition stealer_end :: "nat \<Rightarrow> (nat \<times> usize) option \<Rightarrow> 'a deque \<Rightarrow> ('a option \<times> 'a deque) option" where
  "stealer_end i c q =
     (case (case c of None \<Rightarrow> Some None | Some c' \<Rightarrow> map_option Some (steal_read c' q)) of
        None \<Rightarrow> None
      | Some r \<Rightarrow>
          map_option (\<lambda>b. (r, set_tls_entry i ((id_list q ! i)\<lparr>was_idle := True, id_last_used := buf_id b\<rparr>) q))
            (bufs q (deq_buffer q)))"

lemma stealer_steal_split:
  "stealer_steal i q = (case stealer_begin i q of (c, q') \<Rightarrow> stealer_end i c q')"
  by (simp add: stealer_steal_def stealer_begin_def stealer_end_def steal_def split: prod.split option.split)

datatype 'a deque_op = Push 'a | Pop | Steal nat | Begin nat | End nat

type_synonym 'a deque_state = "'a deque \<times> (nat \<rightharpoonup> (nat \<times> usize) option)"

text \<open>A step with its result; \<open>None\<close> when it uses a deleted buffer. The second part holds the thieves in between.\<close>

fun deque_step :: "'a \<Rightarrow> 'a deque_op \<Rightarrow> 'a deque_state \<Rightarrow> ('a option \<times> 'a deque_state) option" where
  "deque_step d (Push x) (q, p) = map_option (\<lambda>q'. (None, q', p)) (push_bottom d x q)"
| "deque_step d Pop (q, p) = map_option (\<lambda>(r, q'). (r, q', p)) (pop_bottom d q)"
| "deque_step d (Steal i) (q, p) = map_option (\<lambda>(r, q'). (r, q', p)) (stealer_steal i q)"
| "deque_step d (Begin i) (q, p) = (case stealer_begin i q of (c, q') \<Rightarrow> Some (None, q', p(i \<mapsto> c)))"
| "deque_step d (End i) (q, p) =
     (case p i of None \<Rightarrow> None | Some c \<Rightarrow> map_option (\<lambda>(r, q'). (r, q', p(i := None))) (stealer_end i c q))"

fun deque_run :: "'a \<Rightarrow> 'a deque_op list \<Rightarrow> 'a deque_state \<Rightarrow> ('a option list \<times> 'a deque_state) option" where
  "deque_run d [] s = Some ([], s)"
| "deque_run d (op # ops) s =
     (case deque_step d op s of
        None \<Rightarrow> None
      | Some (r, s') \<Rightarrow> (case deque_run d ops s' of None \<Rightarrow> None | Some (rs, s'') \<Rightarrow> Some (r # rs, s'')))"

lemma register_thread_simps [simp]:
  "deque_ok (register_thread q) = deque_ok q" "deque_list (register_thread q) = deque_list q"
  "deque_within n (register_thread q) = deque_within n q"
  "id_list (register_thread q) = \<lparr>id_last_used = 0, was_idle = True\<rparr> # id_list q"
  by (simp_all add: register_thread_def deque_ok_def chain_ok_def deque_list_def deque_within_def buf_within_def
      cong: option.case_cong)

text \<open>\<open>make_spmc_queue\<close>, with \<open>k\<close> thieves.\<close>

definition deque_shared :: "'a \<Rightarrow> nat \<Rightarrow> nat \<Rightarrow> 'a deque" where
  "deque_shared d ls k = (register_thread ^^ k) (deque_new d ls)"

section \<open>The list\<close>

fun list_step :: "'a deque_op \<Rightarrow> 'a list \<Rightarrow> 'a list" where
  "list_step (Push x) xs = xs @ [x]"
| "list_step Pop xs = butlast xs"
| "list_step (Steal i) xs = tl xs"
| "list_step (Begin i) xs = tl xs"
| "list_step (End i) xs = xs"

definition list_run :: "'a deque_op list \<Rightarrow> 'a list \<Rightarrow> 'a list" where
  "list_run ops xs = fold list_step ops xs"

fun list_result :: "'a deque_op \<Rightarrow> 'a list \<Rightarrow> 'a option" where
  "list_result Pop xs = (if xs = [] then None else Some (last xs))"
| "list_result (Steal i) xs = (if xs = [] then None else Some (hd xs))"
| "list_result op xs = None"

fun is_end :: "'a deque_op \<Rightarrow> bool" where
  "is_end (End i) = True"
| "is_end op = False"

text \<open>Each of \<open>k\<close> thieves steals once at a time; \<open>P\<close> are the ones in between.\<close>

fun alternates :: "nat \<Rightarrow> nat set \<Rightarrow> 'a deque_op list \<Rightarrow> bool" where
  "alternates k P [] = True"
| "alternates k P (Steal i # ops) = (i < k \<and> i \<notin> P \<and> alternates k P ops)"
| "alternates k P (Begin i # ops) = (i < k \<and> i \<notin> P \<and> alternates k (insert i P) ops)"
| "alternates k P (End i # ops) = (i \<in> P \<and> alternates k (P - {i}) ops)"
| "alternates k P (op # ops) = alternates k P ops"

section \<open>The invariant\<close>

definition last_used_ok :: "'a deque \<Rightarrow> bool" where
  "last_used_ok q \<longleftrightarrow> (\<forall>e \<in> set (id_list q). \<forall>a. bufs q (deq_buffer q) = Some a \<longrightarrow> sint (id_last_used e) \<le> sint (buf_id a))"

definition thief_ok :: "'a deque \<Rightarrow> nat \<Rightarrow> (nat \<times> usize) option \<Rightarrow> bool" where
  "thief_ok q i c \<longleftrightarrow> i < length (id_list q) \<and> \<not> was_idle (id_list q ! i) \<and>
     (\<forall>x t. c = Some (x, t) \<longrightarrow> (\<exists>a. bufs q x = Some a \<and> sint (id_last_used (id_list q ! i)) \<le> sint (buf_id a)))"

definition run_ok :: "nat \<Rightarrow> nat \<Rightarrow> 'a deque_state \<Rightarrow> bool" where
  "run_ok n k s \<longleftrightarrow> (case s of (q, p) \<Rightarrow>
     deque_ok q \<and> deque_within n q \<and> length (id_list q) = k \<and> last_used_ok q \<and> (\<forall>i c. p i = Some c \<longrightarrow> thief_ok q i c))"

lemma last_used_ok_update:
  assumes "last_used_ok q" and "bufs q' = bufs q" and "deq_buffer q' = deq_buffer q"
    and "set (id_list q') \<subseteq> insert e (set (id_list q))"
    and "\<And>a. bufs q (deq_buffer q) = Some a \<Longrightarrow> sint (id_last_used e) \<le> sint (buf_id a)"
  shows "last_used_ok q'"
  using assms unfolding last_used_ok_def by (metis insertE subsetD)

lemma run_ok_owner:
  assumes "run_ok n k (q, p)" and "deque_ok q'" and "deque_within (Suc n) q'" and "id_list q' = id_list q"
    and "keeps_hazards q q'"
  shows "run_ok (Suc n) k (q', p)"
proof -
  obtain a a' where a: "bufs q (deq_buffer q) = Some a" "bufs q' (deq_buffer q') = Some a'"
    using assms(1,2) by (auto simp: run_ok_def elim!: deque_okD dest!: window_alloc)
  have "sint (buf_id a) \<le> sint (buf_id a')" using a assms(5) unfolding keeps_hazards_def by blast
  then have "last_used_ok q'" using assms(1,4) a by (fastforce simp: run_ok_def last_used_ok_def)
  moreover have "thief_ok q' i c" if "p i = Some c" for i c
  proof -
    have t: "thief_ok q i c" using that assms(1) by (simp add: run_ok_def)
    then have "id_list q ! i \<in> set (id_list q)" by (simp add: thief_ok_def)
    with t show ?thesis using assms(4,5) unfolding thief_ok_def keeps_hazards_def by metis
  qed
  ultimately show ?thesis using assms by (simp add: run_ok_def)
qed

lemma begin_ok:
  assumes "run_ok n k (q, p)" and "n < 2 ^ 31" and "i < k"
  obtains c q' where "stealer_begin i q = (c, q')" "deque_list q' = tl (deque_list q)"
    "run_ok n k (q', p(i \<mapsto> c))" "c \<noteq> None \<longleftrightarrow> deque_list q \<noteq> []"
    "\<And>x t. c = Some (x, t) \<Longrightarrow> steal_read (x, t) q' = Some (hd (deque_list q))"
proof -
  let ?e = "(id_list q ! i)\<lparr>was_idle := False\<rparr>"
  let ?q = "set_tls_entry i ?e q"
  have ok: "deque_ok ?q" "deque_within n ?q" using assms(1) by (simp_all add: run_ok_def)
  obtain a where a: "bufs q (deq_buffer q) = Some a" using assms(1) by (auto simp: run_ok_def elim!: deque_okD dest!: window_alloc)
  have used: "sint (id_last_used e) \<le> sint (buf_id a)" if "e \<in> set (id_list q)" for e
    using that a assms(1) by (simp add: run_ok_def last_used_ok_def)
  let ?c = "if deque_list q = [] then None else Some (deq_buffer q, top q)"
  let ?q' = "if deque_list q = [] then ?q else ?q\<lparr>top := top q + 1\<rparr>"
  have st: "stealer_begin i q = (?c, ?q')"
    using steal_claim_ok [OF ok assms(2)] by (simp add: stealer_begin_def)
  have q': "deque_ok ?q'" "deque_list ?q' = tl (deque_list q)" "id_list ?q' = (id_list q)[i := ?e]"
    "bufs ?q' = bufs q" "deq_buffer ?q' = deq_buffer q"
    using take_top_ok(1,2) [OF ok(1)] ok by simp_all
  have "deque_within n ?q'" using ok(2) by (auto simp: deque_within_def buf_within_def)
  moreover have len: "length (id_list q) = k" using assms(1) by (simp add: run_ok_def)
  moreover have "last_used_ok ?q'"
  proof (rule last_used_ok_update)
    show "last_used_ok q" using assms(1) by (simp add: run_ok_def)
    show "set (id_list ?q') \<subseteq> insert ?e (set (id_list q))" unfolding q'(3) by (rule set_update_subset_insert)
    show "sint (id_last_used ?e) \<le> sint (buf_id b)" if "bufs q (deq_buffer q) = Some b" for b
      using that a used [of "id_list q ! i"] len assms(3) by simp
  qed (fact q'(4,5))+
  moreover have "thief_ok ?q' j c" if "(p(i \<mapsto> ?c)) j = Some c" for j c
  proof (cases "j = i")
    case True
    then have "c = ?c" using that by simp
    moreover have "sint (id_last_used (id_list q ! i)) \<le> sint (buf_id a)" using used assms(3) len by simp
    ultimately show ?thesis using True a q'(3,4) len assms(3) by (simp add: thief_ok_def split: if_splits)
  next
    case False
    then have "thief_ok q j c" using that assms(1) by (simp add: run_ok_def)
    then show ?thesis using False q'(3,4) by (simp add: thief_ok_def)
  qed
  ultimately have "run_ok n k (?q', p(i \<mapsto> ?c))" using q'(1,3) by (simp add: run_ok_def)
  moreover have "steal_read (x, t) ?q' = Some (hd (deque_list q))" if "?c = Some (x, t)" for x t
    using that take_top_ok(3) [OF ok(1)] a q'(4) by (simp add: steal_read_def split: if_splits)
  ultimately show ?thesis using st q'(2) that by simp
qed

lemma end_ok:
  assumes "run_ok n k (q, p)" and "p i = Some c"
  obtains r q' where "stealer_end i c q = Some (r, q')" "run_ok n k (q', p(i := None))"
    "deque_list q' = deque_list q" "r = (case c of None \<Rightarrow> None | Some c' \<Rightarrow> steal_read c' q)"
proof -
  obtain a where a: "bufs q (deq_buffer q) = Some a" using assms(1) by (auto simp: run_ok_def elim!: deque_okD dest!: window_alloc)
  let ?r = "case c of None \<Rightarrow> None | Some c' \<Rightarrow> steal_read c' q"
  let ?e = "(id_list q ! i)\<lparr>was_idle := True, id_last_used := buf_id a\<rparr>"
  let ?q = "set_tls_entry i ?e q"
  have t: "thief_ok q i c" using assms by (simp add: run_ok_def)
  then have "stealer_end i c q = Some (?r, ?q)"
    using a by (auto simp: stealer_end_def thief_ok_def steal_read_def split: option.split)
  moreover have "last_used_ok ?q"
  proof (rule last_used_ok_update)
    show "last_used_ok q" using assms(1) by (simp add: run_ok_def)
    show "set (id_list ?q) \<subseteq> insert ?e (set (id_list q))" by (simp add: set_update_subset_insert)
  qed (simp_all add: a)
  moreover have "thief_ok ?q j c'" if "(p(i := None)) j = Some c'" for j c'
  proof -
    have "j \<noteq> i" "p j = Some c'" using that by (auto split: if_splits)
    then have "thief_ok q j c'" using assms(1) by (simp add: run_ok_def)
    with \<open>j \<noteq> i\<close> show ?thesis by (simp add: thief_ok_def)
  qed
  ultimately show ?thesis using assms(1) that by (simp add: run_ok_def)
qed

lemma run_ok_Suc: "run_ok n k s \<Longrightarrow> run_ok (Suc n) k s"
  by (auto simp: run_ok_def deque_within_Suc)

fun thieves_after :: "'a deque_op \<Rightarrow> nat set \<Rightarrow> nat set" where
  "thieves_after (Begin i) P = insert i P"
| "thieves_after (End i) P = P - {i}"
| "thieves_after op P = P"

lemma deque_step_ok:
  assumes "run_ok n k (q, p)" and "n < 2 ^ 31" and "alternates k (dom p) (op # ops)"
  shows "\<exists>r q' p'. deque_step d op (q, p) = Some (r, q', p') \<and> run_ok (Suc n) k (q', p') \<and>
    deque_list q' = list_step op (deque_list q) \<and> alternates k (dom p') ops \<and>
    (is_end op \<or> r = list_result op (deque_list q))"
proof -
  have ok: "deque_ok q" "deque_within n q" using assms(1) by (simp_all add: run_ok_def)
  show ?thesis
  proof (cases op)
    case (Push x)
    from push_ok [OF ok assms(2), of d x] obtain q' where "push_bottom d x q = Some q'" "deque_ok q'"
      "deque_list q' = deque_list q @ [x]" "deque_within (Suc n) q'" "id_list q' = id_list q" "keeps_hazards q q'" by blast
    then show ?thesis using Push assms(3) run_ok_owner [OF assms(1)] by simp
  next
    case Pop
    from pop_ok [OF ok assms(2), of d] obtain q' where
      "pop_bottom d q = Some (if deque_list q = [] then None else Some (last (deque_list q)), q')" "deque_ok q'"
      "deque_list q' = butlast (deque_list q)" "deque_within (Suc n) q'" "id_list q' = id_list q" "keeps_hazards q q'" by blast
    then show ?thesis using Pop assms(3) run_ok_owner [OF assms(1)] by simp
  next
    case (Steal i)
    then have i: "i < k" "i \<notin> dom p" "alternates k (dom p) ops" using assms(3) by simp_all
    obtain c q1 where b: "stealer_begin i q = (c, q1)" "deque_list q1 = tl (deque_list q)" "run_ok n k (q1, p(i \<mapsto> c))"
      "c \<noteq> None \<longleftrightarrow> deque_list q \<noteq> []" "\<And>x t. c = Some (x, t) \<Longrightarrow> steal_read (x, t) q1 = Some (hd (deque_list q))"
      using begin_ok [OF assms(1,2) i(1)] by metis
    have pi: "(p(i \<mapsto> c)) i = Some c" by simp
    obtain r q2 where e: "stealer_end i c q1 = Some (r, q2)" "run_ok n k (q2, (p(i \<mapsto> c))(i := None))"
      "deque_list q2 = deque_list q1" "r = (case c of None \<Rightarrow> None | Some c' \<Rightarrow> steal_read c' q1)"
      using end_ok [OF b(3) pi] .
    have "(p(i \<mapsto> c))(i := None) = p" using i(2) by auto
    then have "run_ok (Suc n) k (q2, p)" using e(2) run_ok_Suc by simp
    moreover have "r = (if deque_list q = [] then None else Some (hd (deque_list q)))"
      using e(4) b(4,5) by (cases c) auto
    ultimately show ?thesis using Steal i b(1,2) e(1,3) by (simp add: stealer_steal_split)
  next
    case (Begin i)
    then have i: "i < k" "i \<notin> dom p" "alternates k (insert i (dom p)) ops" using assms(3) by simp_all
    from begin_ok [OF assms(1,2) i(1)] obtain c q1 where b: "stealer_begin i q = (c, q1)"
      "deque_list q1 = tl (deque_list q)" "run_ok n k (q1, p(i \<mapsto> c))" by metis
    then show ?thesis using Begin i(3) run_ok_Suc by simp
  next
    case (End i)
    then obtain c where c: "p i = Some c" "alternates k (dom p - {i}) ops" using assms(3) by auto
    from end_ok [OF assms(1) c(1)] obtain r q' where e: "stealer_end i c q = Some (r, q')" "run_ok n k (q', p(i := None))"
      "deque_list q' = deque_list q" by metis
    then show ?thesis using End c run_ok_Suc by simp
  qed
qed

lemma deque_run_ok:
  assumes "run_ok n k (q, p)" and "n + length ops \<le> 2 ^ 31" and "alternates k (dom p) ops"
  shows "\<exists>rs q' p'. deque_run d ops (q, p) = Some (rs, q', p') \<and> deque_ok q' \<and> deque_list q' = list_run ops (deque_list q) \<and>
    length rs = length ops \<and>
    (\<forall>j < length ops. is_end (ops ! j) \<or> rs ! j = list_result (ops ! j) (list_run (take j ops) (deque_list q)))"
  using assms
proof (induction ops arbitrary: n q p)
  case Nil
  then show ?case by (simp add: list_run_def run_ok_def)
next
  case (Cons op ops)
  have "n < 2 ^ 31" using Cons.prems(2) by simp
  from deque_step_ok [OF Cons.prems(1) this Cons.prems(3)] obtain r q1 p1 where
    s: "deque_step d op (q, p) = Some (r, q1, p1)" "run_ok (Suc n) k (q1, p1)"
    "deque_list q1 = list_step op (deque_list q)" "alternates k (dom p1) ops"
    "is_end op \<or> r = list_result op (deque_list q)" by blast
  have "Suc n + length ops \<le> 2 ^ 31" using Cons.prems(2) by simp
  from Cons.IH [OF s(2) this s(4)] obtain rs q' p' where
    r: "deque_run d ops (q1, p1) = Some (rs, q', p')" "deque_ok q'" "deque_list q' = list_run ops (deque_list q1)"
    "length rs = length ops"
    "\<forall>j < length ops. is_end (ops ! j) \<or> rs ! j = list_result (ops ! j) (list_run (take j ops) (deque_list q1))" by blast
  have "\<forall>j < length (op # ops). is_end ((op # ops) ! j) \<or>
      (r # rs) ! j = list_result ((op # ops) ! j) (list_run (take j (op # ops)) (deque_list q))"
    using r(5) s(3,5) by (auto simp: less_Suc_eq_0_disj list_run_def)
  then show ?case using s(1,3) r(1-4) by (simp add: list_run_def)
qed

lemma deque_shared_ok: "ls \<le> 30 \<Longrightarrow> run_ok 0 k (deque_shared d ls k, Map.empty) \<and> deque_list (deque_shared d ls k) = []"
proof (induction k)
  case 0
  then show ?case using deque_new_ok [of ls d]
    by (simp add: deque_shared_def run_ok_def last_used_ok_def)
      (simp add: deque_new_def deque_within_def buf_within_def buf_new_def)
next
  case (Suc k)
  let ?q = "deque_shared d ls k"
  have new: "deque_shared d ls (Suc k) = register_thread ?q" by (simp add: deque_shared_def)
  have reg: "deque_ok (register_thread ?q)" "deque_within 0 (register_thread ?q)"
    "deque_list (register_thread ?q) = []" "length (id_list (register_thread ?q)) = Suc k"
    using Suc by (simp_all add: run_ok_def)
  have "buf_id a = 0" if "bufs ?q (deq_buffer ?q) = Some a" for a
    using Suc that by (simp add: run_ok_def deque_within_def buf_within_def word_unat_eq_iff)
  then have z: "sint (id_last_used \<lparr>id_last_used = 0, was_idle = True\<rparr>) \<le> sint (buf_id a)"
    if "bufs ?q (deq_buffer ?q) = Some a" for a using that by simp
  have "last_used_ok (register_thread ?q)"
  proof (rule last_used_ok_update)
    show "last_used_ok ?q" using Suc by (simp add: run_ok_def)
    show "set (id_list (register_thread ?q)) \<subseteq> insert \<lparr>id_last_used = 0, was_idle = True\<rparr> (set (id_list ?q))" by simp
  qed (use z in \<open>auto simp: register_thread_def\<close>)
  then show ?case unfolding new using reg by (simp add: run_ok_def)
qed

section \<open>Whole runs\<close>

text \<open>
  The deque and its owner and thieves refine a list. For every schedule of fewer
  than \<open>2 ^ 31\<close> steps, in which each thief steals once at a time, no step uses a deleted buffer, and
  every step but the delayed read of a thief gives what the list gives: the owner takes the newest
  element, a thief the oldest, through every growth, shrinking and reclamation of buffers. The
  destructor then frees every buffer that is left, and each once.
\<close>

lemma deque_refines_list:
  assumes "ls \<le> 30" and "length ops \<le> 2 ^ 31" and "alternates k {} ops"
  shows "\<exists>rs q p. deque_run d ops (deque_shared d ls k, Map.empty) = Some (rs, q, p) \<and>
    deque_list q = list_run ops [] \<and> (\<exists>q'. deque_destroy q = Some q' \<and> bufs q' = Map.empty) \<and> length rs = length ops \<and>
    (\<forall>j < length ops. is_end (ops ! j) \<or> rs ! j = list_result (ops ! j) (list_run (take j ops) []))"
proof -
  from deque_run_ok [of 0 k "deque_shared d ls k" Map.empty ops d] deque_shared_ok [OF assms(1), of k d] assms(2,3)
  obtain rs q p where r: "deque_run d ops (deque_shared d ls k, Map.empty) = Some (rs, q, p)" "deque_ok q"
    "deque_list q = list_run ops []" "length rs = length ops"
    "\<forall>j < length ops. is_end (ops ! j) \<or> rs ! j = list_result (ops ! j) (list_run (take j ops) [])" by auto
  from r(2) have "chain_ok q" by (simp add: deque_ok_def)
  from deque_destroy_ok [OF this] r show ?thesis by blast
qed

lemma deque_refines_list_witness:
  "\<exists>rs q p. deque_run 0 [Push (5 :: nat), Push 6, Begin 1, Steal 0, Pop, End 1] (deque_shared 0 1 2, Map.empty) = Some (rs, q, p) \<and>
     deque_list q = [] \<and> rs ! 3 = Some 6 \<and> rs ! 4 = None"
proof -
  let ?ops = "[Push (5 :: nat), Push 6, Begin 1, Steal 0, Pop, End 1]"
  have "\<exists>rs q p. deque_run 0 ?ops (deque_shared 0 1 2, Map.empty) = Some (rs, q, p) \<and>
      deque_list q = list_run ?ops [] \<and> (\<exists>q'. deque_destroy q = Some q' \<and> bufs q' = Map.empty) \<and> length rs = length ?ops \<and>
      (\<forall>j < length ?ops. is_end (?ops ! j) \<or> rs ! j = list_result (?ops ! j) (list_run (take j ?ops) []))"
    by (rule deque_refines_list) (simp_all add: insert_commute)
  then obtain rs q p where r: "deque_run 0 ?ops (deque_shared 0 1 2, Map.empty) = Some (rs, q, p)"
    "deque_list q = list_run ?ops []"
    "\<forall>j < length ?ops. is_end (?ops ! j) \<or> rs ! j = list_result (?ops ! j) (list_run (take j ?ops) [])" by blast
  have "rs ! 3 = Some 6" using r(3) [THEN spec, of 3] by (simp add: list_run_def)
  moreover have "rs ! 4 = None" using r(3) [THEN spec, of 4] by (simp add: list_run_def)
  ultimately show ?thesis using r(1,2) by (simp add: list_run_def)
qed

text \<open>
  A thief reads its element after its exchange. When another thief and the owner
  run in between, the owner may have put a later element into the same place: the delayed thief then
  returns that one, which the owner takes as well, and its own element is lost.
\<close>

lemma steal_reads_overwritten:
  "map_option fst (deque_run 0 [Push (10 :: nat), Push 11, Begin 0, Steal 1, Push 12, Push 13, Push 14, End 0, Pop, Pop, Pop, Pop]
     (deque_shared 0 2 2, Map.empty)) =
   Some [None, None, None, Some 11, None, None, None, Some 14, Some 14, Some 13, Some 12, None]"
  by code_simp

end
