(* ===== verification/Work_Stealing.thy ===== *)
theory Work_Stealing
  imports Chase_Lev_Runs
begin

text \<open>
  The work-stealing part of a thread's local state (\<open>tls_t\<close>, scheduler.cc): \<open>prepare_chase_lev\<close> makes
  a thread the owner of one deque and a thief of all the others, \<open>get_task\<close> takes a task from the own
  deque or steals one. What it relies on is a locale of deques, interpreted on those of Chase_Lev.
\<close>

section \<open>The thread's state\<close>

text \<open>A \<open>Stealer\<close>: the index of its deque, and the number of its entry there, counted from the oldest.\<close>

record steal_tls =
  chase_lev_worker :: nat
  chase_lev_stealers :: "(nat \<times> nat) list"
  last_steal_target :: u32

definition stealer_new :: "nat \<Rightarrow> 'a deque list \<Rightarrow> (nat \<times> nat) \<times> 'a deque list" where
  "stealer_new t ds = ((t, length (id_list (ds ! t))), ds[t := register_thread (ds ! t)])"

definition prepare_step :: "nat \<Rightarrow> nat \<Rightarrow> (nat \<times> nat) list \<times> 'a deque list \<Rightarrow> (nat \<times> nat) list \<times> 'a deque list" where
  "prepare_step index t st =
     (case st of (ss, ds) \<Rightarrow>
        if t \<noteq> index then (case stealer_new t ds of (s, ds') \<Rightarrow> (ss @ [s], ds')) else (ss, ds))"

definition prepare_chase_lev :: "'a deque list \<Rightarrow> u32 \<Rightarrow> steal_tls \<times> 'a deque list" where
  "prepare_chase_lev ds index =
     (case fold (prepare_step (unat index)) [0..<length ds] ([], ds) of
        (ss, ds') \<Rightarrow>
          (\<lparr>chase_lev_worker = unat index, chase_lev_stealers = ss, last_steal_target = index + 1\<rparr>, ds'))"

section \<open>Taking a task\<close>

definition steal_target :: "steal_tls \<Rightarrow> nat \<Rightarrow> u32" where
  "steal_target tls i = (last_steal_target tls + of_nat i) mod of_nat (length (chase_lev_stealers tls))"

text \<open>The loop over the stealers, for any operation that steals; \<open>is\<close> are the rounds to come.\<close>

fun steal_loop :: "(nat \<Rightarrow> 'q \<Rightarrow> ('a option \<times> 'q) option) \<Rightarrow> steal_tls \<Rightarrow> nat list \<Rightarrow> 'q list \<Rightarrow>
    ('a option \<times> steal_tls \<times> 'q list) option" where
  "steal_loop steal_op tls [] ds = Some (None, tls, ds)"
| "steal_loop steal_op tls (i # is) ds =
     (let target = steal_target tls i in
      case chase_lev_stealers tls ! unat target of (t, e) \<Rightarrow>
        (case steal_op e (ds ! t) of
           None \<Rightarrow> None
         | Some (r, q) \<Rightarrow>
             (case r of
                Some x \<Rightarrow> Some (Some x, tls\<lparr>last_steal_target := target\<rparr>, ds[t := q])
              | None \<Rightarrow> steal_loop steal_op tls is (ds[t := q]))))"

definition get_task_with :: "('q \<Rightarrow> ('a option \<times> 'q) option) \<Rightarrow> (nat \<Rightarrow> 'q \<Rightarrow> ('a option \<times> 'q) option) \<Rightarrow>
    steal_tls \<Rightarrow> 'q list \<Rightarrow> ('a option \<times> steal_tls \<times> 'q list) option" where
  "get_task_with pop_op steal_op tls ds =
     (case pop_op (ds ! chase_lev_worker tls) of
        None \<Rightarrow> None
      | Some (r, q) \<Rightarrow>
          (case r of
             Some x \<Rightarrow> Some (Some x, tls, ds[chase_lev_worker tls := q])
           | None \<Rightarrow> steal_loop steal_op tls [0..<length (chase_lev_stealers tls)] (ds[chase_lev_worker tls := q])))"

text \<open>\<open>Stealer::steal\<close> on the deque of the stealer; the list of entries has the newest first.\<close>

definition entry_steal :: "nat \<Rightarrow> 'a deque \<Rightarrow> ('a option \<times> 'a deque) option" where
  "entry_steal e q = stealer_steal (length (id_list q) - Suc e) q"

definition get_task :: "'a \<Rightarrow> steal_tls \<Rightarrow> 'a deque list \<Rightarrow> ('a option \<times> steal_tls \<times> 'a deque list) option" where
  "get_task d = get_task_with (pop_bottom d) entry_steal"

section \<open>What the loop does to the contents\<close>

abbreviation victim :: "steal_tls \<Rightarrow> nat \<Rightarrow> nat" where
  "victim tls i \<equiv> fst (chase_lev_stealers tls ! unat (steal_target tls i))"

definition steal_outcome :: "steal_tls \<Rightarrow> nat list \<Rightarrow> 'a list list \<Rightarrow> 'a option \<Rightarrow> steal_tls \<Rightarrow> 'a list list \<Rightarrow> bool" where
  "steal_outcome tls is cs r tls' cs' \<longleftrightarrow>
     (case r of
        None \<Rightarrow> tls' = tls \<and> cs' = cs \<and> (\<forall>i \<in> set is. cs ! victim tls i = [])
      | Some x \<Rightarrow> \<exists>i \<in> set is. \<exists>xs. tls' = tls\<lparr>last_steal_target := steal_target tls i\<rparr> \<and>
          cs ! victim tls i = x # xs \<and> cs' = cs[victim tls i := xs])"

lemma steal_outcome_Cons:
  "steal_outcome tls is cs r tls' cs' \<Longrightarrow> cs ! victim tls i = [] \<Longrightarrow> steal_outcome tls (i # is) cs r tls' cs'"
  by (cases r) (auto simp: steal_outcome_def)

section \<open>The contract of the deques\<close>

text \<open>\<open>fit n\<close>: the deque can take \<open>n\<close> more operations of its owner.\<close>

locale stealing =
  fixes fit :: "nat \<Rightarrow> 'q \<Rightarrow> bool"
    and items :: "'q \<Rightarrow> 'a list"
    and pop_op :: "'q \<Rightarrow> ('a option \<times> 'q) option"
    and steal_op :: "nat \<Rightarrow> 'q \<Rightarrow> ('a option \<times> 'q) option"
  assumes fit_less: "fit (Suc n) q \<Longrightarrow> fit n q"
    and pop_law: "fit (Suc n) q \<Longrightarrow>
      \<exists>q'. pop_op q = Some (if items q = [] then None else Some (last (items q)), q') \<and> fit n q' \<and> items q' = butlast (items q)"
    and steal_law: "fit n q \<Longrightarrow>
      \<exists>q'. steal_op e q = Some (if items q = [] then None else Some (hd (items q)), q') \<and> fit n q' \<and> items q' = tl (items q)"
begin

lemma steal_loop_result:
  assumes "\<forall>q \<in> set ds. fit n q" and "\<forall>i \<in> set is. victim tls i < length ds"
  shows "\<exists>r tls' ds'. steal_loop steal_op tls is ds = Some (r, tls', ds') \<and> (\<forall>q \<in> set ds'. fit n q) \<and>
    steal_outcome tls is (map items ds) r tls' (map items ds')"
  using assms
proof (induction "is" arbitrary: ds)
  case Nil
  then show ?case by (simp add: steal_outcome_def)
next
  case (Cons i "is")
  obtain t e where te: "chase_lev_stealers tls ! unat (steal_target tls i) = (t, e)" by fastforce
  then have t: "t < length ds" "victim tls i = t" using Cons.prems(2) by simp_all
  then have "fit n (ds ! t)" using Cons.prems(1) by simp
  from steal_law [OF this, of e] obtain q' where
    q': "steal_op e (ds ! t) = Some (if items (ds ! t) = [] then None else Some (hd (items (ds ! t))), q')"
    "fit n q'" "items q' = tl (items (ds ! t))" by blast
  have fits: "\<forall>q \<in> set (ds[t := q']). fit n q"
    using Cons.prems(1) q'(2) set_update_subset_insert [of ds t q'] by auto
  show ?case
  proof (cases "items (ds ! t)")
    case Nil
    then have same: "map items (ds[t := q']) = map items ds"
      using q'(3) t(1) list_update_id [of "map items ds" t] by (simp add: map_update)
    have "\<forall>i \<in> set is. victim tls i < length (ds[t := q'])" using Cons.prems(2) by simp
    from Cons.IH [OF fits this] obtain r tls' ds' where
      r: "steal_loop steal_op tls is (ds[t := q']) = Some (r, tls', ds')" "\<forall>q \<in> set ds'. fit n q"
      "steal_outcome tls is (map items ds) r tls' (map items ds')" unfolding same by blast
    have "steal_loop steal_op tls (i # is) ds = Some (r, tls', ds')"
      using q'(1) Nil te r(1) by (simp add: Let_def)
    moreover have "steal_outcome tls (i # is) (map items ds) r tls' (map items ds')"
      using r(3) Nil t by (intro steal_outcome_Cons) simp_all
    ultimately show ?thesis using r(2) by blast
  next
    case (Cons x xs)
    then have "steal_loop steal_op tls (i # is) ds =
        Some (Some x, tls\<lparr>last_steal_target := steal_target tls i\<rparr>, ds[t := q'])"
      using q'(1) te by (simp add: Let_def)
    moreover have "map items (ds[t := q']) = (map items ds)[t := xs]" using Cons q'(3) by (simp add: map_update)
    ultimately show ?thesis using fits Cons t by (auto simp: steal_outcome_def)
  qed
qed

end

text \<open>The rounds of the loop reach every stealer.\<close>

lemma all_victims:
  assumes "k < length (chase_lev_stealers tls)"
    and "unat (last_steal_target tls) + length (chase_lev_stealers tls) < 2 ^ 32"
  shows "\<exists>i < length (chase_lev_stealers tls). unat (steal_target tls i) = k"
proof -
  let ?n = "length (chase_lev_stealers tls)" and ?l = "unat (last_steal_target tls)"
  have target: "unat (steal_target tls i) = (?l + i) mod ?n" if "i < ?n" for i
  proof -
    have "unat (of_nat i :: u32) = i" "unat (of_nat ?n :: u32) = ?n"
      using that assms(2) by (simp_all add: unat_of_nat)
    moreover have "unat (last_steal_target tls + of_nat i) = ?l + i"
      using that assms(2) calculation(1) by (simp add: unat_word_ariths)
    ultimately show ?thesis by (simp add: steal_target_def unat_mod)
  qed
  let ?i = "(k + (?n - ?l mod ?n)) mod ?n"
  have "0 < ?n" using assms(1) by (rule le_less_trans [OF le0])
  then have i: "?i < ?n" by simp
  have "(?l + ?i) mod ?n = (?l mod ?n + (k + (?n - ?l mod ?n))) mod ?n" by (simp add: mod_simps)
  also have "\<dots> = (k + ?n) mod ?n" using mod_less_divisor [OF \<open>0 < ?n\<close>, of ?l] by (simp add: algebra_simps)
  also have "\<dots> = k" using assms(1) by simp
  finally show ?thesis using target [OF i] i by metis
qed

text \<open>The local state of a thread among \<open>n\<close> deques: it owns one and has a stealer for every other.\<close>

definition tls_ok :: "nat \<Rightarrow> steal_tls \<Rightarrow> bool" where
  "tls_ok n tls \<longleftrightarrow> chase_lev_worker tls < n \<and> n < 2 ^ 31 \<and> unat (last_steal_target tls) \<le> n \<and>
     map fst (chase_lev_stealers tls) = filter (\<lambda>t. t \<noteq> chase_lev_worker tls) [0..<n]"

text \<open>What \<open>get_task\<close> does to the contents \<open>cs\<close> of all deques.\<close>

definition task_outcome :: "nat \<Rightarrow> 'a list list \<Rightarrow> 'a option \<Rightarrow> 'a list list \<Rightarrow> bool" where
  "task_outcome own cs r cs' \<longleftrightarrow>
     (case r of
        None \<Rightarrow> cs' = cs \<and> (\<forall>c \<in> set cs. c = [])
      | Some x \<Rightarrow>
          if cs ! own \<noteq> [] then x = last (cs ! own) \<and> cs' = cs[own := butlast (cs ! own)]
          else \<exists>t < length cs. \<exists>xs. t \<noteq> own \<and> cs ! t = x # xs \<and> cs' = cs[t := xs])"

lemma tls_ok_stealers:
  assumes "tls_ok n tls"
  shows "length (chase_lev_stealers tls) < n"
    and "k < length (chase_lev_stealers tls) \<Longrightarrow> fst (chase_lev_stealers tls ! k) < n \<and> fst (chase_lev_stealers tls ! k) \<noteq> chase_lev_worker tls"
    and "\<lbrakk>t < n; t \<noteq> chase_lev_worker tls\<rbrakk> \<Longrightarrow> \<exists>k < length (chase_lev_stealers tls). fst (chase_lev_stealers tls ! k) = t"
proof -
  let ?ts = "map fst (chase_lev_stealers tls)"
  have ts: "?ts = filter (\<lambda>t. t \<noteq> chase_lev_worker tls) [0..<n]" "chase_lev_worker tls < n"
    using assms by (simp_all add: tls_ok_def)
  have "length (filter (\<lambda>t. t \<noteq> chase_lev_worker tls) [0..<n]) < length [0..<n]"
    using ts(2) by (intro length_filter_less [of "chase_lev_worker tls"]) simp_all
  then show "length (chase_lev_stealers tls) < n" using arg_cong [OF ts(1), of length] by simp
  have set: "set ?ts = {t. t < n \<and> t \<noteq> chase_lev_worker tls}" unfolding ts(1) by auto
  show "k < length (chase_lev_stealers tls) \<Longrightarrow> fst (chase_lev_stealers tls ! k) < n \<and> fst (chase_lev_stealers tls ! k) \<noteq> chase_lev_worker tls"
    using set nth_mem [of k ?ts] by (simp only: length_map nth_map) blast
  assume "t < n" "t \<noteq> chase_lev_worker tls"
  then have "t \<in> set ?ts" unfolding set by simp
  then show "\<exists>k < length (chase_lev_stealers tls). fst (chase_lev_stealers tls ! k) = t"
    by (metis in_set_conv_nth length_map nth_map)
qed

lemma steal_target_less:
  assumes "chase_lev_stealers tls \<noteq> []" and "length (chase_lev_stealers tls) < 2 ^ 32"
  shows "unat (steal_target tls i) < length (chase_lev_stealers tls)"
proof -
  have "unat (of_nat (length (chase_lev_stealers tls)) :: u32) = length (chase_lev_stealers tls)"
    using assms(2) by (simp add: unat_of_nat)
  then show ?thesis using assms(1) by (simp add: steal_target_def unat_mod)
qed

context stealing
begin

lemma get_task_result:
  assumes "tls_ok (length ds) tls" and "\<forall>q \<in> set ds. fit (Suc n) q"
  shows "\<exists>r tls' ds'. get_task_with pop_op steal_op tls ds = Some (r, tls', ds') \<and> (\<forall>q \<in> set ds'. fit n q) \<and>
    tls_ok (length ds) tls' \<and> length ds' = length ds \<and>
    task_outcome (chase_lev_worker tls) (map items ds) r (map items ds')"
proof -
  let ?w = "chase_lev_worker tls" and ?ss = "chase_lev_stealers tls"
  have w: "?w < length ds" using assms(1) by (simp add: tls_ok_def)
  then have "fit (Suc n) (ds ! ?w)" using assms(2) by simp
  from pop_law [OF this] obtain q where
    q: "pop_op (ds ! ?w) = Some (if items (ds ! ?w) = [] then None else Some (last (items (ds ! ?w))), q)"
    "fit n q" "items q = butlast (items (ds ! ?w))" by blast
  let ?ds = "ds[?w := q]"
  have fits: "\<forall>q \<in> set ?ds. fit n q"
    using assms(2) fit_less q(2) set_update_subset_insert [of ds ?w q] by auto
  show ?thesis
  proof (cases "items (ds ! ?w) = []")
    case False
    then have "get_task_with pop_op steal_op tls ds = Some (Some (last (items (ds ! ?w))), tls, ?ds)"
      using q(1) by (simp add: get_task_with_def)
    moreover have "task_outcome ?w (map items ds) (Some (last (items (ds ! ?w)))) (map items ?ds)"
      using False w q(3) by (simp add: task_outcome_def map_update)
    ultimately show ?thesis using fits assms(1) by auto
  next
    case True
    then have same: "map items ?ds = map items ds"
      using q(3) w list_update_id [of "map items ds" ?w] by (simp add: map_update)
    have len: "length ?ss < length ds" "length ds < 2 ^ 31" "unat (last_steal_target tls) \<le> length ds"
      using tls_ok_stealers(1) [OF assms(1)] assms(1) by (simp_all add: tls_ok_def)
    have target: "unat (steal_target tls i) < length ?ss" if "i < length ?ss" for i
    proof -
      have "?ss \<noteq> []" using that by auto
      then show ?thesis using steal_target_less [of tls i] len by simp
    qed
    then have vic: "victim tls i < length ds \<and> victim tls i \<noteq> ?w" if "i < length ?ss" for i
      using tls_ok_stealers(2) [OF assms(1)] that by blast
    then have "\<forall>i \<in> set [0..<length ?ss]. victim tls i < length ?ds" by simp
    from steal_loop_result [OF fits this] obtain r tls' ds' where
      r: "steal_loop steal_op tls [0..<length ?ss] ?ds = Some (r, tls', ds')" "\<forall>q \<in> set ds'. fit n q"
      "steal_outcome tls [0..<length ?ss] (map items ds) r tls' (map items ds')" unfolding same by blast
    have "length ds' = length ds" using arg_cong [of _ _ length] r(3)
      by (cases r) (auto simp: steal_outcome_def dest!: arg_cong [of "map items ds'" _ length])
    moreover have "tls_ok (length ds) tls'"
      using r(3) assms(1) target len
      by (cases r) (fastforce simp: steal_outcome_def tls_ok_def less_imp_le)+
    moreover have "task_outcome ?w (map items ds) r (map items ds')"
    proof (cases r)
      case None
      have "items (ds ! t) = []" if t: "t < length ds" for t
      proof (cases "t = ?w")
        case False
        then obtain k where k: "k < length ?ss" "fst (?ss ! k) = t" using tls_ok_stealers(3) [OF assms(1) t] by blast
        have "unat (last_steal_target tls) + length ?ss < 2 ^ 32" using len by simp
        from all_victims [OF k(1) this] obtain i where "i < length ?ss" "unat (steal_target tls i) = k" by blast
        moreover have all: "\<forall>i \<in> set [0..<length ?ss]. map items ds ! victim tls i = []"
          using r(3) None by (simp add: steal_outcome_def)
        ultimately show ?thesis using bspec [OF all, of i] k t by simp
      qed (use True in simp)
      then show ?thesis using r(3) None by (auto simp: task_outcome_def steal_outcome_def in_set_conv_nth)
    next
      case (Some x)
      then obtain i xs where "i < length ?ss" "map items ds ! victim tls i = x # xs"
        "map items ds' = (map items ds)[victim tls i := xs]" using r(3) by (auto simp: steal_outcome_def)
      then show ?thesis using vic [of i] w True Some by (auto simp: task_outcome_def)
    qed
    moreover have "get_task_with pop_op steal_op tls ds = Some (r, tls', ds')"
      using q(1) True r(1) by (simp add: get_task_with_def)
    ultimately show ?thesis using r(2) by blast
  qed
qed

end

section \<open>The deques of the code\<close>

definition deque_fit :: "nat \<Rightarrow> 'a deque \<Rightarrow> bool" where
  "deque_fit n q \<longleftrightarrow> deque_ok q \<and> (\<exists>m. deque_within m q \<and> m + n < 2 ^ 31)"

lemma entry_steal_law:
  assumes "deque_fit n q"
  shows "\<exists>q'. entry_steal e q = Some (if deque_list q = [] then None else Some (hd (deque_list q)), q') \<and>
    deque_fit n q' \<and> deque_list q' = tl (deque_list q)"
proof -
  obtain m where m: "deque_within m q" "m + n < 2 ^ 31" and ok: "deque_ok q" using assms by (auto simp: deque_fit_def)
  let ?i = "length (id_list q) - Suc e"
  let ?q = "set_tls_entry ?i ((id_list q ! ?i)\<lparr>was_idle := False\<rparr>) q"
  have ok': "deque_ok ?q" "deque_within m ?q" "m < 2 ^ 31" using ok m by simp_all
  let ?q' = "if deque_list q = [] then ?q else ?q\<lparr>top := top q + 1\<rparr>"
  have st: "steal ?q = Some (if deque_list q = [] then None else Some (hd (deque_list q)), ?q')"
    using steal_ok [OF ok'] by simp
  have q': "deque_ok ?q'" "deque_list ?q' = tl (deque_list q)" "deque_within m ?q'"
    using take_top_ok(1,2) [OF ok'(1)] ok' by (auto simp: deque_within_def buf_within_def)
  obtain b where b: "bufs ?q' (deq_buffer ?q') = Some b"
    using q'(1) by (auto elim!: deque_okD dest!: window_alloc)
  let ?r = "set_tls_entry ?i ((id_list ?q' ! ?i)\<lparr>was_idle := True, id_last_used := buf_id b\<rparr>) ?q'"
  have "entry_steal e q = Some (if deque_list q = [] then None else Some (hd (deque_list q)), ?r)"
    using b by (simp add: entry_steal_def stealer_steal_def st del: set_tls_entry_simps)
  moreover have "deque_fit n ?r" "deque_list ?r = tl (deque_list q)" using q' m(2) by (auto simp: deque_fit_def)
  ultimately show ?thesis by blast
qed

lemma pop_bottom_law:
  assumes "deque_fit (Suc n) q"
  shows "\<exists>q'. pop_bottom d q = Some (if deque_list q = [] then None else Some (last (deque_list q)), q') \<and>
    deque_fit n q' \<and> deque_list q' = butlast (deque_list q)"
proof -
  obtain m where m: "deque_within m q" "m + Suc n < 2 ^ 31" and ok: "deque_ok q" using assms by (auto simp: deque_fit_def)
  then have "m < 2 ^ 31" "Suc m + n < 2 ^ 31" by simp_all
  with pop_ok [OF ok m(1), of d] show ?thesis unfolding deque_fit_def by blast
qed

interpretation chase_lev: stealing deque_fit deque_list "pop_bottom d" entry_steal
proof unfold_locales
  show "deque_fit (Suc n) q \<Longrightarrow> deque_fit n q" for n and q :: "'a deque"
    unfolding deque_fit_def by (metis add_Suc_right Suc_lessD)
qed (fact pop_bottom_law entry_steal_law)+

text \<open>\<open>prepare_chase_lev\<close> registers a thief with every other deque.\<close>

lemma register_other:
  assumes "m < length ds" and "\<forall>q \<in> set ds. deque_fit n q"
  shows "map deque_list (ds[m := register_thread (ds ! m)]) = map deque_list ds"
    and "\<forall>q \<in> set (ds[m := register_thread (ds ! m)]). deque_fit n q"
proof -
  show "map deque_list (ds[m := register_thread (ds ! m)]) = map deque_list ds"
    using assms(1) list_update_id [of "map deque_list ds" m] by (simp add: map_update)
  have "deque_fit n (register_thread (ds ! m))" using assms nth_mem by (simp add: deque_fit_def)
  then show "\<forall>q \<in> set (ds[m := register_thread (ds ! m)]). deque_fit n q"
    using assms(2) set_update_subset_insert [of ds m "register_thread (ds ! m)"] by blast
qed

lemma prepare_fold:
  assumes "m \<le> length ds" and "\<forall>q \<in> set ds. deque_fit n q"
  shows "\<exists>ss ds'. fold (prepare_step w) [0..<m] ([], ds) = (ss, ds') \<and> map fst ss = filter (\<lambda>t. t \<noteq> w) [0..<m] \<and>
    map deque_list ds' = map deque_list ds \<and> length ds' = length ds \<and> (\<forall>q \<in> set ds'. deque_fit n q)"
  using assms(1)
proof (induction m)
  case 0
  then show ?case using assms(2) by simp
next
  case (Suc m)
  then obtain ss ds' where IH: "fold (prepare_step w) [0..<m] ([], ds) = (ss, ds')"
    "map fst ss = filter (\<lambda>t. t \<noteq> w) [0..<m]" "map deque_list ds' = map deque_list ds" "length ds' = length ds"
    "\<forall>q \<in> set ds'. deque_fit n q" by auto
  have m: "m < length ds'" using Suc.prems IH(4) by simp
  let ?ds = "ds'[m := register_thread (ds' ! m)]" and ?ss = "ss @ [(m, length (id_list (ds' ! m)))]"
  have fold: "fold (prepare_step w) [0..<Suc m] ([], ds) = prepare_step w m (ss, ds')" using IH(1) by simp
  show ?case
  proof (cases "m = w")
    case True
    then have "prepare_step w m (ss, ds') = (ss, ds')" by (simp add: prepare_step_def)
    moreover have "map fst ss = filter (\<lambda>t. t \<noteq> w) [0..<Suc m]" using IH(2) True by simp
    ultimately show ?thesis unfolding fold using IH(3-5) by blast
  next
    case False
    then have "prepare_step w m (ss, ds') = (?ss, ?ds)" by (simp add: prepare_step_def stealer_new_def)
    moreover have "map fst ?ss = filter (\<lambda>t. t \<noteq> w) [0..<Suc m]" using IH(2) False by simp
    moreover have "map deque_list ?ds = map deque_list ds" "length ?ds = length ds"
      using register_other(1) [OF m IH(5)] IH(3,4) by simp_all
    ultimately show ?thesis unfolding fold using register_other(2) [OF m IH(5)] by blast
  qed
qed

lemma prepare_ok:
  assumes "unat index < length ds" and "length ds < 2 ^ 31" and "\<forall>q \<in> set ds. deque_fit n q"
  obtains tls ds' where "prepare_chase_lev ds index = (tls, ds')" "tls_ok (length ds) tls" "length ds' = length ds"
    "chase_lev_worker tls = unat index" "\<forall>q \<in> set ds'. deque_fit n q" "map deque_list ds' = map deque_list ds"
proof -
  obtain ss ds' where f: "fold (prepare_step (unat index)) [0..<length ds] ([], ds) = (ss, ds')" "map fst ss = filter (\<lambda>t. t \<noteq> unat index) [0..<length ds]"
    "map deque_list ds' = map deque_list ds" "length ds' = length ds" "\<forall>q \<in> set ds'. deque_fit n q"
    using prepare_fold [OF order_refl assms(3), of "unat index"] by blast
  have "unat index + 1 < 2 ^ LENGTH(32)" using assms(1,2) by simp
  then have "unat (index + 1) = unat index + 1" by (simp add: unat_word_ariths)
  then have "tls_ok (length ds) \<lparr>chase_lev_worker = unat index, chase_lev_stealers = ss, last_steal_target = index + 1\<rparr>"
    using assms(1,2) f(2) by (simp add: tls_ok_def)
  then show ?thesis using that f by (simp add: prepare_chase_lev_def)
qed

lemma deque_new_fit: "ls \<le> 30 \<Longrightarrow> n < 2 ^ 31 \<Longrightarrow> deque_fit n (deque_new d ls)"
  using deque_new_ok [of ls d]
  by (auto simp: deque_fit_def deque_new_def deque_within_def buf_within_def buf_new_def intro!: exI [of _ 0])

section \<open>Properties\<close>



end
