(* ===== verification/Task_Conservation.thy ===== *)
theory Task_Conservation
  imports Fiber_Ownership
begin

text \<open>
  What becomes of the tasks: every task that was handed to \<open>submitTasks\<close> is, at every moment and with
  any number of threads, still to be enqueued, in the queue, being executed by exactly one fiber, or
  finished. A task is only lost when the queue refuses it, which stops the program.
\<close>

section \<open>Where a task is\<close>

text \<open>The task a fiber executes, and those its call of \<open>submitTasks\<close> has not enqueued yet.\<close>

fun context_tasks :: "user_context \<Rightarrow> task multiset" where
  "context_tasks (WorkerTask tk) = {#tk#}"
| "context_tasks (MainTask tk) = {#}"

fun cont_tasks :: "counter_cont \<Rightarrow> task multiset" where
  "cont_tasks AfterTask = {#}"
| "cont_tasks (AfterApi ctx) = context_tasks ctx"
| "cont_tasks (AfterSubmit ctx ts c) = context_tasks ctx + mset (map (set_metadata c) ts)"
| "cont_tasks (AfterWait ctx) = context_tasks ctx"

fun pc_tasks :: "fiber_pc \<Rightarrow> task multiset" where
  "pc_tasks (Resumed k) = pc_tasks k"
| "pc_tasks (Running ctx r) = context_tasks ctx"
| "pc_tasks (InCounter i c k) = cont_tasks k"
| "pc_tasks (WaitYield ctx v) = context_tasks ctx"
| "pc_tasks (WaitOver ctx v) = context_tasks ctx"
| "pc_tasks (SubmitEnq ctx ts c b) = context_tasks ctx + mset (map (set_metadata c) ts)"
| "pc_tasks _ = {#}"

definition fiber_tasks :: "'h sched \<Rightarrow> task multiset" where
  "fiber_tasks s = (\<Sum>f<length (mFibers s). pc_tasks (native (mFibers s ! f)))"

definition queued_tasks :: "'h sched \<Rightarrow> task multiset" where
  "queued_tasks s = mset (mpmc_list (mTasks s))"

text \<open>A fiber inside \<open>submitTasks\<close> that has been refused a task, and is about to stop the program.\<close>

fun refusing :: "fiber_pc \<Rightarrow> bool" where
  "refusing (SubmitEnq ctx ts c b) = (\<not> b)"
| "refusing _ = False"

section \<open>Runs with their history\<close>

fun submitted_by :: "'h pool_ops \<Rightarrow> 'h sched \<Rightarrow> user_call \<Rightarrow> task multiset" where
  "submitted_by P s (CallSubmit ts c) = mset (map (set_metadata (pool_index P (mCounterHandles s) c)) ts)"
| "submitted_by P s _ = {#}"

fun finished_by :: "user_context \<Rightarrow> user_call \<Rightarrow> task multiset" where
  "finished_by ctx CallReturn = context_tasks ctx"
| "finished_by ctx _ = {#}"

text \<open>
  What user code changes about counter \<open>i\<close> other than by tasks: the explicit increments and decrements,
  and the reset of a counter that is acquired, which is set to 0.
\<close>

fun changed_by :: "'h pool_ops \<Rightarrow> 'h sched \<Rightarrow> user_call \<Rightarrow> nat \<Rightarrow> cint" where
  "changed_by P s (CallIncrement h a) i = (if i = handle_counter P h s then a else 0)"
| "changed_by P s (CallDecrement h a) i = (if i = handle_counter P h s then a * - 1 else 0)"
| "changed_by P s CallAcquire i =
     (case mpmc_dequeue (mFreeCounters s) of
        Some (Some c, _) \<Rightarrow> if i = unat c then - count (mCounters s ! i) else 0 | _ \<Rightarrow> 0)"
| "changed_by P s _ i = 0"

fun refused_by :: "'h sched \<Rightarrow> fiber_pc \<Rightarrow> task multiset" where
  "refused_by s (SubmitEnq ctx (tk # ts) c b) =
     (case mpmc_enqueue (mTasks s) (set_metadata c tk) of
        Some (False, _) \<Rightarrow> {#set_metadata c tk#} | _ \<Rightarrow> {#})"
| "refused_by s _ = {#}"

text \<open>
  A history of a run: the tasks submitted, finished and refused so far (\<open>S\<close>, \<open>F\<close>, \<open>R\<close>), and for every
  counter its first value with the changes that were not made for a task (\<open>U\<close>).
\<close>

inductive task_history ::
  "bool \<Rightarrow> 'h pool_ops \<Rightarrow> nat \<Rightarrow> nat \<Rightarrow> nat \<Rightarrow> 'h sched \<Rightarrow> task multiset \<Rightarrow> task multiset \<Rightarrow> task multiset \<Rightarrow> (nat \<Rightarrow> cint) \<Rightarrow> bool"
  for dbg P threads fibers counters where
  history_started: "sched_start threads fibers counters pool main s = Some s' \<Longrightarrow>
    fresh_queues fibers counters s \<Longrightarrow> fibers < 2 ^ 32 - 1 \<Longrightarrow> mpmc_ok (mTasks s) \<Longrightarrow> mpmc_list (mTasks s) = [] \<Longrightarrow>
    task_history dbg P threads fibers counters s' {#} {#} {#} (\<lambda>i. count (mCounters s' ! i))"
| history_thread: "task_history dbg P threads fibers counters s S F R U \<Longrightarrow> failed s = None \<Longrightarrow>
    t < length (mThreads s) \<Longrightarrow> tmodes s t = Starting \<Longrightarrow> thread_start t s = Some s' \<Longrightarrow>
    task_history dbg P threads fibers counters s' S F R U"
| history_fiber: "task_history dbg P threads fibers counters s S F R U \<Longrightarrow> failed s = None \<Longrightarrow>
    t < length (mThreads s) \<Longrightarrow> tmodes s t = OnFiber \<Longrightarrow> native (mFibers s ! current t s) = pc \<Longrightarrow>
    exec_pc dbg t pc s = Some s' \<Longrightarrow>
    task_history dbg P threads fibers counters s' S F (R + refused_by s pc) U"
| history_call: "task_history dbg P threads fibers counters s S F R U \<Longrightarrow> failed s = None \<Longrightarrow>
    t < length (mThreads s) \<Longrightarrow> tmodes s t = OnFiber \<Longrightarrow> native (mFibers s ! current t s) = Running ctx r \<Longrightarrow>
    api_call dbg P t ctx call s = Some s' \<Longrightarrow>
    task_history dbg P threads fibers counters s' (S + submitted_by P s call) (F + finished_by ctx call) R
      (\<lambda>i. U i + changed_by P s call i)"

text \<open>The history only records: the states are those that \<open>sched_reach\<close> reaches.\<close>

lemma history_reach: "task_history dbg P threads fibers counters s S F R U \<Longrightarrow> sched_reach dbg P threads fibers counters s"
  by (induction rule: task_history.induct) (blast intro: sched_reach.intros sched_step.intros)+

lemma history_step:
  assumes "sched_step dbg P s s'" and "task_history dbg P threads fibers counters s S F R U"
  shows "\<exists>S' F' R' U'. task_history dbg P threads fibers counters s' S' F' R' U'"
  using assms by (induction rule: sched_step.induct) (blast intro: history_thread history_fiber history_call)+

section \<open>The effect of a step\<close>

fun is_add :: "cpc \<Rightarrow> bool" where
  "is_add (IncAdd _) = False" | "is_add (ChkFree _ _) = False" | "is_add (ChkInUse _ _) = False"
| "is_add (ChkTarget _ _) = False" | "is_add (ChkTake _ _) = False" | "is_add (ChkWake _ _) = False"
| "is_add (ChkRelease _ _) = False" | "is_add (IncDone _) = False" | "is_add _ = True"

fun is_failure :: "cpc \<Rightarrow> bool" where
  "is_failure (CFail _) = True" | "is_failure _ = False"

text \<open>The operation of a counter that a fiber is in fits to what it goes on with.\<close>

fun pc_ok :: "fiber_pc \<Rightarrow> bool" where
  "pc_ok (Resumed k) = pc_ok k"
| "pc_ok (InCounter i c k) = (is_failure c \<or> (is_add c \<longleftrightarrow> (\<exists>ctx. k = AfterWait ctx)))"
| "pc_ok _ = True"

text \<open>What a fiber has still to add to counter \<open>i\<close>.\<close>

fun pc_pending :: "nat \<Rightarrow> fiber_pc \<Rightarrow> cint" where
  "pc_pending i (Resumed k) = pc_pending i k"
| "pc_pending i (InCounter j (IncAdd a) k) = (if i = j then a else 0)"
| "pc_pending i _ = 0"

text \<open>
  A step of the thread on fiber \<open>f\<close>, by which tasks were submitted, finished and refused, and by which
  the values of the counters, with the pending additions, have changed.
\<close>

definition fiber_effect ::
  "nat \<Rightarrow> 'h sched \<Rightarrow> 'h sched \<Rightarrow> task multiset \<Rightarrow> task multiset \<Rightarrow> task multiset \<Rightarrow> (nat \<Rightarrow> cint) \<Rightarrow> bool" where
  "fiber_effect f s s' dS dF dR dC \<longleftrightarrow>
     length (mFibers s') = length (mFibers s) \<and>
     (\<forall>g. g \<noteq> f \<longrightarrow> native (mFibers s' ! g) = native (mFibers s ! g)) \<and>
     (pc_ok (native (mFibers s ! f)) \<longrightarrow> pc_ok (native (mFibers s' ! f))) \<and>
     (mpmc_ok (mTasks s) \<longrightarrow> mpmc_ok (mTasks s')) \<and>
     queued_tasks s' + pc_tasks (native (mFibers s' ! f)) + dF + dR = queued_tasks s + pc_tasks (native (mFibers s ! f)) + dS \<and>
     (dR \<noteq> {#} \<or> refusing (native (mFibers s ! f)) \<longrightarrow> failed s' \<noteq> None \<or> refusing (native (mFibers s' ! f))) \<and>
     (failed s \<noteq> None \<longrightarrow> failed s' \<noteq> None) \<and>
     length (mCounters s') = length (mCounters s) \<and>
     (\<forall>i < length (mCounters s). count (mCounters s' ! i) + pc_pending i (native (mFibers s' ! f)) =
        count (mCounters s ! i) + pc_pending i (native (mFibers s ! f)) + dC i)"

abbreviation quiet :: "nat \<Rightarrow> 'h sched \<Rightarrow> 'h sched \<Rightarrow> bool" where
  "quiet f s s' \<equiv> fiber_effect f s s' {#} {#} {#} (\<lambda>_. 0)"

lemma quiet_trans:
  assumes "quiet f s r" and "fiber_effect f r s' dS dF dR dC"
  shows "fiber_effect f s s' dS dF dR dC"
  using assms unfolding fiber_effect_def by (simp, blast)

lemma trans_quiet:
  assumes "fiber_effect f s r dS dF dR dC" and "quiet f r s'"
  shows "fiber_effect f s s' dS dF dR dC"
  using assms unfolding fiber_effect_def by (simp, blast)

lemma quiet_same:
  assumes "length (mFibers s') = length (mFibers s)" and "\<And>g. native (mFibers s' ! g) = native (mFibers s ! g)"
    and "mTasks s' = mTasks s" and "mCounters s' = mCounters s" and "failed s \<noteq> None \<Longrightarrow> failed s' \<noteq> None"
  shows "quiet f s s'"
  using assms by (auto simp: fiber_effect_def queued_tasks_def)

lemma quiet_fail: "fail e s = Some s' \<Longrightarrow> quiet f s s'"
  by (auto simp: fail_def intro: quiet_same)

lemma native_goto_other: "g \<noteq> current t s \<Longrightarrow> native (mFibers (goto t pc s) ! g) = native (mFibers s ! g)"
  by (simp add: goto_def set_native_def)

lemma goto_here: "current t s < length (mFibers s) \<Longrightarrow> native (mFibers (goto t pc s) ! current t s) = pc"
  by (simp add: goto_def set_native_def)

lemma goto_more [simp]:
  "length (mFibers (goto t pc s)) = length (mFibers s)" "mTasks (goto t pc s) = mTasks s"
  by (simp_all add: goto_def set_native_def)

lemma current_shared_update [simp]:
  "current t (mThreads_update f1 s) = current t s" "current t (mTasks_update f2 s) = current t s"
  "current t (mCounters_update f3 s) = current t s" "current t (mIdleFibers_update f4 s) = current t s"
  "current t (mResumableFibers_update f5 s) = current t s" "current t (mFreeCounters_update f6 s) = current t s"
  "current t (mCounterHandles_update f7 s) = current t s" "current t (mIsShuttingDown_update f8 s) = current t s"
  "current t (s_tls_update (\<lambda>_. (s_tls s)(t := s_tls s t\<lparr>is_thread_waiting := b\<rparr>)) s) = current t s"
  by (simp_all add: current_def)

text \<open>A new position of the current fiber, after a change \<open>r\<close> of other parts of the state.\<close>

lemma effect_goto:
  assumes f: "f < length (mFibers s)"
    and r: "mFibers r = mFibers s" "current t r = f" "failed r = failed s" "length (mCounters r) = length (mCounters s)"
    and pc: "native (mFibers s ! f) = pc" "pc_ok pc \<Longrightarrow> pc_ok pc'"
    and queue: "mpmc_ok (mTasks s) \<Longrightarrow> mpmc_ok (mTasks r)"
    and balance: "mset (mpmc_list (mTasks r)) + pc_tasks pc' + dF + dR = queued_tasks s + pc_tasks pc + dS"
    and refuse: "dR \<noteq> {#} \<or> refusing pc \<Longrightarrow> refusing pc'"
    and counts: "\<And>i. i < length (mCounters s) \<Longrightarrow>
      count (mCounters r ! i) + pc_pending i pc' = count (mCounters s ! i) + pc_pending i pc + dC i"
  shows "fiber_effect f s (goto t pc' r) dS dF dR dC"
proof -
  have "native (mFibers (goto t pc' r) ! f) = pc'" using goto_here [of t r pc'] r f by simp
  moreover have "native (mFibers (goto t pc' r) ! g) = native (mFibers s ! g)" if "g \<noteq> f" for g
    using that native_goto_other [of g t r pc'] r by simp
  ultimately show ?thesis using assms by (simp add: fiber_effect_def queued_tasks_def)
qed

text \<open>The same for steps that leave the tasks and the counters alone.\<close>

lemma quiet_goto:
  assumes f: "f < length (mFibers s)"
    and r: "mFibers r = mFibers s" "current t r = f" "failed r = failed s" "mTasks r = mTasks s" "mCounters r = mCounters s"
    and pc: "native (mFibers s ! f) = pc" "pc_ok pc \<Longrightarrow> pc_ok pc'" "pc_tasks pc' = pc_tasks pc" "refusing pc \<Longrightarrow> refusing pc'"
      "\<And>i. pc_pending i pc' = pc_pending i pc"
  shows "quiet f s (goto t pc' r)"
  using assms by (intro effect_goto) (simp_all add: queued_tasks_def)

lemma quiet_yield:
  assumes f: "f < length (mFibers s)"
    and r: "length (mFibers r) = length (mFibers s)" "\<And>g. native (mFibers r ! g) = native (mFibers s ! g)"
      "current t r = f" "failed r = failed s" "mTasks r = mTasks s" "mCounters r = mCounters s"
    and pc: "native (mFibers s ! f) = pc" "pc_ok pc \<Longrightarrow> pc_ok k" "pc_tasks k = pc_tasks pc" "\<not> refusing pc"
      "\<And>i. pc_pending i k = pc_pending i pc"
    and y: "yieldToFiber dbg t g dest k r = Some s'"
  shows "quiet f s s'"
proof -
  have sr: "quiet f s r" using r by (intro quiet_same) simp_all
  have go: "quiet f r (goto t (Resumed k) r)"
    using f r pc by (intro quiet_goto [where pc = pc]) simp_all
  show ?thesis
  proof (cases "dbg \<and> (current_fiber_index (s_tls r t) = invalid_fiber \<or> g = invalid_fiber)")
    case True
    then have "fail (Assertion ''previous_fiber_index != invalid_fiber && current_fiber_index != invalid_fiber'') r = Some s'"
      using y by (simp only: yieldToFiber_def Let_def if_True simp_thms)
    then show ?thesis using quiet_trans [OF sr quiet_fail] by blast
  next
    case False
    then have "\<exists>l. s' = set_tls t l (goto t (Resumed k) r)"
      using y unfolding yieldToFiber_def Let_def by (simp only: if_False option.inject) blast
    then have "quiet f (goto t (Resumed k) r) s'" by (auto simp: set_tls_def intro: quiet_same)
    then show ?thesis using quiet_trans [OF sr] quiet_trans [OF go] by blast
  qed
qed

section \<open>The steps\<close>

lemma cleanup_same:
  assumes "cleanUpPrevFiber t s = Some r"
  shows "native (mFibers r ! g) = native (mFibers s ! g)" and "length (mFibers r) = length (mFibers s)"
    and "current u r = current u s" and "mTasks r = mTasks s" and "mCounters r = mCounters s" and "failed r = failed s"
proof -
  note defs = cleanUpPrevFiber_def Let_def set_tls_def set_cleaned_up_def current_def
  show "native (mFibers r ! g) = native (mFibers s ! g)"
    using assms by (cases "g = unat (previous_fiber_index (s_tls s t))"; cases "g < length (mFibers s)")
      (auto simp: defs not_less list_update_beyond split: fiber_destination_e.splits option.splits)
  show "length (mFibers r) = length (mFibers s)" "current u r = current u s" "mTasks r = mTasks s"
    "mCounters r = mCounters s" "failed r = failed s"
    using assms by (auto simp: defs split: fiber_destination_e.splits option.splits)
qed

lemma quiet_wake: "wake_fiber dbg w r = Some s' \<Longrightarrow> quiet f r s'"
  by (intro quiet_same)
    (auto simp: wake_fiber_def fail_def set_pinned_def split: if_splits option.splits sum.splits prod.splits)

lemma quiet_resume:
  assumes f: "current t s < length (mFibers s)"
    and pc: "native (mFibers s ! current t s) = pc" "pc_tasks pc = {#}" "\<not> refusing pc" "\<And>i. pc_pending i pc = 0"
    and k: "pc_ok k" "pc_tasks k = {#}" "\<And>i. pc_pending i k = 0" "pc_ok k'" "pc_tasks k' = {#}" "\<And>i. pc_pending i k' = 0"
    and ex: "tryResumeFiber dbg t g k k' s = Some s'"
  shows "quiet (current t s) s s'"
proof -
  consider "\<not> unat g < length (mFibers s)" | "unat g < length (mFibers s)" "is_waiting_cleaned_up (mFibers s ! unat g)"
    | "unat g < length (mFibers s)" "\<not> is_waiting_cleaned_up (mFibers s ! unat g)" by blast
  then show ?thesis
  proof cases
    case 1
    then show ?thesis using ex quiet_fail by (simp add: tryResumeFiber_def)
  next
    case 2
    then have y: "yieldToFiber dbg t g dest_pool k (set_cleaned_up (unat g) False s) = Some s'"
      using ex by (simp add: tryResumeFiber_def)
    have "native (mFibers (set_cleaned_up (unat g) False s) ! h) = native (mFibers s ! h)" for h
      using 2(1) by (cases "h = unat g") (simp_all add: set_cleaned_up_def)
    then show ?thesis using pc k
      by (intro quiet_yield [OF f _ _ _ _ _ _ pc(1) _ _ _ _ y]) (simp_all add: set_cleaned_up_def current_def)
  next
    case 3
    then have "s' = goto t k' s" using ex by (simp add: tryResumeFiber_def)
    then show ?thesis using pc k by (auto intro: quiet_goto [OF f])
  qed
qed

lemma counter_kind: "cpc_step c a = (c', a', w) \<Longrightarrow> \<not> is_failure c \<Longrightarrow> is_failure c' \<or> (is_add c' = is_add c)"
  by (cases c) (auto split: if_splits)

text \<open>Only the addition changes the value of a counter.\<close>

lemma counter_value: "cpc_step c a = (c', a', w) \<Longrightarrow>
    count a' + pc_pending i (InCounter i c' k) = count a + pc_pending i (InCounter i c k)"
  by (cases c) (auto simp: slot_simps split: if_splits)

lemma pending_other: "i \<noteq> j \<Longrightarrow> pc_pending i (InCounter j c k) = 0"
  by (cases c) simp_all

lemma quiet_counter:
  assumes f: "current t s < length (mFibers s)"
    and pc: "native (mFibers s ! current t s) = InCounter i c k" and ok: "pc_ok (InCounter i c k)"
    and ex: "exec_pc dbg t (InCounter i c k) s = Some s'"
  shows "quiet (current t s) s s'"
proof -
  consider "\<not> i < length (mCounters s)" | "i < length (mCounters s)" "cpc_returned c"
    | "i < length (mCounters s)" "\<not> cpc_returned c" by blast
  then show ?thesis
  proof cases
    case 1
    then show ?thesis using ex quiet_fail by simp
  next
    case 2
    show ?thesis
    proof (cases "counter_returns c k")
      case (Inl e)
      then show ?thesis using ex 2 quiet_fail by simp
    next
      case (Inr pc')
      then have "s' = goto t pc' s" using ex 2 by simp
      moreover have "pc_ok pc' \<and> pc_tasks pc' = cont_tasks k \<and> (\<forall>j. pc_pending j pc' = pc_pending j (InCounter i c k))"
        using Inr ok 2(2) by (cases c; cases k) (auto split: if_splits)
      ultimately show ?thesis using pc by (auto intro: quiet_goto [OF f])
    qed
  next
    case 3
    obtain c' a w where st: "cpc_step c (mCounters s ! i) = (c', a, w)" by (metis prod_cases3)
    let ?s = "goto t (InCounter i c' k) (s\<lparr>mCounters := (mCounters s)[i := a]\<rparr>)"
    have "\<not> is_failure c" using 3(2) by (cases c) simp_all
    then have "pc_ok (InCounter i c' k)" using ok counter_kind [OF st] by auto
    moreover have "count ((mCounters s)[i := a] ! j) + pc_pending j (InCounter i c' k) =
        count (mCounters s ! j) + pc_pending j (InCounter i c k)" if "j < length (mCounters s)" for j
      using counter_value [OF st, of i k] that by (cases "j = i") (simp_all add: pending_other)
    ultimately have "quiet (current t s) s ?s"
      by (intro effect_goto [OF f _ _ _ _ pc]) (simp_all add: current_def queued_tasks_def)
    moreover have "case w of None \<Rightarrow> s' = ?s | Some x \<Rightarrow> wake_fiber dbg x ?s = Some s'"
      using ex 3 st by (auto simp: counter_action_def Let_def split: option.splits)
    ultimately show ?thesis using quiet_trans [OF _ quiet_wake] by (cases w) auto
  qed
qed

lemma quiet_get_task:
  assumes ok: "mpmc_ok (mTasks s)" and f: "current t s < length (mFibers s)"
    and pc: "native (mFibers s ! current t s) = GetTask bp"
    and ex: "exec_pc dbg t (GetTask bp) s = Some s'"
  shows "quiet (current t s) s s'"
proof -
  obtain x q where d: "mpmc_dequeue (mTasks s) = Some (x, q)" using mpmc.deq_total [OF ok] by blast
  from ok d show ?thesis
  proof (cases rule: mpmc.deqE)
    case (some tk)
    then have "s' = goto t (Running (WorkerTask tk) NoResult) (s\<lparr>mTasks := q\<rparr>)" using ex d by simp
    then show ?thesis using some pc
      by (simp, intro effect_goto [OF f _ _ _ _ pc]) (simp_all add: queued_tasks_def current_def)
  next
    case none
    then have "s' = goto t (NoTask bp) s" using ex d by simp
    then show ?thesis using pc by (auto intro: quiet_goto [OF f])
  qed
qed

lemma submit_effect:
  assumes ok: "mpmc_ok (mTasks s)" and f: "current t s < length (mFibers s)"
    and pc: "native (mFibers s ! current t s) = SubmitEnq ctx ts c b"
    and ex: "exec_pc dbg t (SubmitEnq ctx ts c b) s = Some s'"
  shows "fiber_effect (current t s) s s' {#} {#} (refused_by s (SubmitEnq ctx ts c b)) (\<lambda>_. 0)"
proof (cases ts)
  case Nil
  show ?thesis
  proof (cases b)
    case True
    then have "s' = goto t (Running ctx NoResult) s" using ex Nil by simp
    then show ?thesis using pc Nil True by (auto intro: quiet_goto [OF f])
  qed (use ex Nil quiet_fail in simp)
next
  case (Cons tk ts')
  obtain b' q where e: "mpmc_enqueue (mTasks s) (set_metadata c tk) = Some (b', q)" using mpmc.enq_total [OF ok] by blast
  then have s': "s' = goto t (SubmitEnq ctx ts' c (b \<and> b')) (s\<lparr>mTasks := q\<rparr>)" using ex Cons by simp
  have "mpmc_ok q \<and> mset (mpmc_list q) + (if b' then {#} else {#set_metadata c tk#}) = queued_tasks s + {#set_metadata c tk#}"
    using ok e by (cases rule: mpmc.enqE) (simp_all add: queued_tasks_def ok)
  moreover have "refused_by s (SubmitEnq ctx ts c b) = (if b' then {#} else {#set_metadata c tk#})"
    using e Cons by simp
  ultimately show ?thesis unfolding s' using Cons
    by (intro effect_goto [OF f _ _ _ _ pc]) (auto simp: current_def ac_simps split: if_splits)
qed

text \<open>The step of a fiber.\<close>

lemma exec_effect:
  assumes ok: "mpmc_ok (mTasks s)" "pc_ok pc" and f: "current t s < length (mFibers s)"
    and pc: "native (mFibers s ! current t s) = pc" and ex: "exec_pc dbg t pc s = Some s'"
  shows "fiber_effect (current t s) s s' {#} {#} (refused_by s pc) (\<lambda>_. 0)"
proof -
  note go = quiet_goto [OF f _ _ _ _ _ pc]
  show ?thesis
  proof (cases pc)
    case (Resumed k)
    with ex obtain r where r: "cleanUpPrevFiber t s = Some r" "s' = goto t k r" by auto
    note same = cleanup_same [OF r(1)]
    have "quiet (current t s) s r" by (intro quiet_same) (simp_all add: same)
    moreover have "quiet (current t s) r (goto t k r)"
      using pc f Resumed by (intro quiet_goto [where pc = pc]) (simp_all add: same)
    ultimately show ?thesis using quiet_trans r(2) Resumed by fastforce
  next
    case (InCounter i c k)
    then show ?thesis using quiet_counter [OF f _ _ ex [unfolded InCounter]] pc ok(2) by simp
  next
    case (GetTask bp)
    then show ?thesis using quiet_get_task [OF ok(1) f _ ex [unfolded GetTask]] pc by simp
  next
    case (SubmitEnq ctx ts c b)
    then show ?thesis using submit_effect [OF ok(1) f _ ex [unfolded SubmitEnq]] pc by simp
  next
    case (TryPinned bp g)
    then show ?thesis using quiet_resume [OF f pc, of "GetGlobal bp" "BackPinned bp g"] ex by simp
  next
    case (TryGlobal bp g)
    then show ?thesis using quiet_resume [OF f pc, of "GetTask bp" "BackGlobal bp g"] ex by simp
  next
    case (WaitYield ctx v)
    with ex obtain x q where d: "mpmc_dequeue (mIdleFibers s) = Some (x, q)"
      by (auto simp: acquireFreeFiber_def split: option.splits)
    show ?thesis
    proof (cases x)
      case None
      then show ?thesis using ex d WaitYield by (auto simp: acquireFreeFiber_def intro: quiet_same)
    next
      case (Some g)
      then have y: "yieldToFiber dbg t g dest_waiting (WaitOver ctx v) (s\<lparr>mIdleFibers := q\<rparr>) = Some s'"
        using ex d WaitYield by (simp add: acquireFreeFiber_def)
      show ?thesis using WaitYield
        by (simp, intro quiet_yield [OF f _ _ _ _ _ _ pc _ _ _ _ y]) (simp_all add: current_def)
    qed
  next
    case (LoopTop bp)
    have ended: "quiet (current t s) s (goto t Ended s)" and top: "quiet (current t s) s (goto t (GetPinned bp) s)"
      using LoopTop by (auto intro: go)
    have "quiet (current t s) (goto t Ended s) (return_thread t (goto t Ended s))"
      by (intro quiet_same) (simp_all add: return_thread_def)
    from quiet_trans [OF ended this] top show ?thesis using ex LoopTop by (auto split: if_splits)
  qed (use ex quiet_fail in \<open>auto simp: Let_def set_pinned_def set_tls_def intro!: go
    split: option.splits prod.splits sum.splits list.splits if_splits\<close>)
qed

text \<open>The number of the tasks of counter \<open>i\<close>, and what a call of user code will have added to it.\<close>

definition tasks_on :: "nat \<Rightarrow> task multiset \<Rightarrow> cint" where
  "tasks_on i M = of_nat (size (filter_mset (\<lambda>tk. unat (get_metadata tk) = i) M))"

lemma tasks_on_simps [simp]: "tasks_on i {#} = 0" "tasks_on i (A + B) = tasks_on i A + tasks_on i B"
  "tasks_on i {#tk#} = (if unat (get_metadata tk) = i then 1 else 0)"
  by (simp_all add: tasks_on_def)

lemma tasks_on_submitted: "tasks_on i (mset (map (set_metadata c) ts)) = (if i = unat c then of_nat (length ts) else 0)"
proof -
  have "get_metadata (set_metadata c tk) = c" for tk by (simp add: get_metadata_def set_metadata_def)
  then show ?thesis by (induction ts) (auto simp: tasks_on_def)
qed

definition added_by :: "'h pool_ops \<Rightarrow> 'h sched \<Rightarrow> user_context \<Rightarrow> user_call \<Rightarrow> nat \<Rightarrow> cint" where
  "added_by P s ctx call i = tasks_on i (submitted_by P s call) - tasks_on i (finished_by ctx call) + changed_by P s call i"

lemma added_by_simps [simp]:
  "added_by P s ctx (CallWait h pinned v) = (\<lambda>_. 0)" "added_by P s ctx (CallRelease h) = (\<lambda>_. 0)"
  "added_by P s ctx (CallReleaseIfOnTarget h v) = (\<lambda>_. 0)" "added_by P s (MainTask tk) CallReturn = (\<lambda>_. 0)"
  "added_by P s (WorkerTask tk) CallReturn i = (if i = unat (get_metadata tk) then - 1 else 0)"
  "added_by P s ctx (CallSubmit ts h) i = (if i = handle_counter P h s then of_nat (length ts) else 0)"
  "added_by P s ctx (CallIncrement h a) i = (if i = handle_counter P h s then a else 0)"
  "added_by P s ctx (CallDecrement h a) i = (if i = handle_counter P h s then a * - 1 else 0)"
  "added_by P s ctx CallAcquire i = changed_by P s CallAcquire i"
  by (auto simp: added_by_def fun_eq_iff tasks_on_submitted [simplified mset_map] handle_counter_def)

lemma increment_pc:
  "\<nexists>ctx. k = AfterWait ctx \<Longrightarrow> pc_ok (InCounter i (counterIncrement dbg a) k)"
  "pc_pending j (InCounter i (counterIncrement dbg a) k) = (if j = i then a else 0)"
  by (auto simp: counterIncrement_def cc_assert_def split: sum.split if_splits)

lemma free_counter_quiet: "free_counter_of P c s = Some r \<Longrightarrow>
    mFibers r = mFibers s \<and> current t r = current t s \<and> failed r = failed s \<and> mTasks r = mTasks s \<and> mCounters r = mCounters s"
  by (auto simp: free_counter_of_def split: option.splits)

lemma wait_effect:
  assumes f: "current t s < length (mFibers s)" and pc: "native (mFibers s ! current t s) = Running ctx r"
    and ex: "sched_wait dbg P t ctx c pinned target s = Some s'"
  shows "quiet (current t s) s s'"
proof -
  let ?pc = "InCounter (handle_counter P c s) (counterAddWaitingFiber (current_fiber_index (s_tls s t))
    (if pinned then thread_index (s_tls s t) else invalid_thread) target) (AfterWait ctx)"
  let ?r = "set_tls t ((s_tls s t)\<lparr>is_thread_waiting := True\<rparr>) (set_cleaned_up (current t s) False s)"
  have nat: "native (mFibers ?r ! g) = native (mFibers s ! g)" for g
    using f by (cases "g = current t s") (simp_all add: set_tls_def set_cleaned_up_def)
  have r: "length (mFibers ?r) = length (mFibers s)" "current t ?r = current t s" "mTasks ?r = mTasks s"
    "mCounters ?r = mCounters s" "failed ?r = failed s"
    by (simp_all add: set_tls_def set_cleaned_up_def current_def)
  have "quiet (current t s) s ?r" using nat r by (intro quiet_same) simp_all
  moreover have "quiet (current t s) ?r (goto t ?pc ?r)"
    using r nat f pc by (intro quiet_goto [where pc = "Running ctx r"]) (simp_all add: counterAddWaitingFiber_def)
  ultimately have "quiet (current t s) s (goto t ?pc ?r)" by (rule quiet_trans)
  then show ?thesis using ex quiet_fail by (auto simp: sched_wait_def Let_def split: sum.splits)
qed

lemma acquire_effect:
  assumes f: "current t s < length (mFibers s)" and pc: "native (mFibers s ! current t s) = Running ctx r"
    and ex: "acquireCounterHandle P t ctx s = Some s'" and none: "failed s' = None"
  shows "fiber_effect (current t s) s s' {#} {#} {#} (added_by P s ctx CallAcquire)"
proof -
  from ex none obtain c q where d: "mpmc_dequeue (mFreeCounters s) = Some (Some c, q)" "unat c < length (mCounters s)"
    by (auto simp: acquireCounterHandle_def fail_def split: option.splits if_splits)
  obtain h hs where h: "pool_acquire P (mCounterHandles s) = (h, hs)" by fastforce
  then have "s' = goto t (Running ctx (HandleResult h))
      (s\<lparr>mFreeCounters := q, mCounters := (mCounters s)[unat c := counter_reset (mCounters s ! unat c)],
         mCounterHandles := pool_set_index P hs h c\<rparr>)"
    using ex d by (simp add: acquireCounterHandle_def)
  then show ?thesis using d pc
    by (simp, intro effect_goto [OF f _ _ _ _ pc]) (simp_all add: queued_tasks_def nth_list_update counter_reset_def)
qed

text \<open>A call of user code that does not stop the program.\<close>

lemma api_effect:
  assumes f: "current t s < length (mFibers s)" and pc: "native (mFibers s ! current t s) = Running ctx r"
    and ex: "api_call dbg P t ctx call s = Some s'" and none: "failed s' = None"
  shows "fiber_effect (current t s) s s' (submitted_by P s call) (finished_by ctx call) {#} (added_by P s ctx call)"
proof -
  note go = quiet_goto [OF f _ _ _ _ _ pc] and eff = effect_goto [OF f refl refl refl refl pc]
  show ?thesis
  proof (cases call)
    case (CallWait c pinned target)
    then show ?thesis using wait_effect [OF f pc] ex by simp
  next
    case (CallSubmit ts c)
    then show ?thesis using ex
      by (auto simp: submitTasks_def increment_pc queued_tasks_def simp del: pc_ok.simps(2) pc_pending.simps(2) intro!: eff)
  next
    case (CallIncrement c a)
    then show ?thesis using ex
      by (auto simp: increment_pc queued_tasks_def simp del: pc_ok.simps(2) pc_pending.simps(2) intro!: eff)
  next
    case (CallDecrement c a)
    then show ?thesis using ex
      by (auto simp: increment_pc queued_tasks_def simp del: pc_ok.simps(2) pc_pending.simps(2) intro!: eff)
  next
    case CallAcquire
    then show ?thesis using acquire_effect [OF f pc _ none] ex by simp
  next
    case (CallRelease c)
    then show ?thesis using ex none
      by (auto simp: releaseCounter_def fail_def dest!: free_counter_quiet split: if_splits intro!: go)
  next
    case (CallReleaseIfOnTarget c target)
    then show ?thesis using ex none
      by (auto simp: releaseCounterIfOnTarget_def fail_def dest!: free_counter_quiet split: if_splits intro!: go)
  next
    case CallReturn
    show ?thesis
    proof (cases ctx)
      case (MainTask tk)
      let ?s = "goto t Ended (s\<lparr>mIsShuttingDown := True\<rparr>)"
      have e: "quiet (current t s) s ?s" using MainTask by (intro go) simp_all
      have "quiet (current t s) ?s (return_thread t ?s)" by (intro quiet_same) (simp_all add: return_thread_def)
      from quiet_trans [OF e this] show ?thesis using ex CallReturn MainTask by simp
    next
      case (WorkerTask tk)
      then show ?thesis using ex CallReturn
        by (auto simp: increment_pc queued_tasks_def simp del: pc_ok.simps(2) pc_pending.simps(2) intro!: eff)
    qed
  qed
qed

lemma api_fail:
  assumes "api_call dbg P t ctx call s = Some s'" and "failed s = None" and "failed s' \<noteq> None"
  shows "(\<exists>e. s' = s\<lparr>failed := e\<rparr>) \<and> submitted_by P s call = {#} \<and> finished_by ctx call = {#}"
proof (cases call)
  case CallReturn
  then show ?thesis using assms by (cases ctx) (auto simp: return_thread_def)
qed (use assms in \<open>auto simp: sched_wait_def submitTasks_def acquireCounterHandle_def releaseCounter_def Let_def
  releaseCounterIfOnTarget_def fail_def set_tls_def set_cleaned_up_def dest!: free_counter_quiet
  split: option.splits prod.splits if_splits sum.splits\<close>)

lemma thread_effect:
  assumes fib: "fibers_inv s" and ex: "thread_start t s = Some s'"
  shows "s' = s \<or> (\<exists>f < length (mFibers s). quiet f s s')"
proof -
  obtain x q where d: "mpmc_dequeue (mIdleFibers s) = Some (x, q)"
    using ex by (auto simp: thread_start_def acquireFreeFiber_def split: option.splits)
  have ok: "mpmc_ok (mIdleFibers s)" using inv_queue [OF fib] by (simp add: pool_queue_ok_def)
  from ok d show ?thesis
  proof (cases rule: mpmc.deqE)
    case none
    then show ?thesis using ex d by (simp add: thread_start_def acquireFreeFiber_def)
  next
    case (some f)
    let ?r = "set_tls t ((s_tls s t)\<lparr>current_fiber_index := f\<rparr>) (s\<lparr>mIdleFibers := q, tmodes := (tmodes s)(t := OnFiber)\<rparr>)"
    have s': "s' = (if t = 0 then set_native (unat f) (Running (MainTask (main_task s)) NoResult) ?r else ?r)"
      using ex d some by (cases "t = 0") (auto simp: thread_start_def acquireFreeFiber_def Let_def set_tls_def)
    have r: "quiet (unat f) s ?r" by (intro quiet_same) (simp_all add: set_tls_def)
    have idle: "unat f \<in># idle_fibers s" using some by (simp add: idle_fibers_def)
    have pool: "pooled (native (mFibers s ! unat f))" using inv_contexts(1) [OF fib] idle by blast
    have "idle_fibers s \<subseteq># owners s" by (simp add: owners_def add.assoc)
    then have "unat f \<in># mset_set {..<length (mFibers s)}" using idle fib unfolding fibers_inv_def by (metis mset_subset_eqD)
    then have f: "unat f < length (mFibers s)" by simp
    have "quiet (unat f) s (set_native (unat f) (Running (MainTask (main_task s)) NoResult) ?r)"
      using pool f by (cases "native (mFibers s ! unat f)" rule: pooled.cases)
        (auto simp: fiber_effect_def set_native_def set_tls_def queued_tasks_def)
    then show ?thesis using s' r f by (cases "t = 0") auto
  qed
qed

section \<open>The invariant\<close>

definition history_ok :: "'h sched \<Rightarrow> task multiset \<Rightarrow> task multiset \<Rightarrow> task multiset \<Rightarrow> (nat \<Rightarrow> cint) \<Rightarrow> bool" where
  "history_ok s S F R U \<longleftrightarrow>
     mpmc_ok (mTasks s) \<and> (\<forall>f < length (mFibers s). pc_ok (native (mFibers s ! f))) \<and>
     S = queued_tasks s + fiber_tasks s + F + R \<and>
     (R = {#} \<or> failed s \<noteq> None \<or> (\<exists>f < length (mFibers s). refusing (native (mFibers s ! f)))) \<and>
     (\<forall>i < length (mCounters s). count (mCounters s ! i) + (\<Sum>f<length (mFibers s). pc_pending i (native (mFibers s ! f))) =
        tasks_on i S - tasks_on i F + U i)"

lemma sum_split_fiber:
  assumes "f < length (mFibers s)" and "length (mFibers s') = length (mFibers s)"
    and "\<forall>g. g \<noteq> f \<longrightarrow> native (mFibers s' ! g) = native (mFibers s ! g)"
  obtains rest where "(\<Sum>g<length (mFibers s). h (native (mFibers s ! g))) = h (native (mFibers s ! f)) + rest"
    "(\<Sum>g<length (mFibers s'). h (native (mFibers s' ! g))) = h (native (mFibers s' ! f)) + (rest :: 'b :: comm_monoid_add)"
proof (rule that)
  let ?r = "\<lambda>s. \<Sum>g\<in>{..<length (mFibers s)} - {f}. h (native (mFibers s ! g))"
  show "(\<Sum>g<length (mFibers s). h (native (mFibers s ! g))) = h (native (mFibers s ! f)) + ?r s"
    using assms(1) by (simp add: sum.remove)
  have "?r s' = ?r s" using assms by (intro sum.cong) auto
  moreover have "(\<Sum>g<length (mFibers s'). h (native (mFibers s' ! g))) = h (native (mFibers s' ! f)) + ?r s'"
    using assms(1,2) by (simp add: sum.remove)
  ultimately show "(\<Sum>g<length (mFibers s'). h (native (mFibers s' ! g))) = h (native (mFibers s' ! f)) + ?r s" by simp
qed

lemma effect_balance:
  assumes inv: "history_ok s S F R U" and f: "f < length (mFibers s)" and eff: "fiber_effect f s s' dS dF dR dC"
  shows "S + dS = queued_tasks s' + fiber_tasks s' + (F + dF) + (R + dR)"
proof -
  note e = eff [unfolded fiber_effect_def]
  obtain rest where r: "fiber_tasks s = pc_tasks (native (mFibers s ! f)) + rest"
    "fiber_tasks s' = pc_tasks (native (mFibers s' ! f)) + rest"
    using sum_split_fiber [OF f, of s' pc_tasks] e unfolding fiber_tasks_def by blast
  have "queued_tasks s' + fiber_tasks s' + (F + dF) + (R + dR) =
      (queued_tasks s' + pc_tasks (native (mFibers s' ! f)) + dF + dR) + (rest + F + R)" unfolding r by (simp only: ac_simps)
  also have "\<dots> = (queued_tasks s + pc_tasks (native (mFibers s ! f)) + dS) + (rest + F + R)" using e by (simp only: simp_thms)
  also have "\<dots> = (queued_tasks s + fiber_tasks s + F + R) + dS" unfolding r by (simp only: ac_simps)
  finally show ?thesis using inv by (simp add: history_ok_def)
qed

lemma effect_refusal:
  assumes inv: "history_ok s S F R U" and eff: "fiber_effect f s s' dS dF dR dC" and f: "f < length (mFibers s)"
  shows "R + dR = {#} \<or> failed s' \<noteq> None \<or> (\<exists>g < length (mFibers s'). refusing (native (mFibers s' ! g)))"
proof (cases "dR \<noteq> {#} \<or> refusing (native (mFibers s ! f))")
  case True
  then show ?thesis using eff f unfolding fiber_effect_def by metis
next
  case False
  then have "R = {#} \<or> failed s \<noteq> None \<or> (\<exists>g < length (mFibers s). g \<noteq> f \<and> refusing (native (mFibers s ! g)))"
    using inv unfolding history_ok_def by metis
  then show ?thesis using False eff unfolding fiber_effect_def by (metis add.right_neutral)
qed

lemma effect_counts:
  assumes inv: "history_ok s S F R U" and f: "f < length (mFibers s)" and eff: "fiber_effect f s s' dS dF dR dC"
    and i: "i < length (mCounters s)" and dC: "dC i = tasks_on i dS - tasks_on i dF + dU i"
  shows "count (mCounters s' ! i) + (\<Sum>g<length (mFibers s'). pc_pending i (native (mFibers s' ! g))) =
    tasks_on i (S + dS) - tasks_on i (F + dF) + (U i + dU i)"
proof -
  note e = eff [unfolded fiber_effect_def]
  obtain rest where r: "(\<Sum>g<length (mFibers s). pc_pending i (native (mFibers s ! g))) = pc_pending i (native (mFibers s ! f)) + rest"
    "(\<Sum>g<length (mFibers s'). pc_pending i (native (mFibers s' ! g))) = pc_pending i (native (mFibers s' ! f)) + rest"
    using sum_split_fiber [OF f, of s' "pc_pending i"] e by blast
  have "count (mCounters s' ! i) + pc_pending i (native (mFibers s' ! f)) =
      count (mCounters s ! i) + pc_pending i (native (mFibers s ! f)) + dC i" using e i by blast
  moreover have "count (mCounters s ! i) + (pc_pending i (native (mFibers s ! f)) + rest) = tasks_on i S - tasks_on i F + U i"
    using inv i r(1) unfolding history_ok_def by metis
  ultimately show ?thesis unfolding r(2) dC by (simp add: algebra_simps)
qed

lemma effect_ok:
  assumes inv: "history_ok s S F R U" and f: "f < length (mFibers s)" and eff: "fiber_effect f s s' dS dF dR dC"
    and dC: "\<And>i. i < length (mCounters s) \<Longrightarrow> dC i = tasks_on i dS - tasks_on i dF + dU i"
  shows "history_ok s' (S + dS) (F + dF) (R + dR) (\<lambda>i. U i + dU i)"
proof -
  note e = eff [unfolded fiber_effect_def]
  have "\<forall>g < length (mFibers s'). pc_ok (native (mFibers s' ! g))"
    using inv e f unfolding history_ok_def by metis
  moreover have "mpmc_ok (mTasks s')" using inv e by (simp add: history_ok_def)
  moreover have "length (mCounters s') = length (mCounters s)" using e by blast
  then have counts: "\<forall>i < length (mCounters s'). count (mCounters s' ! i) +
      (\<Sum>g<length (mFibers s'). pc_pending i (native (mFibers s' ! g))) =
      tasks_on i (S + dS) - tasks_on i (F + dF) + (U i + dU i)"
    using effect_counts [OF inv f eff] dC by simp
  ultimately show ?thesis
    using effect_balance [OF inv f eff] effect_refusal [OF inv eff f] counts unfolding history_ok_def by blast
qed

lemma history_inv: "task_history dbg P threads fibers counters s S F R U \<Longrightarrow> history_ok s S F R U"
proof (induction rule: task_history.induct)
  case (history_started pool main s s')
  let ?s = "sched_arrays threads fibers counters pool main s"
  have "mTasks s' = mTasks ?s" "mFibers s' = mFibers ?s"
    using history_started(1) by (auto simp: sched_start_def populate_def split: option.splits)
  then show ?case using history_started(4,5)
    by (auto simp: history_ok_def queued_tasks_def fiber_tasks_def sched_arrays_def fiber_created_def)
next
  case (history_thread s S F R U t s')
  then have inv: "history_ok s S F R U" by simp
  from thread_effect [OF sched_reach_inv [OF history_reach [OF history_thread(1)]] history_thread(5)]
  show ?case using effect_ok [OF inv, where dU = "\<lambda>_. 0"] inv by fastforce
next
  case (history_fiber s S F R U t pc s')
  then have inv: "history_ok s S F R U" by simp
  have "tmodes s t \<noteq> Starting" using history_fiber(4) by simp
  from current_free(1) [OF sched_reach_inv [OF history_reach [OF history_fiber(1)]] history_fiber(3) this]
  have f: "current t s < length (mFibers s)" .
  have "fiber_effect (current t s) s s' {#} {#} (refused_by s pc) (\<lambda>_. 0)"
    using inv f history_fiber(5) by (intro exec_effect [OF _ _ f history_fiber(5,6)]) (auto simp: history_ok_def)
  from effect_ok [OF inv f this, where dU = "\<lambda>_. 0"] show ?case by simp
next
  case (history_call s S F R U t ctx r call s')
  then have inv: "history_ok s S F R U" by simp
  have "tmodes s t \<noteq> Starting" using history_call(4) by simp
  from current_free(1) [OF sched_reach_inv [OF history_reach [OF history_call(1)]] history_call(3) this]
  have f: "current t s < length (mFibers s)" .
  show ?case
  proof (cases "failed s' = None")
    case True
    from effect_ok [OF inv f api_effect [OF f history_call(5,6) True], of "changed_by P s call"]
    show ?thesis by (simp add: added_by_def)
  next
    case False
    note fl = api_fail [OF history_call(6,2) False]
    obtain e where "s' = s\<lparr>failed := e\<rparr>" using fl by blast
    then have q: "quiet (current t s) s s'" using False by (intro quiet_same) simp_all
    have "changed_by P s call i = 0" if "i < length (mCounters s)" for i
      using history_call(6) False history_call(2) that
      by (cases call) (auto simp: acquireCounterHandle_def fail_def split: option.splits prod.splits if_splits)
    then show ?thesis using effect_ok [OF inv f q, of "changed_by P s call"] fl by simp
  qed
qed

section \<open>Properties\<close>

text \<open>
  C4: no task is lost and none is executed twice. In every state that any number of threads can reach,
  with user code that calls the interface in any order, the tasks submitted so far are those in the
  queue, those a fiber executes or has still to enqueue, those that have finished, and those the queue
  has refused; and a refusal stops the program.
\<close>

theorem task_conservation:
  assumes "task_history dbg P threads fibers counters s S F R U"
  shows "S = queued_tasks s + fiber_tasks s + F + R \<and>
    (R \<noteq> {#} \<longrightarrow> failed s \<noteq> None \<or> (\<exists>f < length (mFibers s). refusing (native (mFibers s ! f))))"
  using history_inv [OF assms] unfolding history_ok_def by blast

text \<open>
  C5: the value of a counter is the number of its tasks that have not finished: those queued, executed,
  still to be enqueued, or refused. What a fiber has not added yet is missing, and what user code
  changed otherwise comes on top (\<open>U\<close>). This holds in every reachable state, in the arithmetic of the
  32-bit counter.
\<close>

theorem counter_accounting:
  assumes "task_history dbg P threads fibers counters s S F R U" and "i < length (mCounters s)"
  shows "count (mCounters s ! i) = tasks_on i (queued_tasks s + fiber_tasks s + R) + U i -
    (\<Sum>f<length (mFibers s). pc_pending i (native (mFibers s ! f)))"
proof -
  have ok: "history_ok s S F R U" by (rule history_inv [OF assms(1)])
  then have S: "S = queued_tasks s + fiber_tasks s + F + R" by (simp add: history_ok_def)
  have "count (mCounters s ! i) + (\<Sum>f<length (mFibers s). pc_pending i (native (mFibers s ! f))) =
      tasks_on i S - tasks_on i F + U i" using ok assms(2) unfolding history_ok_def by blast
  then show ?thesis unfolding S by (simp add: algebra_simps)
qed

lemma history_run:
  "task_history dbg P n m k s S F R U \<Longrightarrow> sched_run dbg P as s = Some s' \<Longrightarrow>
    \<exists>S' F' R' U'. task_history dbg P n m k s' S' F' R' U'"
proof (induction as arbitrary: s S F R U)
  case (Cons a as)
  then obtain s1 where s1: "sched_perform dbg P a s = Some s1" "sched_run dbg P as s1 = Some s'" by (auto split: option.splits)
  from history_step [OF sched_perform_step [OF s1(1)] Cons.prems(1)] Cons.IH s1(2) show ?case by blast
qed auto

text \<open>The main task has submitted one task, which no other thread has taken.\<close>

definition one_submitted :: "counter_index_t list sched" where
  "one_submitted = sample_state submit_actions"

lemma one_submitted_history: "\<exists>S F R U. task_history True sample_pool 2 4 2 one_submitted S F R U"
proof -
  obtain s0 where s0: "sched_start 2 4 2 [] sample_task sample_queues = Some s0"
    using start_populated [OF sample_fresh] by blast
  have "mpmc_ok (mTasks sample_queues)" "mpmc_list (mTasks sample_queues) = []"
    using mpmc_init_ok [of 4 2 sample_task] by (simp_all add: sample_queues_def)
  then have h: "task_history True sample_pool 2 4 2 s0 {#} {#} {#} (\<lambda>i. count (mCounters s0 ! i))"
    by (intro history_started [OF s0 sample_fresh]) simp_all
  have "sched_run True sample_pool submit_actions (the (sched_start 2 4 2 [] sample_task sample_queues)) \<noteq> None"
    by code_simp
  then obtain s' where "sched_run True sample_pool submit_actions s0 = Some s'" using s0 by auto
  then show ?thesis using history_run [OF h] by (simp add: one_submitted_def sample_state_def s0)
qed

lemma one_submitted_fields:
  "failed one_submitted = None" "mpmc_list (mTasks one_submitted) = [sample_task]"
  "map native (mFibers one_submitted) = [Running (MainTask sample_task) NoResult, Resumed (LoopTop 1), Resumed (LoopTop 1), Resumed (LoopTop 1)]"
proof -
  have "(failed one_submitted, mpmc_list (mTasks one_submitted), map native (mFibers one_submitted)) =
      (None, [sample_task], [Running (MainTask sample_task) NoResult, Resumed (LoopTop 1), Resumed (LoopTop 1), Resumed (LoopTop 1)])"
    by code_simp
  then show "failed one_submitted = None" "mpmc_list (mTasks one_submitted) = [sample_task]"
    "map native (mFibers one_submitted) = [Running (MainTask sample_task) NoResult, Resumed (LoopTop 1), Resumed (LoopTop 1), Resumed (LoopTop 1)]"
    by simp_all
qed

lemma one_submitted_idle:
  "length (mFibers one_submitted) = 4" "fiber_tasks one_submitted = {#}"
  "(\<Sum>f<4. pc_pending i (native (mFibers one_submitted ! f))) = 0"
  "\<not> (\<exists>f < 4. refusing (native (mFibers one_submitted ! f)))"
proof -
  show len: "length (mFibers one_submitted) = 4" using arg_cong [OF one_submitted_fields(3), of length] by simp
  have "list_all (\<lambda>pc. pc_tasks pc = {#} \<and> \<not> refusing pc \<and> pc_pending i pc = 0) (map native (mFibers one_submitted))"
    by (simp add: one_submitted_fields(3))
  then have "pc_tasks (native (mFibers one_submitted ! f)) = {#} \<and> \<not> refusing (native (mFibers one_submitted ! f)) \<and>
      pc_pending i (native (mFibers one_submitted ! f)) = 0" if "f < 4" for f
    using that len by (simp add: list_all_length)
  then show "fiber_tasks one_submitted = {#}" "(\<Sum>f<4. pc_pending i (native (mFibers one_submitted ! f))) = 0"
    "\<not> (\<exists>f < 4. refusing (native (mFibers one_submitted ! f)))"
    by (simp_all add: fiber_tasks_def len)
qed

theorem task_conservation_witness:
  "\<exists>S F U. task_history True sample_pool 2 4 2 one_submitted S F {#} U \<and> S = {#sample_task#} + F"
proof -
  obtain S F R U where h: "task_history True sample_pool 2 4 2 one_submitted S F R U" using one_submitted_history by blast
  then have "S = {#sample_task#} + F + R" and "R = {#}"
    using task_conservation [OF h] by (auto simp: queued_tasks_def one_submitted_fields one_submitted_idle)
  then show ?thesis using h by auto
qed

text \<open>The counter of the task has the value 1: so nothing else has changed it since it was acquired.\<close>

theorem counter_accounting_witness:
  "\<exists>S F U. task_history True sample_pool 2 4 2 one_submitted S F {#} U \<and> U 0 = 0"
proof -
  obtain S F R U where h: "task_history True sample_pool 2 4 2 one_submitted S F R U" using one_submitted_history by blast
  have "R = {#}" using history_inv [OF h] by (auto simp: history_ok_def one_submitted_fields one_submitted_idle)
  moreover have c: "length (mCounters one_submitted) = 2 \<and> count (mCounters one_submitted ! 0) = 1" by code_simp
  moreover have "get_metadata sample_task = 0" by code_simp
  ultimately show ?thesis
    using counter_accounting [OF h, of 0] h one_submitted_idle(3) [of 0]
    by (auto simp: queued_tasks_def one_submitted_fields one_submitted_idle)
qed

end
