(* ===== verification/Scheduler_Sessions.thy ===== *)
theory Scheduler_Sessions
  imports Fiber_Ownership
begin

text \<open>
  A whole call of \<open>Scheduler::start\<close>: population, the run of all threads, and, when all have returned,
  the draining of the queues, after which the scheduler can be started again. The four queues stay
  intact and keep their capacities in every reachable state.
\<close>

section \<open>The queues during a run\<close>

definition queues_ok :: "'h sched \<Rightarrow> bool" where
  "queues_ok s \<longleftrightarrow> mpmc_ok (mTasks s) \<and> mpmc_ok (mIdleFibers s) \<and> mpmc_ok (mResumableFibers s) \<and> mpmc_ok (mFreeCounters s)"

definition capacities :: "'h sched \<Rightarrow> nat \<times> nat \<times> nat \<times> nat" where
  "capacities s = (length (mBuffer (mTasks s)), length (mBuffer (mIdleFibers s)),
     length (mBuffer (mResumableFibers s)), length (mBuffer (mFreeCounters s)))"

definition queues_kept :: "'h sched \<Rightarrow> 'h sched \<Rightarrow> bool" where
  "queues_kept s s' \<longleftrightarrow> (queues_ok s \<longrightarrow> queues_ok s' \<and> capacities s' = capacities s)"

lemma enqueue_kept: "mpmc_enqueue q x = Some (b, q') \<Longrightarrow> mpmc_ok q \<Longrightarrow> mpmc_ok q' \<and> length (mBuffer q') = length (mBuffer q)"
proof -
  assume e: "mpmc_enqueue q x = Some (b, q')" and ok: "mpmc_ok q"
  from ok e show ?thesis by (cases rule: mpmc.enqE) (simp_all add: ok)
qed

lemma dequeue_kept: "mpmc_dequeue q = Some (r, q') \<Longrightarrow> mpmc_ok q \<Longrightarrow> mpmc_ok q' \<and> length (mBuffer q') = length (mBuffer q)"
proof -
  assume e: "mpmc_dequeue q = Some (r, q')" and ok: "mpmc_ok q"
  from ok e show ?thesis by (cases rule: mpmc.deqE) (simp_all add: ok)
qed

lemmas kept_defs = queues_kept_def queues_ok_def capacities_def

lemma kept_same:
  "mTasks s' = mTasks s \<Longrightarrow> mIdleFibers s' = mIdleFibers s \<Longrightarrow> mResumableFibers s' = mResumableFibers s \<Longrightarrow>
   mFreeCounters s' = mFreeCounters s \<Longrightarrow> queues_kept s s'"
  by (simp add: kept_defs)

lemma kept_trans: "queues_kept s r \<Longrightarrow> queues_kept r s' \<Longrightarrow> queues_kept s s'"
  by (simp add: queues_kept_def)

lemma goto_queues [simp]:
  "mTasks (goto t pc s) = mTasks s" "mResumableFibers (goto t pc s) = mResumableFibers s"
  "mFreeCounters (goto t pc s) = mFreeCounters s"
  by (simp_all add: goto_def set_native_def)

lemma kept_goto: "queues_kept s r \<Longrightarrow> queues_kept s (goto t pc r)"
  by (simp add: kept_defs)

lemma cleanup_kept: "cleanUpPrevFiber t s = Some r \<Longrightarrow> queues_kept s r"
  by (auto simp: cleanUpPrevFiber_def Let_def kept_defs set_tls_def set_cleaned_up_def dest: enqueue_kept
      split: fiber_destination_e.splits option.splits)

lemma yield_kept: "yieldToFiber dbg t g dest k s = Some s' \<Longrightarrow> queues_kept s s'"
  by (auto simp: yieldToFiber_def Let_def kept_defs set_tls_def fail_def split: if_splits)

lemma resume_kept: "tryResumeFiber dbg t g k k' s = Some s' \<Longrightarrow> queues_kept s s'"
proof -
  have c: "queues_kept s (set_cleaned_up (unat g) False s)" by (rule kept_same) (simp_all add: set_cleaned_up_def)
  show "tryResumeFiber dbg t g k k' s = Some s' \<Longrightarrow> queues_kept s s'"
    by (auto simp: tryResumeFiber_def fail_def split: if_splits intro: kept_same kept_trans [OF c yield_kept])
qed

lemma wake_kept: "wake_fiber dbg w s = Some s' \<Longrightarrow> queues_kept s s'"
  by (auto simp: wake_fiber_def fail_def set_pinned_def kept_defs dest: enqueue_kept
      split: if_splits option.splits sum.splits prod.splits)

lemma counter_kept: "counter_action dbg t i c k s = Some s' \<Longrightarrow> queues_kept s s'"
proof -
  obtain c1 a w where e: "cpc_step c (mCounters s ! i) = (c1, a, w)" by (cases "cpc_step c (mCounters s ! i)") auto
  let ?r = "goto t (InCounter i c1 k) (s\<lparr>mCounters := (mCounters s)[i := a]\<rparr>)"
  have r: "queues_kept s ?r" by (rule kept_same) simp_all
  show "counter_action dbg t i c k s = Some s' \<Longrightarrow> queues_kept s s'"
    using r by (cases w) (auto simp: counter_action_def e Let_def intro: kept_trans [OF r wake_kept])
qed

lemma acquire_kept: "acquireFreeFiber s = Some (r, s') \<Longrightarrow> queues_kept s s'"
  using dequeue_kept [of "mIdleFibers s" r] by (fastforce simp: acquireFreeFiber_def kept_defs)

lemma exec_kept: "exec_pc dbg t pc s = Some s' \<Longrightarrow> queues_kept s s'"
proof (cases pc)
  case (Resumed k)
  then show "exec_pc dbg t pc s = Some s' \<Longrightarrow> queues_kept s s'" by (auto intro: kept_goto dest: cleanup_kept)
next
  case (InCounter i c k)
  then show "exec_pc dbg t pc s = Some s' \<Longrightarrow> queues_kept s s'"
    by (auto simp: fail_def intro: counter_kept kept_same split: if_splits sum.splits)
next
  case (WaitYield ctx v)
  then show "exec_pc dbg t pc s = Some s' \<Longrightarrow> queues_kept s s'"
    by (auto intro: acquire_kept kept_trans [OF acquire_kept yield_kept] split: option.splits)
qed (auto simp: Let_def fail_def set_pinned_def set_tls_def return_thread_def kept_defs
  dest: enqueue_kept dequeue_kept dest!: resume_kept split: option.splits prod.splits sum.splits list.splits if_splits)

lemma api_kept: "api_call dbg P t ctx call s = Some s' \<Longrightarrow> queues_kept s s'"
proof (cases call)
  case CallReturn
  then show "api_call dbg P t ctx call s = Some s' \<Longrightarrow> queues_kept s s'"
    by (cases ctx) (auto simp: return_thread_def kept_defs)
qed (auto simp: sched_wait_def submitTasks_def acquireCounterHandle_def releaseCounter_def releaseCounterIfOnTarget_def
  free_counter_of_def fail_def set_tls_def set_cleaned_up_def Let_def kept_defs dest: enqueue_kept dequeue_kept
  split: option.splits prod.splits sum.splits if_splits)

lemma thread_kept: "thread_start t s = Some s' \<Longrightarrow> queues_kept s s'"
proof (cases "acquireFreeFiber s")
  case (Some z)
  then obtain f r where z: "acquireFreeFiber s = Some (f, r)" by (cases z) auto
  assume "thread_start t s = Some s'"
  then have "queues_kept r s'"
    by (cases f) (auto simp: thread_start_def z Let_def set_tls_def set_native_def kept_defs split: if_splits)
  with acquire_kept [OF z] show ?thesis by (rule kept_trans)
qed (simp add: thread_start_def)

lemma step_kept: "sched_step dbg P s s' \<Longrightarrow> queues_kept s s'"
  by (induction rule: sched_step.induct) (blast intro: exec_kept api_kept thread_kept)+

lemma steps_kept: "(sched_step dbg P)\<^sup>*\<^sup>* s s' \<Longrightarrow> queues_kept s s'"
  by (induction rule: rtranclp_induct) (auto intro: kept_same kept_trans step_kept)

section \<open>One call of start after the other\<close>

text \<open>
  \<open>start\<close> goes on to its clean-up once the primary fiber has returned and all workers are joined,
  whatever is then left in the queues and whichever fibers still wait.
\<close>

definition joined :: "'h sched \<Rightarrow> bool" where
  "joined s \<longleftrightarrow> failed s = None \<and> (\<forall>t < length (mThreads s). tmodes s t = Returned)"

inductive start_returns ::
  "bool \<Rightarrow> 'h pool_ops \<Rightarrow> nat \<Rightarrow> nat \<Rightarrow> nat \<Rightarrow> 'h sched \<Rightarrow> 'h sched \<Rightarrow> bool"
  for dbg P threads fibers counters where
  start_call: "sched_start threads fibers counters pool main s = Some a \<Longrightarrow>
    (sched_step dbg P)\<^sup>*\<^sup>* a b \<Longrightarrow> joined b \<Longrightarrow> drain_queues b = Some s' \<Longrightarrow>
    start_returns dbg P threads fibers counters s s'"

definition at_rest :: "nat \<Rightarrow> nat \<Rightarrow> 'h sched \<Rightarrow> bool" where
  "at_rest fibers counters s \<longleftrightarrow> fresh_queues fibers counters s \<and> queues_ok s \<and>
     mpmc_list (mTasks s) = [] \<and> mpmc_list (mResumableFibers s) = []"

lemma start_tasks_kept:
  "sched_start threads fibers counters pool main s = Some s' \<Longrightarrow>
   mTasks s' = mTasks s \<and> mResumableFibers s' = mResumableFibers s"
  by (auto simp: sched_start_def populate_def sched_arrays_def split: option.splits)

lemma enqueue_each_kept:
  "enqueue_each mpmc_enqueue q xs = Some q' \<Longrightarrow> mpmc_ok q \<Longrightarrow> mpmc_ok q' \<and> length (mBuffer q') = length (mBuffer q)"
proof (induction xs arbitrary: q)
  case (Cons x xs)
  then obtain b r where e: "mpmc_enqueue q x = Some (b, r)" "enqueue_each mpmc_enqueue r xs = Some q'"
    by (auto split: option.splits)
  with enqueue_kept [OF e(1) Cons.prems(2)] Cons.IH [OF e(2)] show ?case by simp
qed simp

lemma start_kept:
  assumes "sched_start threads fibers counters pool main s = Some s'"
  shows "queues_kept s s'"
  using assms by (auto simp: sched_start_def populate_def sched_arrays_def kept_defs dest: enqueue_each_kept
    split: option.splits)

lemma drain_rests:
  assumes "queues_ok s" and "length (mBuffer (mIdleFibers s)) = fibers"
    and "length (mBuffer (mFreeCounters s)) = counters"
  shows "\<exists>s'. drain_queues s = Some s' \<and> at_rest fibers counters s'"
proof -
  from assms(1) have ok: "mpmc_ok (mTasks s)" "mpmc_ok (mIdleFibers s)" "mpmc_ok (mResumableFibers s)"
    "mpmc_ok (mFreeCounters s)" by (simp_all add: queues_ok_def)
  from mpmc.drain_empties [OF ok(1)] obtain q1 where
    "drain mpmc_dequeue (mTasks s) = Some q1" "mpmc_ok q1" "mpmc_list q1 = []" by blast
  moreover from mpmc.drain_empties [OF ok(2)] obtain q2 where
    "drain mpmc_dequeue (mIdleFibers s) = Some q2" "mpmc_ok q2" "mpmc_list q2 = []" "length (mBuffer q2) = fibers"
    using assms(2) by blast
  moreover from mpmc.drain_empties [OF ok(3)] obtain q3 where
    "drain mpmc_dequeue (mResumableFibers s) = Some q3" "mpmc_ok q3" "mpmc_list q3 = []" by blast
  moreover from mpmc.drain_empties [OF ok(4)] obtain q4 where
    "drain mpmc_dequeue (mFreeCounters s) = Some q4" "mpmc_ok q4" "mpmc_list q4 = []" "length (mBuffer q4) = counters"
    using assms(3) by blast
  ultimately show ?thesis by (simp add: drain_queues_def at_rest_def fresh_queues_def queues_ok_def)
qed

lemma run_drains:
  assumes "at_rest fibers counters s" and "sched_start threads fibers counters pool main s = Some a"
    and "(sched_step dbg P)\<^sup>*\<^sup>* a b"
  shows "\<exists>c. drain_queues b = Some c \<and> at_rest fibers counters c"
proof -
  have "queues_kept s b" by (rule kept_trans [OF start_kept [OF assms(2)] steps_kept [OF assms(3)]])
  with assms(1) have "queues_ok b" "capacities b = capacities s" by (simp_all add: queues_kept_def at_rest_def)
  moreover have "length (mBuffer (mIdleFibers s)) = fibers" "length (mBuffer (mFreeCounters s)) = counters"
    using assms(1) by (simp_all add: at_rest_def fresh_queues_def)
  ultimately show ?thesis by (intro drain_rests) (simp_all add: capacities_def)
qed

lemma start_returns_rests:
  "start_returns dbg P threads fibers counters s s' \<Longrightarrow> at_rest fibers counters s \<Longrightarrow> at_rest fibers counters s'"
  by (elim start_returns.cases) (metis option.inject run_drains)

lemma starts_rest:
  "(start_returns dbg P threads fibers counters)\<^sup>*\<^sup>* s s' \<Longrightarrow> at_rest fibers counters s \<Longrightarrow> at_rest fibers counters s'"
  by (induction rule: rtranclp_induct) (auto dest: start_returns_rests)

text \<open>
  C14: however many calls of \<open>start\<close> came before, and whatever their runs left behind, the next call begins
  with empty task and resumable queues, every fiber idle and every counter free, in order; and from every
  state its own run reaches the draining loops at the end of \<open>start\<close> return.
\<close>

theorem starts_again:
  assumes "at_rest fibers counters s" and "(start_returns dbg P threads fibers counters)\<^sup>*\<^sup>* s s'"
  shows "\<exists>a. sched_start threads fibers counters pool main s' = Some a \<and>
    mpmc_list (mTasks a) = [] \<and> mpmc_list (mResumableFibers a) = [] \<and>
    mpmc_list (mIdleFibers a) = map of_nat [0..<fibers] \<and>
    mpmc_list (mFreeCounters a) = map of_nat [0..<counters] \<and>
    length (mFibers a) = fibers \<and> length (mCounters a) = counters \<and> length (mThreads a) = threads \<and>
    (\<forall>b. (sched_step dbg P)\<^sup>*\<^sup>* a b \<longrightarrow> (\<exists>c. drain_queues b = Some c))"
proof -
  from assms have r: "at_rest fibers counters s'" using starts_rest by blast
  then have "fresh_queues fibers counters s'" by (simp add: at_rest_def)
  from start_populated [OF this, of threads pool main] obtain a where
    a: "sched_start threads fibers counters pool main s' = Some a" "mpmc_list (mIdleFibers a) = map of_nat [0..<fibers]"
      "mpmc_list (mFreeCounters a) = map of_nat [0..<counters]" "length (mFibers a) = fibers"
      "length (mCounters a) = counters" "length (mThreads a) = threads" by blast
  moreover have "mpmc_list (mTasks a) = []" "mpmc_list (mResumableFibers a) = []"
    using start_tasks_kept [OF a(1)] r by (simp_all add: at_rest_def)
  moreover have "\<forall>b. (sched_step dbg P)\<^sup>*\<^sup>* a b \<longrightarrow> (\<exists>c. drain_queues b = Some c)"
    using run_drains [OF r a(1)] by blast
  ultimately show ?thesis by blast
qed

section \<open>A concrete session\<close>

text \<open>The main task submits a task and returns at once; both threads see the shutdown, the task stays queued.\<close>

definition session_actions :: "sched_action list" where
  "session_actions = submit_actions @ [Call 0 CallReturn, Start 1, Exec 1, Exec 1]"

lemma sched_run_steps:
  "sched_run dbg P as s = Some s' \<Longrightarrow> (sched_step dbg P)\<^sup>*\<^sup>* s s'"
  by (induction as arbitrary: s)
    (auto split: option.splits dest: sched_perform_step intro: converse_rtranclp_into_rtranclp)

lemma session_run:
  "case sched_run True sample_pool session_actions (the (sched_start 2 4 2 [] sample_task sample_queues)) of
     None \<Rightarrow> False | Some b \<Rightarrow> failed b = None \<and> length (mThreads b) = 2 \<and>
       tmodes b 0 = Returned \<and> tmodes b 1 = Returned \<and> length (mpmc_list (mTasks b)) = 1"
  by code_simp

lemma sample_at_rest: "at_rest 4 2 sample_queues"
proof -
  have "(4 :: usize) = 2 ^ 2" by simp
  then show ?thesis using sample_fresh mpmc_init_ok [of 4 2 sample_task] mpmc_init_ok [of 4 2 "0 :: fiber_index_t"]
    by (simp add: at_rest_def fresh_queues_def queues_ok_def sample_queues_def)
qed

lemma sample_session:
  "\<exists>s'. start_returns True sample_pool 2 4 2 sample_queues s'"
proof -
  from start_populated [OF sample_fresh, of 2 "[]" sample_task] obtain a where
    a: "sched_start 2 4 2 [] sample_task sample_queues = Some a" by blast
  with session_run obtain b where b: "sched_run True sample_pool session_actions a = Some b" "failed b = None"
    "length (mThreads b) = 2" "tmodes b 0 = Returned" "tmodes b 1 = Returned" by (auto split: option.splits)
  then have j: "joined b" by (auto simp: joined_def less_2_cases_iff)
  note st = sched_run_steps [OF b(1)]
  from run_drains [OF sample_at_rest a st] obtain c where "drain_queues b = Some c" by blast
  from start_call [OF a st j this] show ?thesis by blast
qed

theorem starts_again_witness:
  "\<exists>s' a. start_returns True sample_pool 2 4 2 sample_queues s' \<and>
     sched_start 2 4 2 [] sample_task s' = Some a \<and> mpmc_list (mTasks a) = [] \<and>
     mpmc_list (mIdleFibers a) = [0, 1, 2, 3]"
proof -
  from sample_session obtain s' where s': "start_returns True sample_pool 2 4 2 sample_queues s'" ..
  from starts_again [OF sample_at_rest r_into_rtranclp [of "start_returns True sample_pool 2 4 2", OF s'],
      of "[]" sample_task]
  show ?thesis using s' by (auto simp: upt_rec)
qed

end
