(* ===== verification/Futures.thy ===== *)
theory Futures
  imports Task_API
begin

text \<open>
  \<open>td::future\<close> of td.hh: a sync object together with the cell on the heap that the task writes its result
  to. The operations are programs over the interface of tasks (\<open>Task_API\<close>) that give the cell they read or
  free. Sequences of operations on named futures are replayed against a ledger of the cells.
\<close>

section \<open>Operations\<close>

text \<open>A \<open>cc::unique_ptr\<close> is the address it owns, \<open>None\<close> when it is null.\<close>

record future =
  fut_sync :: sync
  fut_value :: "nat option"

definition future_new :: "nat \<Rightarrow> future" where
  "future_new a = \<lparr>fut_sync = null_sync, fut_value = Some a\<rparr>"

definition set_sync :: "sync \<Rightarrow> future \<Rightarrow> future" where
  "set_sync s f = f\<lparr>fut_sync := s\<rparr>"

definition future_get :: "bool \<Rightarrow> future \<Rightarrow> (nat option \<times> future) prog" where
  "future_get pinned f =
     prog_bind (if pinned then wait_for (fut_sync f) else wait_for_unpinned (fut_sync f))
       (\<lambda>(_, s'). Return (fut_value f, f\<lparr>fut_sync := s'\<rparr>))"

text \<open>The cell that the destructor of the pointer frees after the one of the future.\<close>

definition future_destroy :: "future \<Rightarrow> nat option prog" where
  "future_destroy f = prog_bind (wait_for (fut_sync f)) (\<lambda>_. Return (fut_value f))"

definition moved_from :: "future \<Rightarrow> future" where
  "moved_from rhs = \<lparr>fut_sync = (fut_sync rhs)\<lparr>sync_handle := counter_invalidate (sync_handle (fut_sync rhs))\<rparr>,
     fut_value = None\<rparr>"

definition future_move :: "future \<Rightarrow> future \<times> future" where
  "future_move rhs = (\<lparr>fut_sync = fut_sync rhs, fut_value = fut_value rhs\<rparr>, moved_from rhs)"

text \<open>The assignment to another object: the new value, what is left of the right side, the freed cell.\<close>

definition future_assign :: "future \<Rightarrow> future \<Rightarrow> (future \<times> future \<times> nat option) prog" where
  "future_assign self rhs =
     prog_bind (wait_for (fut_sync self)) (\<lambda>_.
       Return (self\<lparr>fut_sync := fut_sync rhs, fut_value := fut_value rhs\<rparr>, moved_from rhs, fut_value self))"

text \<open>
  \<open>submit\<close> of a function with a result: the future's cell is at address \<open>a\<close>, \<open>func\<close> is the closure with the
  pointer to it.
\<close>

definition submit_future ::
  "bool \<Rightarrow> bool \<Rightarrow> nat \<Rightarrow> nat \<Rightarrow> byte list \<Rightarrow> task \<Rightarrow> future prog option" where
  "submit_future dbg alive a T func d =
     map_option (\<lambda>dispatch. prog_bind (submit_raw dbg alive null_sync [dispatch])
       (\<lambda>s. Return (set_sync s (future_new a)))) (task_lambda T func d)"

section \<open>Runs of futures\<close>

text \<open>
  The log holds the calls of the scheduler, the allocation, use and deallocation of cells, and \<open>Writer a h\<close>
  when a task that writes to \<open>a\<close> was submitted on the counter \<open>h\<close>. The results of the calls may depend on
  everything before.
\<close>

datatype fut_event =
    Called user_call
  | Alloc nat
  | Writer nat handle_t
  | Deref nat
  | Dealloc nat

type_synonym answers = "fut_event list \<Rightarrow> user_call \<Rightarrow> api_result"

primrec prog_log :: "answers \<Rightarrow> 'a prog \<Rightarrow> fut_event list \<Rightarrow> (failure + 'a) \<times> fut_event list" where
  "prog_log orc (Return v) = (\<lambda>cs. (Inr v, cs))"
| "prog_log orc (Stop e) = (\<lambda>cs. (Inl e, cs))"
| "prog_log orc (Invoke c k) = (\<lambda>cs. prog_log orc (k (orc cs c)) (cs @ [Called c]))"

record fut_state =
  fut_vars :: "nat \<Rightarrow> future option"
  fut_log :: "fut_event list"

datatype fut_op =
    NewFuture nat nat
  | SubmitFuture nat nat nat "byte list"
  | GetFuture nat bool
  | MoveConstruct nat nat
  | MoveAssign nat nat
  | DestroyFuture nat

definition freed :: "nat option \<Rightarrow> fut_event list" where
  "freed c = (case c of None \<Rightarrow> [] | Some a \<Rightarrow> [Dealloc a])"

text \<open>
  The ledger: the cells that are allocated, and the tasks that may still write, each with its cell and
  counter. A \<open>wait\<close> for a counter to reach zero ends the writing of the tasks submitted on it.
\<close>

type_synonym cell_ledger = "nat set \<times> (nat \<times> handle_t) set"

fun book_cell :: "fut_event \<Rightarrow> cell_ledger \<Rightarrow> cell_ledger option" where
  "book_cell (Alloc a) (A, W) = (if a \<notin> A then Some (insert a A, W) else None)"
| "book_cell (Writer a h) (A, W) = (if a \<in> A then Some (A, insert (a, h) W) else None)"
| "book_cell (Deref a) (A, W) = (if a \<in> A \<and> a \<notin> fst ` W then Some (A, W) else None)"
| "book_cell (Dealloc a) (A, W) = (if a \<in> A \<and> a \<notin> fst ` W then Some (A - {a}, W) else None)"
| "book_cell (Called (CallWait h pinned target)) (A, W) =
     Some (A, if target = 0 then {w \<in> W. snd w \<noteq> h} else W)"
| "book_cell (Called _) (A, W) = Some (A, W)"

fun book_cells :: "fut_event list \<Rightarrow> cell_ledger \<Rightarrow> cell_ledger option" where
  "book_cells [] l = Some l"
| "book_cells (x # xs) l = (case book_cell x l of None \<Rightarrow> None | Some l' \<Rightarrow> book_cells xs l')"

text \<open>
  One operation; \<open>None\<close> when the program is not one of C++ with defined behaviour: a variable that does not
  exist or exists already, a null pointer read, an address that is not free; or when it stopped.
\<close>

definition free_cell :: "nat \<Rightarrow> fut_state \<Rightarrow> bool" where
  "free_cell a s = (case book_cells (fut_log s) ({}, {}) of None \<Rightarrow> False | Some (A, W) \<Rightarrow> a \<notin> A)"

fun fut_step :: "bool \<Rightarrow> bool \<Rightarrow> task \<Rightarrow> answers \<Rightarrow> fut_op \<Rightarrow> fut_state \<Rightarrow> fut_state option" where
  "fut_step dbg alive d orc (NewFuture x a) s =
     (if fut_vars s x = None \<and> free_cell a s
      then Some \<lparr>fut_vars = (fut_vars s)(x \<mapsto> future_new a), fut_log = fut_log s @ [Alloc a]\<rparr> else None)"
| "fut_step dbg alive d orc (SubmitFuture x a T func) s =
     (if fut_vars s x = None \<and> free_cell a s
      then (case submit_future dbg alive a T func d of
              None \<Rightarrow> None
            | Some p \<Rightarrow> (case prog_log orc p (fut_log s @ [Alloc a]) of
                (Inl e, cs) \<Rightarrow> None
              | (Inr f, cs) \<Rightarrow> Some \<lparr>fut_vars = (fut_vars s)(x \<mapsto> f),
                  fut_log = cs @ [Writer a (sync_handle (fut_sync f))]\<rparr>))
      else None)"
| "fut_step dbg alive d orc (GetFuture x pinned) s =
     (case fut_vars s x of None \<Rightarrow> None | Some f \<Rightarrow>
        (case prog_log orc (future_get pinned f) (fut_log s) of
           (Inr (Some a, f'), cs) \<Rightarrow> Some \<lparr>fut_vars = (fut_vars s)(x \<mapsto> f'), fut_log = cs @ [Deref a]\<rparr>
         | _ \<Rightarrow> None))"
| "fut_step dbg alive d orc (MoveConstruct x y) s =
     (if fut_vars s x = None then (case fut_vars s y of None \<Rightarrow> None | Some g \<Rightarrow>
        (case future_move g of (f', g') \<Rightarrow> Some (s\<lparr>fut_vars := (fut_vars s)(y \<mapsto> g', x \<mapsto> f')\<rparr>)))
      else None)"
| "fut_step dbg alive d orc (MoveAssign x y) s =
     (case (fut_vars s x, fut_vars s y) of (Some f, Some g) \<Rightarrow>
        if x = y then Some s
        else (case prog_log orc (future_assign f g) (fut_log s) of
                (Inl e, cs) \<Rightarrow> None
              | (Inr (f', g', c), cs) \<Rightarrow> Some \<lparr>fut_vars = (fut_vars s)(x \<mapsto> f', y \<mapsto> g'), fut_log = cs @ freed c\<rparr>)
      | _ \<Rightarrow> None)"
| "fut_step dbg alive d orc (DestroyFuture x) s =
     (case fut_vars s x of None \<Rightarrow> None | Some f \<Rightarrow>
        (case prog_log orc (future_destroy f) (fut_log s) of
           (Inl e, cs) \<Rightarrow> None
         | (Inr c, cs) \<Rightarrow> Some \<lparr>fut_vars = (fut_vars s)(x := None), fut_log = cs @ freed c\<rparr>))"

fun fut_run :: "bool \<Rightarrow> bool \<Rightarrow> task \<Rightarrow> answers \<Rightarrow> fut_op list \<Rightarrow> fut_state \<Rightarrow> fut_state option" where
  "fut_run dbg alive d orc [] s = Some s"
| "fut_run dbg alive d orc (x # xs) s =
     (case fut_step dbg alive d orc x s of None \<Rightarrow> None | Some s' \<Rightarrow> fut_run dbg alive d orc xs s')"

definition no_futures :: fut_state where
  "no_futures = \<lparr>fut_vars = (\<lambda>_. None), fut_log = []\<rparr>"

lemma book_cells_append:
  "book_cells (xs @ ys) l = (case book_cells xs l of None \<Rightarrow> None | Some l' \<Rightarrow> book_cells ys l')"
  by (induction xs arbitrary: l) (simp_all split: option.splits)

section \<open>Cells have one owner\<close>

definition cell_of :: "(nat \<Rightarrow> future option) \<Rightarrow> nat \<Rightarrow> nat option" where
  "cell_of V x = (case V x of None \<Rightarrow> None | Some f \<Rightarrow> fut_value f)"

definition cells_ok :: "(nat \<Rightarrow> future option) \<Rightarrow> nat set \<Rightarrow> (nat \<times> handle_t) set \<Rightarrow> bool" where
  "cells_ok V A W \<longleftrightarrow>
     (\<forall>a. a \<in> A \<longleftrightarrow> (\<exists>x. cell_of V x = Some a)) \<and>
     (\<forall>x y a. cell_of V x = Some a \<longrightarrow> cell_of V y = Some a \<longrightarrow> x = y) \<and>
     (\<forall>a h. (a, h) \<in> W \<longrightarrow> counter_is_valid h \<and>
        (\<exists>x f. V x = Some f \<and> fut_value f = Some a \<and> sync_handle (fut_sync f) = h))"

definition fut_inv :: "fut_state \<Rightarrow> bool" where
  "fut_inv s \<longleftrightarrow> (\<exists>A W. book_cells (fut_log s) ({}, {}) = Some (A, W) \<and> cells_ok (fut_vars s) A W)"

lemma cell_of_simps [simp]:
  "V x = Some f \<Longrightarrow> cell_of V x = fut_value f" "V x = None \<Longrightarrow> cell_of V x = None"
  "cell_of (V(y := v)) x = (if x = y then (case v of None \<Rightarrow> None | Some f \<Rightarrow> fut_value f) else cell_of V x)"
  by (simp_all add: cell_of_def)

lemma cells_okI:
  assumes "\<And>a. a \<in> A \<longleftrightarrow> (\<exists>x. cell_of V x = Some a)"
    and "\<And>x y a. cell_of V x = Some a \<Longrightarrow> cell_of V y = Some a \<Longrightarrow> x = y"
    and "\<And>a h. (a, h) \<in> W \<Longrightarrow> counter_is_valid h \<and>
        (\<exists>x f. V x = Some f \<and> fut_value f = Some a \<and> sync_handle (fut_sync f) = h)"
  shows "cells_ok V A W"
  using assms by (simp add: cells_ok_def)

lemma cells_okD:
  assumes "cells_ok V A W"
  shows "a \<in> A \<longleftrightarrow> (\<exists>x. cell_of V x = Some a)"
    and "cell_of V x = Some a \<Longrightarrow> cell_of V y = Some a \<Longrightarrow> x = y"
    and "(a, h) \<in> W \<Longrightarrow> counter_is_valid h \<and>
        (\<exists>x f. V x = Some f \<and> fut_value f = Some a \<and> sync_handle (fut_sync f) = h)"
  using assms by (simp_all add: cells_ok_def)

text \<open>Waiting for a sync object ends the writing of the tasks on it.\<close>

lemma prog_log_bind:
  "prog_log orc (prog_bind p f) cs =
     (case prog_log orc p cs of (Inl e, ds) \<Rightarrow> (Inl e, ds) | (Inr v, ds) \<Rightarrow> prog_log orc (f v) ds)"
  by (induction p arbitrary: cs) simp_all

lemma wait_books:
  assumes "book_cells cs l = Some (A, W)" and "\<forall>w \<in> W. counter_is_valid (snd w)"
  shows "\<exists>v s' ds. prog_log orc (single_wait_for s pinned) cs = (Inr (v, s'), ds) \<and>
    book_cells ds l = Some (A, {w \<in> W. snd w \<noteq> sync_handle s})"
proof (cases "counter_is_valid (sync_handle s)")
  case False
  with assms(2) have "{w \<in> W. snd w \<noteq> sync_handle s} = W" by auto
  with False assms(1) show ?thesis by (simp add: single_wait_for_def)
next
  case True
  with assms(1) show ?thesis by (simp add: single_wait_for_def book_cells_append Let_def)
qed

lemma cells_waited:
  assumes ok: "cells_ok V A W" and x: "V x = Some f" "fut_value f = Some a"
  shows "a \<in> A" and "a \<notin> fst ` {w \<in> W. snd w \<noteq> sync_handle (fut_sync f)}"
proof -
  show "a \<in> A" using cells_okD(1) [OF ok] x(2) cell_of_simps(1) [of V x f, OF x(1)] by metis
  show "a \<notin> fst ` {w \<in> W. snd w \<noteq> sync_handle (fut_sync f)}"
  proof
    assume "a \<in> fst ` {w \<in> W. snd w \<noteq> sync_handle (fut_sync f)}"
    then obtain h where h: "(a, h) \<in> W" "h \<noteq> sync_handle (fut_sync f)" by auto
    from cells_okD(3) [OF ok h(1)] obtain y g where g: "V y = Some g" "fut_value g = Some a" "sync_handle (fut_sync g) = h" by blast
    then have "y = x" using cells_okD(2) [OF ok, of y a x] x by simp
    with g h x show False by simp
  qed
qed

lemma cells_wait:
  assumes ok: "cells_ok V A W" and x: "V x = Some f"
  shows "cells_ok (V(x \<mapsto> f\<lparr>fut_sync := s'\<rparr>)) A {w \<in> W. snd w \<noteq> sync_handle (fut_sync f)}"
proof (rule cells_okI)
  have same: "cell_of (V(x \<mapsto> f\<lparr>fut_sync := s'\<rparr>)) = cell_of V" using x by auto
  show "a \<in> A \<longleftrightarrow> (\<exists>y. cell_of (V(x \<mapsto> f\<lparr>fut_sync := s'\<rparr>)) y = Some a)" for a
    unfolding same by (rule cells_okD(1) [OF ok])
  show "y = z" if "cell_of (V(x \<mapsto> f\<lparr>fut_sync := s'\<rparr>)) y = Some a" "cell_of (V(x \<mapsto> f\<lparr>fut_sync := s'\<rparr>)) z = Some a" for y z a
    using that unfolding same by (rule cells_okD(2) [OF ok])
next
  fix a h assume w: "(a, h) \<in> {w \<in> W. snd w \<noteq> sync_handle (fut_sync f)}"
  with cells_okD(3) [OF ok, of a h] obtain y g where
    g: "counter_is_valid h" "V y = Some g" "fut_value g = Some a" "sync_handle (fut_sync g) = h" by auto
  moreover have "y \<noteq> x" using w g x by auto
  ultimately show "counter_is_valid h \<and> (\<exists>y g. (V(x \<mapsto> f\<lparr>fut_sync := s'\<rparr>)) y = Some g \<and> fut_value g = Some a \<and>
      sync_handle (fut_sync g) = h)" by (intro conjI exI [of _ y] exI [of _ g]) simp_all
qed

text \<open>A future that goes away, or is written over, after a wait for it.\<close>

lemma cells_drop:
  assumes ok: "cells_ok V A W" and x: "V x = Some f"
  shows "cells_ok (V(x := None)) (A - set_option (fut_value f)) {w \<in> W. snd w \<noteq> sync_handle (fut_sync f)}"
proof (rule cells_okI)
  have v: "cell_of V x = fut_value f" using x by simp
  show "a \<in> A - set_option (fut_value f) \<longleftrightarrow> (\<exists>y. cell_of (V(x := None)) y = Some a)" for a
    using cells_okD(1,2) [OF ok] v by (auto split: if_splits) metis+
  show "y = z" if "cell_of (V(x := None)) y = Some a" "cell_of (V(x := None)) z = Some a" for y z a
    using that cells_okD(2) [OF ok] by (simp split: if_splits)
next
  fix a h assume w: "(a, h) \<in> {w \<in> W. snd w \<noteq> sync_handle (fut_sync f)}"
  with cells_okD(3) [OF ok, of a h] obtain y g where
    g: "counter_is_valid h" "V y = Some g" "fut_value g = Some a" "sync_handle (fut_sync g) = h" by auto
  moreover have "y \<noteq> x" using w g x by auto
  ultimately show "counter_is_valid h \<and> (\<exists>y g. (V(x := None)) y = Some g \<and> fut_value g = Some a \<and>
      sync_handle (fut_sync g) = h)" by (intro conjI exI [of _ y] exI [of _ g]) simp_all
qed

lemma cells_new:
  assumes ok: "cells_ok V A W" and x: "V x = None" and a: "a \<notin> A" "fut_value f = Some a"
    and W': "W' = W \<or> counter_is_valid (sync_handle (fut_sync f)) \<and> W' = insert (a, sync_handle (fut_sync f)) W"
  shows "cells_ok (V(x \<mapsto> f)) (insert a A) W'"
proof (rule cells_okI)
  have n: "cell_of V y \<noteq> Some a" for y using cells_okD(1) [OF ok] a by auto
  show "b \<in> insert a A \<longleftrightarrow> (\<exists>y. cell_of (V(x \<mapsto> f)) y = Some b)" for b
    using cells_okD(1) [OF ok, of b] a x by (auto simp del: cell_of_simps(1)) (metis cell_of_simps(2) option.distinct(1))
  show "y = z" if "cell_of (V(x \<mapsto> f)) y = Some b" "cell_of (V(x \<mapsto> f)) z = Some b" for y z b
    using that n a cells_okD(2) [OF ok, of y b z] by (auto split: if_splits)
next
  fix b h assume "(b, h) \<in> W'"
  with W' consider "(b, h) \<in> W" | "b = a" "h = sync_handle (fut_sync f)" "counter_is_valid h" by auto
  then show "counter_is_valid h \<and> (\<exists>y g. (V(x \<mapsto> f)) y = Some g \<and> fut_value g = Some b \<and> sync_handle (fut_sync g) = h)"
  proof cases
    case 1
    with cells_okD(3) [OF ok] x show ?thesis by (metis fun_upd_other option.distinct(1))
  next
    case 2
    with a show ?thesis by auto
  qed
qed

text \<open>A future moved to a variable that has none takes its cell and its counter along.\<close>

lemma cells_move:
  assumes ok: "cells_ok V A W" and x: "V x = None" and y: "V y = Some g"
    and f: "fut_sync f = fut_sync g" "fut_value f = fut_value g"
  shows "cells_ok (V(y \<mapsto> moved_from g, x \<mapsto> f)) A W"
proof (rule cells_okI)
  have "x \<noteq> y" using x y by auto
  then have c: "cell_of (V(y \<mapsto> moved_from g, x \<mapsto> f)) z = (if z = x then cell_of V y else if z = y then None else cell_of V z)" for z
    using y f by (simp add: moved_from_def)
  have n: "cell_of V x = None" using x by simp
  show "a \<in> A \<longleftrightarrow> (\<exists>z. cell_of (V(y \<mapsto> moved_from g, x \<mapsto> f)) z = Some a)" for a
    unfolding c cells_okD(1) [OF ok] using n by (metis option.distinct(1))
  show "z = u" if "cell_of (V(y \<mapsto> moved_from g, x \<mapsto> f)) z = Some a" "cell_of (V(y \<mapsto> moved_from g, x \<mapsto> f)) u = Some a" for z u a
    using that cells_okD(2) [OF ok, of _ a] unfolding c by (metis option.distinct(1))
next
  fix a h assume w: "(a, h) \<in> W"
  with cells_okD(3) [OF ok] obtain z k where
    k: "counter_is_valid h" "V z = Some k" "fut_value k = Some a" "sync_handle (fut_sync k) = h" by blast
  show "counter_is_valid h \<and> (\<exists>z k. (V(y \<mapsto> moved_from g, x \<mapsto> f)) z = Some k \<and> fut_value k = Some a \<and>
      sync_handle (fut_sync k) = h)"
  proof (cases "z = y")
    case True
    then show ?thesis using k y f by (intro conjI exI [of _ x] exI [of _ f]) simp_all
  next
    case False
    then show ?thesis using k x by (intro conjI exI [of _ z] exI [of _ k]) auto
  qed
qed

lemma freed_books:
  assumes "book_cells ds l = Some (A, W)" and "set_option c \<subseteq> A" and "\<And>a. c = Some a \<Longrightarrow> a \<notin> fst ` W"
  shows "book_cells (ds @ freed c) l = Some (A - set_option c, W)"
  using assms by (cases c) (simp_all add: freed_def book_cells_append)

lemma drop_books:
  assumes b: "book_cells cs ({}, {}) = Some (A, W)" and ok: "cells_ok V A W" and x: "V x = Some f"
    and p: "prog_log orc (wait_for (fut_sync f)) cs = (Inr (v, s'), ds)"
  shows "book_cells (ds @ freed (fut_value f)) ({}, {}) =
      Some (A - set_option (fut_value f), {w \<in> W. snd w \<noteq> sync_handle (fut_sync f)})"
proof (rule freed_books)
  have "\<forall>w \<in> W. counter_is_valid (snd w)" using cells_okD(3) [OF ok] by auto
  from wait_books [OF b this, of orc "fut_sync f" True] p
  show "book_cells ds ({}, {}) = Some (A, {w \<in> W. snd w \<noteq> sync_handle (fut_sync f)})" by (simp add: wait_for_def)
  show "set_option (fut_value f) \<subseteq> A" using cells_waited(1) [OF ok x] by auto
  show "a \<notin> fst ` {w \<in> W. snd w \<noteq> sync_handle (fut_sync f)}" if "fut_value f = Some a" for a
    using cells_waited(2) [OF ok x that] .
qed

lemma valid_writers: "cells_ok V A W \<Longrightarrow> \<forall>w \<in> W. counter_is_valid (snd w)"
  using cells_okD(3) by fastforce

lemma wait_log:
  assumes "cells_ok V A W" and "book_cells cs ({}, {}) = Some (A, W)"
  obtains v s' ds where "prog_log orc (single_wait_for s pinned) cs = (Inr (v, s'), ds)"
    "book_cells ds ({}, {}) = Some (A, {w \<in> W. snd w \<noteq> sync_handle s})"
  using wait_books [OF assms(2) valid_writers [OF assms(1)]] by blast

lemma submit_log:
  assumes "submit_future dbg alive a T func d = Some p" and "prog_log orc p cs = (Inr f, ds)"
  shows "\<exists>ts. f = \<lparr>fut_sync = \<lparr>sync_handle = handle_result (orc cs CallAcquire)\<rparr>, fut_value = Some a\<rparr> \<and>
    ds = cs @ [Called CallAcquire, Called (CallSubmit ts (handle_result (orc cs CallAcquire)))]"
proof (cases "cc_assert dbg alive ''attempted submit outside of live scheduler''")
  case (Inl e)
  with assms show ?thesis by (auto simp: submit_future_def submit_raw_def prog_assert_def)
next
  case (Inr u)
  with assms show ?thesis by (auto simp: submit_future_def submit_raw_def prog_assert_def null_sync_def
    counter_is_valid_def set_sync_def future_new_def)
qed

text \<open>Every operation keeps the ledger in step with the futures.\<close>

lemma fut_step_inv:
  assumes fresh: "\<And>cs. counter_is_valid (handle_result (orc cs CallAcquire))"
    and "fut_inv s" and "fut_step dbg alive d orc x s = Some s'"
  shows "fut_inv s'"
proof -
  from assms(2) obtain A W where b: "book_cells (fut_log s) ({}, {}) = Some (A, W)" and ok: "cells_ok (fut_vars s) A W"
    by (auto simp: fut_inv_def)
  have free: "free_cell a s \<longleftrightarrow> a \<notin> A" for a by (simp add: free_cell_def b)
  show ?thesis
  proof (cases x)
    case (NewFuture x a)
    with assms(3) free have "fut_vars s x = None" "a \<notin> A"
      "s' = \<lparr>fut_vars = (fut_vars s)(x \<mapsto> future_new a), fut_log = fut_log s @ [Alloc a]\<rparr>" by (auto split: if_splits)
    moreover from cells_new [OF ok this(1,2), of "future_new a" W]
    have "cells_ok ((fut_vars s)(x \<mapsto> future_new a)) (insert a A) W" by (simp add: future_new_def)
    ultimately show ?thesis unfolding fut_inv_def by (simp add: book_cells_append b)
  next
    case (SubmitFuture x a T func)
    with assms(3) free obtain p f ds where n: "fut_vars s x = None" "a \<notin> A"
      and p: "submit_future dbg alive a T func d = Some p" "prog_log orc p (fut_log s @ [Alloc a]) = (Inr f, ds)"
      and s': "s' = \<lparr>fut_vars = (fut_vars s)(x \<mapsto> f), fut_log = ds @ [Writer a (sync_handle (fut_sync f))]\<rparr>"
      by (auto split: if_splits option.splits prod.splits sum.splits)
    from submit_log [OF p] obtain ts h where
      h: "h = handle_result (orc (fut_log s @ [Alloc a]) CallAcquire)"
        "f = \<lparr>fut_sync = \<lparr>sync_handle = h\<rparr>, fut_value = Some a\<rparr>"
        "ds = fut_log s @ [Alloc a] @ [Called CallAcquire, Called (CallSubmit ts h)]" by auto
    have "cells_ok ((fut_vars s)(x \<mapsto> f)) (insert a A) (insert (a, h) W)"
      by (rule cells_new [OF ok n]) (simp_all add: h fresh)
    moreover have "book_cells (fut_log s') ({}, {}) = Some (insert a A, insert (a, h) W)"
      using n by (simp add: s' h(2,3) book_cells_append b)
    ultimately show ?thesis unfolding fut_inv_def by (simp add: s')
  next
    case (GetFuture x pinned)
    then obtain f where f: "fut_vars s x = Some f" using assms(3) by (auto split: option.splits)
    from wait_log [OF ok b, of orc "fut_sync f" pinned] obtain v s1 ds where
      w: "prog_log orc (single_wait_for (fut_sync f) pinned) (fut_log s) = (Inr (v, s1), ds)"
        "book_cells ds ({}, {}) = Some (A, {w \<in> W. snd w \<noteq> sync_handle (fut_sync f)})" .
    have p: "prog_log orc (future_get pinned f) (fut_log s) = (Inr (fut_value f, f\<lparr>fut_sync := s1\<rparr>), ds)"
      using w(1) by (cases pinned) (simp_all add: future_get_def prog_log_bind wait_for_def wait_for_unpinned_def)
    with assms(3) f GetFuture obtain a where a: "fut_value f = Some a"
      "s' = \<lparr>fut_vars = (fut_vars s)(x \<mapsto> f\<lparr>fut_sync := s1\<rparr>), fut_log = ds @ [Deref a]\<rparr>"
      by (auto split: option.splits)
    with cells_wait [OF ok f, of s1] cells_waited [OF ok f a(1)] w(2) show ?thesis
      unfolding fut_inv_def by (simp add: book_cells_append)
  next
    case (MoveConstruct x y)
    then obtain g where g: "fut_vars s x = None" "fut_vars s y = Some g"
      "s' = s\<lparr>fut_vars := (fut_vars s)(y \<mapsto> moved_from g, x \<mapsto> \<lparr>fut_sync = fut_sync g, fut_value = fut_value g\<rparr>)\<rparr>"
      using assms(3) by (auto simp: future_move_def split: option.splits if_splits)
    with cells_move [OF ok g(1,2)] b show ?thesis unfolding fut_inv_def by simp
  next
    case (MoveAssign x y)
    then obtain f g where fg: "fut_vars s x = Some f" "fut_vars s y = Some g" using assms(3) by (auto split: option.splits)
    show ?thesis
    proof (cases "x = y")
      case True
      with MoveAssign fg assms(2,3) show ?thesis by simp
    next
      case False
      let ?f = "f\<lparr>fut_sync := fut_sync g, fut_value := fut_value g\<rparr>"
      obtain v s1 ds where w: "prog_log orc (wait_for (fut_sync f)) (fut_log s) = (Inr (v, s1), ds)"
        unfolding wait_for_def by (rule wait_log [OF ok b])
      then have "prog_log orc (future_assign f g) (fut_log s) = (Inr (?f, moved_from g, fut_value f), ds)"
        by (simp add: future_assign_def prog_log_bind)
      with assms(3) fg False MoveAssign
      have s': "s' = \<lparr>fut_vars = (fut_vars s)(x \<mapsto> ?f, y \<mapsto> moved_from g), fut_log = ds @ freed (fut_value f)\<rparr>" by simp
      have "cells_ok (((fut_vars s)(x := None))(y \<mapsto> moved_from g, x \<mapsto> ?f)) (A - set_option (fut_value f))
          {w \<in> W. snd w \<noteq> sync_handle (fut_sync f)}"
        using fg False by (intro cells_move [OF cells_drop [OF ok fg(1)]]) simp_all
      moreover have "((fut_vars s)(x := None))(y \<mapsto> moved_from g, x \<mapsto> ?f) = (fut_vars s)(x \<mapsto> ?f, y \<mapsto> moved_from g)"
        using False by (simp add: fun_upd_twist)
      ultimately show ?thesis unfolding fut_inv_def s' using drop_books [OF b ok fg(1) w] by auto
    qed
  next
    case (DestroyFuture x)
    then obtain f where f: "fut_vars s x = Some f" using assms(3) by (auto split: option.splits)
    obtain v s1 ds where w: "prog_log orc (wait_for (fut_sync f)) (fut_log s) = (Inr (v, s1), ds)"
      unfolding wait_for_def by (rule wait_log [OF ok b])
    then have "prog_log orc (future_destroy f) (fut_log s) = (Inr (fut_value f), ds)"
      by (simp add: future_destroy_def prog_log_bind)
    with assms(3) f DestroyFuture
    have s': "s' = \<lparr>fut_vars = (fut_vars s)(x := None), fut_log = ds @ freed (fut_value f)\<rparr>" by simp
    show ?thesis unfolding fut_inv_def s' using drop_books [OF b ok f w] cells_drop [OF ok f] by auto
  qed
qed

lemma fut_run_inv:
  "(\<And>cs. counter_is_valid (handle_result (orc cs CallAcquire))) \<Longrightarrow> fut_inv s \<Longrightarrow>
   fut_run dbg alive d orc ops s = Some s' \<Longrightarrow> fut_inv s'"
  by (induction ops arbitrary: s) (auto split: option.splits intro: fut_step_inv)

text \<open>
  C21: for all sequences of operations on futures and all results of the calls, as long as no acquired
  handle is the null handle: a cell is read or freed only while it is allocated and after the wait for the
  task that writes to it, each allocated cell belongs to one future, a task that may still write has its
  counter in the future that owns its cell, and when no future is left every cell is freed and no task
  can write any more.
\<close>

theorem futures_safe:
  assumes "\<And>cs. counter_is_valid (handle_result (orc cs CallAcquire))"
    and "fut_run dbg alive d orc ops no_futures = Some s"
  shows "\<exists>A W. book_cells (fut_log s) ({}, {}) = Some (A, W) \<and>
    (\<forall>a. a \<in> A \<longleftrightarrow> (\<exists>x. cell_of (fut_vars s) x = Some a)) \<and>
    (\<forall>x y a. cell_of (fut_vars s) x = Some a \<longrightarrow> cell_of (fut_vars s) y = Some a \<longrightarrow> x = y) \<and>
    (\<forall>a h. (a, h) \<in> W \<longrightarrow> (\<exists>x f. fut_vars s x = Some f \<and> fut_value f = Some a \<and> sync_handle (fut_sync f) = h)) \<and>
    ((\<forall>x. fut_vars s x = None) \<longrightarrow> A = {} \<and> W = {})"
proof -
  have "fut_inv no_futures" by (auto simp: fut_inv_def no_futures_def cells_ok_def cell_of_def)
  from fut_run_inv [OF assms(1) this assms(2)] obtain A W where
    b: "book_cells (fut_log s) ({}, {}) = Some (A, W)" and ok: "cells_ok (fut_vars s) A W" by (auto simp: fut_inv_def)
  note d = cells_okD [OF ok]
  have "A = {} \<and> W = {}" if n: "\<forall>x. fut_vars s x = None"
  proof
    show "A = {}" using d(1) n by (auto simp: cell_of_def)
    show "W = {}" using d(3) n by fastforce
  qed
  note empty = this
  show ?thesis
  proof (intro exI [of _ A] exI [of _ W] conjI allI impI)
    show "a \<in> A \<longleftrightarrow> (\<exists>x. cell_of (fut_vars s) x = Some a)" for a by (rule d(1))
    show "x = y" if "cell_of (fut_vars s) x = Some a" "cell_of (fut_vars s) y = Some a" for x y a by (rule d(2) [OF that])
    show "\<exists>x f. fut_vars s x = Some f \<and> fut_value f = Some a \<and> sync_handle (fut_sync f) = h" if "(a, h) \<in> W" for a h
      using d(3) [OF that] by (rule conjunct2)
    show "A = {}" "W = {}" if "\<forall>x. fut_vars s x = None" using empty [OF that] by simp_all
  qed (rule b)
qed

definition sample_answers :: answers where
  "sample_answers cs c = (case c of CallAcquire \<Rightarrow> HandleResult 5 | CallReleaseIfOnTarget _ _ \<Rightarrow> BoolResult True
     | CallWait _ _ _ \<Rightarrow> IntResult 1 | _ \<Rightarrow> NoResult)"

definition sample_futures :: "fut_op list" where
  "sample_futures = [SubmitFuture 0 10 7 [1, 2], MoveConstruct 1 0, GetFuture 1 True, NewFuture 2 11, MoveAssign 2 1,
     DestroyFuture 0, DestroyFuture 1, DestroyFuture 2]"

fun op_vars :: "fut_op \<Rightarrow> nat set" where
  "op_vars (NewFuture x a) = {x}" | "op_vars (SubmitFuture x a T func) = {x}" | "op_vars (GetFuture x p) = {x}"
| "op_vars (MoveConstruct x y) = {x, y}" | "op_vars (MoveAssign x y) = {x, y}" | "op_vars (DestroyFuture x) = {x}"

lemma fut_step_frame: "fut_step dbg alive d orc p s = Some s' \<Longrightarrow> x \<notin> op_vars p \<Longrightarrow> fut_vars s' x = fut_vars s x"
  by (cases p) (auto simp: future_move_def split: if_splits option.splits prod.splits sum.splits)

lemma fut_run_frame:
  "fut_run dbg alive d orc ops s = Some s' \<Longrightarrow> x \<notin> (\<Union>p \<in> set ops. op_vars p) \<Longrightarrow> fut_vars s' x = fut_vars s x"
  by (induction ops arbitrary: s) (auto split: option.splits dest: fut_step_frame)

theorem futures_safe_witness:
  "\<exists>s. fut_run True True sample_task sample_answers sample_futures no_futures = Some s \<and>
     book_cells (fut_log s) ({}, {}) = Some ({}, {}) \<and> length (fut_log s) = 10"
proof -
  have v: "counter_is_valid (handle_result (sample_answers cs CallAcquire))" for cs
    by (simp add: sample_answers_def counter_is_valid_def null_handle_value_def)
  have "case fut_run True True sample_task sample_answers sample_futures no_futures of None \<Rightarrow> False
    | Some s \<Rightarrow> fut_vars s 0 = None \<and> fut_vars s 1 = None \<and> fut_vars s 2 = None \<and> length (fut_log s) = 10"
    by code_simp
  then obtain s where s: "fut_run True True sample_task sample_answers sample_futures no_futures = Some s"
    "fut_vars s 0 = None" "fut_vars s 1 = None" "fut_vars s 2 = None" "length (fut_log s) = 10"
    by (auto split: option.splits)
  have "fut_vars s x = None" for x
    using s(2-4) fut_run_frame [OF s(1), of x] by (cases "x \<in> {0, 1, 2}") (auto simp: sample_futures_def no_futures_def)
  with futures_safe [of sample_answers True True sample_task sample_futures s, OF v s(1)]
  have "book_cells (fut_log s) ({}, {}) = Some ({}, {})" by auto
  with s show ?thesis by blast
qed

end
