(* ===== verification/Native_Threads.thy ===== *)
theory Native_Threads
  imports Prelude "HOL-Library.Signed_Division"
begin

text \<open>
  The POSIX part of native/thread.hh: the stack size, affinity and signal mask of a new worker thread,
  and the timed wait of idle workers. The pthread functions are parameters: a record of functions on a
  thread attribute object and on a state of the operating system. What the code relies on of them is
  stated as \<open>posix_documented\<close> and \<open>clock_documented\<close>, after the manual pages.
\<close>

section \<open>The functions of the platform\<close>

text \<open>
  Return codes are words of \<open>int\<close>, 0 for success. \<open>p_getstacksize\<close> is \<open>None\<close> where the call fails
  and leaves its output alone. \<open>pthread_sigmask\<close> also gives the previous mask.
\<close>

datatype sig_how = SIG_BLOCK | SIG_SETMASK

record ('attr, 'sigs, 'w) posix =
  p_page_size :: "64 word"
  p_stack_min :: usize
  p_attr_init :: "'w \<Rightarrow> 'attr \<times> 'w"
  p_attr_destroy :: "'attr \<Rightarrow> 'w \<Rightarrow> 'w"
  p_getstacksize :: "'attr \<Rightarrow> usize option"
  p_setstacksize :: "'attr \<Rightarrow> usize \<Rightarrow> cint \<times> 'attr"
  p_setaffinity :: "'attr \<Rightarrow> usize list \<Rightarrow> cint \<times> 'attr"
  p_sigfillset :: 'sigs
  p_sigmask :: "sig_how \<Rightarrow> 'sigs \<Rightarrow> 'w \<Rightarrow> (cint \<times> 'sigs) \<times> 'w"
  p_create :: "'attr \<Rightarrow> 'w \<Rightarrow> cint \<times> 'w"

section \<open>Stack sizes\<close>

definition get_page_size :: "bool \<Rightarrow> ('attr, 'sigs, 'w) posix \<Rightarrow> failure + usize" where
  "get_page_size dbg P =
     (let res = p_page_size P
      in and_then (cc_assert dbg (0 < sint res) ''Error retrieving page size'') (\<lambda>_. Inr res))"

definition round_to_page_size :: "bool \<Rightarrow> ('attr, 'sigs, 'w) posix \<Rightarrow> usize \<Rightarrow> failure + usize" where
  "round_to_page_size dbg P stack_size =
     and_then (get_page_size dbg P) (\<lambda>page_size.
       if page_size = 0 then Inl DivisionByZero
       else let remainder = stack_size mod page_size
         in if remainder = 0 then Inr stack_size else Inr (stack_size + page_size - remainder))"

definition set_stack_size ::
  "bool \<Rightarrow> ('attr, 'sigs, 'w) posix \<Rightarrow> 'attr \<Rightarrow> usize \<Rightarrow> failure + bool \<times> 'attr" where
  "set_stack_size dbg P attr stack_size =
     (let default_stack_size = (case p_getstacksize P attr of None \<Rightarrow> - 1 | Some n \<Rightarrow> n)
      in and_then (cc_assert dbg (p_stack_min P \<le> default_stack_size) ''default_stack_size >= PTHREAD_STACK_MIN'') (\<lambda>_.
         let size = (if stack_size < default_stack_size then default_stack_size else stack_size)
         in case p_setstacksize P attr size of (setstack_res, attr1) \<Rightarrow>
            if setstack_res \<noteq> 0
            then and_then (round_to_page_size dbg P size) (\<lambda>rounded.
              case p_setstacksize P attr1 rounded of (setstack_res_retry, attr2) \<Rightarrow>
                Inr (if setstack_res_retry \<noteq> 0 then (False, attr2) else (True, attr2)))
            else Inr (True, attr1)))"

section \<open>Creating a thread\<close>

text \<open>
  The deferred \<open>pthread_attr_destroy\<close> runs on every return.
\<close>

definition create_posix_thread ::
  "bool \<Rightarrow> ('attr, 'sigs, 'w) posix \<Rightarrow> usize \<Rightarrow> bool \<Rightarrow> usize \<Rightarrow> 'w \<Rightarrow> failure + bool \<times> 'w" where
  "create_posix_thread dbg P stack_size set_core_affinity core_affinity w0 =
     (case p_attr_init P w0 of (attr0, w1) \<Rightarrow>
        and_then (set_stack_size dbg P attr0 stack_size) (\<lambda>(stack_set, attr1).
          if \<not> stack_set then Inr (False, p_attr_destroy P attr1 w1)
          else case (if set_core_affinity then p_setaffinity P attr1 [core_affinity] else (0, attr1)) of
            (setaffinity_res, attr2) \<Rightarrow>
              if setaffinity_res \<noteq> 0 then Inr (False, p_attr_destroy P attr2 w1)
              else case p_sigmask P SIG_BLOCK (p_sigfillset P) w1 of
                ((block_res, old_sig_mask), w2) \<Rightarrow>
                  case p_create P attr2 w2 of
                    (create_res, w3) \<Rightarrow>
                      let w4 = (if block_res = 0 then snd (p_sigmask P SIG_SETMASK old_sig_mask w3) else w3)
                      in Inr (create_res = 0, p_attr_destroy P attr2 w4)))"

definition create_thread ::
  "bool \<Rightarrow> ('attr, 'sigs, 'w) posix \<Rightarrow> usize \<Rightarrow> 'w \<Rightarrow> failure + bool \<times> 'w" where
  "create_thread dbg P stack_size w = create_posix_thread dbg P stack_size False 0 w"

definition create_pinned_thread ::
  "bool \<Rightarrow> ('attr, 'sigs, 'w) posix \<Rightarrow> usize \<Rightarrow> usize \<Rightarrow> 'w \<Rightarrow> failure + bool \<times> 'w" where
  "create_pinned_thread dbg P stack_size core_affinity w = create_posix_thread dbg P stack_size True core_affinity w"

text \<open>The argument of \<open>usleep\<close>, in microseconds; the product of \<open>unsigned\<close>s wraps from 72 minutes on.\<close>

definition thread_sleep :: "u32 \<Rightarrow> u32" where
  "thread_sleep milliseconds = milliseconds * 1000"

lemma thread_sleep_exact:
  "unat ms * 1000 < 2 ^ 32 \<Longrightarrow> unat (thread_sleep ms) = unat ms * 1000" "thread_sleep 4294968 = 704"
  by (simp_all add: thread_sleep_def unat_mult_lem [THEN iffD1])

section \<open>What the manual pages say\<close>

text \<open>
  A view of the operating system: the signal mask of the calling thread, the attribute objects that
  are initialised, the threads created so far, each with its attributes and its first signal mask, and the
  cores an attribute object allows.
  A new thread inherits a copy of its creator's mask. A thread may always set its own mask back, while
  blocking all signals may be refused.
\<close>

record ('attr, 'sigs, 'w) posix_view =
  v_mask :: "'w \<Rightarrow> 'sigs"
  v_attrs :: "'w \<Rightarrow> nat"
  v_threads :: "'w \<Rightarrow> ('attr \<times> 'sigs) list"
  v_cores :: "'attr \<Rightarrow> usize list option"

definition posix_documented :: "('attr, 'sigs, 'w) posix \<Rightarrow> ('attr, 'sigs, 'w) posix_view \<Rightarrow> bool" where
  "posix_documented P V \<longleftrightarrow>
     (\<forall>w a w'. p_attr_init P w = (a, w') \<longrightarrow>
        v_mask V w' = v_mask V w \<and> v_attrs V w' = Suc (v_attrs V w) \<and> v_threads V w' = v_threads V w) \<and>
     (\<forall>a w. v_mask V (p_attr_destroy P a w) = v_mask V w \<and> v_threads V (p_attr_destroy P a w) = v_threads V w \<and>
        v_attrs V (p_attr_destroy P a w) = v_attrs V w - 1) \<and>
     (\<forall>a n r a'. p_setstacksize P a n = (r, a') \<longrightarrow>
        p_getstacksize P a' = (if r = 0 then Some n else p_getstacksize P a) \<and> v_cores V a' = v_cores V a) \<and>
     (\<forall>a cs r a'. p_setaffinity P a cs = (r, a') \<longrightarrow> p_getstacksize P a' = p_getstacksize P a \<and>
        (r = 0 \<longrightarrow> v_cores V a' = Some cs)) \<and>
     (\<forall>how m w r old w'. p_sigmask P how m w = ((r, old), w') \<longrightarrow>
        v_attrs V w' = v_attrs V w \<and> v_threads V w' = v_threads V w \<and>
        (r = 0 \<longrightarrow> old = v_mask V w) \<and> (r \<noteq> 0 \<longrightarrow> v_mask V w' = v_mask V w) \<and>
        (how = SIG_SETMASK \<longrightarrow> r = 0 \<and> v_mask V w' = m) \<and>
        (how = SIG_BLOCK \<and> m = p_sigfillset P \<and> r = 0 \<longrightarrow> v_mask V w' = m)) \<and>
     (\<forall>a w r w'. p_create P a w = (r, w') \<longrightarrow>
        v_mask V w' = v_mask V w \<and> v_attrs V w' = v_attrs V w \<and>
        v_threads V w' = (if r = 0 then v_threads V w @ [(a, v_mask V w)] else v_threads V w))"

lemma documented_init:
  "posix_documented P V \<Longrightarrow> p_attr_init P w = (a, w') \<Longrightarrow>
   v_mask V w' = v_mask V w \<and> v_attrs V w' = Suc (v_attrs V w) \<and> v_threads V w' = v_threads V w"
  by (simp add: posix_documented_def)

lemma documented_destroy:
  "posix_documented P V \<Longrightarrow>
   v_mask V (p_attr_destroy P a w) = v_mask V w \<and> v_threads V (p_attr_destroy P a w) = v_threads V w \<and>
   v_attrs V (p_attr_destroy P a w) = v_attrs V w - 1"
  by (simp add: posix_documented_def)

lemma documented_stack:
  "posix_documented P V \<Longrightarrow> p_setstacksize P a n = (r, a') \<Longrightarrow>
   p_getstacksize P a' = (if r = 0 then Some n else p_getstacksize P a) \<and> v_cores V a' = v_cores V a"
  by (simp add: posix_documented_def)

lemma documented_affinity:
  "posix_documented P V \<Longrightarrow> p_setaffinity P a cs = (r, a') \<Longrightarrow> p_getstacksize P a' = p_getstacksize P a \<and>
   (r = 0 \<longrightarrow> v_cores V a' = Some cs)"
  by (simp add: posix_documented_def)

lemma documented_sigmask:
  assumes "posix_documented P V" and "p_sigmask P how m w = ((r, old), w')"
  shows "v_attrs V w' = v_attrs V w" and "v_threads V w' = v_threads V w"
    and "r = 0 \<Longrightarrow> old = v_mask V w" and "r \<noteq> 0 \<Longrightarrow> v_mask V w' = v_mask V w"
    and "how = SIG_SETMASK \<Longrightarrow> v_mask V w' = m"
    and "how = SIG_BLOCK \<Longrightarrow> m = p_sigfillset P \<Longrightarrow> r = 0 \<Longrightarrow> v_mask V w' = m"
proof -
  have "\<forall>how m w r old w'. p_sigmask P how m w = ((r, old), w') \<longrightarrow>
        v_attrs V w' = v_attrs V w \<and> v_threads V w' = v_threads V w \<and>
        (r = 0 \<longrightarrow> old = v_mask V w) \<and> (r \<noteq> 0 \<longrightarrow> v_mask V w' = v_mask V w) \<and>
        (how = SIG_SETMASK \<longrightarrow> r = 0 \<and> v_mask V w' = m) \<and>
        (how = SIG_BLOCK \<and> m = p_sigfillset P \<and> r = 0 \<longrightarrow> v_mask V w' = m)"
    using assms(1) unfolding posix_documented_def by (elim conjE) assumption
  note d = this [rule_format, OF assms(2)]
  show "v_attrs V w' = v_attrs V w" and "v_threads V w' = v_threads V w"
    and "r = 0 \<Longrightarrow> old = v_mask V w" and "r \<noteq> 0 \<Longrightarrow> v_mask V w' = v_mask V w"
    and "how = SIG_SETMASK \<Longrightarrow> v_mask V w' = m"
    and "how = SIG_BLOCK \<Longrightarrow> m = p_sigfillset P \<Longrightarrow> r = 0 \<Longrightarrow> v_mask V w' = m"
    using d by simp_all
qed

lemma documented_create:
  "posix_documented P V \<Longrightarrow> p_create P a w = (r, w') \<Longrightarrow>
   v_mask V w' = v_mask V w \<and> v_attrs V w' = v_attrs V w \<and>
   v_threads V w' = (if r = 0 then v_threads V w @ [(a, v_mask V w)] else v_threads V w)"
  by (simp add: posix_documented_def)

section \<open>The stack size\<close>

lemma round_up_word:
  fixes n p :: usize
  assumes "0 < p" and "n mod p \<noteq> 0" and "unat n + unat p < 2 ^ 64"
  shows "n \<le> n + p - n mod p" and "unat (n + p - n mod p) mod unat p = 0"
    and "unat (n + p - n mod p) = unat n + unat p - unat n mod unat p"
proof -
  have r: "unat (n mod p) = unat n mod unat p" by (simp add: unat_mod)
  have p: "0 < unat p" using assms(1) by (simp add: word_less_nat_alt)
  then have lt: "unat n mod unat p < unat p" by simp
  have s: "unat (n + p) = unat n + unat p" using assms(3) by (simp add: unat_word_ariths)
  have "n mod p \<le> n + p" using r s lt by (simp add: word_le_nat_alt)
  then show eq: "unat (n + p - n mod p) = unat n + unat p - unat n mod unat p"
    using r s by (simp add: unat_sub)
  show "n \<le> n + p - n mod p" using eq lt by (simp add: word_le_nat_alt)
  have "unat n + unat p - unat n mod unat p = (unat n - unat n mod unat p) + unat p" by simp
  also have "\<dots> = (unat n div unat p + 1) * unat p" by (simp add: minus_mod_eq_div_mult)
  finally have "unat n + unat p - unat n mod unat p = (unat n div unat p + 1) * unat p" .
  then show "unat (n + p - n mod p) mod unat p = 0" by (simp only: eq mod_mult_self2_is_0)
qed

lemma page_size_ok:
  assumes "0 < sint (p_page_size P)"
  shows "get_page_size dbg P = Inr (p_page_size P)" and "0 < p_page_size P"
proof -
  from assms show "get_page_size dbg P = Inr (p_page_size P)" by (simp add: get_page_size_def fail_simps)
  have "p_page_size P \<noteq> 0" using assms by auto
  then show "0 < p_page_size P" by (simp add: word_neq_0_conv)
qed

lemma round_to_page_size_ok:
  assumes "0 < sint (p_page_size P)" and "unat n + unat (p_page_size P) < 2 ^ 64"
  shows "\<exists>m. round_to_page_size dbg P n = Inr m \<and> n \<le> m \<and> unat m mod unat (p_page_size P) = 0 \<and>
    unat m < unat n + unat (p_page_size P)"
proof (cases "n mod p_page_size P = 0")
  case True
  then have "round_to_page_size dbg P n = Inr n"
    using page_size_ok [OF assms(1)] by (simp add: round_to_page_size_def fail_simps Let_def)
  moreover have "unat n mod unat (p_page_size P) = 0" using True by (metis unat_0 unat_mod)
  ultimately show ?thesis using page_size_ok(2) [OF assms(1)] by (simp add: word_less_nat_alt)
next
  case False
  note r = round_up_word [OF page_size_ok(2) [OF assms(1)] False assms(2)]
  have "round_to_page_size dbg P n = Inr (n + p_page_size P - n mod p_page_size P)"
    using False page_size_ok [OF assms(1)] by (simp add: round_to_page_size_def fail_simps Let_def)
  moreover have "0 < unat n mod unat (p_page_size P)"
    using False by (metis unat_mod unat_eq_0 neq0_conv)
  moreover have "unat n + unat (p_page_size P) - unat n mod unat (p_page_size P) < unat n + unat (p_page_size P)"
    using calculation(2) page_size_ok(2) [OF assms(1)] by (intro diff_less) (simp_all add: word_less_nat_alt)
  ultimately show ?thesis using r by simp
qed

text \<open>
  \<open>set_stack_size\<close> asks for the larger one of the requested and the default size. When it says that it
  succeeded the attributes hold a size of at least both, which is that size itself or, after the retry, its
  next multiple of the page size; when it fails the attributes keep the size they had.
\<close>

definition wanted_stack :: "('attr, 'sigs, 'w) posix \<Rightarrow> 'attr \<Rightarrow> usize \<Rightarrow> usize" where
  "wanted_stack P attr stack_size = max stack_size (case p_getstacksize P attr of None \<Rightarrow> - 1 | Some n \<Rightarrow> n)"

lemma set_stack_size_ok:
  assumes doc: "posix_documented P V" and page: "0 < sint (p_page_size P)"
    and room: "unat (wanted_stack P a n) + unat (p_page_size P) < 2 ^ 64"
    and call: "set_stack_size dbg P a n = Inr (ok, a')"
  shows "ok \<Longrightarrow> \<exists>m. p_getstacksize P a' = Some m \<and> wanted_stack P a n \<le> m \<and>
      (m = wanted_stack P a n \<or> unat m mod unat (p_page_size P) = 0 \<and>
         unat m < unat (wanted_stack P a n) + unat (p_page_size P))"
    and "\<not> ok \<Longrightarrow> p_getstacksize P a' = p_getstacksize P a"
proof -
  let ?d = "case p_getstacksize P a of None \<Rightarrow> - 1 | Some n \<Rightarrow> n"
  have size: "(if n < ?d then ?d else n) = wanted_stack P a n" by (auto simp: wanted_stack_def max_def)
  obtain r a1 where s1: "p_setstacksize P a (wanted_stack P a n) = (r, a1)" by fastforce
  note d1 = documented_stack [OF doc s1]
  obtain m where m: "round_to_page_size dbg P (wanted_stack P a n) = Inr m" "wanted_stack P a n \<le> m"
    "unat m mod unat (p_page_size P) = 0" "unat m < unat (wanted_stack P a n) + unat (p_page_size P)"
    using round_to_page_size_ok [OF page room, of dbg] by (elim exE conjE) (rule that)
  obtain r' a2 where s2: "p_setstacksize P a1 m = (r', a2)" by fastforce
  note d2 = documented_stack [OF doc s2]
  have "cc_assert dbg (p_stack_min P \<le> ?d) ''default_stack_size >= PTHREAD_STACK_MIN'' = Inr ()"
    using call unfolding set_stack_size_def Let_def
    by (cases "cc_assert dbg (p_stack_min P \<le> ?d) ''default_stack_size >= PTHREAD_STACK_MIN''")
      (simp_all only: and_then_Inl sum.distinct sum.inject unit_eq)
  then have "set_stack_size dbg P a n = (if r \<noteq> 0 then Inr (if r' \<noteq> 0 then (False, a2) else (True, a2)) else Inr (True, a1))"
    unfolding set_stack_size_def Let_def size s1 by (simp add: fail_simps m(1) s2)
  with call have eq: "ok \<longleftrightarrow> r = 0 \<or> r' = 0" "a' = (if r = 0 then a1 else a2)" by (auto split: if_splits)
  show "ok \<Longrightarrow> \<exists>m. p_getstacksize P a' = Some m \<and> wanted_stack P a n \<le> m \<and>
      (m = wanted_stack P a n \<or> unat m mod unat (p_page_size P) = 0 \<and>
         unat m < unat (wanted_stack P a n) + unat (p_page_size P))"
    using eq d1 d2 m by (cases "r = 0") auto
  show "\<not> ok \<Longrightarrow> p_getstacksize P a' = p_getstacksize P a" using eq d1 d2 by simp
qed

text \<open>
  The rounding does not test for a wrap: with an unknown default size the wish is the largest size, which
  rounds to no stack at all.
\<close>

lemma round_wraps: "p_page_size P = 4096 \<Longrightarrow> round_to_page_size dbg P (- 1) = Inr 0"
  by (simp add: round_to_page_size_def get_page_size_def fail_simps)

section \<open>A new thread\<close>

text \<open>
  C25: however far \<open>create_posix_thread\<close> gets, the caller has the signal mask it had and every attribute
  object is destroyed again. When it returns true there is one new thread, with at least the wanted stack
  and, if the signals could be blocked, with all signals blocked from its first instruction on; when it
  returns false there is none.
\<close>

theorem create_thread_correct:
  assumes doc: "posix_documented P V" and page: "0 < sint (p_page_size P)"
    and init: "p_attr_init P w = (a0, w1)"
    and room: "unat (wanted_stack P a0 n) + unat (p_page_size P) < 2 ^ 64"
    and call: "create_posix_thread dbg P n pin core w = Inr (ok, w')"
  shows "v_mask V w' = v_mask V w \<and> v_attrs V w' = v_attrs V w \<and>
    (if ok then \<exists>a size m. v_threads V w' = v_threads V w @ [(a, m)] \<and>
         p_getstacksize P a = Some size \<and> wanted_stack P a0 n \<le> size \<and> (pin \<longrightarrow> v_cores V a = Some [core]) \<and>
         m = (if fst (fst (p_sigmask P SIG_BLOCK (p_sigfillset P) w1)) = 0 then p_sigfillset P else v_mask V w)
     else v_threads V w' = v_threads V w)"
proof -
  note di = documented_init [OF doc init]
  note dd = documented_destroy [OF doc]
  obtain set a1 where s: "set_stack_size dbg P a0 n = Inr (set, a1)"
    using call unfolding create_posix_thread_def init by (cases "set_stack_size dbg P a0 n") (auto simp: fail_simps)
  note stack = set_stack_size_ok [OF doc page room s]
  obtain ra a2 where a: "(if pin then p_setaffinity P a1 [core] else (0, a1)) = (ra, a2)" by fastforce
  have a2: "p_getstacksize P a2 = p_getstacksize P a1" "pin \<longrightarrow> ra = 0 \<longrightarrow> v_cores V a2 = Some [core]"
    using a documented_affinity [OF doc] by (auto split: if_splits)
  obtain rb old w2 where b: "p_sigmask P SIG_BLOCK (p_sigfillset P) w1 = ((rb, old), w2)" by (metis surj_pair)
  note db = documented_sigmask [OF doc b]
  obtain rc w3 where c: "p_create P a2 w2 = (rc, w3)" by fastforce
  note dc = documented_create [OF doc c]
  obtain rs u w4 where m: "p_sigmask P SIG_SETMASK old w3 = ((rs, u), w4)" by (metis surj_pair)
  note dm = documented_sigmask [OF doc m]
  show ?thesis
  proof (cases "set \<and> ra = 0")
    case False
    with call have "\<not> ok" "w' = p_attr_destroy P a1 w1 \<or> w' = p_attr_destroy P a2 w1"
      unfolding create_posix_thread_def init by (auto simp: s a fail_simps split: if_splits)
    then show ?thesis using di dd by auto
  next
    case True
    with call have r: "ok \<longleftrightarrow> rc = 0" "w' = p_attr_destroy P a2 (if rb = 0 then w4 else w3)"
      unfolding create_posix_thread_def init by (auto simp: s a b c m fail_simps Let_def)
    have mask: "v_mask V (if rb = 0 then w4 else w3) = v_mask V w" using db(3,4) dc dm(5) di by auto
    have attrs: "v_attrs V (if rb = 0 then w4 else w3) = Suc (v_attrs V w)" using db(1) dc dm(1) di by auto
    have threads: "v_threads V (if rb = 0 then w4 else w3) = v_threads V w3" using dm(2) by simp
    have first: "v_mask V w2 = (if rb = 0 then p_sigfillset P else v_mask V w)" using db(4,6) di by auto
    from stack(1) True obtain size where "p_getstacksize P a2 = Some size" "wanted_stack P a0 n \<le> size"
      using a2(1) by auto
    then show ?thesis using r mask attrs threads first dc db(2) di dd a2(2) True b by auto
  qed
qed

section \<open>The timed wait of idle workers\<close>

text \<open>
  \<open>pthread_cond_timedwait\<close> takes a point in time, seconds and nanoseconds since the epoch.
  \<open>event_wait_infinite\<close> is an \<open>unsigned\<close>, compared with the 64-bit parameter.
\<close>

type_synonym int64 = "64 word"

record 'w posix_cond =
  c_lock :: "'w \<Rightarrow> 'w"
  c_unlock :: "'w \<Rightarrow> 'w"
  c_wait :: "'w \<Rightarrow> 'w"
  c_timedwait :: "int64 \<Rightarrow> int64 \<Rightarrow> 'w \<Rightarrow> cint \<times> 'w"
  c_broadcast :: "'w \<Rightarrow> 'w"
  c_etimedout :: cint

definition event_wait_infinite :: u32 where
  "event_wait_infinite = - 1"

definition waittime :: "int64 \<Rightarrow> int64 \<times> int64" where
  "waittime milliseconds =
     (let tv_sec = word_of_int (sint milliseconds sdiv 1000);
          rest = milliseconds - tv_sec * 1000
      in (tv_sec, rest * 1000))"

definition wait_for_event :: "'w posix_cond \<Rightarrow> int64 \<Rightarrow> 'w \<Rightarrow> bool \<times> 'w" where
  "wait_for_event C milliseconds w =
     (let w1 = c_lock C w
      in if milliseconds = ucast event_wait_infinite then (True, c_unlock C (c_wait C w1))
         else case c_timedwait C (fst (waittime milliseconds)) (snd (waittime milliseconds)) w1 of
           (wait_res, w2) \<Rightarrow> (wait_res \<noteq> c_etimedout C, c_unlock C w2))"

definition signal_event :: "'w posix_cond \<Rightarrow> 'w \<Rightarrow> 'w" where
  "signal_event C w = c_unlock C (c_broadcast C (c_lock C w))"

text \<open>
  The clock in nanoseconds since the epoch and the number of times the thread was suspended. The clock
  does not go backwards, and a wait for a point in time that has passed times out without suspending.
\<close>

record 'w clock_view =
  v_clock :: "'w \<Rightarrow> int"
  v_suspended :: "'w \<Rightarrow> nat"

definition clock_documented :: "'w posix_cond \<Rightarrow> 'w clock_view \<Rightarrow> bool" where
  "clock_documented C V \<longleftrightarrow>
     (\<forall>w. v_clock V w \<le> v_clock V (c_lock C w)) \<and>
     (\<forall>w. v_suspended V (c_unlock C w) = v_suspended V w) \<and>
     (\<forall>sec nsec w r w'. c_timedwait C sec nsec w = (r, w') \<longrightarrow> sint sec * 10 ^ 9 + sint nsec \<le> v_clock V w \<longrightarrow>
        r = c_etimedout C \<and> v_suspended V w' = v_suspended V w)"

lemma waittime_value:
  assumes "0 \<le> sint ms" and "sint ms < 2 ^ 62"
  shows "sint (fst (waittime ms)) = sint ms div 1000" and "sint (snd (waittime ms)) = sint ms mod 1000 * 1000"
proof -
  have q: "sint ms sdiv 1000 = sint ms div 1000"
    using assms(1) by (cases "sint ms = 0") (simp_all add: signed_divide_int_def sgn_if)
  have b: "0 \<le> sint ms div 1000" "sint ms div 1000 \<le> sint ms" using assms(1) by (simp_all add: div_le_dividend)
  have s: "sint (word_of_int (sint ms div 1000) :: int64) = sint ms div 1000"
    using b assms(2) by (intro sint_word_of_int_small) auto
  then show "sint (fst (waittime ms)) = sint ms div 1000" by (simp add: waittime_def Let_def q)
  have "ms = word_of_int (sint ms)" by simp
  then have "snd (waittime ms) = word_of_int ((sint ms - sint ms div 1000 * 1000) * 1000)"
    unfolding waittime_def Let_def q by (metis (no_types) snd_conv wi_hom_mult wi_hom_sub word_of_int_numeral)
  also have "(sint ms - sint ms div 1000 * 1000) * 1000 = sint ms mod 1000 * 1000" by (simp add: minus_div_mult_eq_mod)
  finally have e: "snd (waittime ms) = word_of_int (sint ms mod 1000 * 1000)" .
  have "0 \<le> sint ms mod 1000 * 1000" "sint ms mod 1000 * 1000 < 1000000" by simp_all
  then show "sint (snd (waittime ms)) = sint ms mod 1000 * 1000"
    unfolding e by (intro sint_word_of_int_small) auto
qed


section \<open>A concrete platform\<close>

text \<open>
  A platform with two signals, pages of 4096 bytes and a \<open>pthread_attr_setstacksize\<close> that insists on whole
  pages: the state is the mask of the caller, the number of attribute objects and the new threads.
\<close>

type_synonym sample_attr = "usize \<times> usize list option"
type_synonym sample_os = "bool list \<times> nat \<times> (sample_attr \<times> bool list) list"

definition sample_posix :: "(sample_attr, bool list, sample_os) posix" where
  "sample_posix = \<lparr>p_page_size = 4096, p_stack_min = 16384,
     p_attr_init = (\<lambda>(m, n, ts). ((8192 * 1024, None), (m, Suc n, ts))),
     p_attr_destroy = (\<lambda>a (m, n, ts). (m, n - 1, ts)),
     p_getstacksize = (\<lambda>a. Some (fst a)),
     p_setstacksize = (\<lambda>a k. if k mod 4096 = 0 then (0, (k, snd a)) else (22, a)),
     p_setaffinity = (\<lambda>a cs. (0, (fst a, Some cs))),
     p_sigfillset = [True, True],
     p_sigmask = (\<lambda>how s (m, n, ts). ((0, m), (case how of SIG_SETMASK \<Rightarrow> s |
        SIG_BLOCK \<Rightarrow> (if s = [True, True] then s else map2 (\<or>) m s), n, ts))),
     p_create = (\<lambda>a (m, n, ts). (0, (m, n, ts @ [(a, m)])))\<rparr>"

definition sample_view :: "(sample_attr, bool list, sample_os) posix_view" where
  "sample_view = \<lparr>v_mask = fst, v_attrs = (\<lambda>w. fst (snd w)), v_threads = (\<lambda>w. snd (snd w)), v_cores = snd\<rparr>"

lemma sample_documented: "posix_documented sample_posix sample_view"
  by (auto simp: posix_documented_def sample_posix_def sample_view_def split: if_splits sig_how.splits)

theorem create_thread_correct_witness:
  "\<exists>w' size m a. create_posix_thread True sample_posix 8388609 True 3 ([False, True], 0, []) = Inr (True, w') \<and>
     v_mask sample_view w' = [False, True] \<and> v_threads sample_view w' = [(a, m)] \<and> m = [True, True] \<and>
     p_getstacksize sample_posix a = Some size \<and> 8388609 \<le> size"
proof -
  let ?w = "([False, True], 0, []) :: sample_os"
  have w: "wanted_stack sample_posix (8192 * 1024, None) 8388609 = 8388609"
    by (simp add: wanted_stack_def sample_posix_def max_def)
  have "\<exists>w'. create_posix_thread True sample_posix 8388609 True 3 ?w = Inr (True, w')"
    by (simp add: create_posix_thread_def set_stack_size_def sample_posix_def round_to_page_size_def get_page_size_def
      fail_simps Let_def)
  then obtain w' where c: "create_posix_thread True sample_posix 8388609 True 3 ?w = Inr (True, w')" ..
  have i: "p_attr_init sample_posix ?w = ((8192 * 1024, None), ([False, True], 1, []))" by (simp add: sample_posix_def)
  have page: "0 < sint (p_page_size sample_posix)" by (simp add: sample_posix_def)
  have room: "unat (wanted_stack sample_posix (8192 * 1024, None) 8388609) + unat (p_page_size sample_posix) < 2 ^ 64"
    unfolding w by (simp add: sample_posix_def)
  have p: "(if fst (fst (p_sigmask sample_posix SIG_BLOCK (p_sigfillset sample_posix) ([False, True], 1, []))) = 0
      then p_sigfillset sample_posix else m) = [True, True]" for m by (simp add: sample_posix_def)
  have v: "v_mask sample_view ?w = [False, True]" "v_threads sample_view ?w = []" by (simp_all add: sample_view_def)
  from create_thread_correct [OF sample_documented page i room c]
  obtain a size where "v_mask sample_view w' = [False, True]" "v_threads sample_view w' = [(a, [True, True])]"
    "p_getstacksize sample_posix a = Some size" "8388609 \<le> size"
    unfolding w v if_True p simp_thms append_Nil by (elim conjE exE) simp
  with c show ?thesis by blast
qed

definition sample_cond :: "(int \<times> nat) posix_cond" where
  "sample_cond = \<lparr>c_lock = id, c_unlock = id, c_wait = (\<lambda>(t, n). (t, Suc n)),
     c_timedwait = (\<lambda>sec nsec (t, n). (110, if sint sec * 10 ^ 9 + sint nsec \<le> t then (t, n)
        else (sint sec * 10 ^ 9 + sint nsec, Suc n))),
     c_broadcast = id, c_etimedout = 110\<rparr>"


end
