(* ===== verification/Start_Lifecycle.thy ===== *)
theory Start_Lifecycle
  imports Prelude
begin

text \<open>
  What \<open>Scheduler::start\<close> asks of the platform: the event, the thread fiber, the fibers, the worker
  threads, their joining and the clean-up, and on Windows the finer timer of native/util.cc. The calls are
  recorded in a log with their results; what the platform answers may depend on everything before. A
  ledger replays the log and accepts a call only when what it needs is alive.
\<close>

section \<open>Calls\<close>

text \<open>Modules and functions are addresses, \<open>None\<close> the null pointer.\<close>

datatype fiber_entry = FiberFunc | PrimaryFiberFunc

datatype native_call =
    CreateEvent
  | DestroyEvent
  | SignalEvent
  | LoadLibrary string "nat option"
  | GetProcAddress nat string "nat option"
  | FreeLibrary nat
  | BeginPeriod nat u32 u32
  | EndPeriod nat u32 u32
  | SetAffinity usize
  | CreateMainFiber
  | DeleteMainFiber
  | CreateFiber nat fiber_entry usize
  | DeleteFiber nat
  | SwitchToFiber nat
  | CreateThread nat usize "usize option" bool
  | JoinThread nat
  | StartStop nat bool
  | DeleteArg nat
  | EndThread

type_synonym native_log = "native_call list"

record platform =
  load_library :: "native_log \<Rightarrow> string \<Rightarrow> nat option"
  get_proc_address :: "native_log \<Rightarrow> nat \<Rightarrow> string \<Rightarrow> nat option"
  call_period :: "native_log \<Rightarrow> nat \<Rightarrow> u32 \<Rightarrow> u32"
  thread_created :: "native_log \<Rightarrow> nat \<Rightarrow> bool"

record native_state =
  g_hmodule_winmm :: "nat option"
  g_timebeginperiod :: "nat option"
  g_timeendperiod :: "nat option"
  calls :: native_log

definition emit :: "native_call list \<Rightarrow> native_state \<Rightarrow> native_state" where
  "emit cs s = s\<lparr>calls := calls s @ cs\<rparr>"

section \<open>The Windows timer\<close>

definition win32_shutdown_utils :: "native_state \<Rightarrow> native_state" where
  "win32_shutdown_utils s =
     (case g_hmodule_winmm s of
        None \<Rightarrow> s
      | Some m \<Rightarrow> emit [FreeLibrary m] s\<lparr>g_hmodule_winmm := None\<rparr>)
     \<lparr>g_timebeginperiod := None, g_timeendperiod := None\<rparr>"

definition win32_init_utils :: "platform \<Rightarrow> native_state \<Rightarrow> bool \<times> native_state" where
  "win32_init_utils E s =
     (if g_hmodule_winmm s \<noteq> None then (True, s)
      else let r = load_library E (calls s) ''Winmm.dll'';
               s1 = emit [LoadLibrary ''Winmm.dll'' r] s\<lparr>g_hmodule_winmm := r\<rparr>
        in case r of
             None \<Rightarrow> (False, s1)
           | Some m \<Rightarrow>
               let b = get_proc_address E (calls s1) m ''timeBeginPeriod'';
                   s2 = emit [GetProcAddress m ''timeBeginPeriod'' b] s1\<lparr>g_timebeginperiod := b\<rparr>;
                   e = get_proc_address E (calls s2) m ''timeEndPeriod'';
                   s3 = emit [GetProcAddress m ''timeEndPeriod'' e] s2\<lparr>g_timeendperiod := e\<rparr>
               in if b = None \<or> e = None then (False, win32_shutdown_utils s3) else (True, s3))"

definition win32_enable_scheduler_granular :: "platform \<Rightarrow> native_state \<Rightarrow> bool \<times> native_state" where
  "win32_enable_scheduler_granular E s =
     (case g_timebeginperiod s of
        None \<Rightarrow> (False, s)
      | Some f \<Rightarrow> let r = call_period E (calls s) f 1 in (r = 0, emit [BeginPeriod f 1 r] s))"

definition win32_disable_scheduler_granular :: "platform \<Rightarrow> native_state \<Rightarrow> bool \<times> native_state" where
  "win32_disable_scheduler_granular E s =
     (case g_timeendperiod s of
        None \<Rightarrow> (False, s)
      | Some f \<Rightarrow> let r = call_period E (calls s) f 1 in (r = 0, emit [EndPeriod f 1 r] s))"

section \<open>start\<close>

text \<open>
  \<open>start_config\<close> holds what \<open>start\<close> reads of the configuration, and whether the platform is Windows.
\<close>

record start_config =
  on_windows :: bool
  pin_threads_to_cores :: bool
  sc_num_threads :: nat
  sc_num_fibers :: nat
  fiber_stack_size :: usize

text \<open>\<open>sizeof(void*) * 16\<close> of overhead on top of the size of a fiber's stack.\<close>

definition thread_stack :: "start_config \<Rightarrow> usize" where
  "thread_stack c = fiber_stack_size c + 8 * 16"

fun launch_workers ::
  "bool \<Rightarrow> platform \<Rightarrow> start_config \<Rightarrow> nat list \<Rightarrow> native_state \<Rightarrow> failure + native_state" where
  "launch_workers dbg E c [] s = Inr s"
| "launch_workers dbg E c (i # is) s =
     (let success = thread_created E (calls s) i;
          core = (if pin_threads_to_cores c then Some (of_nat (i - 1)) else None);
          s1 = emit [CreateThread i (thread_stack c) core success] s
      in and_then (cc_assert dbg success ''Failed to create worker thread'') (\<lambda>_. launch_workers dbg E c is s1))"

definition timer_starts :: "platform \<Rightarrow> start_config \<Rightarrow> native_state \<Rightarrow> bool \<times> native_state" where
  "timer_starts E c s = (if on_windows c
     then (case win32_init_utils E s of (ok, s') \<Rightarrow>
        if ok then win32_enable_scheduler_granular E s' else (False, s'))
     else (False, s))"

definition start_begins :: "platform \<Rightarrow> start_config \<Rightarrow> native_state \<Rightarrow> bool \<times> native_state" where
  "start_begins E c s =
     (let s1 = emit [CreateEvent] s;
          (applied, s2) = timer_starts E c s1;
          s3 = (if pin_threads_to_cores c then emit [SetAffinity (of_nat (sc_num_threads c - 1))] s2 else s2)
      in (applied, emit (CreateMainFiber # map (\<lambda>i. CreateFiber i FiberFunc (fiber_stack_size c)) [0..<sc_num_fibers c]) s3))"

text \<open>\<open>primary\<close> is the fiber that \<open>acquireFreeFiber\<close> gave to the main thread.\<close>

definition primary_calls :: "start_config \<Rightarrow> nat \<Rightarrow> native_call list" where
  "primary_calls c primary = [DeleteFiber primary, CreateFiber primary PrimaryFiberFunc (fiber_stack_size c), SwitchToFiber primary]"

definition shutdown_calls :: "start_config \<Rightarrow> native_call list" where
  "shutdown_calls c =
     SignalEvent # DeleteMainFiber # concat (map (\<lambda>i. [SignalEvent, JoinThread i]) [1..<sc_num_threads c]) @
     map DeleteFiber [0..<sc_num_fibers c]"

definition start_ends :: "platform \<Rightarrow> start_config \<Rightarrow> bool \<Rightarrow> native_state \<Rightarrow> native_state" where
  "start_ends E c applied s =
     (let s1 = (if on_windows c
          then win32_shutdown_utils (if applied then snd (win32_disable_scheduler_granular E s) else s)
          else s)
      in emit [DestroyEvent] s1)"

definition start_native ::
  "bool \<Rightarrow> platform \<Rightarrow> start_config \<Rightarrow> nat \<Rightarrow> native_state \<Rightarrow> failure + native_state" where
  "start_native dbg E c primary s =
     (case start_begins E c s of (applied, s1) \<Rightarrow>
        and_then (launch_workers dbg E c [1..<sc_num_threads c] s1) (\<lambda>s2.
          Inr (start_ends E c applied (emit (shutdown_calls c) (emit (primary_calls c primary) s2)))))"

text \<open>A worker thread, which takes fiber \<open>f\<close> and gets back to its thread fiber at the end.\<close>

definition worker_func :: "bool \<Rightarrow> nat \<Rightarrow> nat \<Rightarrow> native_call list" where
  "worker_func has_startstop i f =
     (if has_startstop then [StartStop i True] else []) @ [CreateMainFiber, SwitchToFiber f] @
     (if has_startstop then [StartStop i False] else []) @ [DeleteArg i, DeleteMainFiber, EndThread]"

section \<open>The ledger\<close>

text \<open>
  What is alive: the event, the thread fiber of the main thread, the fibers, the threads, the loaded
  library, and how often the timer was made finer. One library is loaded at a time, and it is freed only
  when the timer has been set back.
\<close>

record ledger =
  event_alive :: bool
  main_fiber_alive :: bool
  fibers_alive :: "nat set"
  threads_alive :: "nat set"
  library :: "nat option"
  periods :: nat

definition nothing_alive :: ledger where
  "nothing_alive = \<lparr>event_alive = False, main_fiber_alive = False, fibers_alive = {}, threads_alive = {},
     library = None, periods = 0\<rparr>"

definition demand :: "bool \<Rightarrow> 'a \<Rightarrow> 'a option" where
  "demand b x = (if b then Some x else None)"

fun book :: "native_call \<Rightarrow> ledger \<Rightarrow> ledger option" where
  "book CreateEvent l = demand (\<not> event_alive l) (l\<lparr>event_alive := True\<rparr>)"
| "book DestroyEvent l = demand (event_alive l) (l\<lparr>event_alive := False\<rparr>)"
| "book SignalEvent l = demand (event_alive l) l"
| "book (LoadLibrary n r) l = demand (library l = None) (l\<lparr>library := r\<rparr>)"
| "book (GetProcAddress m n r) l = demand (library l = Some m) l"
| "book (FreeLibrary m) l = demand (library l = Some m \<and> periods l = 0) (l\<lparr>library := None\<rparr>)"
| "book (BeginPeriod f n r) l = demand (library l \<noteq> None) (if r = 0 then l\<lparr>periods := Suc (periods l)\<rparr> else l)"
| "book (EndPeriod f n r) l = demand (library l \<noteq> None \<and> 0 < periods l) (l\<lparr>periods := periods l - 1\<rparr>)"
| "book (SetAffinity k) l = Some l"
| "book CreateMainFiber l = demand (\<not> main_fiber_alive l) (l\<lparr>main_fiber_alive := True\<rparr>)"
| "book DeleteMainFiber l = demand (main_fiber_alive l) (l\<lparr>main_fiber_alive := False\<rparr>)"
| "book (CreateFiber i e k) l = demand (i \<notin> fibers_alive l) (l\<lparr>fibers_alive := insert i (fibers_alive l)\<rparr>)"
| "book (DeleteFiber i) l = demand (i \<in> fibers_alive l) (l\<lparr>fibers_alive := fibers_alive l - {i}\<rparr>)"
| "book (SwitchToFiber i) l = demand (i \<in> fibers_alive l \<and> main_fiber_alive l) l"
| "book (CreateThread i k core r) l =
     demand (i \<notin> threads_alive l \<and> fibers_alive l \<noteq> {})
       (if r then l\<lparr>threads_alive := insert i (threads_alive l)\<rparr> else l)"
| "book (JoinThread i) l = demand (i \<in> threads_alive l) (l\<lparr>threads_alive := threads_alive l - {i}\<rparr>)"
| "book _ l = Some l"

fun replay :: "native_call list \<Rightarrow> ledger \<Rightarrow> ledger option" where
  "replay [] l = Some l"
| "replay (x # xs) l = (case book x l of None \<Rightarrow> None | Some l' \<Rightarrow> replay xs l')"

lemma demand_Some [simp]: "demand b x = Some y \<longleftrightarrow> b \<and> x = y" "demand True x = Some x" "demand False x = None"
  by (simp_all add: demand_def)

lemma ledger_append: "replay (xs @ ys) l = (case replay xs l of None \<Rightarrow> None | Some l' \<Rightarrow> replay ys l')"
  by (induction xs arbitrary: l) (simp_all split: option.splits)

text \<open>A worker takes back what it has set up, on the fiber it was given.\<close>

lemma worker_func_books:
  "f \<in> fibers_alive l \<Longrightarrow> \<not> main_fiber_alive l \<Longrightarrow> replay (worker_func has_startstop i f) l = Some l"
  by (cases has_startstop) (simp_all add: worker_func_def)

section \<open>Replaying the loops\<close>

lemma replay_create_fibers:
  "distinct is \<Longrightarrow> set is \<inter> fibers_alive l = {} \<Longrightarrow>
   replay (map (\<lambda>i. CreateFiber i e k) is) l = Some (l\<lparr>fibers_alive := fibers_alive l \<union> set is\<rparr>)"
  by (induction "is" arbitrary: l) auto

lemma replay_delete_fibers:
  "distinct is \<Longrightarrow> set is \<subseteq> fibers_alive l \<Longrightarrow>
   replay (map DeleteFiber is) l = Some (l\<lparr>fibers_alive := fibers_alive l - set is\<rparr>)"
proof (induction "is" arbitrary: l)
  case (Cons i "is")
  have "fibers_alive l - insert i (set is) = fibers_alive l - {i} - set is" by auto
  moreover have "set is \<subseteq> fibers_alive (l\<lparr>fibers_alive := fibers_alive l - {i}\<rparr>)" using Cons.prems by auto
  ultimately show ?case using Cons.IH [of "l\<lparr>fibers_alive := fibers_alive l - {i}\<rparr>"] Cons.prems by simp
qed simp

definition worker_core :: "start_config \<Rightarrow> nat \<Rightarrow> usize option" where
  "worker_core c i = (if pin_threads_to_cores c then Some (of_nat (i - 1)) else None)"

definition thread_calls :: "start_config \<Rightarrow> nat list \<Rightarrow> bool list \<Rightarrow> native_call list" where
  "thread_calls c is rs = map (\<lambda>(i, r). CreateThread i (thread_stack c) (worker_core c i) r) (zip is rs)"

lemma replay_create_threads:
  "length rs = length is \<Longrightarrow> distinct is \<Longrightarrow> set is \<inter> threads_alive l = {} \<Longrightarrow> fibers_alive l \<noteq> {} \<Longrightarrow>
   replay (thread_calls c is rs) l =
     Some (l\<lparr>threads_alive := threads_alive l \<union> {i. (i, True) \<in> set (zip is rs)}\<rparr>)"
proof (induction "is" rs arbitrary: l rule: list_induct2')
  case (4 i "is" r rs)
  let ?l = "if r then l\<lparr>threads_alive := insert i (threads_alive l)\<rparr> else l"
  have l: "threads_alive ?l = threads_alive l \<union> (if r then {i} else {})" "fibers_alive ?l = fibers_alive l" by auto
  have "replay (thread_calls c is rs) ?l =
      Some (?l\<lparr>threads_alive := threads_alive ?l \<union> {i. (i, True) \<in> set (zip is rs)}\<rparr>)"
    using 4(2-5) by (intro 4(1)) (auto simp: l)
  moreover have "threads_alive ?l \<union> {i. (i, True) \<in> set (zip is rs)} =
      threads_alive l \<union> {j. (j, True) \<in> set (zip (i # is) (r # rs))}" unfolding l by auto
  moreover have "replay (thread_calls c (i # is) (r # rs)) l = replay (thread_calls c is rs) ?l"
    using 4(4,5) by (simp add: thread_calls_def demand_def)
  ultimately show ?case by (cases r) simp_all
qed (simp_all add: thread_calls_def)

lemma replay_joins:
  "distinct is \<Longrightarrow> event_alive l \<Longrightarrow>
   replay (concat (map (\<lambda>i. [SignalEvent, JoinThread i]) is)) l =
     (if set is \<subseteq> threads_alive l then Some (l\<lparr>threads_alive := threads_alive l - set is\<rparr>) else None)"
proof (induction "is" arbitrary: l)
  case (Cons i "is")
  have "threads_alive l - insert i (set is) = threads_alive l - {i} - set is" by auto
  moreover have "set is \<subseteq> threads_alive l - {i} \<longleftrightarrow> set is \<subseteq> threads_alive l" using Cons.prems by auto
  ultimately show ?case using Cons.IH [of "l\<lparr>threads_alive := threads_alive l - {i}\<rparr>"] Cons.prems
    by (simp add: demand_def)
qed simp

lemma launch_log:
  "launch_workers dbg E c is s = Inr s' \<Longrightarrow>
   \<exists>rs. length rs = length is \<and> s' = emit (thread_calls c is rs) s \<and> (dbg \<longrightarrow> set rs \<subseteq> {True})"
proof (induction "is" arbitrary: s)
  case (Cons i "is")
  let ?r = "thread_created E (calls s) i"
  from Cons.prems have ok: "dbg \<longrightarrow> ?r" and
    rest: "launch_workers dbg E c is (emit [CreateThread i (thread_stack c) (worker_core c i) ?r] s) = Inr s'"
    by (auto simp: Let_def cc_assert_def and_then_def worker_core_def split: if_splits)
  from Cons.IH [OF rest] obtain rs where "length rs = length is" "dbg \<longrightarrow> set rs \<subseteq> {True}"
    "s' = emit (thread_calls c is rs) (emit [CreateThread i (thread_stack c) (worker_core c i) ?r] s)" by blast
  with ok show ?case by (intro exI [of _ "?r # rs"]) (simp add: emit_def thread_calls_def)
qed (simp add: emit_def thread_calls_def)

section \<open>The timer over a start\<close>

text \<open>Between two starts no library is loaded.\<close>

definition timer_off :: "native_state \<Rightarrow> bool" where
  "timer_off s \<longleftrightarrow> g_hmodule_winmm s = None \<and> g_timebeginperiod s = None \<and> g_timeendperiod s = None"

definition ledger_of :: "native_state \<Rightarrow> ledger option" where
  "ledger_of s = replay (calls s) nothing_alive"

definition timer_booked :: "bool \<Rightarrow> native_state \<Rightarrow> ledger \<Rightarrow> bool" where
  "timer_booked applied s l \<longleftrightarrow> library l = g_hmodule_winmm s \<and> periods l = (if applied then 1 else 0) \<and>
     (applied \<longrightarrow> g_hmodule_winmm s \<noteq> None \<and> g_timeendperiod s \<noteq> None)"

lemma emit_fields [simp]:
  "g_hmodule_winmm (emit cs s) = g_hmodule_winmm s" "g_timebeginperiod (emit cs s) = g_timebeginperiod s"
  "g_timeendperiod (emit cs s) = g_timeendperiod s" "calls (emit cs s) = calls s @ cs"
  by (simp_all add: emit_def)

lemma emit_updates [simp]:
  "emit cs s\<lparr>g_hmodule_winmm := m\<rparr> = emit cs (s\<lparr>g_hmodule_winmm := m\<rparr>)"
  "emit cs s\<lparr>g_timebeginperiod := f\<rparr> = emit cs (s\<lparr>g_timebeginperiod := f\<rparr>)"
  "emit cs s\<lparr>g_timeendperiod := g\<rparr> = emit cs (s\<lparr>g_timeendperiod := g\<rparr>)"
  by (simp_all add: emit_def)

lemma ledger_emit: "ledger_of s = Some l \<Longrightarrow> ledger_of (emit cs s) = replay cs l"
  by (simp add: ledger_of_def ledger_append)

lemma ledger_update [simp]:
  "ledger_of (s\<lparr>g_hmodule_winmm := m\<rparr>) = ledger_of s" "ledger_of (s\<lparr>g_timebeginperiod := f\<rparr>) = ledger_of s"
  "ledger_of (s\<lparr>g_timeendperiod := g\<rparr>) = ledger_of s"
  by (simp_all add: ledger_of_def)

lemma init_books:
  assumes "win32_init_utils E s = (ok, s')" and "timer_off s" and "ledger_of s = Some l" and "library l = None"
    and "periods l = 0"
  shows "ledger_of s' = Some (l\<lparr>library := g_hmodule_winmm s'\<rparr>)" and "ok \<Longrightarrow> g_hmodule_winmm s' \<noteq> None \<and> g_timeendperiod s' \<noteq> None"
proof -
  have r: "replay (calls s) nothing_alive = Some l" using assms(3) by (simp add: ledger_of_def)
  show "ledger_of s' = Some (l\<lparr>library := g_hmodule_winmm s'\<rparr>)"
    using assms(1,2,4,5)
    by (auto simp: win32_init_utils_def timer_off_def Let_def win32_shutdown_utils_def ledger_of_def ledger_append r
        split: option.splits if_splits)
  show "ok \<Longrightarrow> g_hmodule_winmm s' \<noteq> None \<and> g_timeendperiod s' \<noteq> None"
    using assms(1,2) by (auto simp: win32_init_utils_def timer_off_def Let_def split: option.splits if_splits)
qed

lemma enable_books:
  assumes "win32_enable_scheduler_granular E s = (applied, s')" and "ledger_of s = Some l" and "library l = g_hmodule_winmm s"
    and "g_hmodule_winmm s \<noteq> None" and "g_timeendperiod s \<noteq> None" and "periods l = 0"
  shows "\<exists>p. ledger_of s' = Some (l\<lparr>periods := p\<rparr>) \<and> timer_booked applied s' (l\<lparr>periods := p\<rparr>)"
proof (cases "g_timebeginperiod s")
  case None
  with assms show ?thesis by (intro exI [of _ 0]) (auto simp: win32_enable_scheduler_granular_def timer_booked_def)
next
  case (Some f)
  let ?r = "call_period E (calls s) f 1"
  have s': "applied = (?r = 0)" "s' = emit [BeginPeriod f 1 ?r] s"
    using assms(1) Some by (auto simp: win32_enable_scheduler_granular_def Let_def)
  have "ledger_of s' = Some (if ?r = 0 then l\<lparr>periods := Suc (periods l)\<rparr> else l)"
    unfolding s'(2) ledger_emit [OF assms(2)] using assms(3,4) by simp
  then show ?thesis using assms(3-6) s' by (intro exI [of _ "if ?r = 0 then 1 else 0"]) (auto simp: timer_booked_def)
qed

lemma timer_starts_books:
  assumes "timer_starts E c s = (applied, s')" and "timer_off s" and "ledger_of s = Some l" and "library l = None"
    and "periods l = 0"
  shows "\<exists>lib p. ledger_of s' = Some (l\<lparr>library := lib, periods := p\<rparr>) \<and>
    timer_booked applied s' (l\<lparr>library := lib, periods := p\<rparr>) \<and> (\<not> on_windows c \<longrightarrow> \<not> applied \<and> timer_off s')"
proof (cases "on_windows c")
  case False
  with assms show ?thesis
    by (intro exI [of _ None] exI [of _ 0]) (auto simp: timer_starts_def timer_booked_def timer_off_def)
next
  case True
  obtain ok s1 where i: "win32_init_utils E s = (ok, s1)" by fastforce
  note b = init_books [OF i assms(2-5)]
  show ?thesis
  proof (cases ok)
    case False
    with True assms(1) i b(1) assms(5) show ?thesis
      by (intro exI [of _ "g_hmodule_winmm s'"] exI [of _ 0]) (auto simp: timer_starts_def timer_booked_def)
  next
    case ok: True
    with True assms(1) i have e: "win32_enable_scheduler_granular E s1 = (applied, s')" by (simp add: timer_starts_def)
    from enable_books [OF e b(1)] b(2) [OF ok] assms(5) True show ?thesis by fastforce
  qed
qed

lemma end_books:
  assumes "ledger_of s = Some l" and "timer_booked applied s l" and "event_alive l"
    and "\<not> on_windows c \<Longrightarrow> \<not> applied \<and> timer_off s"
  shows "ledger_of (start_ends E c applied s) = Some (l\<lparr>library := None, periods := 0, event_alive := False\<rparr>) \<and>
    timer_off (start_ends E c applied s)"
proof -
  have r: "replay (calls s) nothing_alive = Some l" using assms(1) by (simp add: ledger_of_def)
  show ?thesis
    using assms(2-4) by (cases "on_windows c"; cases applied)
      (auto simp: start_ends_def timer_booked_def win32_shutdown_utils_def win32_disable_scheduler_granular_def Let_def
        ledger_of_def ledger_append r timer_off_def split: option.splits)
qed

lemma end_off: "(\<not> on_windows c \<Longrightarrow> timer_off s) \<Longrightarrow> timer_off (start_ends E c applied s)"
  by (auto simp: start_ends_def win32_shutdown_utils_def timer_off_def split: option.splits)

lemma end_stuck: "ledger_of s = None \<Longrightarrow> ledger_of (start_ends E c applied s) = None"
  by (simp add: start_ends_def win32_shutdown_utils_def win32_disable_scheduler_granular_def Let_def ledger_of_def
      ledger_append split: option.splits)

section \<open>A whole start\<close>

fun thread_results :: "native_call list \<Rightarrow> bool list" where
  "thread_results [] = []"
| "thread_results (CreateThread i k core r # cs) = r # thread_results cs"
| "thread_results (_ # cs) = thread_results cs"

lemma thread_results_append [simp]: "thread_results (xs @ ys) = thread_results xs @ thread_results ys"
  by (induction xs rule: thread_results.induct) simp_all

lemma thread_results_calls [simp]:
  "length rs = length is \<Longrightarrow> thread_results (thread_calls c is rs) = rs"
  "thread_results (map (\<lambda>i. CreateFiber i e k) is) = []" "thread_results (map DeleteFiber is) = []"
  "thread_results (concat (map (\<lambda>i. [SignalEvent, JoinThread i]) is)) = []"
proof -
  show "length rs = length is \<Longrightarrow> thread_results (thread_calls c is rs) = rs"
    by (induction "is" rs rule: list_induct2') (simp_all add: thread_calls_def)
qed (induction "is"; simp)+

lemma timer_results:
  "timer_starts E c s = (applied, s') \<Longrightarrow> thread_results (calls s') = thread_results (calls s)"
  by (auto simp: timer_starts_def win32_init_utils_def win32_enable_scheduler_granular_def win32_shutdown_utils_def Let_def
      split: if_splits option.splits)

lemma end_results: "thread_results (calls (start_ends E c applied s)) = thread_results (calls s)"
  by (simp add: start_ends_def win32_disable_scheduler_granular_def win32_shutdown_utils_def Let_def split: option.splits)

lemma zip_True:
  "length rs = length is \<Longrightarrow> distinct is \<Longrightarrow> set is \<subseteq> {i. (i, True) \<in> set (zip is rs)} \<longleftrightarrow> False \<notin> set rs"
proof (induction "is" rs rule: list_induct2')
  case (4 i "is" r rs)
  have n: "(i, True) \<notin> set (zip is rs)" using 4(3) by (auto dest: set_zip_leftD)
  have "set is \<subseteq> {j. (j, True) \<in> set (zip (i # is) (r # rs))} \<longleftrightarrow> set is \<subseteq> {j. (j, True) \<in> set (zip is rs)}"
    using 4(3) by auto
  then show ?case using 4 n by (cases r) simp_all
qed simp_all

lemma replay_main:
  assumes "length rs = sc_num_threads c - 1" and "primary < sc_num_fibers c" and l: "event_alive l" "\<not> main_fiber_alive l"
    "fibers_alive l = {}" "threads_alive l = {}"
  shows "replay (CreateMainFiber # map (\<lambda>i. CreateFiber i FiberFunc (fiber_stack_size c)) [0..<sc_num_fibers c] @
      thread_calls c [1..<sc_num_threads c] rs @ primary_calls c primary @ shutdown_calls c) l =
    (if False \<in> set rs then None else Some l)"
proof -
  let ?l1 = "l\<lparr>main_fiber_alive := True, fibers_alive := {0..<sc_num_fibers c}\<rparr>"
  let ?T = "{i. (i, True) \<in> set (zip [1..<sc_num_threads c] rs)}"
  have len: "length rs = length [1..<sc_num_threads c]" using assms(1) by simp
  have T: "?T \<subseteq> set [1..<sc_num_threads c]" by (auto dest: set_zip_leftD)
  have create: "replay (map (\<lambda>i. CreateFiber i FiberFunc (fiber_stack_size c)) [0..<sc_num_fibers c])
      (l\<lparr>main_fiber_alive := True\<rparr>) = Some ?l1" by (subst replay_create_fibers) (simp_all add: l)
  have threads: "replay (thread_calls c [1..<sc_num_threads c] rs) ?l1 = Some (?l1\<lparr>threads_alive := ?T\<rparr>)"
    using assms(2) len by (subst replay_create_threads) (auto simp: l)
  have primary: "replay (primary_calls c primary) (?l1\<lparr>threads_alive := ?T\<rparr>) = Some (?l1\<lparr>threads_alive := ?T\<rparr>)"
    using assms(2) by (simp add: primary_calls_def insert_absorb)
  have "replay (shutdown_calls c) (?l1\<lparr>threads_alive := ?T\<rparr>) = (if False \<in> set rs then None else Some l)"
  proof (cases "set [1..<sc_num_threads c] \<subseteq> ?T")
    case True
    with T have "?T - set [1..<sc_num_threads c] = {}" by blast
    moreover have "False \<notin> set rs" using True zip_True [of rs "[1..<sc_num_threads c]"] len by simp
    ultimately show ?thesis using True
      by (simp add: shutdown_calls_def ledger_append replay_joins replay_delete_fibers l)
  next
    case False
    then have "False \<in> set rs" using zip_True [of rs "[1..<sc_num_threads c]"] len by simp
    with False show ?thesis by (simp add: shutdown_calls_def ledger_append replay_joins l)
  qed
  then show ?thesis by (simp del: One_nat_def add: l ledger_append create threads primary)
qed

text \<open>
  C24: a call of \<open>start\<close> that begins with nothing alive, or after earlier such calls, ends so again if every
  worker thread was created: each fiber, the primary one twice, the thread fiber, the event, the library
  and the finer timer are released once, nothing is used that is not alive, and each worker is joined. With
  assertions it gets there only so; without, a worker that could not be created is joined all the same.
\<close>

theorem start_releases_all:
  assumes "timer_off s" and "ledger_of s = Some nothing_alive" and "primary < sc_num_fibers c"
    and "start_native dbg E c primary s = Inr s'"
  shows "\<exists>rs. thread_results (calls s') = thread_results (calls s) @ rs \<and> length rs = sc_num_threads c - 1 \<and>
    (dbg \<longrightarrow> False \<notin> set rs) \<and>
    (if False \<in> set rs then ledger_of s' = None else ledger_of s' = Some nothing_alive) \<and> timer_off s'"
proof -
  let ?l = "nothing_alive\<lparr>event_alive := True\<rparr>"
  have l1: "ledger_of (emit [CreateEvent] s) = Some ?l" by (simp add: ledger_emit [OF assms(2)] nothing_alive_def)
  have off: "timer_off (emit [CreateEvent] s)" using assms(1) by (simp add: timer_off_def)
  obtain applied s2 where t: "timer_starts E c (emit [CreateEvent] s) = (applied, s2)" by fastforce
  have "library ?l = None" "periods ?l = 0" by (simp_all add: nothing_alive_def)
  from timer_starts_books [OF t off l1 this] obtain lib p where
    b: "ledger_of s2 = Some (?l\<lparr>library := lib, periods := p\<rparr>)" "timer_booked applied s2 (?l\<lparr>library := lib, periods := p\<rparr>)"
      "\<not> on_windows c \<longrightarrow> \<not> applied \<and> timer_off s2" by blast
  let ?k = "?l\<lparr>library := lib, periods := p\<rparr>"
  let ?pin = "if pin_threads_to_cores c then [SetAffinity (of_nat (sc_num_threads c - 1))] else []"
  let ?fibers = "CreateMainFiber # map (\<lambda>i. CreateFiber i FiberFunc (fiber_stack_size c)) [0..<sc_num_fibers c]"
  have begins: "start_begins E c s = (applied, emit ?fibers (emit ?pin s2))"
    by (simp add: start_begins_def t Let_def)
  obtain s3 where "launch_workers dbg E c [1..<sc_num_threads c] (emit ?fibers (emit ?pin s2)) = Inr s3"
    and s': "s' = start_ends E c applied (emit (shutdown_calls c) (emit (primary_calls c primary) s3))"
    using assms(4) unfolding start_native_def begins by (auto simp: and_then_eq_Inr)
  from launch_log [OF this(1)] obtain rs where rs: "length rs = length [1..<sc_num_threads c]" "dbg \<longrightarrow> set rs \<subseteq> {True}"
    "s3 = emit (thread_calls c [1..<sc_num_threads c] rs) (emit ?fibers (emit ?pin s2))" by blast
  define cs where "cs = ?fibers @ thread_calls c [1..<sc_num_threads c] rs @ primary_calls c primary @ shutdown_calls c"
  have e: "emit (shutdown_calls c) (emit (primary_calls c primary) s3) = emit (?pin @ cs) s2"
    by (simp add: rs(3) cs_def emit_def)
  have "replay cs ?k = (if False \<in> set rs then None else Some ?k)"
    unfolding cs_def append_Cons by (rule replay_main) (use rs(1) assms(3) in \<open>simp_all add: nothing_alive_def\<close>)
  then have led: "ledger_of (emit (?pin @ cs) s2) = (if False \<in> set rs then None else Some ?k)"
    by (subst ledger_emit [OF b(1)]) (simp add: ledger_append)
  have off': "\<not> on_windows c \<Longrightarrow> \<not> applied \<and> timer_off (emit (?pin @ cs) s2)" using b(3) by (simp add: timer_off_def)
  have booked: "timer_booked applied (emit (?pin @ cs) s2) ?k" using b(2) by (simp add: timer_booked_def)
  have "ledger_of s' = None" if "False \<in> set rs"
    unfolding s' e by (rule end_stuck) (use led that in simp)
  moreover have "ledger_of s' = Some nothing_alive" if "False \<notin> set rs"
  proof -
    have "ledger_of (emit (?pin @ cs) s2) = Some ?k" using led that by simp
    from end_books [OF this booked _ off'] show ?thesis unfolding s' e by (simp add: nothing_alive_def)
  qed
  moreover have "timer_off s'" unfolding s' e using off' by (intro end_off) blast
  moreover have "thread_results (calls s') = thread_results (calls s) @ rs"
    unfolding s' e end_results using timer_results [OF t] rs(1)
    by (simp add: cs_def primary_calls_def shutdown_calls_def)
  ultimately show ?thesis using rs(1,2) by (intro exI [of _ rs]) auto
qed

text \<open>No two threads of a pinned scheduler share a core.\<close>

lemma cores_distinct:
  assumes "sc_num_threads c < 2 ^ 64" and "pin_threads_to_cores c" and "1 \<le> sc_num_threads c"
  shows "distinct (Some (of_nat (sc_num_threads c - 1)) # map (worker_core c) [1..<sc_num_threads c])"
proof -
  obtain n where n: "sc_num_threads c = Suc n" using assms(3) by (cases "sc_num_threads c") auto
  let ?f = "\<lambda>j. Some (of_nat j :: usize)"
  have "map (worker_core c) [1..<Suc n] = map ?f [0..<n]"
    unfolding One_nat_def map_Suc_upt [symmetric] by (simp add: worker_core_def assms(2))
  moreover have "distinct (map ?f (n # [0..<n]))"
    unfolding distinct_map
  proof (rule conjI)
    show "inj_on ?f (set (n # [0..<n]))"
    proof (rule inj_onI)
      fix i j assume "i \<in> set (n # [0..<n])" "j \<in> set (n # [0..<n])" "?f i = ?f j"
      then have "i < 2 ^ 64" "j < 2 ^ 64" "unat (of_nat i :: usize) = unat (of_nat j :: usize)" using assms(1) n by auto
      then show "i = j" by (simp add: unat_of_nat)
    qed
  qed simp
  ultimately show ?thesis by (simp add: n)
qed

section \<open>A concrete start\<close>

definition sample_platform :: platform where
  "sample_platform = \<lparr>load_library = (\<lambda>cs n. Some 7), get_proc_address = (\<lambda>cs m n. Some (length cs)),
     call_period = (\<lambda>cs f n. 0), thread_created = (\<lambda>cs i. True)\<rparr>"

definition sample_start :: start_config where
  "sample_start = \<lparr>on_windows = True, pin_threads_to_cores = True, sc_num_threads = 3, sc_num_fibers = 2,
     fiber_stack_size = 65536\<rparr>"

definition sample_native :: native_state where
  "sample_native = \<lparr>g_hmodule_winmm = None, g_timebeginperiod = None, g_timeendperiod = None, calls = []\<rparr>"

theorem start_releases_all_witness:
  "\<exists>s'. start_native True sample_platform sample_start 1 sample_native = Inr s' \<and> ledger_of s' = Some nothing_alive \<and>
     thread_results (calls s') = [True, True]"
proof -
  have "[1..<sc_num_threads sample_start] = [1, 2]" by (simp add: sample_start_def upt_rec)
  then have "\<exists>s'. start_native True sample_platform sample_start 1 sample_native = Inr s'"
    by (simp add: start_native_def Let_def sample_platform_def fail_simps split: prod.split)
  then obtain s' where s': "start_native True sample_platform sample_start 1 sample_native = Inr s'" ..
  have "timer_off sample_native" "ledger_of sample_native = Some nothing_alive" "1 < sc_num_fibers sample_start"
    by (simp_all add: timer_off_def sample_native_def ledger_of_def sample_start_def)
  from start_releases_all [OF this s'] obtain rs where rs: "thread_results (calls s') = rs" "length rs = 2"
    "False \<notin> set rs" "ledger_of s' = Some nothing_alive"
    by (auto simp: sample_native_def sample_start_def split: if_splits)
  then have "rs = [True, True]" by (cases rs; cases "tl rs") auto
  with s' rs show ?thesis by simp
qed

end
