(* ===== verification/Math_Intrin.thy ===== *)
theory Math_Intrin
  imports Prelude
begin

text \<open>
  common/math_intrin.hh: \<open>bsr\<close> with its two implementations, for Microsoft's compiler and for GCC and
  Clang, and the functions \<open>clog2\<close> and \<open>upperpow2\<close> on top of it. The 32-bit and the 64-bit overloads are
  the same definition at two widths.
\<close>

section \<open>Definitions\<close>

datatype compiler = MSVC | GNUC

fun bit_width :: "nat \<Rightarrow> nat" where
  "bit_width n = (if n = 0 then 0 else Suc (bit_width (n div 2)))"

declare bit_width.simps [simp del]

text \<open>The two builtins; both have no defined result for zero.\<close>

definition bit_scan_reverse :: "'a::len word \<Rightarrow> nat option" where
  "bit_scan_reverse v = (if v = 0 then None else Some (bit_width (unat v) - 1))"

definition builtin_clz :: "'a::len word \<Rightarrow> nat option" where
  "builtin_clz v = (if v = 0 then None else Some (LENGTH('a) - bit_width (unat v)))"

definition bsr :: "compiler \<Rightarrow> 'a::len word \<Rightarrow> 'a word option" where
  "bsr cc v = (case cc of
       MSVC \<Rightarrow> map_option of_nat (bit_scan_reverse v)
     | GNUC \<Rightarrow> map_option (\<lambda>z. of_nat LENGTH('a) - of_nat z) (builtin_clz v))"

definition clog2 :: "compiler \<Rightarrow> 'a::len word \<Rightarrow> 'a word option" where
  "clog2 cc x = bsr cc (push_bit 1 x - 1)"

text \<open>A shift by the width or more has no defined result.\<close>

definition upperpow2 :: "compiler \<Rightarrow> 'a::len word \<Rightarrow> 'a word option" where
  "upperpow2 cc x = (case clog2 cc x of
       None \<Rightarrow> None
     | Some k \<Rightarrow> if unat k < LENGTH('a) then Some (push_bit (unat k) 2) else None)"

section \<open>Bit widths\<close>

lemma bit_width_bounds: "0 < n \<Longrightarrow> 2 ^ (bit_width n - 1) \<le> n \<and> n < 2 ^ bit_width n \<and> 0 < bit_width n"
proof (induction n rule: bit_width.induct)
  case (1 n)
  then show ?case
  proof (cases "n div 2 = 0")
    case True
    with 1 have n: "n = 1" by simp
    have "bit_width 1 = 1" by (subst bit_width.simps, subst bit_width.simps) simp
    then show ?thesis by (simp add: n)
  next
    case False
    with 1 have i: "2 ^ (bit_width (n div 2) - 1) \<le> n div 2" "n div 2 < 2 ^ bit_width (n div 2)" "0 < bit_width (n div 2)"
      by auto
    have w: "bit_width n = Suc (bit_width (n div 2))" using 1 by (subst bit_width.simps) simp
    obtain k where k: "bit_width (n div 2) = Suc k" using i(3) by (cases "bit_width (n div 2)") auto
    from i show ?thesis by (auto simp: w k)
  qed
qed

lemma bit_width_unique:
  assumes "2 ^ k \<le> n" and "n < 2 ^ Suc k"
  shows "bit_width n = Suc k"
proof -
  have "0 < n" using assms(1) by (rule less_le_trans [rotated]) simp
  note b = bit_width_bounds [OF this]
  have "(2 :: nat) ^ (bit_width n - 1) < 2 ^ Suc k" "(2 :: nat) ^ k < 2 ^ bit_width n" using b assms by linarith+
  then have "bit_width n - 1 < Suc k" "k < bit_width n" by (simp_all only: power_strict_increasing_iff one_less_numeral_iff semiring_norm)
  with b show ?thesis by simp
qed

lemma clog2_arg:
  fixes x :: "'a::len word"
  assumes "0 < x" and "unat x \<le> 2 ^ (LENGTH('a) - 1)"
  shows "unat (push_bit 1 x - 1) = 2 * unat x - 1" and "push_bit 1 x - 1 \<noteq> 0"
proof -
  have u: "0 < unat x" using assms(1) by (simp add: word_less_nat_alt)
  have "2 * unat x \<le> 2 * 2 ^ (LENGTH('a) - 1)" using assms(2) by simp
  also have "\<dots> = 2 ^ LENGTH('a)" by (simp flip: power_Suc)
  finally have lt: "2 * unat x - 1 < 2 ^ LENGTH('a)" using u by simp
  have "of_nat (2 * unat x - 1) = (of_nat (2 * unat x) - 1 :: 'a word)" using u by (simp add: of_nat_diff)
  also have "\<dots> = push_bit 1 x - 1" by (simp add: push_bit_eq_mult mult.commute)
  finally have "push_bit 1 x - 1 = of_nat (2 * unat x - 1)" by simp
  then show e: "unat (push_bit 1 x - 1) = 2 * unat x - 1" using unat_of_nat_small [OF lt] by simp
  with u show "push_bit 1 x - 1 \<noteq> 0" by auto
qed

lemma pow2_word: "push_bit k (2 :: 'a::len word) = 2 ^ Suc k"
  by (simp add: push_bit_eq_mult)

text \<open>
  With Microsoft's compiler \<open>clog2\<close> is the least k with x at most 2^k, for every x from 1 to half of the range; with
  GCC and Clang, where \<open>bsr\<close> counts bits instead of giving the index of the highest, it is one more. So
  \<open>upperpow2\<close> is twice that power with one compiler and four times with the others, where the shift is
  undefined for the upper half of these x.
\<close>

lemma clog2_by_compiler:
  fixes x :: "'a::len word"
  assumes "0 < x" and "unat x \<le> 2 ^ k" and "k = 0 \<or> 2 ^ (k - 1) < unat x" and "k < LENGTH('a)"
  shows "clog2 MSVC x = Some (of_nat k) \<and> clog2 GNUC x = Some (of_nat (Suc k)) \<and>
    upperpow2 MSVC x = Some (2 ^ Suc k) \<and>
    upperpow2 GNUC x = (if Suc k < LENGTH('a) then Some (2 ^ Suc (Suc k)) else None)"
proof -
  have "(2 :: nat) ^ k \<le> 2 ^ (LENGTH('a) - 1)" using assms(4) by (intro power_increasing) simp_all
  with assms(2) have "unat x \<le> 2 ^ (LENGTH('a) - 1)" by (rule order_trans)
  note arg = clog2_arg [OF assms(1) this]
  have u: "0 < unat x" using assms(1) by (simp add: word_less_nat_alt)
  have "bit_width (2 * unat x - 1) = Suc k"
  proof (rule bit_width_unique)
    show "2 * unat x - 1 < 2 ^ Suc k" using assms(2) u by simp
    show "2 ^ k \<le> 2 * unat x - 1" using assms(3) u by (cases k) auto
  qed
  then have w: "bit_width (unat (push_bit 1 x - 1)) = Suc k" by (simp only: arg)
  have "LENGTH('a) < 2 ^ LENGTH('a)" by simp
  then have lt: "k < 2 ^ LENGTH('a)" "Suc k < 2 ^ LENGTH('a)" using assms(4) by linarith+
  have m: "clog2 MSVC x = Some (of_nat k)"
    unfolding clog2_def bsr_def bit_scan_reverse_def w using arg(2) by (simp only: compiler.case if_False option.map diff_Suc_1)
  have "(of_nat LENGTH('a) - of_nat (LENGTH('a) - Suc k) :: 'a word) = of_nat (Suc k)"
    using assms(4) by (subst of_nat_diff) simp_all
  then have g: "clog2 GNUC x = Some (of_nat (Suc k))"
    unfolding clog2_def bsr_def builtin_clz_def w using arg(2) by (simp only: compiler.case if_False option.map)
  show ?thesis
    using m g assms(4) unat_of_nat_small [OF lt(1)] unat_of_nat_small [OF lt(2)]
    by (simp only: upperpow2_def option.case pow2_word if_True simp_thms)
qed

lemma clog2_by_compiler_witness:
  "clog2 MSVC (5 :: u32) = Some 3 \<and> clog2 GNUC (5 :: u32) = Some 4 \<and> upperpow2 MSVC (5 :: u32) = Some 16 \<and>
   upperpow2 GNUC (5 :: u32) = Some 32"
  using clog2_by_compiler [of "5 :: u32" 3] by simp

end
