(* ===== verification/Scheduler_Progress.thy ===== *)
theory Scheduler_Progress
  imports Scheduler_Sessions Task_Conservation
begin

text \<open>
  The scheduler never gets stuck: in every reachable state all indices it has stored are in range, so
  that every thread has a next step, and an index is only out of range when user code has passed the
  handle of a counter that does not exist. The invariant is a typing of the state, for a number of
  threads, fibers and counters; every step preserves it, and a typed thread makes progress.
\<close>

section \<open>Typing\<close>

text \<open>A fiber with the thread it is pinned to, if any, as it is stored in the slot of a counter.\<close>

definition index_typed :: "nat \<Rightarrow> nat \<Rightarrow> fiber_index_t \<times> thread_index_t \<Rightarrow> bool" where
  "index_typed nT nF w \<longleftrightarrow> unat (fst w) < nF \<and> (snd w = invalid_thread \<or> unat (snd w) < nT)"

definition slot_typed :: "nat \<Rightarrow> nat \<Rightarrow> waiting_fiber \<Rightarrow> bool" where
  "slot_typed nT nF w \<longleftrightarrow> index_typed nT nF (fiber_index w, pinned_thread_index w)"

definition counter_typed :: "nat \<Rightarrow> nat \<Rightarrow> atomic_counter \<Rightarrow> bool" where
  "counter_typed nT nF a \<longleftrightarrow> counter_shape a \<and>
     (\<forall>i < max_waiting. \<not> in_use (waiting_fibers a ! i) \<longrightarrow> slot_typed nT nF (waiting_fibers a ! i))"

text \<open>Positions inside of a counter operation that will read the slot, and those that have the indices at hand.\<close>

fun cpc_typed :: "nat \<Rightarrow> nat \<Rightarrow> atomic_counter \<Rightarrow> cpc \<Rightarrow> bool" where
  "cpc_typed nT nF a (AddClaim i f p v) = index_typed nT nF (f, p)"
| "cpc_typed nT nF a (AddFill i f p v) = (i < max_waiting \<and> index_typed nT nF (f, p))"
| "cpc_typed nT nF a (AddOpen i) = (i < max_waiting \<and> slot_typed nT nF (waiting_fibers a ! i))"
| "cpc_typed nT nF a (AddLoad i) = (i < max_waiting)"
| "cpc_typed nT nF a (AddInUse i v) = (i < max_waiting)"
| "cpc_typed nT nF a (AddCompare i v) = (i < max_waiting)"
| "cpc_typed nT nF a (AddTake i v) = (i < max_waiting)"
| "cpc_typed nT nF a (ChkInUse i v) = (i < max_waiting)"
| "cpc_typed nT nF a (ChkTarget i v) = (i < max_waiting \<and> slot_typed nT nF (waiting_fibers a ! i))"
| "cpc_typed nT nF a (ChkTake i v) = (i < max_waiting \<and> slot_typed nT nF (waiting_fibers a ! i))"
| "cpc_typed nT nF a (ChkWake i v) = (i < max_waiting \<and> slot_typed nT nF (waiting_fibers a ! i))"
| "cpc_typed nT nF a (CFail e) = (e \<noteq> OutOfRange)"
| "cpc_typed nT nF a _ = True"

fun context_typed :: "nat \<Rightarrow> user_context \<Rightarrow> bool" where
  "context_typed nC (WorkerTask tk) = (unat (get_metadata tk) < nC)"
| "context_typed nC (MainTask tk) = True"

text \<open>What follows an operation on counter \<open>j\<close>; user code may have given the handle of a counter out of range.\<close>

fun cont_typed :: "nat \<Rightarrow> nat \<Rightarrow> cpc \<Rightarrow> counter_cont \<Rightarrow> bool" where
  "cont_typed nC j c AfterTask = (j < nC \<and> (is_add c \<longrightarrow> (\<exists>e. c = CFail e)))"
| "cont_typed nC j c (AfterApi ctx) = (context_typed nC ctx \<and> (is_add c \<longrightarrow> (\<exists>e. c = CFail e)))"
| "cont_typed nC j c (AfterSubmit ctx ts m) = (context_typed nC ctx \<and> unat m = j \<and> (is_add c \<longrightarrow> (\<exists>e. c = CFail e)))"
| "cont_typed nC j c (AfterWait ctx) = (context_typed nC ctx \<and> is_add c)"

fun pc_typed :: "nat \<Rightarrow> nat \<Rightarrow> nat \<Rightarrow> atomic_counter list \<Rightarrow> fiber_pc \<Rightarrow> bool" where
  "pc_typed nT nF nC cs (Resumed k) = (k \<noteq> Ended \<and> pc_typed nT nF nC cs k)"
| "pc_typed nT nF nC cs (TryPinned bp f) = (unat f < nF)"
| "pc_typed nT nF nC cs (BackPinned bp f) = (unat f < nF)"
| "pc_typed nT nF nC cs (TryGlobal bp f) = (unat f < nF)"
| "pc_typed nT nF nC cs (BackGlobal bp f) = (unat f < nF)"
| "pc_typed nT nF nC cs (Running ctx r) = context_typed nC ctx"
| "pc_typed nT nF nC cs (InCounter j c k) = ((j < nC \<longrightarrow> cpc_typed nT nF (cs ! j) c) \<and> cont_typed nC j c k)"
| "pc_typed nT nF nC cs (WaitYield ctx v) = context_typed nC ctx"
| "pc_typed nT nF nC cs (WaitOver ctx v) = context_typed nC ctx"
| "pc_typed nT nF nC cs (SubmitEnq ctx ts m b) = (context_typed nC ctx \<and> unat m < nC)"
| "pc_typed nT nF nC cs _ = True"

definition queue_typed :: "('a \<Rightarrow> bool) \<Rightarrow> 'a mpmc \<Rightarrow> bool" where
  "queue_typed ok q \<longleftrightarrow> mpmc_ok q \<and> (\<forall>x \<in> set (mpmc_list q). ok x)"

definition pinned_typed :: "nat \<Rightarrow> worker_thread \<Rightarrow> bool" where
  "pinned_typed nF w \<longleftrightarrow> fifo_ok (pinned_resumable_fibers w) \<and>
     (\<forall>f \<in> set (fifo_list (pinned_resumable_fibers w)). unat f < nF)"

definition typed :: "nat \<Rightarrow> nat \<Rightarrow> nat \<Rightarrow> 'h sched \<Rightarrow> bool" where
  "typed nT nF nC s \<longleftrightarrow>
     length (mThreads s) = nT \<and> length (mFibers s) = nF \<and> length (mCounters s) = nC \<and>
     (\<forall>t < nT. unat (thread_index (s_tls s t)) = t) \<and>
     (\<forall>t < nT. pinned_typed nF (mThreads s ! t)) \<and>
     queue_typed (\<lambda>f. unat f < nF) (mResumableFibers s) \<and>
     queue_typed (\<lambda>tk. unat (get_metadata tk) < nC) (mTasks s) \<and>
     queue_typed (\<lambda>c. unat c < nC) (mFreeCounters s) \<and>
     (\<forall>i < nC. counter_typed nT nF (mCounters s ! i)) \<and>
     (\<forall>g < nF. pc_typed nT nF nC (mCounters s) (native (mFibers s ! g)))"

section \<open>Counters\<close>

definition slots_kept :: "nat \<Rightarrow> nat \<Rightarrow> atomic_counter \<Rightarrow> atomic_counter \<Rightarrow> bool" where
  "slots_kept nT nF a a' \<longleftrightarrow>
     (\<forall>i < max_waiting. slot_typed nT nF (waiting_fibers a ! i) \<longrightarrow> slot_typed nT nF (waiting_fibers a' ! i))"

lemma cpc_kept: "slots_kept nT nF a a' \<Longrightarrow> cpc_typed nT nF a c \<Longrightarrow> cpc_typed nT nF a' c"
  by (cases c) (auto simp: slots_kept_def)

lemma cpc_step_typed:
  assumes "counter_typed nT nF a" and "cpc_typed nT nF a c" and "cpc_step c a = (c', a', w)"
  shows "counter_typed nT nF a' \<and> cpc_typed nT nF a' c' \<and> slots_kept nT nF a a' \<and>
    (\<forall>x. w = Some x \<longrightarrow> index_typed nT nF x) \<and> (is_add c' \<longleftrightarrow> is_add c)"
proof -
  have l: "length (waiting_fibers a) = max_waiting" using assms(1) by (simp add: counter_typed_def counter_shape_def)
  have sh: "counter_shape a'" using cpc_step_shape [of a c] assms by (simp add: counter_typed_def)
  show ?thesis using assms l sh
    by (cases c) (auto simp: counter_typed_def slots_kept_def slot_typed_def slot_simps split: if_splits)
qed

lemma pc_kept:
  assumes "\<And>i. i < nC \<Longrightarrow> slots_kept nT nF (cs ! i) (cs' ! i)" and "pc_typed nT nF nC cs pc"
  shows "pc_typed nT nF nC cs' pc"
  using assms(2) by (induction pc) (auto intro: cpc_kept [OF assms(1)])

lemma slots_kept_refl: "slots_kept nT nF a a"
  by (simp add: slots_kept_def)

section \<open>Queues\<close>

lemma queue_typed_enqueue:
  assumes "queue_typed ok q" and "mpmc_enqueue q x = Some (b, q')" and "ok x"
  shows "queue_typed ok q'"
proof -
  from assms(1) have "mpmc_ok q" by (simp add: queue_typed_def)
  from this assms(2) show ?thesis by (cases rule: mpmc.enqE) (use assms in \<open>auto simp: queue_typed_def\<close>)
qed

lemma queue_typed_dequeue:
  assumes "queue_typed ok q" and "mpmc_dequeue q = Some (r, q')"
  shows "queue_typed ok q'" and "r = Some x \<Longrightarrow> ok x"
proof -
  from assms(1) have m: "mpmc_ok q" by (simp add: queue_typed_def)
  from m assms(2) show "queue_typed ok q'" by (cases rule: mpmc.deqE) (use assms in \<open>auto simp: queue_typed_def\<close>)
  from m assms(2) show "r = Some x \<Longrightarrow> ok x" by (cases rule: mpmc.deqE) (use assms in \<open>auto simp: queue_typed_def\<close>)
qed

lemma queue_typed_total:
  assumes "queue_typed ok q"
  shows "\<exists>b q'. mpmc_enqueue q x = Some (b, q')" and "\<exists>r q'. mpmc_dequeue q = Some (r, q')"
  using mpmc.enq_total [of q x] mpmc.deq_total [of q] assms by (simp_all add: queue_typed_def)

lemma pinned_typed_enqueue:
  assumes "pinned_typed nF w" and "fifo_enqueue dbg (pinned_resumable_fibers w) f = Inr q" and "unat f < nF"
  shows "pinned_typed nF (w\<lparr>pinned_resumable_fibers := q\<rparr>)"
  using fifo_enqueue_correct [of "pinned_resumable_fibers w" dbg f] assms
  by (auto simp: pinned_typed_def split: if_splits)

lemma pinned_typed_dequeue:
  assumes "pinned_typed nF w" and "fifo_dequeue (pinned_resumable_fibers w) = (r, q)"
  shows "pinned_typed nF (w\<lparr>pinned_resumable_fibers := q\<rparr>)" and "r = Some f \<Longrightarrow> unat f < nF"
  using fifo_dequeue_correct [of "pinned_resumable_fibers w"] assms
  by (auto simp: pinned_typed_def split: option.splits)

section \<open>Preservation\<close>

lemma nth_upd: "xs[i := x] ! j = (if i = j \<and> i < length xs then x else xs ! j)"
  by (cases "i < length xs") (auto simp: nth_list_update list_update_beyond)

lemma typed_goto:
  assumes "typed nT nF nC s" and "pc_typed nT nF nC (mCounters s) pc"
  shows "typed nT nF nC (goto t pc s)"
proof -
  have "pc_typed nT nF nC (mCounters s) (native (mFibers (goto t pc s) ! g))" if "g < nF" for g
    using assms that by (cases "g = current t s") (auto simp: typed_def goto_def set_native_def)
  then show ?thesis using assms(1) by (auto simp: typed_def goto_def set_native_def)
qed

lemma typed_native: "typed nT nF nC s \<Longrightarrow> g < nF \<Longrightarrow> pc_typed nT nF nC (mCounters s) (native (mFibers s ! g))"
  by (simp add: typed_def)

text \<open>Updates of the parts of the state, one at a time.\<close>

lemma typed_updates:
  assumes "typed nT nF nC s"
  shows "typed nT nF nC (s\<lparr>failed := e\<rparr>)" "typed nT nF nC (s\<lparr>mIdleFibers := qi\<rparr>)"
    "typed nT nF nC (s\<lparr>mIsShuttingDown := b\<rparr>)" "typed nT nF nC (s\<lparr>mCounterHandles := hs\<rparr>)"
    "typed nT nF nC (s\<lparr>tmodes := m\<rparr>)"
    "queue_typed (\<lambda>f. unat f < nF) qr \<Longrightarrow> typed nT nF nC (s\<lparr>mResumableFibers := qr\<rparr>)"
    "queue_typed (\<lambda>tk. unat (get_metadata tk) < nC) qt \<Longrightarrow> typed nT nF nC (s\<lparr>mTasks := qt\<rparr>)"
    "queue_typed (\<lambda>c. unat c < nC) qc \<Longrightarrow> typed nT nF nC (s\<lparr>mFreeCounters := qc\<rparr>)"
  using assms by (simp_all add: typed_def)

lemma typed_set_tls:
  "typed nT nF nC s \<Longrightarrow> thread_index l = thread_index (s_tls s t) \<Longrightarrow> typed nT nF nC (set_tls t l s)"
  by (simp add: typed_def set_tls_def)

lemma typed_set_cleaned_up: "typed nT nF nC s \<Longrightarrow> typed nT nF nC (set_cleaned_up f b s)"
  unfolding typed_def set_cleaned_up_def by (auto simp: nth_upd)

lemma typed_set_pinned:
  "typed nT nF nC s \<Longrightarrow> pinned_typed nF ((mThreads s ! i)\<lparr>pinned_resumable_fibers := q\<rparr>) \<Longrightarrow> typed nT nF nC (set_pinned i q s)"
  unfolding typed_def set_pinned_def by (auto simp: nth_upd)

lemma typed_counter:
  assumes s: "typed nT nF nC s" and a: "counter_typed nT nF a" "slots_kept nT nF (mCounters s ! i) a"
  shows "typed nT nF nC (s\<lparr>mCounters := (mCounters s)[i := a]\<rparr>)"
proof -
  have k: "slots_kept nT nF (mCounters s ! j) ((mCounters s)[i := a] ! j)" if "j < nC" for j
    using that s a(2) by (cases "i = j") (auto simp: slots_kept_refl typed_def)
  have "pc_typed nT nF nC ((mCounters s)[i := a]) (native (mFibers s ! g))" if "g < nF" for g
    by (rule pc_kept [OF k typed_native [OF s that]])
  then show ?thesis using s a(1) by (auto simp: typed_def nth_upd)
qed

lemmas typed_rules = typed_goto typed_updates typed_set_tls typed_set_cleaned_up typed_set_pinned

lemma typed_fail: "typed nT nF nC s \<Longrightarrow> fail e s = Some s' \<Longrightarrow> typed nT nF nC s'"
  by (auto simp: fail_def intro: typed_updates)

lemma typed_cleanup: "typed nT nF nC s \<Longrightarrow> cleanUpPrevFiber t s = Some s' \<Longrightarrow> typed nT nF nC s'"
  by (auto simp: cleanUpPrevFiber_def Let_def split: fiber_destination_e.splits option.splits
      intro!: typed_set_tls typed_updates typed_set_cleaned_up) (simp add: set_cleaned_up_def)

lemma typed_yield:
  assumes "typed nT nF nC s" and "k \<noteq> Ended" "pc_typed nT nF nC (mCounters s) k" and "yieldToFiber dbg t g d k s = Some s'"
  shows "typed nT nF nC s'"
proof -
  have "typed nT nF nC (goto t (Resumed k) s)" using assms(1-3) by (intro typed_goto) simp_all
  moreover have "thread_index (s_tls (goto t (Resumed k) s) t) = thread_index (s_tls s t)" by simp
  ultimately show ?thesis using assms by (auto simp: yieldToFiber_def Let_def split: if_splits
      intro: typed_fail typed_set_tls)
qed

section \<open>Progress\<close>

text \<open>A step that is there, keeps the typing, and fails with an index out of range only where \<open>b\<close> allows it.\<close>

definition steps_to :: "nat \<Rightarrow> nat \<Rightarrow> nat \<Rightarrow> bool \<Rightarrow> 'h sched option \<Rightarrow> bool" where
  "steps_to nT nF nC b r \<longleftrightarrow> (\<exists>s'. r = Some s' \<and> typed nT nF nC s' \<and> (failed s' = Some OutOfRange \<longrightarrow> b))"

lemma steps_to_Some: "typed nT nF nC s' \<Longrightarrow> failed s' = None \<Longrightarrow> steps_to nT nF nC b (Some s')"
  by (simp add: steps_to_def)

lemma steps_to_fail: "typed nT nF nC s \<Longrightarrow> e \<noteq> OutOfRange \<or> b \<Longrightarrow> steps_to nT nF nC b (fail e s)"
  by (auto simp: steps_to_def fail_def intro: typed_updates)

lemma failed_kept [simp]:
  "failed (goto t pc s) = failed s" "failed (set_tls t l s) = failed s" "failed (set_cleaned_up f b s) = failed s"
  "failed (set_pinned i q s) = failed s" "failed (return_thread t s) = failed s"
  by (simp_all add: goto_def set_native_def set_tls_def set_cleaned_up_def set_pinned_def return_thread_def)

lemma yield_steps:
  assumes "typed nT nF nC s" and "failed s = None" and "k \<noteq> Ended" "pc_typed nT nF nC (mCounters s) k"
  shows "steps_to nT nF nC b (yieldToFiber dbg t g d k s)"
proof -
  have "\<exists>s'. yieldToFiber dbg t g d k s = Some s' \<and> failed s' \<noteq> Some OutOfRange"
    using assms(2) by (simp add: yieldToFiber_def Let_def fail_def)
  then show ?thesis using typed_yield [OF assms(1,3,4)] by (auto simp: steps_to_def)
qed

lemma set_cleaned_counters [simp]: "mCounters (set_cleaned_up f b s) = mCounters s"
  by (simp add: set_cleaned_up_def)

lemma resume_steps:
  assumes "typed nT nF nC s" and "failed s = None" and "unat g < nF"
    and "k \<noteq> Ended" "pc_typed nT nF nC (mCounters s) k" "pc_typed nT nF nC (mCounters s) k'"
  shows "steps_to nT nF nC b (tryResumeFiber dbg t g k k' s)"
proof -
  have "unat g < length (mFibers s)" using assms(1,3) by (simp add: typed_def)
  moreover have "steps_to nT nF nC b (yieldToFiber dbg t g dest_pool k (set_cleaned_up (unat g) False s))"
    using assms by (intro yield_steps typed_set_cleaned_up) simp_all
  moreover have "steps_to nT nF nC b (Some (goto t k' s))" using assms by (intro steps_to_Some typed_goto) simp_all
  ultimately show ?thesis by (simp add: tryResumeFiber_def)
qed

lemma wake_steps:
  assumes s: "typed nT nF nC s" "failed s = None" and w: "index_typed nT nF w"
  shows "steps_to nT nF nC b (wake_fiber dbg w s)"
proof -
  obtain f p where wp: "w = (f, p)" by fastforce
  have f: "unat f < nF" using w wp by (simp add: index_typed_def)
  have res: "queue_typed (\<lambda>f. unat f < nF) (mResumableFibers s)" using s by (simp add: typed_def)
  show ?thesis
  proof (cases "p = invalid_thread")
    case True
    obtain ok q where e: "mpmc_enqueue (mResumableFibers s) f = Some (ok, q)" using queue_typed_total(1) [OF res] by blast
    have "typed nT nF nC (s\<lparr>mResumableFibers := q\<rparr>)" by (intro typed_updates(6) s queue_typed_enqueue [OF res e f])
    then show ?thesis using s True wp e
      by (auto simp: wake_fiber_def cc_assert_def intro: steps_to_Some steps_to_fail)
  next
    case False
    then have p: "unat p < nT" using w wp by (simp add: index_typed_def)
    then have pt: "pinned_typed nF (mThreads s ! unat p)" "unat p < length (mThreads s)" using s by (simp_all add: typed_def)
    show ?thesis
    proof (cases "fifo_enqueue dbg (pinned_resumable_fibers (mThreads s ! unat p)) f")
      case (Inl e)
      then have "e \<noteq> OutOfRange" by (auto simp: fifo_enqueue_def cc_assert_def and_then_def split: if_splits)
      then show ?thesis using s False wp pt(2) Inl by (simp add: wake_fiber_def steps_to_fail)
    next
      case (Inr q)
      have "typed nT nF nC (set_pinned (unat p) q s)" by (intro typed_set_pinned s pinned_typed_enqueue [OF pt(1) Inr f])
      then show ?thesis using s False wp pt(2) Inr by (simp add: wake_fiber_def steps_to_Some)
    qed
  qed
qed

lemma counter_steps:
  assumes s: "typed nT nF nC s" "failed s = None" and i: "i < nC" and c: "cpc_typed nT nF (mCounters s ! i) c"
    and k: "cont_typed nC i c k" and r: "\<not> cpc_returned c"
  shows "steps_to nT nF nC b (counter_action dbg t i c k s)"
proof -
  obtain c' a w where st: "cpc_step c (mCounters s ! i) = (c', a, w)" by (cases "cpc_step c (mCounters s ! i)") auto
  have len: "i < length (mCounters s)" and ct: "counter_typed nT nF (mCounters s ! i)" using s i by (simp_all add: typed_def)
  note step = cpc_step_typed [OF ct c st]
  let ?r = "s\<lparr>mCounters := (mCounters s)[i := a]\<rparr>"
  have "\<not> is_add c \<Longrightarrow> \<not> is_add c'" using step by blast
  moreover have "\<nexists>e. c = CFail e" using r by auto
  ultimately have "cont_typed nC i c' k" using k step by (cases k) auto
  then have g: "typed nT nF nC (goto t (InCounter i c' k) ?r)"
    using s step len by (intro typed_goto typed_counter) simp_all
  moreover have f: "failed (goto t (InCounter i c' k) ?r) = None" using s(2) by simp
  ultimately show ?thesis using step wake_steps [OF g f]
    by (cases w) (simp_all add: counter_action_def st Let_def steps_to_Some)
qed

lemma returns_typed:
  assumes "cpc_returned c" and "cont_typed nC i c k"
  shows "(\<exists>e. counter_returns c k = Inl e \<and> c = CFail e) \<or>
    (\<exists>pc. counter_returns c k = Inr pc \<and> pc \<noteq> Ended \<and> (i < nC \<longrightarrow> pc_typed nT nF nC cs pc))"
  using assms by (cases c; cases k) auto

lemma exec_steps:
  assumes s: "typed nT nF nC s" "failed s = None" and idle: "mpmc_ok (mIdleFibers s)" and t: "t < nT"
    and pc: "pc_typed nT nF nC (mCounters s) pc" and run: "\<nexists>ctx r. pc = Running ctx r" "pc \<noteq> Ended"
  shows "steps_to nT nF nC (\<exists>j c k. pc = InCounter j c k \<and> nC \<le> j) (exec_pc dbg t pc s)"
proof -
  have len: "length (mCounters s) = nC" using s by (simp add: typed_def)
  have res: "queue_typed (\<lambda>f. unat f < nF) (mResumableFibers s)"
    and tasks: "queue_typed (\<lambda>tk. unat (get_metadata tk) < nC) (mTasks s)" using s by (simp_all add: typed_def)
  let ?i = "unat (thread_index (s_tls s t))"
  have pin: "pinned_typed nF (mThreads s ! ?i)" using s t by (simp add: typed_def)
  have fine: "steps_to nT nF nC b (Some (goto t pc' r))"
    if "typed nT nF nC r" "failed r = None" "pc_typed nT nF nC (mCounters r) pc'" for pc' r b
    using that by (intro steps_to_Some typed_goto) simp_all
  show ?thesis
  proof (cases pc)
    case (Resumed k)
    obtain q b where "mpmc_enqueue (mIdleFibers s) (previous_fiber_index (s_tls s t)) = Some (b, q)"
      using mpmc.enq_total [OF idle] by blast
    then have "\<exists>r. cleanUpPrevFiber t s = Some r \<and> failed r = None \<and> mCounters r = mCounters s"
      using s(2) by (simp add: cleanUpPrevFiber_def Let_def set_tls_def set_cleaned_up_def split: fiber_destination_e.split)
    then obtain r where r: "cleanUpPrevFiber t s = Some r" "failed r = None" "mCounters r = mCounters s" by blast
    show ?thesis using fine [of r k] typed_cleanup [OF s(1) r(1)] r pc Resumed by simp
  next
    case (LoopTop bp)
    have "typed nT nF nC (return_thread t (goto t Ended s))" unfolding return_thread_def
      by (intro typed_updates typed_goto s) simp
    then show ?thesis using LoopTop fine [OF s, of "GetPinned bp"] s(2) by (auto intro: steps_to_Some)
  next
    case (GetPinned bp)
    obtain r q where d: "fifo_dequeue (pinned_resumable_fibers (mThreads s ! ?i)) = (r, q)" by fastforce
    note p = pinned_typed_dequeue [OF pin d]
    have "typed nT nF nC (set_pinned ?i q s)" by (intro typed_set_pinned s p)
    then show ?thesis using GetPinned d s(2) p(2) by (cases r) (auto simp: Let_def intro!: fine)
  next
    case (TryPinned bp f)
    then show ?thesis using resume_steps [OF s] pc by simp
  next
    case (BackPinned bp f)
    show ?thesis
    proof (cases "fifo_enqueue dbg (pinned_resumable_fibers (mThreads s ! ?i)) f")
      case (Inl e)
      then have "e \<noteq> OutOfRange" by (auto simp: fifo_enqueue_def cc_assert_def and_then_def split: if_splits)
      then show ?thesis using BackPinned Inl s(1) by (simp add: Let_def steps_to_fail)
    next
      case (Inr q)
      have "unat f < nF" using pc BackPinned by simp
      then have "typed nT nF nC (set_pinned ?i q s)" by (intro typed_set_pinned s pinned_typed_enqueue [OF pin Inr])
      then show ?thesis using BackPinned Inr s(2) by (auto simp: Let_def intro!: fine)
    qed
  next
    case (GetGlobal bp)
    obtain r q where d: "mpmc_dequeue (mResumableFibers s) = Some (r, q)" using queue_typed_total(2) [OF res] by blast
    note q = queue_typed_dequeue [OF res d]
    have "typed nT nF nC (s\<lparr>mResumableFibers := q\<rparr>)" by (intro typed_updates(6) s q(1))
    then show ?thesis using GetGlobal d s(2) q(2) by (cases r) (auto intro!: fine)
  next
    case (TryGlobal bp f)
    then show ?thesis using resume_steps [OF s] pc by simp
  next
    case (BackGlobal bp f)
    obtain b q where e: "mpmc_enqueue (mResumableFibers s) f = Some (b, q)" using queue_typed_total(1) [OF res] by blast
    have "unat f < nF" using pc BackGlobal by simp
    then have "typed nT nF nC (s\<lparr>mResumableFibers := q\<rparr>)" by (intro typed_updates(6) s queue_typed_enqueue [OF res e])
    then show ?thesis using BackGlobal e s(2) by (auto intro!: fine)
  next
    case (GetTask bp)
    obtain r q where d: "mpmc_dequeue (mTasks s) = Some (r, q)" using queue_typed_total(2) [OF tasks] by blast
    note q = queue_typed_dequeue [OF tasks d]
    have "typed nT nF nC (s\<lparr>mTasks := q\<rparr>)" by (intro typed_updates(7) s q(1))
    then show ?thesis using GetTask d s(2) q(2) by (cases r) (auto intro!: fine)
  next
    case (NoTask bp)
    then show ?thesis using fine [OF s] by simp
  next
    case (InCounter j c k)
    have k: "cont_typed nC j c k" and c: "j < nC \<longrightarrow> cpc_typed nT nF (mCounters s ! j) c" using pc InCounter by simp_all
    consider "nC \<le> j" | "j < nC" "\<not> cpc_returned c" | "j < nC" "cpc_returned c" by linarith
    then show ?thesis
    proof cases
      case 1
      then show ?thesis using InCounter len s(1) by (auto intro!: steps_to_fail)
    next
      case 2
      then have "steps_to nT nF nC b (counter_action dbg t j c k s)" for b by (intro counter_steps s) (use c k in simp_all)
      then show ?thesis using InCounter len 2 by simp
    next
      case 3
      from returns_typed [OF 3(2) k, of nT nF "mCounters s"] 3(1) have
        "(\<exists>e. counter_returns c k = Inl e \<and> c = CFail e) \<or>
         (\<exists>pc'. counter_returns c k = Inr pc' \<and> pc_typed nT nF nC (mCounters s) pc')" by blast
      then show ?thesis using InCounter len 3 c s fine by (auto simp: steps_to_fail)
    qed
  next
    case (WaitYield ctx v)
    obtain r q where d: "mpmc_dequeue (mIdleFibers s) = Some (r, q)" using mpmc.deq_total [OF idle] by blast
    have "typed nT nF nC (s\<lparr>mIdleFibers := q\<rparr>)" by (intro typed_updates s)
    then show ?thesis using WaitYield d s(2) pc
      by (cases r) (auto simp: acquireFreeFiber_def intro!: steps_to_Some yield_steps)
  next
    case (WaitOver ctx v)
    have "typed nT nF nC (set_tls t ((s_tls s t)\<lparr>is_thread_waiting := False\<rparr>) s)" by (intro typed_set_tls s) simp
    then show ?thesis using WaitOver pc s(2) by (auto simp: set_tls_def intro!: fine)
  next
    case (SubmitEnq ctx ts m b)
    have m: "context_typed nC ctx" "unat m < nC" using pc SubmitEnq by simp_all
    show ?thesis
    proof (cases ts)
      case Nil
      then show ?thesis using SubmitEnq m s by (auto intro!: fine steps_to_fail)
    next
      case (Cons tk ts')
      obtain b' q where e: "mpmc_enqueue (mTasks s) (set_metadata m tk) = Some (b', q)"
        using queue_typed_total(1) [OF tasks] by blast
      have "typed nT nF nC (s\<lparr>mTasks := q\<rparr>)"
        using m by (intro typed_updates(7) s queue_typed_enqueue [OF tasks e]) (simp add: set_metadata_def get_metadata_def)
      then show ?thesis using SubmitEnq Cons e m s(2) by (auto intro!: fine)
    qed
  qed (use run in simp_all)
qed

text \<open>User code; a handle can make the release of a counter fail, and an operation on it later.\<close>

lemma free_counter_steps:
  assumes s: "typed nT nF nC s" "failed s = None" and h: "handle_counter P c s < nC"
    and pc: "\<And>cs. pc_typed nT nF nC cs pc"
  shows "steps_to nT nF nC b (map_option (goto t pc) (free_counter_of P c s))"
proof -
  have fq: "queue_typed (\<lambda>c. unat c < nC) (mFreeCounters s)" using s by (simp add: typed_def)
  obtain ok q where e: "mpmc_enqueue (mFreeCounters s) (pool_index P (mCounterHandles s) c) = Some (ok, q)"
    using queue_typed_total(1) [OF fq] by blast
  let ?r = "s\<lparr>mCounterHandles := pool_release P (mCounterHandles s) c, mFreeCounters := q\<rparr>"
  have "typed nT nF nC ?r"
    using h by (intro typed_updates(4,8) s queue_typed_enqueue [OF fq e]) (simp add: handle_counter_def)
  then have "typed nT nF nC (goto t pc ?r)" by (intro typed_goto pc)
  moreover have "failed (goto t pc ?r) = None" using s(2) by simp
  ultimately show ?thesis by (simp add: free_counter_of_def e steps_to_Some)
qed

definition releases_bad :: "'h pool_ops \<Rightarrow> nat \<Rightarrow> user_call \<Rightarrow> 'h sched \<Rightarrow> bool" where
  "releases_bad P nC call s \<longleftrightarrow> (case call of
       CallRelease c \<Rightarrow> nC \<le> handle_counter P c s
     | CallReleaseIfOnTarget c v \<Rightarrow> nC \<le> handle_counter P c s
     | _ \<Rightarrow> False)"

lemma api_steps:
  assumes s: "typed nT nF nC s" "failed s = None" and t: "t < nT" "current t s < nF"
    and ctx: "context_typed nC ctx"
  shows "steps_to nT nF nC (releases_bad P nC call s) (api_call dbg P t ctx call s)"
proof -
  have len: "length (mCounters s) = nC" using s by (simp add: typed_def)
  have fine: "steps_to nT nF nC b (Some (goto t pc' r))"
    if "typed nT nF nC r" "failed r = None" "pc_typed nT nF nC (mCounters r) pc'" for pc' r b
    using that by (intro steps_to_Some typed_goto) simp_all
  have inc: "cpc_typed nT nF a (counterIncrement dbg v)" "is_add (counterIncrement dbg v) \<longrightarrow> (\<exists>e. counterIncrement dbg v = CFail e)"
    for a v by (auto simp: counterIncrement_def cc_assert_def)
  show ?thesis
  proof (cases call)
    case (CallWait c pinned v)
    let ?l = "s_tls s t"
    let ?r = "set_tls t (?l\<lparr>is_thread_waiting := True\<rparr>) (set_cleaned_up (current t s) False s)"
    have r: "typed nT nF nC ?r" by (intro typed_set_tls typed_set_cleaned_up s) (simp add: set_cleaned_up_def)
    have "index_typed nT nF (current_fiber_index ?l, if pinned then thread_index ?l else invalid_thread)"
      using s t by (auto simp: index_typed_def typed_def current_def)
    then have "steps_to nT nF nC b (Some (goto t (InCounter (handle_counter P c s) (counterAddWaitingFiber (current_fiber_index ?l)
        (if pinned then thread_index ?l else invalid_thread) v) (AfterWait ctx)) ?r))" for b
      using ctx s(2) by (intro fine r) (simp_all add: counterAddWaitingFiber_def)
    then show ?thesis unfolding CallWait using s(1)
      by (auto simp: sched_wait_def Let_def cc_assert_def and_then_def intro: steps_to_fail)
  next
    case (CallSubmit ts c)
    then show ?thesis using fine [OF s] ctx inc by (auto simp: submitTasks_def handle_counter_def)
  next
    case (CallIncrement c v)
    then show ?thesis using fine [OF s] ctx inc by auto
  next
    case (CallDecrement c v)
    then show ?thesis using fine [OF s] ctx inc by auto
  next
    case CallAcquire
    have fq: "queue_typed (\<lambda>c. unat c < nC) (mFreeCounters s)" using s by (simp add: typed_def)
    obtain r q where d: "mpmc_dequeue (mFreeCounters s) = Some (r, q)" using queue_typed_total(2) [OF fq] by blast
    note q = queue_typed_dequeue [OF fq d]
    show ?thesis
    proof (cases r)
      case None
      then show ?thesis using CallAcquire d s(1) by (simp add: acquireCounterHandle_def steps_to_fail)
    next
      case (Some f)
      then have f: "unat f < nC" using q(2) by blast
      let ?a = "counter_reset (mCounters s ! unat f)"
      have a: "counter_typed nT nF (mCounters s ! unat f)" using s f by (simp add: typed_def)
      have w: "waiting_fibers ?a = waiting_fibers (mCounters s ! unat f)" by (simp add: counter_reset_def)
      have "counter_typed nT nF ?a" "slots_kept nT nF (mCounters s ! unat f) ?a"
        using a by (simp_all add: counter_typed_def slots_kept_def w) (simp add: counter_shape_def)
      then have "typed nT nF nC (s\<lparr>mCounters := (mCounters s)[unat f := ?a]\<rparr>)" by (intro typed_counter s)
      then have g: "typed nT nF nC (s\<lparr>mFreeCounters := q, mCounters := (mCounters s)[unat f := ?a], mCounterHandles := h\<rparr>)" for h
        using q(1) by (simp add: typed_def)
      obtain res hs where pa: "pool_acquire P (mCounterHandles s) = (res, hs)" by fastforce
      show ?thesis unfolding CallAcquire api_call.simps acquireCounterHandle_def d pa Some option.case prod.case
        using f len ctx s(2) by (simp del: goto_fields) (intro fine g; simp)
    qed
  next
    case (CallRelease c)
    have "steps_to nT nF nC b (map_option (goto t (Running ctx (IntResult v))) (free_counter_of P c s))"
      if "handle_counter P c s < nC" for b v using that ctx by (intro free_counter_steps s) simp_all
    then show ?thesis using s(1) len by (auto simp: CallRelease releaseCounter_def releases_bad_def intro: steps_to_fail)
  next
    case (CallReleaseIfOnTarget c v)
    have "steps_to nT nF nC b (map_option (goto t (Running ctx (BoolResult True))) (free_counter_of P c s))"
      if "handle_counter P c s < nC" for b using that ctx by (intro free_counter_steps s) simp_all
    moreover have "steps_to nT nF nC b (Some (goto t (Running ctx (BoolResult False)) s))" for b
      using ctx by (intro fine s) simp
    ultimately show ?thesis using s(1) len
      by (auto simp: CallReleaseIfOnTarget releaseCounterIfOnTarget_def releases_bad_def intro: steps_to_fail)
  next
    case CallReturn
    show ?thesis
    proof (cases ctx)
      case (MainTask tk)
      have "typed nT nF nC (return_thread t (goto t Ended (s\<lparr>mIsShuttingDown := True\<rparr>)))" unfolding return_thread_def
        by (intro typed_updates typed_goto s) simp
      then show ?thesis using CallReturn MainTask s(2) by (auto intro: steps_to_Some)
    next
      case (WorkerTask tk)
      then show ?thesis using fine [OF s] CallReturn ctx inc by auto
    qed
  qed
qed

lemma thread_steps:
  assumes s: "typed nT nF nC s" "failed s = None" and fib: "fibers_inv s"
  shows "steps_to nT nF nC b (thread_start t s)"
proof -
  have "mpmc_ok (mIdleFibers s)" using inv_queue [OF fib] by (simp add: pool_queue_ok_def)
  then obtain r q where d: "mpmc_dequeue (mIdleFibers s) = Some (r, q)" using mpmc.deq_total by blast
  have q: "typed nT nF nC (s\<lparr>mIdleFibers := q\<rparr>)" by (intro typed_updates s)
  show ?thesis
  proof (cases r)
    case None
    then show ?thesis using d q s(2) by (auto simp: thread_start_def acquireFreeFiber_def intro: steps_to_Some)
  next
    case (Some f)
    let ?l = "(s_tls s t)\<lparr>current_fiber_index := f\<rparr>"
    let ?s = "set_tls t ?l (s\<lparr>mIdleFibers := q, tmodes := (tmodes s)(t := OnFiber)\<rparr>)"
    have u: "typed nT nF nC ?s" using q by (intro typed_set_tls typed_updates(5)) simp_all
    moreover have "typed nT nF nC (set_native (unat f) (Running (MainTask (main_task s)) NoResult) ?s)"
      using typed_goto [OF u, of "Running (MainTask (main_task s)) NoResult" t]
      by (simp add: goto_def current_def set_tls_def)
    ultimately show ?thesis using d Some s(2)
      by (simp add: thread_start_def acquireFreeFiber_def Let_def steps_to_Some)
        (auto simp: steps_to_def set_native_def set_tls_def)
  qed
qed

section \<open>Ended fibers\<close>

text \<open>A fiber function that has ended belongs to a thread that has returned: a running thread is never on it.\<close>

definition ends_returned :: "'h sched \<Rightarrow> bool" where
  "ends_returned s \<longleftrightarrow> (\<forall>f < length (mFibers s). native (mFibers s ! f) = Ended \<longrightarrow>
     (\<exists>u < length (mThreads s). tmodes s u = Returned \<and> current u s = f))"

definition others_kept :: "nat \<Rightarrow> 'h sched \<Rightarrow> 'h sched \<Rightarrow> bool" where
  "others_kept t s s' \<longleftrightarrow> length (mThreads s') = length (mThreads s) \<and>
     (\<forall>u. u \<noteq> t \<longrightarrow> tmodes s' u = tmodes s u \<and> current u s' = current u s)"

lemma others_same:
  "length (mThreads s') = length (mThreads s) \<Longrightarrow> tmodes s' = tmodes s \<Longrightarrow> s_tls s' = s_tls s \<Longrightarrow> others_kept t s s'"
  by (simp add: others_kept_def current_def)

lemma others_goto: "others_kept t s r \<Longrightarrow> others_kept t s (goto t pc r)"
  by (simp add: others_kept_def current_def goto_def set_native_def)

lemma others_yield: "yieldToFiber dbg t g d k r = Some s' \<Longrightarrow> others_kept t s r \<Longrightarrow> others_kept t s s'"
  by (auto simp: yieldToFiber_def Let_def others_kept_def set_tls_def fail_def current_def split: if_splits)

lemma others_resume: "tryResumeFiber dbg t g k k' s = Some s' \<Longrightarrow> others_kept t s s'"
  by (auto simp: tryResumeFiber_def fail_def split: if_splits intro: others_same others_goto
      elim!: others_yield) (auto simp: set_cleaned_up_def intro: others_same)

lemma others_wake: "wake_fiber dbg w r = Some s' \<Longrightarrow> others_kept t s r \<Longrightarrow> others_kept t s s'"
  by (auto simp: wake_fiber_def fail_def set_pinned_def others_kept_def current_def
      split: if_splits option.splits sum.splits prod.splits)

lemma others_counter:
  assumes "counter_action dbg t i c k s = Some s'"
  shows "others_kept t s s'"
proof -
  obtain c' a w where st: "cpc_step c (mCounters s ! i) = (c', a, w)" by (cases "cpc_step c (mCounters s ! i)") auto
  have "others_kept t s (goto t (InCounter i c' k) (s\<lparr>mCounters := (mCounters s)[i := a]\<rparr>))"
    by (intro others_goto others_same) simp_all
  then show ?thesis using assms others_wake by (cases w) (auto simp: counter_action_def st Let_def)
qed

lemma exec_others:
  assumes "exec_pc dbg t pc s = Some s'"
  shows "others_kept t s s'"
proof (cases pc)
  case (Resumed k)
  then show ?thesis using assms
    by (auto simp: cleanUpPrevFiber_def Let_def set_tls_def set_cleaned_up_def others_kept_def current_def
        goto_def set_native_def split: fiber_destination_e.splits option.splits)
next
  case (InCounter i c k)
  then show ?thesis using assms
    by (auto simp: fail_def split: if_splits sum.splits intro: others_counter others_goto others_same)
next
  case (WaitYield ctx v)
  then show ?thesis using assms
    by (auto simp: acquireFreeFiber_def split: option.splits elim!: others_yield) (simp_all add: others_kept_def current_def)
qed (use assms in \<open>auto simp: Let_def fail_def set_pinned_def set_tls_def return_thread_def others_kept_def current_def
      split: option.splits prod.splits sum.splits list.splits if_splits dest!: others_resume\<close>)

lemma api_others: "api_call dbg P t ctx call s = Some s' \<Longrightarrow> others_kept t s s'"
proof (cases call)
  case CallReturn
  then show "api_call dbg P t ctx call s = Some s' \<Longrightarrow> others_kept t s s'"
    by (cases ctx) (auto simp: return_thread_def others_kept_def current_def)
qed (auto simp: sched_wait_def submitTasks_def acquireCounterHandle_def releaseCounter_def releaseCounterIfOnTarget_def
  free_counter_of_def fail_def set_tls_def set_cleaned_up_def Let_def others_kept_def current_def
  split: option.splits prod.splits sum.splits if_splits)

text \<open>Where a fiber function ends, the thread returns.\<close>

definition end_returns :: "nat \<Rightarrow> 'h sched \<Rightarrow> bool" where
  "end_returns t s \<longleftrightarrow> (native (mFibers s ! current t s) = Ended \<longrightarrow> tmodes s t = Returned)"

lemma end_goto: "pc \<noteq> Ended \<Longrightarrow> current t s < length (mFibers s) \<Longrightarrow> native (mFibers (goto t pc s) ! current t s) \<noteq> Ended"
  by (simp add: goto_here)

lemma end_there:
  "current t r = f \<Longrightarrow> f < length (mFibers r) \<Longrightarrow> pc \<noteq> Ended \<Longrightarrow> native (mFibers (goto t pc r) ! f) \<noteq> Ended"
  using end_goto by blast

lemma pinned_fields [simp]:
  "current t (set_pinned i q s) = current t s" "mFibers (set_pinned i q s) = mFibers s"
  by (simp_all add: set_pinned_def)

lemma end_yield:
  assumes "yieldToFiber dbg t g d k r = Some s'" and "current t r < length (mFibers r)"
    and "native (mFibers r ! current t r) \<noteq> Ended"
  shows "native (mFibers s' ! current t r) \<noteq> Ended"
proof -
  have "native (mFibers (goto t (Resumed k) r) ! current t r) \<noteq> Ended" using assms(2) by (simp add: goto_here)
  then show ?thesis using assms by (auto simp: yieldToFiber_def Let_def fail_def set_tls_def split: if_splits)
qed

lemma native_cleaned [simp]: "native (mFibers (set_cleaned_up f b s) ! g) = native (mFibers s ! g)"
  by (cases "g = f"; cases "f < length (mFibers s)") (simp_all add: set_cleaned_up_def list_update_beyond)

lemma cleaned_fields [simp]:
  "current t (set_cleaned_up f b s) = current t s" "length (mFibers (set_cleaned_up f b s)) = length (mFibers s)"
  by (simp_all add: set_cleaned_up_def current_def)

lemma end_resume:
  assumes "tryResumeFiber dbg t g k k' s = Some s'" and "current t s < length (mFibers s)"
    and "native (mFibers s ! current t s) \<noteq> Ended" and "k' \<noteq> Ended"
  shows "native (mFibers s' ! current t s) \<noteq> Ended"
  using assms end_yield [of dbg t g dest_pool k "set_cleaned_up (unat g) False s" s'] end_goto [of k' t s]
  by (auto simp: tryResumeFiber_def fail_def split: if_splits)

lemma exec_end:
  assumes ex: "exec_pc dbg t pc s = Some s'" and f: "current t s < length (mFibers s)"
    and pc: "native (mFibers s ! current t s) = pc" "pc \<noteq> Ended" "pc_typed nT nF nC cs pc"
    and e: "native (mFibers s' ! current t s) = Ended"
  shows "tmodes s' t = Returned \<and> current t s' = current t s"
proof (cases pc)
  case (LoopTop bp)
  then show ?thesis using ex e end_goto [OF _ f, of "GetPinned bp"]
    by (cases "mIsShuttingDown s") (auto simp: return_thread_def current_def)
next
  case (Resumed k)
  then obtain r where "cleanUpPrevFiber t s = Some r" "s' = goto t k r" using ex by auto
  then show ?thesis using cleanup_same [of t s r] end_goto [of k t r] e f pc Resumed by simp
next
  case (InCounter i c k)
  have "native (mFibers s' ! current t s) \<noteq> Ended"
  proof (cases "i < length (mCounters s) \<and> \<not> cpc_returned c")
    case True
    obtain c' a w where st: "cpc_step c (mCounters s ! i) = (c', a, w)" by (cases "cpc_step c (mCounters s ! i)") auto
    let ?r = "goto t (InCounter i c' k) (s\<lparr>mCounters := (mCounters s)[i := a]\<rparr>)"
    have n: "native (mFibers ?r ! current t s) = InCounter i c' k"
      using goto_here [of t "s\<lparr>mCounters := (mCounters s)[i := a]\<rparr>"] f by simp
    have w: "wake_fiber dbg x ?r = Some s' \<Longrightarrow> mFibers s' = mFibers ?r" for x
      by (auto simp: wake_fiber_def fail_def set_pinned_def split: if_splits option.splits sum.splits prod.splits)
    have "mFibers s' = mFibers ?r"
      using ex True InCounter w by (cases w) (auto simp: counter_action_def st Let_def)
    then show ?thesis using n by simp
  next
    case False
    have ct: "cont_typed nC i c k" using pc InCounter by simp
    have n: "native (mFibers s ! current t s) \<noteq> Ended" using pc by simp
    show ?thesis
    proof (cases "i < length (mCounters s)")
      case out: False
      then show ?thesis using ex InCounter n by (auto simp: fail_def)
    next
      case True
      with False have r: "cpc_returned c" by simp
      show ?thesis
      proof (cases "counter_returns c k")
        case (Inl e)
        then show ?thesis using ex InCounter n True r by (auto simp: fail_def)
      next
        case (Inr pc')
        then have "pc' \<noteq> Ended" using returns_typed [OF r ct, of nT nF cs] by auto
        then show ?thesis using ex InCounter True r Inr end_goto [OF _ f] by auto
      qed
    qed
  qed
  then show ?thesis using e by simp
next
  case (TryPinned bp g)
  then show ?thesis using ex e pc end_resume [OF _ f] by auto
next
  case (TryGlobal bp g)
  then show ?thesis using ex e pc end_resume [OF _ f] by auto
next
  case (WaitYield ctx v)
  obtain r q where "mpmc_dequeue (mIdleFibers s) = Some (r, q)" using ex WaitYield
    by (auto simp: acquireFreeFiber_def split: option.splits)
  then show ?thesis using ex e pc f WaitYield end_yield [of dbg t _ dest_waiting _ "s\<lparr>mIdleFibers := q\<rparr>" s']
    by (cases r) (auto simp: acquireFreeFiber_def current_def)
next
  case (WaitOver ctx v)
  have "current t (set_tls t ((s_tls s t)\<lparr>is_thread_waiting := False\<rparr>) s) = current t s" by (simp add: current_def set_tls_def)
  from end_there [OF this, of "Running ctx (IntResult v)"] show ?thesis using ex e f WaitOver by (simp add: set_tls_def)
qed (use ex e f pc in \<open>auto simp: Let_def fail_def end_there split: option.splits prod.splits sum.splits list.splits if_splits\<close>)

lemma api_end:
  assumes ex: "api_call dbg P t ctx call s = Some s'" and f: "current t s < length (mFibers s)"
    and pc: "native (mFibers s ! current t s) = Running ctx r" and e: "native (mFibers s' ! current t s) = Ended"
  shows "tmodes s' t = Returned \<and> current t s' = current t s"
proof (cases call)
  case CallReturn
  show ?thesis
  proof (cases ctx)
    case (MainTask tk)
    then have "s' = return_thread t (goto t Ended (s\<lparr>mIsShuttingDown := True\<rparr>))" using ex CallReturn by simp
    then show ?thesis by (simp add: return_thread_def current_def goto_def set_native_def)
  next
    case (WorkerTask tk)
    then show ?thesis using ex e f CallReturn by (auto simp: end_there)
  qed
next
  case (CallWait c pinned v)
  let ?r = "set_tls t ((s_tls s t)\<lparr>is_thread_waiting := True\<rparr>) (set_cleaned_up (current t s) False s)"
  have "current t ?r = current t s" by (simp add: current_def set_tls_def)
  moreover have "length (mFibers ?r) = length (mFibers s)" by (simp add: set_tls_def)
  ultimately have "native (mFibers (goto t (InCounter i c' k) ?r) ! current t s) \<noteq> Ended" for i c' k
    using f by (intro end_there) simp_all
  then show ?thesis using ex e pc CallWait by (auto simp: sched_wait_def Let_def fail_def split: sum.splits)
next
  case CallAcquire
  then show ?thesis using ex e pc f
    by (auto simp: acquireCounterHandle_def fail_def end_there split: option.splits prod.splits if_splits)
next
  case (CallRelease c)
  then show ?thesis using ex e pc f
    by (auto simp: releaseCounter_def free_counter_of_def fail_def end_there split: option.splits prod.splits if_splits)
next
  case (CallReleaseIfOnTarget c v)
  then show ?thesis using ex e pc f
    by (auto simp: releaseCounterIfOnTarget_def free_counter_of_def fail_def end_there split: option.splits prod.splits if_splits)
qed (use ex e f in \<open>auto simp: submitTasks_def end_there\<close>)

lemma typed_pc_ok: "pc_typed nT nF nC cs pc \<Longrightarrow> pc_ok pc"
proof (induction pc)
  case (InCounter j c k)
  then show ?case by (cases k) auto
qed auto

definition sound :: "nat \<Rightarrow> nat \<Rightarrow> nat \<Rightarrow> 'h sched \<Rightarrow> bool" where
  "sound nT nF nC s \<longleftrightarrow> typed nT nF nC s \<and> fibers_inv s \<and> ends_returned s"

lemma soundD:
  assumes "sound nT nF nC s"
  shows "typed nT nF nC s" "fibers_inv s" "ends_returned s" "length (mThreads s) = nT" "length (mFibers s) = nF"
    "mpmc_ok (mTasks s)" "mpmc_ok (mIdleFibers s)"
  using assms inv_queue [of s] by (simp_all add: sound_def typed_def queue_typed_def pool_queue_ok_def)

text \<open>A thread that runs is not on a fiber that has ended.\<close>

lemma running_not_ended:
  assumes s: "sound nT nF nC s" and t: "t < nT" "tmodes s t = OnFiber"
  shows "current t s < nF" and "native (mFibers s ! current t s) \<noteq> Ended"
proof -
  note d = soundD [OF s]
  have mt: "t < length (mThreads s)" "tmodes s t \<noteq> Starting" using d t by simp_all
  note c = current_free [OF d(2) mt]
  show "current t s < nF" using c(1) d by simp
  show "native (mFibers s ! current t s) \<noteq> Ended"
  proof
    assume "native (mFibers s ! current t s) = Ended"
    with d(3) c(1) obtain u where u: "u < length (mThreads s)" "tmodes s u = Returned" "current u s = current t s"
      by (auto simp: ends_returned_def)
    then have "u \<noteq> t" "current u s \<in># thread_fibers u s" using t current_fiber [of s u] by auto
    with c(4) [OF u(1)] u(3) show False by simp
  qed
qed

lemma ends_step:
  assumes s: "sound nT nF nC s" and t: "t < nT" "tmodes s t \<noteq> Returned"
    and others: "others_kept t s s'" and len: "length (mFibers s') = length (mFibers s)"
    and same: "\<And>g. g < nF \<Longrightarrow> native (mFibers s' ! g) = Ended \<Longrightarrow> native (mFibers s ! g) \<noteq> Ended \<Longrightarrow>
      tmodes s' t = Returned \<and> current t s' = g"
  shows "ends_returned s'"
  unfolding ends_returned_def
proof (intro allI impI)
  note d = soundD [OF s]
  have lt: "length (mThreads s') = nT" using others d by (simp add: others_kept_def)
  fix f assume f: "f < length (mFibers s')" "native (mFibers s' ! f) = Ended"
  show "\<exists>u<length (mThreads s'). tmodes s' u = Returned \<and> current u s' = f"
  proof (cases "native (mFibers s ! f) = Ended")
    case True
    with d(3) f(1) len obtain u where "u < nT" "tmodes s u = Returned" "current u s = f" using d(4)
      by (auto simp: ends_returned_def)
    then show ?thesis using others t lt unfolding others_kept_def by metis
  next
    case False
    then show ?thesis using same [of f] f d len t lt by auto
  qed
qed

lemma exec_sound:
  assumes s: "sound nT nF nC s" "failed s = None" and t: "t < nT" "tmodes s t = OnFiber"
    and ex: "exec_pc dbg t (native (mFibers s ! current t s)) s = Some s'"
  shows "sound nT nF nC s'"
proof -
  let ?pc = "native (mFibers s ! current t s)"
  note d = soundD [OF s(1)] and r = running_not_ended [OF s(1) t]
  have pc: "pc_typed nT nF nC (mCounters s) ?pc" by (rule typed_native [OF d(1) r(1)])
  have nr: "\<nexists>ctx r. ?pc = Running ctx r" using ex by auto
  have step: "sched_step dbg P s s'" for P using run_fiber [OF s(2) _ t(2) ex] t d by simp
  have "typed nT nF nC s'" using exec_steps [OF d(1) s(2) d(7) t(1) pc nr r(2), of dbg] ex by (auto simp: steps_to_def)
  moreover have "fibers_inv s'" by (rule sched_step_inv [OF step d(2)])
  moreover have "ends_returned s'"
  proof (rule ends_step [OF s(1) t(1)])
    have f: "current t s < length (mFibers s)" using r d by simp
    have eff: "fiber_effect (current t s) s s' {#} {#} (refused_by s ?pc) (\<lambda>_. 0)"
      by (rule exec_effect [OF d(6) typed_pc_ok [OF pc] f refl ex])
    then show "length (mFibers s') = length (mFibers s)" by (simp add: fiber_effect_def)
    show "others_kept t s s'" by (rule exec_others [OF ex])
    show "tmodes s t \<noteq> Returned" using t by simp
    fix g assume g: "g < nF" "native (mFibers s' ! g) = Ended" "native (mFibers s ! g) \<noteq> Ended"
    then have "g = current t s" using eff by (auto simp: fiber_effect_def)
    then show "tmodes s' t = Returned \<and> current t s' = g" using exec_end [OF ex f refl r(2) pc] g by simp
  qed
  ultimately show ?thesis by (simp add: sound_def)
qed

lemma api_sound:
  assumes s: "sound nT nF nC s" "failed s = None" and t: "t < nT" "tmodes s t = OnFiber"
    and pc: "native (mFibers s ! current t s) = Running ctx r" and ex: "api_call dbg P t ctx call s = Some s'"
  shows "sound nT nF nC s'"
proof -
  note d = soundD [OF s(1)] and c = running_not_ended [OF s(1) t]
  have step: "sched_step dbg P s s'" using user_code [OF s(2) _ t(2) pc ex] t d by simp
  have "pc_typed nT nF nC (mCounters s) (Running ctx r)" using typed_native [OF d(1) c(1)] pc by simp
  then have "context_typed nC ctx" by simp
  from api_steps [OF d(1) s(2) t(1) c(1) this, of P call dbg] ex have "typed nT nF nC s'" by (auto simp: steps_to_def)
  moreover have "fibers_inv s'" by (rule sched_step_inv [OF step d(2)])
  moreover have "ends_returned s'"
  proof (cases "failed s' = None")
    case False
    then obtain e where "s' = s\<lparr>failed := e\<rparr>" using api_fail [OF ex s(2)] by blast
    then show ?thesis using d(3) by (simp add: ends_returned_def current_def)
  next
    case True
    have f: "current t s < length (mFibers s)" using c d by simp
    note eff = api_effect [OF f pc ex True]
    show ?thesis
    proof (rule ends_step [OF s(1) t(1)])
      show "length (mFibers s') = length (mFibers s)" using eff by (simp add: fiber_effect_def)
      show "others_kept t s s'" by (rule api_others [OF ex])
      show "tmodes s t \<noteq> Returned" using t by simp
      fix g assume g: "g < nF" "native (mFibers s' ! g) = Ended" "native (mFibers s ! g) \<noteq> Ended"
      then have "g = current t s" using eff by (auto simp: fiber_effect_def)
      then show "tmodes s' t = Returned \<and> current t s' = g" using api_end [OF ex f pc] g by simp
    qed
  qed
  ultimately show ?thesis by (simp add: sound_def)
qed

lemma set_native_running: "g < length (mFibers s) \<Longrightarrow> native (mFibers (set_native f (Running ctx r) s) ! g) = Ended \<Longrightarrow>
   native (mFibers s ! g) = Ended"
  by (cases "f = g") (simp_all add: set_native_def)

lemma thread_sound:
  assumes s: "sound nT nF nC s" "failed s = None" and t: "t < nT" "tmodes s t = Starting"
    and ex: "thread_start t s = Some s'"
  shows "sound nT nF nC s'"
proof -
  note d = soundD [OF s(1)]
  have step: "sched_step dbg P s s'" for dbg P using start_thread [OF s(2) _ t(2) ex] t d by simp
  have "typed nT nF nC s'" using thread_steps [OF d(1) s(2) d(2), of True t] ex by (simp add: steps_to_def)
  moreover have "fibers_inv s'" by (rule sched_step_inv [OF step d(2)])
  moreover have "ends_returned s'"
  proof -
    obtain r q where dq: "mpmc_dequeue (mIdleFibers s) = Some (r, q)"
      using ex by (auto simp: thread_start_def acquireFreeFiber_def split: option.splits)
    show ?thesis
    proof (cases r)
      case None
      then have s': "s' = s\<lparr>mIdleFibers := q\<rparr>" using ex dq by (simp add: thread_start_def acquireFreeFiber_def)
      show ?thesis using d(3) by (simp add: s' ends_returned_def current_def)
    next
      case (Some f)
      let ?r = "set_tls t ((s_tls s t)\<lparr>current_fiber_index := f\<rparr>) (s\<lparr>mIdleFibers := q, tmodes := (tmodes s)(t := OnFiber)\<rparr>)"
      have s': "s' = (if t = 0 then set_native (unat f) (Running (MainTask (main_task s)) NoResult) ?r else ?r)"
        using ex dq Some by (cases "t = 0") (auto simp: thread_start_def acquireFreeFiber_def Let_def)
      show ?thesis
      proof (rule ends_step [OF s(1) t(1)])
        show "others_kept t s s'" by (auto simp: s' others_kept_def set_tls_def set_native_def current_def)
        show "length (mFibers s') = length (mFibers s)" by (simp add: s' set_tls_def set_native_def)
        show "tmodes s t \<noteq> Returned" using t by simp
        fix g assume "g < nF" "native (mFibers s' ! g) = Ended" "native (mFibers s ! g) \<noteq> Ended"
        moreover have "mFibers ?r = mFibers s" by (simp add: set_tls_def)
        ultimately show "tmodes s' t = Returned \<and> current t s' = g"
          using set_native_running [of g ?r] d(5) by (auto simp: s' split: if_splits)
      qed
    qed
  qed
  ultimately show ?thesis by (simp add: sound_def)
qed

lemma step_sound: "sched_step dbg P s s' \<Longrightarrow> sound nT nF nC s \<Longrightarrow> sound nT nF nC s'"
proof (induction rule: sched_step.induct)
  case (start_thread s t s')
  then show ?case using thread_sound [of nT nF nC s t s'] by (simp add: soundD(4))
next
  case (run_fiber s t s')
  then show ?case using exec_sound [of nT nF nC s t dbg s'] by (simp add: soundD(4))
next
  case (user_code s t ctx r call s')
  then show ?case using api_sound [of nT nF nC s t ctx r dbg P call s'] by (simp add: soundD(4))
qed

lemma steps_sound: "(sched_step dbg P)\<^sup>*\<^sup>* s s' \<Longrightarrow> sound nT nF nC s \<Longrightarrow> sound nT nF nC s'"
  by (induction rule: rtranclp_induct) (auto intro: step_sound)

section \<open>Progress of a whole run\<close>

lemma unat_of_nat_le: "unat (of_nat i :: 'a::len word) \<le> i"
  by (simp add: unat_of_nat)

lemma default_typed: "counter_typed nT nF counter_default"
  by (simp add: counter_typed_def counter_shape_def counter_default_def slot_simps)

lemma start_sound:
  assumes rest: "at_rest fibers counters s0" and n: "threads < 2 ^ 32" "fibers < 2 ^ 32 - 1"
    and st: "sched_start threads fibers counters pool main s0 = Some a"
  shows "sound threads fibers counters a"
proof -
  have fresh: "fresh_queues fibers counters s0" and ok: "queues_ok s0" using rest by (simp_all add: at_rest_def)
  let ?s = "sched_arrays threads fibers counters pool main s0"
  have fields: "mFibers a = mFibers ?s" "mThreads a = mThreads ?s" "mCounters a = mCounters ?s" "s_tls a = s_tls ?s"
    using st by (auto simp: sched_start_def populate_def split: option.splits)
  have "queues_ok a" using start_kept [OF st] ok by (simp add: queues_kept_def)
  moreover have "mpmc_list (mTasks a) = []" "mpmc_list (mResumableFibers a) = []"
    using start_tasks_kept [OF st] rest by (simp_all add: at_rest_def)
  moreover have "mpmc_list (mFreeCounters a) = map of_nat [0..<counters]"
    using start_populated [OF fresh, of threads pool main] st by auto
  moreover have "unat (of_nat i :: counter_index_t) < counters" if "i < counters" for i
    using that unat_of_nat_le [where i = i and 'a = 16] by (meson order.strict_trans1)
  ultimately have "queue_typed (\<lambda>f. unat f < fibers) (mResumableFibers a)"
    "queue_typed (\<lambda>tk. unat (get_metadata tk) < counters) (mTasks a)"
    "queue_typed (\<lambda>c. unat c < counters) (mFreeCounters a)"
    by (auto simp: queue_typed_def queues_ok_def)
  moreover have "pinned_typed fibers \<lparr>pinned_resumable_fibers = fifo_new (replicate 32 0)\<rparr>"
    using fifo_new_ok [of "replicate 32 (0 :: fiber_index_t)"] by (simp add: pinned_typed_def)
  moreover have "unat (of_nat t :: thread_index_t) = t" if "t < threads" for t
    using that n(1) by (simp add: unat_of_nat take_bit_nat_eq_self)
  ultimately have "typed threads fibers counters a"
    by (simp add: typed_def fields sched_arrays_def default_typed fiber_created_def)
  moreover have "fibers_inv a" by (rule start_inv [OF st fresh n(2)])
  moreover have "ends_returned a" by (simp add: ends_returned_def fields sched_arrays_def fiber_created_def)
  ultimately show ?thesis by (simp add: sound_def)
qed

text \<open>What the next step of a thread is: there is one, and where an index is out of range user code has given it.\<close>

definition goes_on :: "'h sched option \<Rightarrow> bool \<Rightarrow> bool" where
  "goes_on r b \<longleftrightarrow> (\<exists>s'. r = Some s' \<and> (failed s' = Some OutOfRange \<longrightarrow> b))"

fun bad_handle :: "nat \<Rightarrow> fiber_pc \<Rightarrow> bool" where
  "bad_handle nC (InCounter j c k) \<longleftrightarrow> nC \<le> j"
| "bad_handle nC pc \<longleftrightarrow> False"

lemma steps_goes_on: "steps_to nT nF nC b r \<Longrightarrow> goes_on r b"
  by (auto simp: steps_to_def goes_on_def)

lemma sound_goes_on:
  assumes s: "sound nT nF nC s" "failed s = None" and t: "t < nT"
  shows "tmodes s t = Starting \<Longrightarrow> goes_on (thread_start t s) False"
    and "tmodes s t = OnFiber \<Longrightarrow> current t s < nF \<and> (case native (mFibers s ! current t s) of
      Running ctx r \<Rightarrow> (\<forall>call. goes_on (api_call dbg P t ctx call s) (releases_bad P nC call s))
    | pc \<Rightarrow> goes_on (exec_pc dbg t pc s) (bad_handle nC pc))"
proof -
  note d = soundD [OF s(1)]
  show "tmodes s t = Starting \<Longrightarrow> goes_on (thread_start t s) False"
    by (rule steps_goes_on [OF thread_steps [OF d(1) s(2) d(2)]])
  assume on: "tmodes s t = OnFiber"
  note c = running_not_ended [OF s(1) t on]
  let ?pc = "native (mFibers s ! current t s)"
  have pc: "pc_typed nT nF nC (mCounters s) ?pc" by (rule typed_native [OF d(1) c(1)])
  have api: "goes_on (api_call dbg P t ctx call s) (releases_bad P nC call s)" if "?pc = Running ctx r" for ctx r call
    using that pc steps_goes_on [OF api_steps [OF d(1) s(2) t c(1), of ctx P call dbg]] by simp
  have ex: "goes_on (exec_pc dbg t ?pc s) (bad_handle nC ?pc)" if "\<nexists>ctx r. ?pc = Running ctx r"
  proof -
    have "(\<exists>j c k. ?pc = InCounter j c k \<and> nC \<le> j) = bad_handle nC ?pc" by (cases ?pc) auto
    then show ?thesis using steps_goes_on [OF exec_steps [OF d(1) s(2) d(7) t pc that c(2), of dbg]] by simp
  qed
  show "current t s < nF \<and> (case ?pc of
      Running ctx r \<Rightarrow> (\<forall>call. goes_on (api_call dbg P t ctx call s) (releases_bad P nC call s))
    | pc \<Rightarrow> goes_on (exec_pc dbg t pc s) (bad_handle nC pc))"
    using c(1) api ex by (cases ?pc) auto
qed


lemma submitted_state:
  "case sched_run True sample_pool submit_actions (the (sched_start 2 4 2 [] sample_task sample_queues)) of
     None \<Rightarrow> False | Some b \<Rightarrow> failed b = None \<and> tmodes b 0 = OnFiber \<and> tmodes b 1 = Starting \<and>
       (case native (mFibers b ! current 0 b) of Running ctx r \<Rightarrow> True | _ \<Rightarrow> False)"
  by code_simp


end
