(* ===== verification/Native_Fibers.thy ===== *)
theory Native_Fibers
  imports Prelude
begin

text \<open>
  The fibers of native/fiber.hh on POSIX systems: \<open>create_fiber\<close> enters the stack of the new fiber once by
  \<open>swapcontext\<close>, and \<open>switch_to_fiber\<close> goes from stack to stack by \<open>_setjmp\<close> and \<open>_longjmp\<close> only. The model
  has the position of every stack, at the granularity of the library calls, and checks what they demand:
  that a jump goes to a frame that still exists and that no other thread runs on, and that a pointer to a local
  variable is followed only while the function of the variable runs. Coroutines are the specification.
\<close>

section \<open>State\<close>

text \<open>
  Fibers and the stacks they run on have the same numbers; a thread fiber has the stack of its thread. User
  code has positions of type \<open>'u\<close>, with which a call goes on at its return. The locals \<open>ctx\<close> and \<open>tmp\<close> of
  \<open>create_fiber\<close> are part of its frame: a pointer to them is the number of the stack of the frame, and good
  as long as the position \<open>CreateWait\<close>, with what they hold, is there.
\<close>

datatype 'u fpos =
    InUser 'u
  | SwitchSet nat nat 'u | SwitchJump nat 'u | SwitchDone 'u
  | CreateGet nat nat nat usize 'u | CreateStack nat nat nat usize 'u
  | CreateMake nat nat nat usize 'u | CreateSwap nat nat nat 'u
  | CreateWait nat nat nat 'u | CreateDone 'u
  | StartLoad nat | StartSet nat nat nat | StartSwap nat nat nat | StartParked nat nat | StartCall nat nat

text \<open>A \<open>ucontext_t\<close>: its stack, if the allocation succeeded, and the argument of \<open>fiber_start_fnc\<close>.\<close>

record fiber_context =
  ss_sp :: bool
  ss_size :: usize
  uc_arg :: "nat option"

definition no_context :: fiber_context where
  "no_context = \<lparr>ss_sp = False, ss_size = 0, uc_arg = None\<rparr>"

record 'u fstate =
  fib_ctx :: "nat \<Rightarrow> fiber_context"
  fib_jmp :: "nat \<Rightarrow> (nat \<times> 'u fpos) option"
  stack_pos :: "nat \<Rightarrow> 'u fpos option"
  on_stack :: "nat \<Rightarrow> nat"

datatype fiber_fault = JumpUnset | FrameGone | StackBusy | DeadLocal | NoStack

definition put_pos :: "nat \<Rightarrow> 'u fpos \<Rightarrow> 'u fstate \<Rightarrow> 'u fstate" where
  "put_pos g k s = s\<lparr>stack_pos := (stack_pos s)(g \<mapsto> k)\<rparr>"

text \<open>Another one of the \<open>n\<close> threads runs on stack \<open>h\<close>.\<close>

definition stack_busy :: "nat \<Rightarrow> 'u fstate \<Rightarrow> nat \<Rightarrow> nat \<Rightarrow> bool" where
  "stack_busy n s t h = list_ex (\<lambda>u. u \<noteq> t \<and> on_stack s u = h) [0..<n]"

text \<open>The frame that called \<open>_setjmp\<close>, to go on at \<open>k\<close>, is still the one the stack was left in.\<close>

fun frame_alive :: "'u fpos option \<Rightarrow> 'u fpos \<Rightarrow> bool" where
  "frame_alive (Some (SwitchJump f u)) k = (k = SwitchDone u)"
| "frame_alive (Some (StartParked fnc c)) k = (k = StartCall fnc c)"
| "frame_alive _ k = False"

section \<open>Operations\<close>

fun switch_to_fiber :: "nat \<Rightarrow> nat \<Rightarrow> 'u fpos \<Rightarrow> 'u fstate \<Rightarrow> fiber_fault + 'u fstate" where
  "switch_to_fiber n t (SwitchSet f prv u) s =
     (let g = on_stack s t
      in Inr (put_pos g (SwitchJump f u) (s\<lparr>fib_jmp := (fib_jmp s)(prv \<mapsto> (g, SwitchDone u))\<rparr>)))"
| "switch_to_fiber n t (SwitchJump f u) s =
     (case fib_jmp s f of
        None \<Rightarrow> Inl JumpUnset
      | Some (h, k) \<Rightarrow>
          if stack_busy n s t h then Inl StackBusy
          else if \<not> frame_alive (stack_pos s h) k then Inl FrameGone
          else Inr (put_pos h k (s\<lparr>on_stack := (on_stack s)(t := h)\<rparr>)))"
| "switch_to_fiber n t (SwitchDone u) s = Inr (put_pos (on_stack s t) (InUser u) s)"
| "switch_to_fiber n t _ s = Inr s"

text \<open>\<open>mem\<close> says whether an allocation of a size succeeds; its result is not checked.\<close>

fun create_fiber :: "(usize \<Rightarrow> bool) \<Rightarrow> nat \<Rightarrow> nat \<Rightarrow> 'u fpos \<Rightarrow> 'u fstate \<Rightarrow> fiber_fault + 'u fstate" where
  "create_fiber mem n t (CreateGet f fnc c sz u) s =
     Inr (put_pos (on_stack s t) (CreateStack f fnc c sz u) (s\<lparr>fib_ctx := (fib_ctx s)(f := no_context)\<rparr>))"
| "create_fiber mem n t (CreateStack f fnc c sz u) s =
     Inr (put_pos (on_stack s t) (CreateMake f fnc c sz u)
       (s\<lparr>fib_ctx := (fib_ctx s)(f := (fib_ctx s f)\<lparr>ss_sp := mem sz, ss_size := sz\<rparr>)\<rparr>))"
| "create_fiber mem n t (CreateMake f fnc c sz u) s =
     (let g = on_stack s t
      in Inr (put_pos g (CreateSwap f fnc c u)
           (s\<lparr>fib_ctx := (fib_ctx s)(f := (fib_ctx s f)\<lparr>uc_arg := Some g\<rparr>)\<rparr>)))"
| "create_fiber mem n t (CreateSwap f fnc c u) s =
     (case uc_arg (fib_ctx s f) of
        None \<Rightarrow> Inl JumpUnset
      | Some p \<Rightarrow>
          if \<not> ss_sp (fib_ctx s f) then Inl NoStack
          else if stack_busy n s t f then Inl StackBusy
          else Inr (put_pos f (StartLoad p) (put_pos (on_stack s t) (CreateWait f fnc c u)
                 (s\<lparr>on_stack := (on_stack s)(t := f)\<rparr>))))"
| "create_fiber mem n t (CreateDone u) s = Inr (put_pos (on_stack s t) (InUser u) s)"
| "create_fiber mem n t _ s = Inr s"

text \<open>
  \<open>fiber_start_fnc\<close>: it reads the locals of \<open>create_fiber\<close>, sets the jump and swaps back; when it is jumped
  to, it calls the user's function, whose first position is \<open>entry fnc c\<close>.
\<close>

fun fiber_start_fnc :: "(nat \<Rightarrow> nat \<Rightarrow> 'u) \<Rightarrow> nat \<Rightarrow> nat \<Rightarrow> 'u fpos \<Rightarrow> 'u fstate \<Rightarrow> fiber_fault + 'u fstate" where
  "fiber_start_fnc entry n t (StartLoad p) s =
     (case stack_pos s p of
        Some (CreateWait f fnc c u) \<Rightarrow> Inr (put_pos (on_stack s t) (StartSet fnc c p) s)
      | _ \<Rightarrow> Inl DeadLocal)"
| "fiber_start_fnc entry n t (StartSet fnc c p) s =
     (case stack_pos s p of
        Some (CreateWait f fnc' c' u) \<Rightarrow>
          (let g = on_stack s t
           in Inr (put_pos g (StartSwap fnc c p) (s\<lparr>fib_jmp := (fib_jmp s)(f \<mapsto> (g, StartCall fnc c))\<rparr>)))
      | _ \<Rightarrow> Inl DeadLocal)"
| "fiber_start_fnc entry n t (StartSwap fnc c p) s =
     (case stack_pos s p of
        Some (CreateWait f fnc' c' u) \<Rightarrow>
          if stack_busy n s t p then Inl StackBusy
          else Inr (put_pos p (CreateDone u) (put_pos (on_stack s t) (StartParked fnc c)
                 (s\<lparr>on_stack := (on_stack s)(t := p)\<rparr>)))
      | _ \<Rightarrow> Inl DeadLocal)"
| "fiber_start_fnc entry n t (StartCall fnc c) s = Inr (put_pos (on_stack s t) (InUser (entry fnc c)) s)"
| "fiber_start_fnc entry n t _ s = Inr s"

text \<open>One step of a thread inside of the library.\<close>

fun fiber_exec ::
  "(usize \<Rightarrow> bool) \<Rightarrow> (nat \<Rightarrow> nat \<Rightarrow> 'u) \<Rightarrow> nat \<Rightarrow> nat \<Rightarrow> 'u fpos \<Rightarrow> 'u fstate \<Rightarrow> fiber_fault + 'u fstate" where
  "fiber_exec mem entry n t (SwitchSet f prv u) s = switch_to_fiber n t (SwitchSet f prv u) s"
| "fiber_exec mem entry n t (SwitchJump f u) s = switch_to_fiber n t (SwitchJump f u) s"
| "fiber_exec mem entry n t (SwitchDone u) s = switch_to_fiber n t (SwitchDone u) s"
| "fiber_exec mem entry n t (CreateGet f fnc c sz u) s = create_fiber mem n t (CreateGet f fnc c sz u) s"
| "fiber_exec mem entry n t (CreateStack f fnc c sz u) s = create_fiber mem n t (CreateStack f fnc c sz u) s"
| "fiber_exec mem entry n t (CreateMake f fnc c sz u) s = create_fiber mem n t (CreateMake f fnc c sz u) s"
| "fiber_exec mem entry n t (CreateSwap f fnc c u) s = create_fiber mem n t (CreateSwap f fnc c u) s"
| "fiber_exec mem entry n t (CreateDone u) s = create_fiber mem n t (CreateDone u) s"
| "fiber_exec mem entry n t k s = fiber_start_fnc entry n t k s"

text \<open>The functions of one call: the memory of a main fiber is cleared, the stack of another one is freed.\<close>

definition create_main_fiber :: "nat \<Rightarrow> 'u fstate \<Rightarrow> 'u fstate" where
  "create_main_fiber f s = s\<lparr>fib_ctx := (fib_ctx s)(f := no_context), fib_jmp := (fib_jmp s)(f := None)\<rparr>"

definition delete_fiber :: "nat \<Rightarrow> 'u fstate \<Rightarrow> 'u fstate" where
  "delete_fiber f s = s\<lparr>stack_pos := (stack_pos s)(f := None)\<rparr>"

declare create_main_fiber_def [simp] delete_fiber_def [simp]

text \<open>
  The calls of user code, with the position it goes on with. The function of a fiber does not return: its
  context has no successor, and the thread would end.
\<close>

datatype fiber_act = ActSwitch nat nat | ActCreate nat nat nat usize | ActDelete nat | ActMain nat | ActWork

fun fiber_call :: "nat \<Rightarrow> 'u \<Rightarrow> fiber_act \<Rightarrow> 'u fstate \<Rightarrow> 'u fstate" where
  "fiber_call t u (ActSwitch f prv) s = put_pos (on_stack s t) (SwitchSet f prv u) s"
| "fiber_call t u (ActCreate f fnc c sz) s = put_pos (on_stack s t) (CreateGet f fnc c sz u) s"
| "fiber_call t u (ActDelete f) s = put_pos (on_stack s t) (InUser u) (delete_fiber f s)"
| "fiber_call t u (ActMain f) s = put_pos (on_stack s t) (InUser u) (create_main_fiber f s)"
| "fiber_call t u ActWork s = put_pos (on_stack s t) (InUser u) s"

section \<open>Coroutines\<close>

text \<open>
  The specification: the position every existing fiber goes on with, the fiber of every thread, and what a
  thread is about to do. A call has two steps: at its start a thread claims the other fiber, at its end the
  call takes effect. User code may only claim a fiber that nobody
  runs or claims, and only delete one that is not the fiber of a thread.
\<close>

datatype claim = NoClaim | Switching nat | Creating nat nat nat

record 'u coroutines =
  c_pos :: "nat \<Rightarrow> 'u option"
  c_run :: "nat \<Rightarrow> nat"
  c_claim :: "nat \<Rightarrow> claim"

fun claimed :: "claim \<Rightarrow> nat option" where
  "claimed NoClaim = None" | "claimed (Switching f) = Some f" | "claimed (Creating f fnc c) = Some f"

definition c_free :: "nat \<Rightarrow> 'u coroutines \<Rightarrow> nat \<Rightarrow> bool" where
  "c_free n A f \<longleftrightarrow> list_all (\<lambda>t. c_run A t \<noteq> f \<and> claimed (c_claim A t) \<noteq> Some f) [0..<n]"

lemma c_free_iff: "c_free n A f \<longleftrightarrow> (\<forall>t < n. c_run A t \<noteq> f \<and> claimed (c_claim A t) \<noteq> Some f)"
  by (auto simp: c_free_def list_all_iff)

fun c_allows :: "nat \<Rightarrow> 'u coroutines \<Rightarrow> nat \<Rightarrow> fiber_act \<Rightarrow> bool" where
  "c_allows n A t (ActSwitch f prv) \<longleftrightarrow> prv = c_run A t \<and> (f = prv \<or> c_pos A f \<noteq> None \<and> c_free n A f)"
| "c_allows n A t (ActCreate f fnc c sz) \<longleftrightarrow> c_pos A f = None \<and> c_free n A f"
| "c_allows n A t (ActDelete f) \<longleftrightarrow> n \<le> f \<and> c_pos A f \<noteq> None \<and> c_free n A f"
| "c_allows n A t (ActMain f) \<longleftrightarrow> f = c_run A t"
| "c_allows n A t ActWork \<longleftrightarrow> True"

fun c_starts :: "nat \<Rightarrow> 'u \<Rightarrow> fiber_act \<Rightarrow> 'u coroutines \<Rightarrow> 'u coroutines" where
  "c_starts t u (ActSwitch f prv) A = A\<lparr>c_pos := (c_pos A)(c_run A t \<mapsto> u), c_claim := (c_claim A)(t := Switching f)\<rparr>"
| "c_starts t u (ActCreate f fnc c sz) A =
     A\<lparr>c_pos := (c_pos A)(c_run A t \<mapsto> u), c_claim := (c_claim A)(t := Creating f fnc c)\<rparr>"
| "c_starts t u (ActDelete f) A = A\<lparr>c_pos := (c_pos A)(f := None, c_run A t \<mapsto> u)\<rparr>"
| "c_starts t u _ A = A\<lparr>c_pos := (c_pos A)(c_run A t \<mapsto> u)\<rparr>"

fun c_ends :: "(nat \<Rightarrow> nat \<Rightarrow> 'u) \<Rightarrow> nat \<Rightarrow> claim \<Rightarrow> 'u coroutines \<Rightarrow> 'u coroutines" where
  "c_ends entry t NoClaim A = A"
| "c_ends entry t (Switching f) A = A\<lparr>c_run := (c_run A)(t := f), c_claim := (c_claim A)(t := NoClaim)\<rparr>"
| "c_ends entry t (Creating f fnc c) A =
     A\<lparr>c_pos := (c_pos A)(f \<mapsto> entry fnc c), c_claim := (c_claim A)(t := NoClaim)\<rparr>"

inductive co_step :: "(nat \<Rightarrow> nat \<Rightarrow> 'u) \<Rightarrow> nat \<Rightarrow> 'u coroutines \<Rightarrow> 'u coroutines \<Rightarrow> bool" for entry n where
  co_call: "t < n \<Longrightarrow> c_claim A t = NoClaim \<Longrightarrow> c_allows n A t a \<Longrightarrow> co_step entry n A (c_starts t u a A)"
| co_end: "t < n \<Longrightarrow> c_claim A t \<noteq> NoClaim \<Longrightarrow> co_step entry n A (c_ends entry t (c_claim A t) A)"

section \<open>Abstraction\<close>

fun user_pos :: "(nat \<Rightarrow> nat \<Rightarrow> 'u) \<Rightarrow> 'u fpos \<Rightarrow> 'u option" where
  "user_pos entry (InUser u) = Some u"
| "user_pos entry (SwitchSet f prv u) = Some u"
| "user_pos entry (SwitchJump f u) = Some u"
| "user_pos entry (SwitchDone u) = Some u"
| "user_pos entry (CreateGet f fnc c sz u) = Some u"
| "user_pos entry (CreateStack f fnc c sz u) = Some u"
| "user_pos entry (CreateMake f fnc c sz u) = Some u"
| "user_pos entry (CreateSwap f fnc c u) = Some u"
| "user_pos entry (CreateWait f fnc c u) = Some u"
| "user_pos entry (CreateDone u) = Some u"
| "user_pos entry (StartParked fnc c) = Some (entry fnc c)"
| "user_pos entry (StartCall fnc c) = Some (entry fnc c)"
| "user_pos entry _ = None"

text \<open>The stack of \<open>create_fiber\<close> while its thread is on that of the new fiber, and the call it waits in.\<close>

fun creator :: "'u fpos \<Rightarrow> nat option" where
  "creator (StartLoad p) = Some p" | "creator (StartSet fnc c p) = Some p"
| "creator (StartSwap fnc c p) = Some p" | "creator _ = None"

fun claim_of :: "'u fpos \<Rightarrow> claim" where
  "claim_of (SwitchSet f prv u) = Switching f"
| "claim_of (SwitchJump f u) = Switching f"
| "claim_of (CreateGet f fnc c sz u) = Creating f fnc c"
| "claim_of (CreateStack f fnc c sz u) = Creating f fnc c"
| "claim_of (CreateMake f fnc c sz u) = Creating f fnc c"
| "claim_of (CreateSwap f fnc c u) = Creating f fnc c"
| "claim_of (CreateWait f fnc c u) = Creating f fnc c"
| "claim_of _ = NoClaim"

definition pos_of :: "'u fstate \<Rightarrow> nat \<Rightarrow> 'u fpos" where
  "pos_of s t = the (stack_pos s (on_stack s t))"

definition base :: "'u fstate \<Rightarrow> nat \<Rightarrow> nat" where
  "base s t = (case creator (pos_of s t) of None \<Rightarrow> on_stack s t | Some p \<Rightarrow> p)"

definition user_at :: "(nat \<Rightarrow> nat \<Rightarrow> 'u) \<Rightarrow> 'u fstate \<Rightarrow> nat \<Rightarrow> 'u option" where
  "user_at entry s g = (case stack_pos s g of None \<Rightarrow> None | Some k \<Rightarrow> user_pos entry k)"

definition claim_at :: "'u fstate \<Rightarrow> nat \<Rightarrow> claim" where
  "claim_at s t = claim_of (the (stack_pos s (base s t)))"

definition coroutines_of :: "(nat \<Rightarrow> nat \<Rightarrow> 'u) \<Rightarrow> nat \<Rightarrow> 'u fstate \<Rightarrow> 'u coroutines" where
  "coroutines_of entry n s =
     \<lparr>c_pos = user_at entry s, c_run = (\<lambda>t. if t < n then base s t else 0),
      c_claim = (\<lambda>t. if t < n then claim_at s t else NoClaim)\<rparr>"

section \<open>Runs\<close>

text \<open>User code follows the rules of the specification.\<close>

inductive fiber_step ::
  "(usize \<Rightarrow> bool) \<Rightarrow> (nat \<Rightarrow> nat \<Rightarrow> 'u) \<Rightarrow> nat \<Rightarrow> 'u fstate \<Rightarrow> 'u fstate \<Rightarrow> bool" for mem entry n where
  user_calls: "t < n \<Longrightarrow> stack_pos s (on_stack s t) = Some (InUser u) \<Longrightarrow>
    c_allows n (coroutines_of entry n s) t a \<Longrightarrow> fiber_step mem entry n s (fiber_call t u' a s)"
| library: "t < n \<Longrightarrow> stack_pos s (on_stack s t) = Some k \<Longrightarrow> \<nexists>u. k = InUser u \<Longrightarrow>
    fiber_exec mem entry n t k s = Inr s' \<Longrightarrow> fiber_step mem entry n s s'"

text \<open>Before the first call thread \<open>t\<close> is in user code on its own stack.\<close>

definition only_threads :: "(nat \<Rightarrow> 'u) \<Rightarrow> nat \<Rightarrow> 'u fstate" where
  "only_threads start n = \<lparr>fib_ctx = (\<lambda>_. no_context), fib_jmp = (\<lambda>_. None),
     stack_pos = (\<lambda>g. if g < n then Some (InUser (start g)) else None), on_stack = (\<lambda>t. t)\<rparr>"

section \<open>Invariant\<close>

fun partner :: "'u fpos \<Rightarrow> nat option" where
  "partner (SwitchSet f prv u) = Some f" | "partner (SwitchJump f u) = Some f"
| "partner (CreateGet f fnc c sz u) = Some f" | "partner (CreateStack f fnc c sz u) = Some f"
| "partner (CreateMake f fnc c sz u) = Some f" | "partner (CreateSwap f fnc c u) = Some f"
| "partner (StartLoad p) = Some p" | "partner (StartSet fnc c p) = Some p" | "partner (StartSwap fnc c p) = Some p"
| "partner _ = None"

text \<open>The stacks a thread has to itself.\<close>

definition holds :: "'u fstate \<Rightarrow> nat \<Rightarrow> nat set" where
  "holds s t = insert (on_stack s t) (set_option (partner (pos_of s t)))"

text \<open>A stack that was left in a frame its jump goes back to.\<close>

definition parked_stack :: "'u fstate \<Rightarrow> nat \<Rightarrow> bool" where
  "parked_stack s h \<longleftrightarrow> (\<exists>k. fib_jmp s h = Some (h, k) \<and> frame_alive (stack_pos s h) k)"

fun pos_good :: "(usize \<Rightarrow> bool) \<Rightarrow> 'u fstate \<Rightarrow> nat \<Rightarrow> 'u fpos \<Rightarrow> bool" where
  "pos_good mem s g (SwitchSet f prv u) \<longleftrightarrow> prv = g \<and> (f = g \<or> parked_stack s f)"
| "pos_good mem s g (SwitchJump f u) \<longleftrightarrow> fib_jmp s g = Some (g, SwitchDone u) \<and> (f = g \<or> parked_stack s f)"
| "pos_good mem s g (CreateGet f fnc c sz u) \<longleftrightarrow> stack_pos s f = None"
| "pos_good mem s g (CreateStack f fnc c sz u) \<longleftrightarrow> stack_pos s f = None \<and> fib_ctx s f = no_context"
| "pos_good mem s g (CreateMake f fnc c sz u) \<longleftrightarrow> stack_pos s f = None \<and> fib_ctx s f = \<lparr>ss_sp = mem sz, ss_size = sz, uc_arg = None\<rparr>"
| "pos_good mem s g (CreateSwap f fnc c u) \<longleftrightarrow> stack_pos s f = None \<and>
     (\<exists>sz. fib_ctx s f = \<lparr>ss_sp = mem sz, ss_size = sz, uc_arg = Some g\<rparr>)"
| "pos_good mem s g (StartLoad p) \<longleftrightarrow> (\<exists>fnc c u. stack_pos s p = Some (CreateWait g fnc c u))"
| "pos_good mem s g (StartSet fnc c p) \<longleftrightarrow> (\<exists>u. stack_pos s p = Some (CreateWait g fnc c u))"
| "pos_good mem s g (StartSwap fnc c p) \<longleftrightarrow>
     (\<exists>u. stack_pos s p = Some (CreateWait g fnc c u)) \<and> fib_jmp s g = Some (g, StartCall fnc c)"
| "pos_good mem s g (CreateWait f fnc c u) \<longleftrightarrow> False"
| "pos_good mem s g (StartParked fnc c) \<longleftrightarrow> False"
| "pos_good mem s g k \<longleftrightarrow> True"

definition runs_well :: "(usize \<Rightarrow> bool) \<Rightarrow> 'u fstate \<Rightarrow> nat \<Rightarrow> bool" where
  "runs_well mem s t \<longleftrightarrow> (\<exists>k. stack_pos s (on_stack s t) = Some k \<and> pos_good mem s (on_stack s t) k)"

definition stacks_inv :: "(usize \<Rightarrow> bool) \<Rightarrow> nat \<Rightarrow> 'u fstate \<Rightarrow> bool" where
  "stacks_inv mem n s \<longleftrightarrow> (\<forall>t < n. runs_well mem s t) \<and>
     (\<forall>t < n. \<forall>u < n. t \<noteq> u \<longrightarrow> holds s t \<inter> holds s u = {}) \<and>
     (\<forall>h. stack_pos s h \<noteq> None \<longrightarrow> parked_stack s h \<or> (\<exists>t < n. h = on_stack s t \<or> h = base s t))"

lemma base_held: "base s t \<in> holds s t"
  by (cases "pos_of s t") (simp_all add: base_def holds_def)

lemma claim_held:
  assumes "runs_well mem s t"
  shows "claimed (claim_at s t) = Some f \<Longrightarrow> f \<in> holds s t"
proof -
  obtain k where "stack_pos s (on_stack s t) = Some k" "pos_good mem s (on_stack s t) k" using assms by (auto simp: runs_well_def)
  then show "claimed (claim_at s t) = Some f \<Longrightarrow> f \<in> holds s t"
    by (cases k) (auto simp: claim_at_def base_def pos_of_def holds_def)
qed

text \<open>A step of thread \<open>t\<close> changes the stacks it holds, and others of \<open>F\<close> that no thread holds.\<close>

definition step_frame :: "nat \<Rightarrow> nat \<Rightarrow> nat set \<Rightarrow> 'u fstate \<Rightarrow> 'u fstate \<Rightarrow> bool" where
  "step_frame n t F s s' \<longleftrightarrow> (\<forall>u < n. u \<noteq> t \<longrightarrow> holds s u \<inter> F = {}) \<and>
     (\<forall>u. u \<noteq> t \<longrightarrow> on_stack s' u = on_stack s u) \<and>
     (\<forall>h. h \<notin> holds s t \<union> F \<longrightarrow> stack_pos s' h = stack_pos s h \<and> fib_jmp s' h = fib_jmp s h \<and> fib_ctx s' h = fib_ctx s h) \<and>
     holds s' t \<subseteq> holds s t \<union> F"

lemma frame_others:
  assumes inv: "stacks_inv mem n s" and t: "t < n" and fr: "step_frame n t F s s'" and u: "u < n" "u \<noteq> t"
  shows "holds s' u = holds s u" "base s' u = base s u" "claim_at s' u = claim_at s u" "runs_well mem s' u"
    "holds s u \<inter> (holds s t \<union> F) = {}"
proof -
  show d: "holds s u \<inter> (holds s t \<union> F) = {}"
    using inv t fr u unfolding stacks_inv_def step_frame_def by blast
  have same: "stack_pos s' h = stack_pos s h \<and> fib_jmp s' h = fib_jmp s h \<and> fib_ctx s' h = fib_ctx s h" if "h \<in> holds s u" for h
    using fr d that by (auto simp: step_frame_def)
  have on: "on_stack s' u = on_stack s u" using fr u by (simp add: step_frame_def)
  have "on_stack s u \<in> holds s u" by (simp add: holds_def)
  note here = same [OF this]
  then have p: "pos_of s' u = pos_of s u" by (simp add: pos_of_def on)
  then show "holds s' u = holds s u" "base s' u = base s u" by (auto simp: holds_def base_def on split: option.split)
  then show "claim_at s' u = claim_at s u" using same [OF base_held] by (simp add: claim_at_def)
  have "runs_well mem s u" using inv u by (simp add: stacks_inv_def)
  then obtain k where k: "stack_pos s (on_stack s u) = Some k" "pos_good mem s (on_stack s u) k" by (auto simp: runs_well_def)
  then have "\<And>f. partner k = Some f \<Longrightarrow> f \<in> holds s u" by (simp add: holds_def pos_of_def)
  then have "pos_good mem s' (on_stack s u) k" using k(2) here same by (cases k) (auto simp: parked_stack_def)
  then show "runs_well mem s' u" using k(1) here on by (simp add: runs_well_def)
qed

lemma inv_frame:
  assumes inv: "stacks_inv mem n s" and t: "t < n" and fr: "step_frame n t F s s'" and good: "runs_well mem s' t"
    and rest: "\<And>h. h \<in> holds s t \<union> F \<Longrightarrow> stack_pos s' h \<noteq> None \<Longrightarrow>
      parked_stack s' h \<or> h = on_stack s' t \<or> h = base s' t"
  shows "stacks_inv mem n s'"
proof -
  note other = frame_others [OF inv t fr]
  have "runs_well mem s' u" if "u < n" for u using other(4) good that by (cases "u = t") simp_all
  moreover have "holds s' u \<inter> holds s' v = {}" if "u < n" "v < n" "u \<noteq> v" for u v
  proof -
    have sub: "holds s' t \<subseteq> holds s t \<union> F" using fr by (simp add: step_frame_def)
    consider "u = t" | "v = t" | "u \<noteq> t" "v \<noteq> t" by blast
    then show ?thesis
    proof cases
      case 1
      then show ?thesis using other(1,5) [of v] sub that by auto
    next
      case 2
      then show ?thesis using other(1,5) [of u] sub that by auto
    next
      case 3
      then show ?thesis using other(1) [of u] other(1) [of v] inv that by (simp add: stacks_inv_def)
    qed
  qed
  moreover have "parked_stack s' h \<or> (\<exists>u < n. h = on_stack s' u \<or> h = base s' u)" if h: "stack_pos s' h \<noteq> None" for h
  proof (cases "h \<in> holds s t \<union> F")
    case True
    then show ?thesis using rest h t by blast
  next
    case False
    then have same: "stack_pos s' h = stack_pos s h" "fib_jmp s' h = fib_jmp s h" using fr by (simp_all add: step_frame_def)
    with inv h have "parked_stack s h \<or> (\<exists>u < n. h = on_stack s u \<or> h = base s u)" by (simp add: stacks_inv_def)
    then consider "parked_stack s h" | u where "u < n" "h = on_stack s u \<or> h = base s u" by blast
    then show ?thesis
    proof cases
      case 1
      then show ?thesis using same by (simp add: parked_stack_def)
    next
      case 2
      have "u \<noteq> t" using 2 False base_held [of s t] by (auto simp: holds_def)
      then show ?thesis using 2 other(2) [of u] fr by (auto simp: step_frame_def)
    qed
  qed
  ultimately show ?thesis unfolding stacks_inv_def by blast
qed

lemma abs_frame:
  assumes inv: "stacks_inv mem n s" and t: "t < n" and fr: "step_frame n t F s s'"
    and pos: "\<And>h. h \<in> holds s t \<union> F \<Longrightarrow> user_at entry s' h = c_pos A h"
      "\<And>h. h \<notin> holds s t \<union> F \<Longrightarrow> c_pos A h = user_at entry s h"
    and run: "c_run A = (c_run (coroutines_of entry n s))(t := base s' t)"
    and claim: "c_claim A = (c_claim (coroutines_of entry n s))(t := claim_at s' t)"
  shows "coroutines_of entry n s' = A"
proof (rule coroutines.equality)
  note other = frame_others [OF inv t fr]
  have "user_at entry s' h = c_pos A h" for h
    using pos [of h] fr by (cases "h \<in> holds s t \<union> F") (auto simp: step_frame_def user_at_def)
  then show "c_pos (coroutines_of entry n s') = c_pos A" by (auto simp: coroutines_of_def)
  show "c_run (coroutines_of entry n s') = c_run A" unfolding run using t other(2) by (auto simp: coroutines_of_def)
  show "c_claim (coroutines_of entry n s') = c_claim A" unfolding claim using t other(3) by (auto simp: coroutines_of_def)
qed simp

section \<open>Steps of the library\<close>

text \<open>A step that stays on its stack \<open>g\<close>.\<close>

lemma local_step:
  assumes inv: "stacks_inv mem n s" and t: "t < n" and k: "stack_pos s (on_stack s t) = Some k"
    and s': "s' = put_pos (on_stack s t) k' (s\<lparr>fib_ctx := cx, fib_jmp := jm\<rparr>)"
    and same: "\<And>h. h \<notin> holds s t \<Longrightarrow> cx h = fib_ctx s h \<and> jm h = fib_jmp s h"
    and keeps: "set_option (partner k') \<subseteq> holds s t" "creator k' = creator k"
    and good: "pos_good mem s' (on_stack s t) k'"
    and rest: "\<And>h. partner k = Some h \<Longrightarrow> h \<noteq> on_stack s t \<Longrightarrow> stack_pos s h \<noteq> None \<Longrightarrow> creator k \<noteq> Some h \<Longrightarrow> parked_stack s' h"
    and abs: "user_pos entry k' = user_pos entry k" "creator k = None \<Longrightarrow> claim_of k' = claim_of k"
  shows "stacks_inv mem n s' \<and> coroutines_of entry n s' = coroutines_of entry n s"
proof -
  let ?g = "on_stack s t"
  have g: "on_stack s' = on_stack s" "stack_pos s' = (stack_pos s)(?g \<mapsto> k')" by (simp_all add: s' put_pos_def)
  have fr: "step_frame n t {} s s'"
    using same keeps(1) by (auto simp: step_frame_def s' put_pos_def holds_def pos_of_def)
  have b: "base s' t = base s t" using k keeps(2) by (auto simp: base_def pos_of_def g split: option.split)
  have bg: "base s t = ?g" if "creator k = None" using that k by (simp add: base_def pos_of_def)
  have bp: "base s t = p \<and> partner k = Some p" if "creator k = Some p" for p
    using that k by (cases k) (simp_all add: base_def pos_of_def)
  have "stacks_inv mem n s'"
  proof (rule inv_frame [OF inv t fr])
    show "runs_well mem s' t" using good by (simp add: runs_well_def g)
    fix h assume "h \<in> holds s t \<union> {}" "stack_pos s' h \<noteq> None"
    then show "parked_stack s' h \<or> h = on_stack s' t \<or> h = base s' t"
      using rest [of h] k bp [of h] unfolding b by (cases "h = ?g") (auto simp: holds_def pos_of_def g)
  qed
  moreover have "coroutines_of entry n s' = coroutines_of entry n s"
  proof (rule abs_frame [OF inv t fr])
    show "user_at entry s' h = c_pos (coroutines_of entry n s) h" for h
      using k abs(1) by (simp add: coroutines_of_def user_at_def g)
    show "c_run (coroutines_of entry n s) = (c_run (coroutines_of entry n s))(t := base s' t)"
      using t b by (auto simp: coroutines_of_def)
    have "claim_at s' t = claim_at s t"
    proof (cases "creator k")
      case None
      then show ?thesis using k abs(2) by (simp add: claim_at_def b bg g)
    next
      case (Some p)
      have "p \<noteq> ?g"
      proof
        assume "p = ?g"
        moreover have "runs_well mem s t" using inv t by (simp add: stacks_inv_def)
        ultimately show False using k Some by (cases k) (auto simp: runs_well_def)
      qed
      then show ?thesis using bp [OF Some] by (simp add: claim_at_def b g)
    qed
    then show "c_claim (coroutines_of entry n s) = (c_claim (coroutines_of entry n s))(t := claim_at s' t)"
      using t by (auto simp: coroutines_of_def)
  qed (simp add: coroutines_of_def)
  ultimately show ?thesis by blast
qed

lemma not_busy:
  assumes "stacks_inv mem n s" and "t < n" and "h \<in> holds s t"
  shows "\<not> stack_busy n s t h"
proof -
  have "on_stack s u \<noteq> h" if "u < n" "u \<noteq> t" for u
  proof
    assume "on_stack s u = h"
    then have "h \<in> holds s u" by (simp add: holds_def)
    moreover have "holds s t \<inter> holds s u = {}" using assms(1,2) that unfolding stacks_inv_def by blast
    ultimately show False using assms(3) by blast
  qed
  then show ?thesis unfolding stack_busy_def list_ex_iff by (metis atLeastLessThan_iff set_upt)
qed

text \<open>A step to another stack, or to the start of the jump on the same one.\<close>

lemma moving_step:
  assumes inv: "stacks_inv mem n s" and t: "t < n"
    and out: "\<And>h. h \<notin> holds s t \<Longrightarrow> stack_pos s' h = stack_pos s h"
    and s': "fib_jmp s' = fib_jmp s" "fib_ctx s' = fib_ctx s" "on_stack s' = (on_stack s)(t := h)"
    and h: "stack_pos s' h = Some k" "pos_good mem s' h k"
    and keeps: "h \<in> holds s t" "set_option (partner k) \<subseteq> holds s t"
    and rest: "\<And>g. g \<in> holds s t \<Longrightarrow> g \<noteq> h \<Longrightarrow> stack_pos s' g \<noteq> None \<Longrightarrow> creator k \<noteq> Some g \<Longrightarrow> parked_stack s' g"
    and abs: "\<And>g. g \<in> holds s t \<Longrightarrow> user_at entry s' g = c_pos A g"
      "\<And>g. g \<notin> holds s t \<Longrightarrow> c_pos A g = user_at entry s g"
    and run: "c_run A = (c_run (coroutines_of entry n s))(t := case creator k of None \<Rightarrow> h | Some p \<Rightarrow> p)"
    and claim: "c_claim A = (c_claim (coroutines_of entry n s))(t := case creator k of
      None \<Rightarrow> claim_of k | Some p \<Rightarrow> claim_of (the (stack_pos s' p)))"
  shows "stacks_inv mem n s' \<and> coroutines_of entry n s' = A"
proof -
  have p: "pos_of s' t = k" "on_stack s' t = h" using s' h by (simp_all add: pos_of_def)
  have fr: "step_frame n t {} s s'"
    using out s' keeps by (auto simp: step_frame_def holds_def [of s'] p)
  have b: "base s' t = (case creator k of None \<Rightarrow> h | Some p \<Rightarrow> p)" by (simp add: base_def p split: option.split)
  have "stacks_inv mem n s'"
  proof (rule inv_frame [OF inv t fr])
    show "runs_well mem s' t" using h p by (simp add: runs_well_def)
    fix g assume "g \<in> holds s t \<union> {}" "stack_pos s' g \<noteq> None"
    then show "parked_stack s' g \<or> g = on_stack s' t \<or> g = base s' t"
      using rest [of g] p b by (cases "creator k") auto
  qed
  moreover have "coroutines_of entry n s' = A"
  proof (rule abs_frame [OF inv t fr])
    have "claim_at s' t = (case creator k of None \<Rightarrow> claim_of k | Some p \<Rightarrow> claim_of (the (stack_pos s' p)))"
      using h by (simp add: claim_at_def b split: option.split)
    then show "c_claim A = (c_claim (coroutines_of entry n s))(t := claim_at s' t)" using claim by simp
  qed (use abs run b in simp_all)
  ultimately show ?thesis by blast
qed

definition progresses :: "(usize \<Rightarrow> bool) \<Rightarrow> (nat \<Rightarrow> nat \<Rightarrow> 'u) \<Rightarrow> nat \<Rightarrow> 'u fstate \<Rightarrow> fiber_fault + 'u fstate \<Rightarrow> bool" where
  "progresses mem entry n s r \<longleftrightarrow> (case r of
       Inl e \<Rightarrow> e = NoStack \<and> (\<exists>sz. \<not> mem sz)
     | Inr s' \<Rightarrow> stacks_inv mem n s' \<and>
         (coroutines_of entry n s' = coroutines_of entry n s \<or>
          co_step entry n (coroutines_of entry n s) (coroutines_of entry n s')))"

lemma abs_simps:
  "c_pos (coroutines_of entry n s) = user_at entry s"
  "t < n \<Longrightarrow> c_run (coroutines_of entry n s) t = base s t"
  "t < n \<Longrightarrow> c_claim (coroutines_of entry n s) t = claim_at s t"
  by (simp_all add: coroutines_of_def)

lemma jump_ok:
  assumes inv: "stacks_inv mem n s" and t: "t < n" and k: "stack_pos s (on_stack s t) = Some (SwitchJump f u)"
  shows "progresses mem entry n s (switch_to_fiber n t (SwitchJump f u) s)"
proof -
  let ?g = "on_stack s t"
  have "runs_well mem s t" using inv t by (simp add: stacks_inv_def)
  then have j: "fib_jmp s ?g = Some (?g, SwitchDone u)" "f = ?g \<or> parked_stack s f" using k by (auto simp: runs_well_def)
  have hold: "holds s t = {?g, f}" using k by (auto simp: holds_def pos_of_def)
  from j k obtain k' where k': "fib_jmp s f = Some (f, k')" "frame_alive (stack_pos s f) k'"
    by (auto simp: parked_stack_def)
  then have end_pos: "creator k' = None" "partner k' = None" "claim_of k' = NoClaim" "\<And>s g. pos_good mem s g k'"
    "\<exists>l. stack_pos s f = Some l \<and> user_pos entry k' = user_pos entry l"
    by (cases "the (stack_pos s f)"; cases "stack_pos s f"; simp)+
  let ?s = "put_pos f k' (s\<lparr>on_stack := (on_stack s)(t := f)\<rparr>)"
  have ex: "switch_to_fiber n t (SwitchJump f u) s = Inr ?s"
    using k' not_busy [OF inv t, of f] hold by simp
  have c: "claim_at s t = Switching f" "base s t = ?g" using k by (simp_all add: claim_at_def base_def pos_of_def)
  let ?A = "c_ends entry t (c_claim (coroutines_of entry n s) t) (coroutines_of entry n s)"
  have "stacks_inv mem n ?s \<and> coroutines_of entry n ?s = ?A"
  proof (rule moving_step [OF inv t])
    show "parked_stack ?s g" if "g \<in> holds s t" "g \<noteq> f" for g
      using that j k by (auto simp: hold parked_stack_def put_pos_def)
    show "user_at entry ?s g = c_pos ?A g" for g
      using end_pos(5) by (auto simp: abs_simps t c put_pos_def user_at_def)
  qed (use end_pos t c in \<open>auto simp: put_pos_def hold abs_simps\<close>)
  moreover have "co_step entry n (coroutines_of entry n s) ?A" using t c by (intro co_end) (simp_all add: abs_simps)
  ultimately show ?thesis unfolding ex progresses_def by simp
qed

lemma create_swap_ok:
  assumes inv: "stacks_inv mem n s" and t: "t < n" and k: "stack_pos s (on_stack s t) = Some (CreateSwap f fnc c u)"
  shows "progresses mem entry n s (create_fiber mem n t (CreateSwap f fnc c u) s)"
proof -
  let ?g = "on_stack s t"
  have "runs_well mem s t" using inv t by (simp add: stacks_inv_def)
  then obtain sz where f: "stack_pos s f = None" "fib_ctx s f = \<lparr>ss_sp = mem sz, ss_size = sz, uc_arg = Some ?g\<rparr>"
    using k by (auto simp: runs_well_def)
  have hold: "holds s t = {?g, f}" using k by (auto simp: holds_def pos_of_def)
  have ne: "f \<noteq> ?g" using f k by auto
  let ?s = "put_pos f (StartLoad ?g) (put_pos ?g (CreateWait f fnc c u) (s\<lparr>on_stack := (on_stack s)(t := f)\<rparr>))"
  have ex: "create_fiber mem n t (CreateSwap f fnc c u) s = (if mem sz then Inr ?s else Inl NoStack)"
    using f not_busy [OF inv t, of f] hold by simp
  have b: "base s t = ?g" "claim_at s t = Creating f fnc c" using k by (simp_all add: base_def claim_at_def pos_of_def)
  have "stacks_inv mem n ?s \<and> coroutines_of entry n ?s = coroutines_of entry n s"
    by (rule moving_step [OF inv t]) (use t b f k ne in \<open>auto simp: put_pos_def hold abs_simps user_at_def\<close>)
  then show ?thesis unfolding ex progresses_def by auto
qed

lemma start_swap_ok:
  assumes inv: "stacks_inv mem n s" and t: "t < n" and k: "stack_pos s (on_stack s t) = Some (StartSwap fnc c p)"
  shows "progresses mem entry n s (fiber_start_fnc entry n t (StartSwap fnc c p) s)"
proof -
  let ?g = "on_stack s t"
  have "runs_well mem s t" using inv t by (simp add: stacks_inv_def)
  then obtain u where p: "stack_pos s p = Some (CreateWait ?g fnc c u)" "fib_jmp s ?g = Some (?g, StartCall fnc c)"
    using k by (auto simp: runs_well_def)
  have hold: "holds s t = {?g, p}" using k by (auto simp: holds_def pos_of_def)
  have ne: "p \<noteq> ?g" using p k by auto
  let ?s = "put_pos p (CreateDone u) (put_pos ?g (StartParked fnc c) (s\<lparr>on_stack := (on_stack s)(t := p)\<rparr>))"
  have ex: "fiber_start_fnc entry n t (StartSwap fnc c p) s = Inr ?s"
    using p not_busy [OF inv t, of p] hold by simp
  have b: "base s t = p" "claim_at s t = Creating ?g fnc c" using k p by (simp_all add: base_def claim_at_def pos_of_def)
  let ?A = "c_ends entry t (c_claim (coroutines_of entry n s) t) (coroutines_of entry n s)"
  have "stacks_inv mem n ?s \<and> coroutines_of entry n ?s = ?A"
    by (rule moving_step [OF inv t]) (use t b p k ne in \<open>auto simp: put_pos_def hold abs_simps user_at_def parked_stack_def\<close>)
  moreover have "co_step entry n (coroutines_of entry n s) ?A" using t b by (intro co_end) (simp_all add: abs_simps)
  ultimately show ?thesis unfolding ex progresses_def by simp
qed

text \<open>The instances for each part of the state.\<close>

definition local_change :: "(usize \<Rightarrow> bool) \<Rightarrow> (nat \<Rightarrow> nat \<Rightarrow> 'u) \<Rightarrow> 'u fstate \<Rightarrow> 'u fstate \<Rightarrow> nat \<Rightarrow> 'u fpos \<Rightarrow> 'u fpos \<Rightarrow> bool" where
  "local_change mem entry s s' g k k' \<longleftrightarrow> set_option (partner k') \<subseteq> insert g (set_option (partner k)) \<and>
     creator k' = creator k \<and> pos_good mem s' g k' \<and> user_pos entry k' = user_pos entry k \<and>
     (creator k = None \<longrightarrow> claim_of k' = claim_of k) \<and>
     (\<forall>h. partner k = Some h \<and> h \<noteq> g \<and> stack_pos s h \<noteq> None \<and> creator k \<noteq> Some h \<longrightarrow> parked_stack s' h)"

lemma local_progress:
  assumes inv: "stacks_inv mem n s" and t: "t < n" and k: "stack_pos s (on_stack s t) = Some k"
    and ch: "local_change mem entry s s' (on_stack s t) k k'"
    and s': "s' = put_pos (on_stack s t) k' (s\<lparr>fib_ctx := (fib_ctx s)(f := x), fib_jmp := (fib_jmp s)(on_stack s t := y)\<rparr>)"
    and f: "partner k = Some f \<or> f = on_stack s t"
  shows "progresses mem entry n s (Inr s')"
proof -
  have hold: "holds s t = insert (on_stack s t) (set_option (partner k))" using k by (simp add: holds_def pos_of_def)
  have "stacks_inv mem n s' \<and> coroutines_of entry n s' = coroutines_of entry n s"
    by (rule local_step [OF inv t k s']) (use ch f in \<open>auto simp: local_change_def hold\<close>)
  then show ?thesis by (simp add: progresses_def)
qed

lemma local_simps:
  "put_pos g k' s = put_pos g k' (s\<lparr>fib_ctx := (fib_ctx s)(g := fib_ctx s g), fib_jmp := (fib_jmp s)(g := fib_jmp s g)\<rparr>)"
  "put_pos g k' (s\<lparr>fib_jmp := j\<rparr>) = put_pos g k' (s\<lparr>fib_ctx := (fib_ctx s)(g := fib_ctx s g), fib_jmp := j\<rparr>)"
  "put_pos g k' (s\<lparr>fib_ctx := c\<rparr>) = put_pos g k' (s\<lparr>fib_ctx := c, fib_jmp := (fib_jmp s)(g := fib_jmp s g)\<rparr>)"
  by (simp_all add: put_pos_def)

lemma exec_ok:
  assumes inv: "stacks_inv mem n s" and t: "t < n" and k: "stack_pos s (on_stack s t) = Some k" "\<nexists>u. k = InUser u"
  shows "progresses mem entry n s (fiber_exec mem entry n t k s)"
proof -
  let ?g = "on_stack s t"
  have "runs_well mem s t" using inv t by (simp add: stacks_inv_def)
  then have good: "pos_good mem s ?g k" using k by (simp add: runs_well_def)
  have hold: "holds s t = insert ?g (set_option (partner k))" using k by (simp add: holds_def pos_of_def)
  note go = local_progress [OF inv t k(1)]
  show ?thesis
  proof (cases k)
    case (SwitchJump f u)
    then show ?thesis using jump_ok [OF inv t] k by simp
  next
    case (CreateSwap f fnc c u)
    then show ?thesis using create_swap_ok [OF inv t] k by simp
  next
    case (StartSwap fnc c p)
    then show ?thesis using start_swap_ok [OF inv t] k by simp
  next
    case (SwitchSet f prv u)
    show ?thesis using SwitchSet good k(1)
      by (simp add: Let_def) (rule go [OF _ local_simps(2)], auto simp: local_change_def put_pos_def parked_stack_def)
  next
    case (SwitchDone u)
    show ?thesis using SwitchDone by simp (rule go [OF _ local_simps(1)], auto simp: local_change_def)
  next
    case (CreateDone u)
    show ?thesis using CreateDone by simp (rule go [OF _ local_simps(1)], auto simp: local_change_def)
  next
    case (StartCall fnc c)
    show ?thesis using StartCall by simp (rule go [OF _ local_simps(1)], auto simp: local_change_def)
  next
    case (CreateGet f fnc c sz u)
    show ?thesis using CreateGet good k(1)
      by simp (rule go [OF _ local_simps(3)], auto simp: local_change_def put_pos_def)
  next
    case (CreateStack f fnc c sz u)
    show ?thesis using CreateStack good k(1)
      by simp (rule go [OF _ local_simps(3)], auto simp: local_change_def put_pos_def no_context_def)
  next
    case (CreateMake f fnc c sz u)
    show ?thesis using CreateMake good k(1)
      by (simp add: Let_def) (rule go [OF _ local_simps(3)], auto simp: local_change_def put_pos_def)
  next
    case (StartLoad p)
    then obtain fnc c u where p: "stack_pos s p = Some (CreateWait ?g fnc c u)" using good by auto
    show ?thesis using StartLoad p k(1)
      by simp (rule go [OF _ local_simps(1)], auto simp: local_change_def put_pos_def)
  next
    case (StartSet fnc c p)
    then obtain u where p: "stack_pos s p = Some (CreateWait ?g fnc c u)" using good by auto
    show ?thesis using StartSet p k(1)
      by (simp add: Let_def) (rule go [OF _ local_simps(2)], auto simp: local_change_def put_pos_def)
  qed (use k good in auto)
qed

section \<open>Calls of user code\<close>

lemma holds_eq:
  assumes "runs_well mem s t"
  shows "holds s t = insert (base s t) (set_option (claimed (claim_at s t)))"
proof -
  obtain k where "stack_pos s (on_stack s t) = Some k" "pos_good mem s (on_stack s t) k" using assms by (auto simp: runs_well_def)
  then show ?thesis by (cases k) (auto simp: claim_at_def base_def pos_of_def holds_def)
qed

lemma free_held:
  assumes inv: "stacks_inv mem n s" and free: "c_free n (coroutines_of entry n s) f" and t: "t < n"
  shows "f \<notin> holds s t"
  using assms holds_eq [of mem s t] by (auto simp: stacks_inv_def c_free_iff abs_simps)

lemma free_stack:
  assumes inv: "stacks_inv mem n s" and free: "c_free n (coroutines_of entry n s) f"
  shows "stack_pos s f \<noteq> None \<Longrightarrow> parked_stack s f" and "user_at entry s f = None \<longleftrightarrow> stack_pos s f = None"
proof -
  show p: "stack_pos s f \<noteq> None \<Longrightarrow> parked_stack s f"
    using inv free_held [OF inv free] base_held [of s] unfolding stacks_inv_def holds_def by blast
  show "user_at entry s f = None \<longleftrightarrow> stack_pos s f = None"
  proof (cases "stack_pos s f")
    case (Some k)
    then show ?thesis using p by (cases k) (auto simp: parked_stack_def user_at_def)
  qed (simp add: user_at_def)
qed

lemma call_ok:
  assumes inv: "stacks_inv mem n s" and t: "t < n" and k: "stack_pos s (on_stack s t) = Some (InUser u)"
    and a: "c_allows n (coroutines_of entry n s) t a"
  shows "stacks_inv mem n (fiber_call t u' a s) \<and>
    coroutines_of entry n (fiber_call t u' a s) = c_starts t u' a (coroutines_of entry n s)"
proof -
  let ?g = "on_stack s t" and ?s = "fiber_call t u' a s" and ?A = "coroutines_of entry n s"
  have hold: "holds s t = {?g}" and b: "base s t = ?g" and c: "claim_at s t = NoClaim"
    using k by (simp_all add: holds_def base_def claim_at_def pos_of_def)
  let ?F = "(case a of ActSwitch f prv \<Rightarrow> {f} - {?g} | ActCreate f fnc c sz \<Rightarrow> {f} | ActDelete f \<Rightarrow> {f} | _ \<Rightarrow> {})"
  have free: "c_free n ?A f" if "f \<in> ?F" for f
    using a that t b by (cases a) (auto simp: abs_simps)
  note held = free_held [OF inv free] and stack = free_stack [OF inv free]
  obtain k' where k': "stack_pos ?s ?g = Some k'" "creator k' = None" "set_option (partner k') \<subseteq> insert ?g ?F"
    "user_pos entry k' = Some u'" "claim_of k' = c_claim (c_starts t u' a ?A) t"
    using t c by (cases a) (auto simp: put_pos_def abs_simps)
  have on: "on_stack ?s = on_stack s" by (cases a) (simp_all add: put_pos_def)
  have p: "pos_of ?s t = k'" "base ?s t = ?g" "claim_at ?s t = claim_of k'"
    using k' by (simp_all add: pos_of_def base_def claim_at_def on)
  have g: "?g \<notin> ?F" using held [of ?g] t hold by auto
  have fr: "step_frame n t ?F s ?s"
  proof -
    have "\<forall>v < n. v \<noteq> t \<longrightarrow> holds s v \<inter> ?F = {}" using held by blast
    moreover have "holds ?s t \<subseteq> holds s t \<union> ?F" using k' hold by (auto simp: holds_def p on)
    ultimately show ?thesis unfolding step_frame_def using on hold t b a by (cases a) (auto simp: put_pos_def abs_simps)
  qed
  have good: "pos_good mem ?s ?g k' \<and> (\<forall>h \<in> ?F. stack_pos ?s h \<noteq> None \<longrightarrow> parked_stack ?s h)"
  proof (cases a)
    case (ActSwitch f prv)
    have "f = ?g \<or> parked_stack s f"
      using a ActSwitch t b stack [of f] by (cases "f = ?g") (auto simp: abs_simps)
    then show ?thesis using ActSwitch a k' t b by (auto simp: put_pos_def parked_stack_def abs_simps)
  next
    case (ActCreate f fnc c sz)
    then have "stack_pos s f = None" using a stack(2) [of f] by (simp add: abs_simps)
    then show ?thesis using ActCreate k' g by (auto simp: put_pos_def)
  next
    case (ActDelete f)
    then show ?thesis using k' g by (auto simp: put_pos_def)
  qed (use k' in \<open>auto simp: put_pos_def\<close>)
  have "stacks_inv mem n ?s"
  proof (rule inv_frame [OF inv t fr])
    show "runs_well mem ?s t" using k'(1) good by (simp add: runs_well_def on)
    show "parked_stack ?s h \<or> h = on_stack ?s t \<or> h = base ?s t" if "h \<in> holds s t \<union> ?F" "stack_pos ?s h \<noteq> None" for h
      using that good hold by (auto simp: on)
  qed
  moreover have "coroutines_of entry n ?s = c_starts t u' a ?A"
  proof (rule abs_frame [OF inv t fr])
    show "user_at entry ?s h = c_pos (c_starts t u' a ?A) h" for h
      using k' t b g by (cases a) (auto simp: abs_simps user_at_def put_pos_def)
    show "h \<notin> holds s t \<union> ?F \<Longrightarrow> c_pos (c_starts t u' a ?A) h = user_at entry s h" for h
      using t b hold by (cases a) (auto simp: abs_simps)
    show "c_run (c_starts t u' a ?A) = (c_run ?A)(t := base ?s t)"
      using t b p by (cases a) (auto simp: abs_simps)
    show "c_claim (c_starts t u' a ?A) = (c_claim ?A)(t := claim_at ?s t)"
      using t c p k'(5) by (cases a) (auto simp: abs_simps)
  qed
  ultimately show ?thesis by blast
qed

section \<open>The result\<close>

lemma step_refines:
  assumes "fiber_step mem entry n s s'" and "stacks_inv mem n s"
  shows "stacks_inv mem n s' \<and> (co_step entry n)\<^sup>*\<^sup>* (coroutines_of entry n s) (coroutines_of entry n s')"
  using assms(1)
proof cases
  case (user_calls t u a u')
  have "c_claim (coroutines_of entry n s) t = NoClaim"
    using user_calls(2,3) by (simp add: abs_simps claim_at_def base_def pos_of_def)
  from co_call [OF user_calls(2) this user_calls(4)] call_ok [OF assms(2) user_calls(2-4), of u'] show ?thesis
    using user_calls(1) by (simp add: r_into_rtranclp)
next
  case (library t k)
  from exec_ok [OF assms(2) library(1-3), of entry] library(4) show ?thesis by (auto simp: progresses_def)
qed

lemma start_stacks: "stacks_inv mem n (only_threads start n)"
  by (auto simp: stacks_inv_def runs_well_def only_threads_def holds_def pos_of_def base_def)

lemma steps_refine:
  assumes "(fiber_step mem entry n)\<^sup>*\<^sup>* (only_threads start n) s"
  shows "stacks_inv mem n s \<and>
    (co_step entry n)\<^sup>*\<^sup>* (coroutines_of entry n (only_threads start n)) (coroutines_of entry n s)"
  using assms
proof (induction rule: rtranclp_induct)
  case (step s s')
  then show ?case using step_refines [OF step(2)] by (meson rtranclp_trans)
qed (simp add: start_stacks)

text \<open>The steps a thread still makes inside of the library, on whatever stack.\<close>

fun steps_left :: "'u fpos \<Rightarrow> nat" where
  "steps_left (CreateGet f fnc c sz u) = 8" | "steps_left (CreateStack f fnc c sz u) = 7"
| "steps_left (CreateMake f fnc c sz u) = 6" | "steps_left (CreateSwap f fnc c u) = 5"
| "steps_left (StartLoad p) = 4" | "steps_left (StartSet fnc c p) = 3" | "steps_left (SwitchSet f prv u) = 3"
| "steps_left (StartSwap fnc c p) = 2" | "steps_left (SwitchJump f u) = 2"
| "steps_left (InUser u) = 0" | "steps_left _ = 1"

lemma exec_decreases:
  assumes "stack_pos s (on_stack s t) = Some k" "\<nexists>u. k = InUser u" and "fiber_exec mem entry n t k s = Inr s'"
    and "pos_good mem s (on_stack s t) k"
  shows "steps_left (pos_of s' t) < steps_left k"
proof (cases k)
  case (SwitchJump f u)
  then obtain h k' where "fib_jmp s f = Some (h, k')" "frame_alive (stack_pos s h) k'" "pos_of s' t = k'"
    using assms(3) by (auto simp: pos_of_def put_pos_def split: option.splits if_splits)
  then show ?thesis using SwitchJump by (cases "the (stack_pos s h)"; cases "stack_pos s h") auto
qed (use assms in \<open>auto simp: pos_of_def put_pos_def Let_def split: option.splits if_splits fpos.splits\<close>)

text \<open>
  C23: the fibers are coroutines. Whatever threads do, as long as user code follows the rules (it leaves only the
  fiber it runs on, to one that nobody runs or is about to run, and does not create a fiber that exists or delete
  one that is in use), every run refines a run of the coroutines: a switch goes on exactly where the target was
  left, or at the start of its function with the argument of its creation. A thread inside of the library goes
  on, in at most eight steps, to user code: no jump goes to a frame that has returned or to a stack on which
  another thread runs, and \<open>fiber_start_fnc\<close> reads the locals of \<open>create_fiber\<close> only while they exist. The
  only failure is a stack whose allocation failed, which \<open>create_fiber\<close> does not check.
\<close>

theorem fibers_refine_coroutines:
  assumes "(fiber_step mem entry n)\<^sup>*\<^sup>* (only_threads start n) s" and "t < n"
  shows "(co_step entry n)\<^sup>*\<^sup>* (coroutines_of entry n (only_threads start n)) (coroutines_of entry n s) \<and>
    (\<exists>k. stack_pos s (on_stack s t) = Some k \<and> ((\<exists>u. k = InUser u) \<or>
      (case fiber_exec mem entry n t k s of
         Inl e \<Rightarrow> e = NoStack \<and> (\<exists>sz. \<not> mem sz)
       | Inr s' \<Rightarrow> steps_left (pos_of s' t) < steps_left k \<and> steps_left k \<le> 8)))"
proof -
  note inv = steps_refine [OF assms(1)]
  then have "runs_well mem s t" using assms(2) by (simp add: stacks_inv_def)
  then obtain k where k: "stack_pos s (on_stack s t) = Some k" "pos_good mem s (on_stack s t) k" by (auto simp: runs_well_def)
  have "steps_left k \<le> 8" by (cases k) simp_all
  moreover have "(\<exists>u. k = InUser u) \<or> progresses mem entry n s (fiber_exec mem entry n t k s)"
    using exec_ok [OF conjunct1 [OF inv] assms(2) k(1), of entry] by blast
  ultimately show ?thesis using inv k exec_decreases [OF k(1) _ _ k(2), of entry n]
    by (auto simp: progresses_def split: sum.splits)
qed

text \<open>The main thread makes a fiber, switches to it and gets back.\<close>

datatype 'u fiber_do = Do nat fiber_act 'u | Lib nat

fun fiber_perform ::
  "(usize \<Rightarrow> bool) \<Rightarrow> (nat \<Rightarrow> nat \<Rightarrow> 'u) \<Rightarrow> nat \<Rightarrow> 'u fiber_do \<Rightarrow> 'u fstate \<Rightarrow> 'u fstate option" where
  "fiber_perform mem entry n (Do t a u') s =
     (case stack_pos s (on_stack s t) of
        Some (InUser u) \<Rightarrow>
          if t < n \<and> c_allows n (coroutines_of entry n s) t a then Some (fiber_call t u' a s) else None
      | _ \<Rightarrow> None)"
| "fiber_perform mem entry n (Lib t) s =
     (case stack_pos s (on_stack s t) of
        None \<Rightarrow> None
      | Some (InUser u) \<Rightarrow> None
      | Some k \<Rightarrow> (case fiber_exec mem entry n t k s of Inl e \<Rightarrow> None | Inr s' \<Rightarrow> if t < n then Some s' else None))"

fun fiber_run ::
  "(usize \<Rightarrow> bool) \<Rightarrow> (nat \<Rightarrow> nat \<Rightarrow> 'u) \<Rightarrow> nat \<Rightarrow> 'u fiber_do list \<Rightarrow> 'u fstate \<Rightarrow> 'u fstate option" where
  "fiber_run mem entry n [] s = Some s"
| "fiber_run mem entry n (x # xs) s =
     (case fiber_perform mem entry n x s of None \<Rightarrow> None | Some s' \<Rightarrow> fiber_run mem entry n xs s')"

lemma perform_step: "fiber_perform mem entry n x s = Some s' \<Longrightarrow> fiber_step mem entry n s s'"
proof (cases x)
  case (Do t a u')
  then show "fiber_perform mem entry n x s = Some s' \<Longrightarrow> fiber_step mem entry n s s'"
    by (auto split: option.splits fpos.splits if_splits intro: fiber_step.user_calls)
next
  case (Lib t)
  assume st: "fiber_perform mem entry n x s = Some s'"
  then obtain k where k: "stack_pos s (on_stack s t) = Some k" "\<nexists>u. k = InUser u"
    using Lib by (auto split: option.splits fpos.splits)
  then have "fiber_exec mem entry n t k s = Inr s' \<and> t < n"
    using st Lib by (cases k) (auto split: sum.splits if_splits)
  then show ?thesis using k by (blast intro: fiber_step.library)
qed

lemma run_steps: "fiber_run mem entry n xs s = Some s' \<Longrightarrow> (fiber_step mem entry n)\<^sup>*\<^sup>* s s'"
  by (induction xs arbitrary: s) (auto split: option.splits dest: perform_step intro: converse_rtranclp_into_rtranclp)

definition to_and_fro :: "nat fiber_do list" where
  "to_and_fro = Do 0 (ActCreate 1 2 3 4096) 1 # replicate 8 (Lib 0) @
     Do 0 (ActSwitch 1 0) 2 # replicate 3 (Lib 0) @ Do 0 (ActSwitch 0 1) 7 # replicate 3 (Lib 0)"

lemma to_and_fro_run:
  "case fiber_run (\<lambda>_. True) (+) 1 to_and_fro (only_threads (\<lambda>_. 0) 1) of
     None \<Rightarrow> False | Some s \<Rightarrow> on_stack s 0 = 0 \<and> stack_pos s 0 = Some (InUser 2) \<and> user_at (+) s 1 = Some 7"
  by code_simp

theorem fibers_refine_coroutines_witness:
  "\<exists>s. stack_pos s (on_stack s 0) = Some (InUser 2) \<and>
     (co_step (+) 1)\<^sup>*\<^sup>* (coroutines_of (+) 1 (only_threads (\<lambda>_. 0) 1))
       (coroutines_of (+) 1 s)"
proof -
  from to_and_fro_run obtain s where s: "fiber_run (\<lambda>_. True) (+) 1 to_and_fro (only_threads (\<lambda>_. 0) 1) = Some s"
    "on_stack s 0 = 0" "stack_pos s 0 = Some (InUser 2)"
    by (auto split: option.splits)
  from fibers_refine_coroutines [OF run_steps [OF s(1)], of 0] show ?thesis
    using s(2,3) by (intro exI [of _ s]) simp
qed

end
