(* ===== verification/System_Info.thy ===== *)
theory System_Info
  imports Prelude
begin

text \<open>
  The number of cores (common/system_info.cc) and the tick count of native/fiber.hh. What the operating
  system and the processor answer is a parameter.
\<close>

section \<open>Windows\<close>

text \<open>
  \<open>GetLogicalProcessorInformationEx\<close> with a buffer of some length: it fills the buffer with records and
  gives the length used, asks for a longer buffer, or fails. A record is given by the offset of its first
  byte, whether it is of a core, and its size. \<open>None\<close> of the loops is that they never end.
\<close>

type_synonym info_buffer = "usize \<Rightarrow> (bool \<times> u32) option"

datatype query_answer = Filled info_buffer u32 | TooSmall u32 | QueryFails

partial_function (option) query_processors ::
  "(nat \<Rightarrow> u32 \<Rightarrow> query_answer) \<Rightarrow> nat \<Rightarrow> u32 \<Rightarrow> (info_buffer \<times> u32) option option" where
  "query_processors os i len =
     (case os i len of
        Filled buf len' \<Rightarrow> Some (Some (buf, len'))
      | TooSmall len' \<Rightarrow> query_processors os (Suc i) len'
      | QueryFails \<Rightarrow> Some None)"

partial_function (option) count_cores ::
  "info_buffer \<Rightarrow> u32 \<Rightarrow> usize \<Rightarrow> u32 \<Rightarrow> u32 \<Rightarrow> u32 \<Rightarrow> (failure + u32) option" where
  "count_cores buf len cursor prev off res =
     (if off < len
      then (case buf (cursor + ucast prev) of
              None \<Rightarrow> Some (Inl OutOfRange)
            | Some (core, sz) \<Rightarrow>
                count_cores buf len (cursor + ucast prev) sz (off + sz) (if core then res + 1 else res))
      else Some (Inr res))"

definition num_physical_cores_windows :: "(nat \<Rightarrow> u32 \<Rightarrow> query_answer) \<Rightarrow> (failure + u32) option" where
  "num_physical_cores_windows os =
     (case query_processors os 0 0 of
        None \<Rightarrow> None
      | Some None \<Rightarrow> Some (Inr 0)
      | Some (Some (buf, len)) \<Rightarrow> count_cores buf len 0 0 0 0)"

section \<open>Linux\<close>

text \<open>\<open>edx\<close> is the register of the feature flags, \<open>logical\<close> what \<open>num_logical_cores\<close> returns.\<close>

definition num_physical_cores_linux :: "u32 \<Rightarrow> u32 \<Rightarrow> u32" where
  "num_physical_cores_linux edx logical = (if edx AND push_bit 28 1 \<noteq> 0 then logical div 2 else logical)"

text \<open>\<open>times\<close> gives the ticks and \<open>sysconf\<close> their number per second.\<close>

definition get_tick_count :: "usize \<Rightarrow> usize \<Rightarrow> usize" where
  "get_tick_count ticks per_second = ticks * (1000 div per_second)"

section \<open>Properties\<close>

text \<open>Records one after the other from an offset on.\<close>

fun info_layout :: "nat \<Rightarrow> (bool \<times> u32) list \<Rightarrow> info_buffer" where
  "info_layout off [] = (\<lambda>_. None)"
| "info_layout off (r # rs) = (info_layout (off + unat (snd r)) rs)(of_nat off \<mapsto> r)"

definition info_length :: "(bool \<times> u32) list \<Rightarrow> nat" where
  "info_length rs = sum_list (map (unat \<circ> snd) rs)"

lemma info_length_simps [simp]:
  "info_length [] = 0" "info_length (r # rs) = unat (snd r) + info_length rs"
  "info_length (xs @ ys) = info_length xs + info_length ys"
  by (simp_all add: info_length_def)

lemma layout_at:
  assumes "\<forall>r \<in> set (xs @ [y]). 0 < snd r" and "off + info_length (xs @ [y]) < 2 ^ 64"
  shows "info_layout off (xs @ y # ys) (of_nat (off + info_length xs)) = Some y"
  using assms
proof (induction xs arbitrary: off)
  case (Cons x xs)
  have "0 < unat (snd x)" using Cons.prems(1) by (simp add: unat_gt_0 word_gt_0)
  moreover have "unat (of_nat n :: usize) = n" if "n \<le> off + (unat (snd x) + info_length xs)" for n
    using that Cons.prems(2) by (intro unat_of_nat_small) simp
  ultimately have "of_nat (off + (unat (snd x) + info_length xs)) \<noteq> (of_nat off :: usize)"
    by (metis add_diff_cancel_left' add_is_0 diff_self_eq_0 le_add1 le_refl not_gr_zero)
  then show ?case using Cons.IH [of "off + unat (snd x)"] Cons.prems by (simp add: add.assoc)
qed simp

lemma count_cores_layout:
  assumes "\<forall>r \<in> set (xs @ ys). 0 < snd r" and "info_length (xs @ ys) < 2 ^ 32"
    and "cursor + ucast prev = of_nat (info_length xs)"
  shows "count_cores (info_layout 0 (xs @ ys)) (of_nat (info_length (xs @ ys))) cursor prev (of_nat (info_length xs)) res =
    Some (Inr (res + of_nat (length (filter fst ys))))"
  using assms
proof (induction ys arbitrary: xs cursor prev res)
  case Nil
  then show ?case by (simp add: count_cores.simps)
next
  case (Cons y ys)
  let ?o = "info_length xs" and ?l = "info_length (xs @ y # ys)"
  obtain core sz where y: "y = (core, sz)" by fastforce
  have pos: "0 < unat sz" using Cons.prems(1) y by (simp add: unat_gt_0 word_gt_0)
  have less: "(of_nat ?o :: u32) < of_nat ?l"
    using Cons.prems(2) pos y by (simp add: word_less_nat_alt unat_of_nat_small del: of_nat_add)
  have at: "info_layout 0 (xs @ y # ys) (of_nat ?o) = Some y"
    using layout_at [of xs y 0 ys] Cons.prems by simp
  have next_o: "(of_nat ?o :: u32) + sz = of_nat (info_length (xs @ [y]))" "of_nat ?o + ucast sz = (of_nat (info_length (xs @ [y])) :: usize)"
    by (simp_all add: y)
  have "count_cores (info_layout 0 (xs @ y # ys)) (of_nat ?l) cursor prev (of_nat ?o) res =
    count_cores (info_layout 0 ((xs @ [y]) @ ys)) (of_nat (info_length ((xs @ [y]) @ ys))) (of_nat ?o) sz
      (of_nat (info_length (xs @ [y]))) (if core then res + 1 else res)"
    using less at Cons.prems(3) next_o by (subst count_cores.simps) (simp add: y)
  also have "\<dots> = Some (Inr ((if core then res + 1 else res) + of_nat (length (filter fst ys))))"
    by (rule Cons.IH) (use Cons.prems next_o in auto)
  finally show ?case by (simp add: y)
qed

text \<open>
  However often the system asks for a longer buffer first: the lengths it asks for are \<open>ls\<close>, then it answers.
\<close>

lemma query_after:
  assumes "\<And>i. i < length ls \<Longrightarrow> os (k + i) ((len # ls) ! i) = TooSmall (ls ! i)"
  shows "query_processors os k len = query_processors os (k + length ls) (last (len # ls))"
  using assms
proof (induction ls arbitrary: k len)
  case (Cons l ls)
  have "query_processors os k len = query_processors os (Suc k) l"
    using Cons.prems [of 0] by (simp add: query_processors.simps)
  also have "\<dots> = query_processors os (Suc k + length ls) (last (l # ls))"
    by (rule Cons.IH) (use Cons.prems [of "Suc i" for i] in auto)
  finally show ?case by simp
qed simp

text \<open>
  C27: on Windows \<open>num_physical_cores\<close> asks until the buffer is long enough, then it returns the number of
  records of a core, or zero when the query fails, and it reads only at the start of records. On Linux it halves
  the logical cores whenever bit 28 is set, also where a core has one logical processor only; with one logical
  core it then returns no cores.
\<close>

theorem num_physical_cores_by_platform:
  assumes "\<forall>i < length ls. os i ((0 # ls) ! i) = TooSmall (ls ! i)"
    and "\<forall>r \<in> set rs. 0 < snd r" and "info_length rs < 2 ^ 32"
  shows "(os (length ls) (last (0 # ls)) = Filled (info_layout 0 rs) (of_nat (info_length rs)) \<longrightarrow>
      num_physical_cores_windows os = Some (Inr (of_nat (length (filter fst rs))))) \<and>
    (os (length ls) (last (0 # ls)) = QueryFails \<longrightarrow> num_physical_cores_windows os = Some (Inr 0)) \<and>
    num_physical_cores_linux edx logical = (if bit edx 28 then logical div 2 else logical) \<and>
    (bit edx 28 \<longrightarrow> num_physical_cores_linux edx 1 = 0)"
proof -
  have q: "query_processors os 0 0 = query_processors os (length ls) (last (0 # ls))"
    using query_after [of ls os 0 0] assms(1) by simp
  have "count_cores (info_layout 0 rs) (of_nat (info_length rs)) 0 0 0 0 = Some (Inr (of_nat (length (filter fst rs))))"
    using count_cores_layout [of "[]" rs 0 0 0] assms(2,3) by simp
  then have "os (length ls) (last (0 # ls)) = Filled (info_layout 0 rs) (of_nat (info_length rs)) \<Longrightarrow>
      num_physical_cores_windows os = Some (Inr (of_nat (length (filter fst rs))))"
    unfolding num_physical_cores_windows_def q by (subst query_processors.simps) simp
  moreover have "os (length ls) (last (0 # ls)) = QueryFails \<Longrightarrow> num_physical_cores_windows os = Some (Inr 0)"
    unfolding num_physical_cores_windows_def q by (subst query_processors.simps) simp
  moreover have "edx AND push_bit 28 1 \<noteq> 0 \<longleftrightarrow> bit edx 28"
    by (simp only: bit_iff_and_push_bit_not_eq_0)
  ultimately show ?thesis by (auto simp: num_physical_cores_linux_def)
qed

text \<open>Two cores and a cache, after one answer that the buffer is too small.\<close>

theorem num_physical_cores_by_platform_witness:
  "num_physical_cores_windows (\<lambda>i len. if i = 0 then TooSmall 144
     else Filled (info_layout 0 [(True, 48), (False, 48), (True, 48)]) 144) = Some (Inr 2) \<and>
   num_physical_cores_linux (push_bit 28 1) 1 = 0"
proof -
  let ?os = "\<lambda>i len. if i = 0 then TooSmall 144 else Filled (info_layout 0 [(True, 48), (False, 48), (True, 48)]) 144"
  from num_physical_cores_by_platform [of "[144]" ?os "[(True, 48), (False, 48), (True, 48)]" "push_bit 28 1" 1]
  show ?thesis by (simp add: bit_push_bit_iff)
qed

text \<open>With ticks of whole milliseconds the tick count is exact.\<close>

lemma get_tick_count_exact:
  assumes "1000 = k * per_second" and "ticks * k < 2 ^ 64"
  shows "unat (get_tick_count (of_nat ticks) (of_nat per_second)) = ticks * k"
proof -
  have "per_second dvd 1000" unfolding assms(1) by (rule dvd_triv_right)
  then have p: "0 < per_second" "per_second \<le> 1000" by (simp_all add: dvd_imp_le dvd_pos_nat [of 1000])
  have "unat ((1000 :: usize) div of_nat per_second) = 1000 div per_second"
    using p by (simp add: unat_div unat_of_nat_small)
  also have "1000 div per_second = k" unfolding assms(1) using p by simp
  finally have "(1000 :: usize) div of_nat per_second = of_nat k" by (metis of_nat_unat ucast_id)
  then have "get_tick_count (of_nat ticks) (of_nat per_second) = of_nat (ticks * k)" by (simp add: get_tick_count_def)
  then show ?thesis using assms(2) by (simp add: unat_of_nat_small del: of_nat_mult)
qed

end
