(* ===== verification/Submit_Calls.thy ===== *)
theory Submit_Calls
  imports Futures API_Runs
begin

text \<open>
  The overloads of \<open>submit\<close> in td.hh that take a function with arguments or a member function, and the one of
  td-lean.hh for a counter. Each of them captures the call in a closure and submits one task for it. User code,
  its functions and the values it passes are parameters, and so is the layout of a closure in memory, of which
  only matters that the closure can be called again from its bytes.
\<close>

section \<open>Closures\<close>

text \<open>
  What is called: a function object, which is copied, or a member function on an object given by its address. The
  closure holds the arguments, moved from those of the caller, and the address for the result, if any.
\<close>

datatype ('f, 'm) callee = FunctionObject 'f | MemberFunction 'm nat

record ('f, 'm, 'v) closure =
  callee_of :: "('f, 'm) callee"
  captured :: "'v list"
  result_ptr :: "nat option"

text \<open>The compiled closures: the number of the type, the bytes, and what the bytes of a type are.\<close>

record ('f, 'm, 'v) layout =
  closure_type :: "('f, 'm, 'v) closure \<Rightarrow> nat"
  closure_bytes :: "('f, 'm, 'v) closure \<Rightarrow> byte list"
  closure_at :: "nat \<Rightarrow> byte list \<Rightarrow> ('f, 'm, 'v) closure option"

definition layout_ok :: "('f, 'm, 'v) layout \<Rightarrow> bool" where
  "layout_ok L \<longleftrightarrow> (\<forall>c. closure_at L (closure_type L c) (closure_bytes L c) = Some c)"

text \<open>User code with a world \<open>'w\<close> it changes, and the value that moving leaves behind.\<close>

record ('f, 'm, 'v, 'w) user_code =
  call_function :: "'f \<Rightarrow> 'v list \<Rightarrow> 'w \<Rightarrow> 'v \<times> 'w"
  call_member :: "'m \<Rightarrow> nat \<Rightarrow> 'v list \<Rightarrow> 'w \<Rightarrow> 'v \<times> 'w"
  write_result :: "nat \<Rightarrow> 'v \<Rightarrow> 'w \<Rightarrow> 'w"
  moved_value :: "'v \<Rightarrow> 'v"

definition call_callee :: "('f, 'm, 'v, 'w) user_code \<Rightarrow> ('f, 'm) callee \<Rightarrow> 'v list \<Rightarrow> 'w \<Rightarrow> 'v \<times> 'w" where
  "call_callee U f args w =
     (case f of FunctionObject g \<Rightarrow> call_function U g args w | MemberFunction m inst \<Rightarrow> call_member U m inst args w)"

definition call_closure :: "('f, 'm, 'v, 'w) user_code \<Rightarrow> ('f, 'm, 'v) closure \<Rightarrow> 'w \<Rightarrow> 'w" where
  "call_closure U c w =
     (case call_callee U (callee_of c) (captured c) w of
        (v, w') \<Rightarrow> (case result_ptr c of None \<Rightarrow> w' | Some p \<Rightarrow> write_result U p v w'))"

text \<open>What a worker does with a task: \<open>None\<close> for bytes that are not a closure.\<close>

definition run_task :: "('f, 'm, 'v) layout \<Rightarrow> ('f, 'm, 'v, 'w) user_code \<Rightarrow> task \<Rightarrow> 'w \<Rightarrow> 'w option" where
  "run_task L U tk w =
     (case execute_and_cleanup tk of
        CallPtr f u \<Rightarrow> None
      | CallLambda T bs \<Rightarrow> map_option (\<lambda>c. call_closure U c w) (closure_at L T bs))"

section \<open>Submitting\<close>

definition dispatch_of :: "('f, 'm, 'v) layout \<Rightarrow> task \<Rightarrow> ('f, 'm, 'v) closure \<Rightarrow> task option" where
  "dispatch_of L d c = task_lambda (closure_type L c) (closure_bytes L c) d"

text \<open>
  Each overload gives what is left of the caller's arguments and the program; \<open>None\<close> when the closure is too
  large for a task and the code does not compile. First those for a given sync object.
\<close>

definition submit_args ::
  "bool \<Rightarrow> bool \<Rightarrow> ('f, 'm, 'v) layout \<Rightarrow> ('f, 'm, 'v, 'w) user_code \<Rightarrow> task \<Rightarrow> sync \<Rightarrow> 'f \<Rightarrow> 'v list \<Rightarrow>
     ('v list \<times> sync prog) option" where
  "submit_args dbg alive L U d s f args =
     map_option (\<lambda>dispatch. (map (moved_value U) args, submit_raw dbg alive s [dispatch]))
       (dispatch_of L d \<lparr>callee_of = FunctionObject f, captured = args, result_ptr = None\<rparr>)"

definition submit_member ::
  "bool \<Rightarrow> bool \<Rightarrow> ('f, 'm, 'v) layout \<Rightarrow> ('f, 'm, 'v, 'w) user_code \<Rightarrow> task \<Rightarrow> sync \<Rightarrow> 'm \<Rightarrow> nat \<Rightarrow> 'v list \<Rightarrow>
     ('v list \<times> sync prog) option" where
  "submit_member dbg alive L U d s m inst args =
     map_option (\<lambda>dispatch. (map (moved_value U) args, submit_raw dbg alive s [dispatch]))
       (dispatch_of L d \<lparr>callee_of = MemberFunction m inst, captured = args, result_ptr = None\<rparr>)"

text \<open>Those that return a new sync object, when the function has no result.\<close>

definition submit_new ::
  "bool \<Rightarrow> bool \<Rightarrow> ('f, 'm, 'v) layout \<Rightarrow> task \<Rightarrow> 'f \<Rightarrow> sync prog option" where
  "submit_new dbg alive L d f =
     map_option (\<lambda>dispatch. submit_raw dbg alive null_sync [dispatch])
       (dispatch_of L d \<lparr>callee_of = FunctionObject f, captured = [], result_ptr = None\<rparr>)"

definition submit_member_new ::
  "bool \<Rightarrow> bool \<Rightarrow> ('f, 'm, 'v) layout \<Rightarrow> ('f, 'm, 'v, 'w) user_code \<Rightarrow> task \<Rightarrow> 'm \<Rightarrow> nat \<Rightarrow> 'v list \<Rightarrow>
     ('v list \<times> sync prog) option" where
  "submit_member_new dbg alive L U d m inst args = submit_member dbg alive L U d null_sync m inst args"

definition submit_args_new ::
  "bool \<Rightarrow> bool \<Rightarrow> ('f, 'm, 'v) layout \<Rightarrow> ('f, 'm, 'v, 'w) user_code \<Rightarrow> task \<Rightarrow> 'f \<Rightarrow> 'v list \<Rightarrow>
     ('v list \<times> sync prog) option" where
  "submit_args_new dbg alive L U d f args = submit_args dbg alive L U d null_sync f args"

text \<open>Those that return a future, with its cell at address \<open>a\<close>.\<close>

definition submit_member_future ::
  "bool \<Rightarrow> bool \<Rightarrow> ('f, 'm, 'v) layout \<Rightarrow> ('f, 'm, 'v, 'w) user_code \<Rightarrow> task \<Rightarrow> nat \<Rightarrow> 'm \<Rightarrow> nat \<Rightarrow> 'v list \<Rightarrow>
     ('v list \<times> future prog) option" where
  "submit_member_future dbg alive L U d a m inst args =
     map_option (\<lambda>dispatch. (map (moved_value U) args,
         prog_bind (submit_raw dbg alive null_sync [dispatch]) (\<lambda>s. Return (set_sync s (future_new a)))))
       (dispatch_of L d \<lparr>callee_of = MemberFunction m inst, captured = args, result_ptr = fut_value (future_new a)\<rparr>)"

definition submit_args_future ::
  "bool \<Rightarrow> bool \<Rightarrow> ('f, 'm, 'v) layout \<Rightarrow> ('f, 'm, 'v, 'w) user_code \<Rightarrow> task \<Rightarrow> nat \<Rightarrow> 'f \<Rightarrow> 'v list \<Rightarrow>
     ('v list \<times> future prog) option" where
  "submit_args_future dbg alive L U d a f args =
     map_option (\<lambda>dispatch. (map (moved_value U) args,
         prog_bind (submit_raw dbg alive null_sync [dispatch]) (\<lambda>s. Return (set_sync s (future_new a)))))
       (dispatch_of L d \<lparr>callee_of = FunctionObject f, captured = args, result_ptr = fut_value (future_new a)\<rparr>)"

definition submit_lambda_on_counter ::
  "bool \<Rightarrow> bool \<Rightarrow> ('f, 'm, 'v) layout \<Rightarrow> task \<Rightarrow> handle_t \<Rightarrow> 'f \<Rightarrow> unit prog option" where
  "submit_lambda_on_counter dbg alive L d h f =
     map_option (\<lambda>dispatch. submit_on_counter dbg alive h [dispatch])
       (dispatch_of L d \<lparr>callee_of = FunctionObject f, captured = [], result_ptr = None\<rparr>)"

section \<open>What becomes of a call\<close>

lemma prog_run_bind:
  "prog_run dbg P t ctx (prog_bind p f) s =
     (case prog_run dbg P t ctx p s of
        None \<Rightarrow> None | Some (Inl e, s') \<Rightarrow> Some (Inl e, s') | Some (Inr v, s') \<Rightarrow> prog_run dbg P t ctx (f v) s')"
  by (induction p arbitrary: s) (auto split: option.splits fiber_pc.splits)

text \<open>The calling thread is in user code, a counter is free, the pool gives \<open>h\<close> for it, and a task has room.\<close>

definition submit_ready :: "'h pool_ops \<Rightarrow> nat \<Rightarrow> user_context \<Rightarrow> 'h sched \<Rightarrow> counter_index_t \<Rightarrow> handle_t \<Rightarrow> bool" where
  "submit_ready P t ctx s c h \<longleftrightarrow>
     failed s = None \<and> current t s < length (mFibers s) \<and> (\<exists>r. native (mFibers s ! current t s) = Running ctx r) \<and>
     mpmc_ok (mFreeCounters s) \<and> (\<exists>free. mpmc_list (mFreeCounters s) = c # free) \<and>
     unat c < length (mCounters s) \<and> counter_shape (mCounters s ! unat c) \<and>
     (\<exists>hs. pool_acquire P (mCounterHandles s) = (h, hs) \<and> pool_index P (pool_set_index P hs h c) h = c) \<and>
     mpmc_ok (mTasks s) \<and> length (mpmc_list (mTasks s)) < length (mBuffer (mTasks s))"

text \<open>
  The program \<open>p\<close> returns \<open>res\<close> and has put one task at the end of the queue, on the counter \<open>c\<close>, which counts
  it; whoever runs the task, whenever, does \<open>effect\<close>.
\<close>

definition queues_call ::
  "bool \<Rightarrow> 'h pool_ops \<Rightarrow> nat \<Rightarrow> user_context \<Rightarrow> 'h sched \<Rightarrow> counter_index_t \<Rightarrow> ('f, 'm, 'v) layout \<Rightarrow>
     ('f, 'm, 'v, 'w) user_code \<Rightarrow> 'a prog \<Rightarrow> 'a \<Rightarrow> ('w \<Rightarrow> 'w) \<Rightarrow> bool" where
  "queues_call dbg P t ctx s c L U p res effect \<longleftrightarrow>
     (\<exists>s' tk. prog_run dbg P t ctx p s = Some (Inr res, s') \<and> mpmc_list (mTasks s') = mpmc_list (mTasks s) @ [tk] \<and>
        get_metadata tk = c \<and> count (mCounters s' ! unat c) = 1 \<and> (\<forall>w. run_task L U tk w = Some (effect w)))"

lemma raw_queues_call:
  assumes "submit_ready P t ctx s c h" and "layout_ok L" and "length (task_buffer d) = usable_buffer_size"
    and "dispatch_of L d clo = Some tk"
  shows "queues_call dbg P t ctx s c L U (submit_raw dbg True null_sync [tk]) \<lparr>sync_handle = h\<rparr> (call_closure U clo)"
proof -
  obtain r free hs where
    r: "failed s = None" "current t s < length (mFibers s)" "native (mFibers s ! current t s) = Running ctx r"
      "mpmc_ok (mFreeCounters s)" "mpmc_list (mFreeCounters s) = c # free" "unat c < length (mCounters s)"
      "counter_shape (mCounters s ! unat c)" "pool_acquire P (mCounterHandles s) = (h, hs)"
      "pool_index P (pool_set_index P hs h c) h = c" "mpmc_ok (mTasks s)"
      "length (mpmc_list (mTasks s)) + length [tk] \<le> length (mBuffer (mTasks s))"
    using assms(1) unfolding submit_ready_def by auto
  have "\<exists>s'. prog_run dbg P t ctx (submit_raw dbg True null_sync [tk]) s = Some (Inr \<lparr>sync_handle = h\<rparr>, s') \<and>
      mpmc_list (mTasks s') = mpmc_list (mTasks s) @ [set_metadata c tk] \<and> count (mCounters s' ! unat c) = 1"
    using submit_raw_runs [OF r, of dbg] by auto
  moreover have "execute_and_cleanup (set_metadata c tk) = CallLambda (closure_type L clo) (closure_bytes L clo)"
    using assms(3,4) by (auto simp: dispatch_of_def task_lambda_def execute_and_cleanup_def set_metadata_def place_def split: if_splits)
  ultimately show ?thesis using assms(2)
    by (fastforce simp: queues_call_def run_task_def layout_ok_def get_metadata_def set_metadata_def)
qed

lemma future_queues_call:
  assumes "queues_call dbg P t ctx s c L U p sy e"
  shows "queues_call dbg P t ctx s c L U (prog_bind p (\<lambda>s. Return (set_sync s (future_new a)))) (set_sync sy (future_new a)) e"
  using assms by (fastforce simp: queues_call_def prog_run_bind)

lemma call_closure_simps [simp]:
  "call_closure U \<lparr>callee_of = FunctionObject f, captured = args, result_ptr = None\<rparr> = (\<lambda>w. snd (call_function U f args w))"
  "call_closure U \<lparr>callee_of = MemberFunction m inst, captured = args, result_ptr = None\<rparr> = (\<lambda>w. snd (call_member U m inst args w))"
  "call_closure U \<lparr>callee_of = FunctionObject f, captured = args, result_ptr = Some a\<rparr> =
     (\<lambda>w. case call_function U f args w of (v, w') \<Rightarrow> write_result U a v w')"
  "call_closure U \<lparr>callee_of = MemberFunction m inst, captured = args, result_ptr = Some a\<rparr> =
     (\<lambda>w. case call_member U m inst args w of (v, w') \<Rightarrow> write_result U a v w')"
  by (auto simp: call_closure_def call_callee_def fun_eq_iff split: prod.split)


text \<open>The overloads for a new sync object are those for one without a handle.\<close>

lemma new_sync_overloads:
  "submit_args_new dbg alive L U d f args = submit_args dbg alive L U d null_sync f args"
  "submit_member_new dbg alive L U d m inst args = submit_member dbg alive L U d null_sync m inst args"
  by (simp_all add: submit_args_new_def submit_member_new_def)

section \<open>A concrete layout\<close>

text \<open>One function and one member function; values are bytes, and addresses are written in unary.\<close>

definition unary :: "nat \<Rightarrow> byte list" where
  "unary n = replicate n 1 @ [0]"

definition read_unary :: "byte list \<Rightarrow> nat \<times> byte list" where
  "read_unary bs = (let n = length (takeWhile (\<lambda>b. b \<noteq> 0) bs) in (n, drop (Suc n) bs))"

lemma read_unary [simp]: "read_unary (unary n @ bs) = (n, bs)"
proof -
  have "takeWhile (\<lambda>b. b \<noteq> 0) (unary n @ bs) = replicate n (1 :: byte)"
    by (induction n) (simp_all add: unary_def)
  then show ?thesis by (simp add: read_unary_def) (simp add: unary_def)
qed

definition nat_of_option :: "nat option \<Rightarrow> nat" where
  "nat_of_option x = (case x of None \<Rightarrow> 0 | Some a \<Rightarrow> Suc a)"

definition option_of_nat :: "nat \<Rightarrow> nat option" where
  "option_of_nat n = (case n of 0 \<Rightarrow> None | Suc a \<Rightarrow> Some a)"

definition sample_layout :: "(unit, unit, byte) layout" where
  "sample_layout = \<lparr>closure_type = (\<lambda>c. case callee_of c of FunctionObject _ \<Rightarrow> 0 | MemberFunction _ _ \<Rightarrow> 1),
     closure_bytes = (\<lambda>c. unary (case callee_of c of FunctionObject _ \<Rightarrow> 0 | MemberFunction _ i \<Rightarrow> i) @
       unary (nat_of_option (result_ptr c)) @ captured c),
     closure_at = (\<lambda>T bs. case read_unary bs of (i, bs') \<Rightarrow> case read_unary bs' of (p, vs) \<Rightarrow>
       Some \<lparr>callee_of = (if T = 0 then FunctionObject () else MemberFunction () i), captured = vs,
         result_ptr = option_of_nat p\<rparr>)\<rparr>"

definition sample_code :: "(unit, unit, byte, byte list) user_code" where
  "sample_code = \<lparr>call_function = (\<lambda>_ args w. (7, w @ args)), call_member = (\<lambda>_ i args w. (9, w @ of_nat i # args)),
     write_result = (\<lambda>p v w. w @ [v]), moved_value = (\<lambda>_. 0)\<rparr>"

lemma sample_layout_ok: "layout_ok sample_layout"
proof -
  have "closure_at sample_layout (closure_type sample_layout c) (closure_bytes sample_layout c) = Some c" for c
    by (cases c; cases "callee_of c"; cases "result_ptr c")
      (auto simp: sample_layout_def nat_of_option_def option_of_nat_def)
  then show ?thesis by (simp add: layout_ok_def)
qed


end
