(* ===== verification/Reclaimer.thy ===== *)
theory Reclaimer
  imports Chase_Lev
begin

text \<open>
  The list of \<open>buffer_tls\<close> entries of a work-stealing deque (container/spmc_queue.hh), to which thieves add
  themselves concurrently by \<open>register_thread\<close>, in single atomic actions, and its destructor. The other
  theories of the deque use the registration as one step, at the head of a list.
\<close>

section \<open>Registration\<close>

text \<open>
  Entries live at addresses, with their \<open>next\<close> pointer. A thread has allocated its entry, is about to load
  the head of the list into its \<open>next\<close>, or is about to compare and exchange; \<open>registered\<close> collects the entries
  that were returned, with the thread.
\<close>

datatype reg_pc = RegIdle | RegLoad nat | RegExchange nat

record reg_state =
  entries :: "nat \<Rightarrow> nat option option"
  list_head :: "nat option"
  fresh_entry :: nat
  reg_pcs :: "nat \<Rightarrow> reg_pc"
  registered :: "(nat \<times> nat) list"

definition reclaimer_new :: reg_state where
  "reclaimer_new = \<lparr>entries = (\<lambda>_. None), list_head = None, fresh_entry = 0, reg_pcs = (\<lambda>_. RegIdle), registered = []\<rparr>"

definition set_reg :: "nat \<Rightarrow> reg_pc \<Rightarrow> reg_state \<Rightarrow> reg_state" where
  "set_reg t p s = s\<lparr>reg_pcs := (reg_pcs s)(t := p)\<rparr>"

text \<open>
  A weak exchange may also fail without a reason (\<open>spurious\<close>). A failed one stores the head it has found in
  \<open>next\<close>, and the loop loads it again.
\<close>

definition register_step :: "bool \<Rightarrow> nat \<Rightarrow> reg_state \<Rightarrow> reg_state" where
  "register_step spurious t s =
     (case reg_pcs s t of
        RegIdle \<Rightarrow> set_reg t (RegLoad (fresh_entry s))
          (s\<lparr>entries := (entries s)(fresh_entry s \<mapsto> None), fresh_entry := Suc (fresh_entry s)\<rparr>)
      | RegLoad a \<Rightarrow> set_reg t (RegExchange a) (s\<lparr>entries := (entries s)(a \<mapsto> list_head s)\<rparr>)
      | RegExchange a \<Rightarrow>
          if entries s a = Some (list_head s) \<and> \<not> spurious
          then set_reg t RegIdle (s\<lparr>list_head := Some a, registered := (t, a) # registered s\<rparr>)
          else set_reg t (RegLoad a) (s\<lparr>entries := (entries s)(a \<mapsto> list_head s)\<rparr>))"

section \<open>The destructor\<close>

text \<open>\<open>None\<close> when it would read or free an entry that is not there.\<close>

partial_function (option) reclaimer_destroy :: "nat option \<Rightarrow> reg_state \<Rightarrow> reg_state option" where
  "reclaimer_destroy head s =
     (case head of
        None \<Rightarrow> Some s
      | Some a \<Rightarrow> (case entries s a of
          None \<Rightarrow> None
        | Some n \<Rightarrow> reclaimer_destroy n (s\<lparr>entries := (entries s)(a := None)\<rparr>)))"

declare reclaimer_destroy.simps [code]

section \<open>Invariant\<close>

fun reg_chain :: "(nat \<Rightarrow> nat option option) \<Rightarrow> nat option \<Rightarrow> nat list \<Rightarrow> bool" where
  "reg_chain e h [] \<longleftrightarrow> h = None"
| "reg_chain e h (a # as) \<longleftrightarrow> h = Some a \<and> (\<exists>n. e a = Some n \<and> reg_chain e n as)"

fun own_entry :: "reg_pc \<Rightarrow> nat option" where
  "own_entry RegIdle = None" | "own_entry (RegLoad a) = Some a" | "own_entry (RegExchange a) = Some a"

definition reg_inv :: "reg_state \<Rightarrow> bool" where
  "reg_inv s \<longleftrightarrow> reg_chain (entries s) (list_head s) (map snd (registered s)) \<and> distinct (map snd (registered s)) \<and>
     (\<forall>a. entries s a \<noteq> None \<longleftrightarrow> a < fresh_entry s) \<and>
     (\<forall>a. a < fresh_entry s \<longleftrightarrow> a \<in> set (map snd (registered s)) \<or> (\<exists>t. own_entry (reg_pcs s t) = Some a)) \<and>
     (\<forall>t a. own_entry (reg_pcs s t) = Some a \<longrightarrow> a \<notin> set (map snd (registered s))) \<and>
     (\<forall>t u a. own_entry (reg_pcs s t) = Some a \<longrightarrow> own_entry (reg_pcs s u) = Some a \<longrightarrow> t = u)"

lemma reg_chain_cong: "(\<And>a. a \<in> set as \<Longrightarrow> e' a = e a) \<Longrightarrow> reg_chain e' h as = reg_chain e h as"
  by (induction as arbitrary: h) auto

lemma reg_new_inv: "reg_inv reclaimer_new"
  by (simp add: reg_inv_def reclaimer_new_def)

lemma reg_chain_other: "a \<notin> set as \<Longrightarrow> reg_chain (e(a := x)) h as = reg_chain e h as"
  by (rule reg_chain_cong) auto

text \<open>The parts of the invariant, one at a time.\<close>

lemma reg_invD:
  assumes "reg_inv s"
  shows "reg_chain (entries s) (list_head s) (map snd (registered s))" "distinct (map snd (registered s))"
    "entries s a \<noteq> None \<longleftrightarrow> a < fresh_entry s"
    "a < fresh_entry s \<longleftrightarrow> a \<in> set (map snd (registered s)) \<or> (\<exists>t. own_entry (reg_pcs s t) = Some a)"
    "own_entry (reg_pcs s t) = Some a \<Longrightarrow> a \<notin> set (map snd (registered s))"
    "own_entry (reg_pcs s t) = Some a \<Longrightarrow> own_entry (reg_pcs s u) = Some a \<Longrightarrow> t = u"
  using assms unfolding reg_inv_def by blast+

lemma reg_invI:
  assumes "reg_chain (entries s) (list_head s) (map snd (registered s))" "distinct (map snd (registered s))"
    "\<And>a. entries s a \<noteq> None \<longleftrightarrow> a < fresh_entry s"
    "\<And>a. a < fresh_entry s \<longleftrightarrow> a \<in> set (map snd (registered s)) \<or> (\<exists>t. own_entry (reg_pcs s t) = Some a)"
    "\<And>t a. own_entry (reg_pcs s t) = Some a \<Longrightarrow> a \<notin> set (map snd (registered s))"
    "\<And>t u a. own_entry (reg_pcs s t) = Some a \<Longrightarrow> own_entry (reg_pcs s u) = Some a \<Longrightarrow> t = u"
  shows "reg_inv s"
  unfolding reg_inv_def by (intro conjI allI impI; rule assms; assumption)

text \<open>A step of a thread that keeps its entry, and changes only the \<open>next\<close> pointer of it.\<close>

lemma reg_keeps:
  assumes inv: "reg_inv s" and own: "own_entry (reg_pcs s t) = Some a" "own_entry p = Some a"
  shows "reg_inv (set_reg t p (s\<lparr>entries := (entries s)(a \<mapsto> n)\<rparr>))"
proof -
  note d = reg_invD [OF inv]
  let ?s = "set_reg t p (s\<lparr>entries := (entries s)(a \<mapsto> n)\<rparr>)"
  have pcs: "own_entry (reg_pcs ?s u) = own_entry (reg_pcs s u)" for u using own by (simp add: set_reg_def)
  have rest: "registered ?s = registered s" "fresh_entry ?s = fresh_entry s" "list_head ?s = list_head s"
    "entries ?s = (entries s)(a \<mapsto> n)" by (simp_all add: set_reg_def)
  have a: "a \<notin> set (map snd (registered s))" "a < fresh_entry s" using d(4,5) own(1) by blast+
  show ?thesis
  proof (rule reg_invI, unfold pcs rest)
    show "reg_chain ((entries s)(a \<mapsto> n)) (list_head s) (map snd (registered s))"
      using d(1) reg_chain_other [OF a(1)] by simp
    show "((entries s)(a \<mapsto> n)) b \<noteq> None \<longleftrightarrow> b < fresh_entry s" for b using d(3) [of b] a(2) by simp
  qed (fact d)+
qed

lemma register_inv:
  assumes inv: "reg_inv s"
  shows "reg_inv (register_step spurious t s)"
proof (cases "reg_pcs s t")
  case RegIdle
  note d = reg_invD [OF inv]
  let ?a = "fresh_entry s"
  have new: "?a \<notin> set (map snd (registered s))" "\<And>u. own_entry (reg_pcs s u) \<noteq> Some ?a" using d(4) [of ?a] by auto
  let ?s = "register_step spurious t s"
  have s: "entries ?s = (entries s)(?a \<mapsto> None)" "fresh_entry ?s = Suc ?a" "list_head ?s = list_head s"
    "registered ?s = registered s" "reg_pcs ?s = (reg_pcs s)(t := RegLoad ?a)"
    using RegIdle by (simp_all add: register_step_def set_reg_def)
  have pcs: "own_entry (reg_pcs ?s u) = (if u = t then Some ?a else own_entry (reg_pcs s u))" for u by (simp add: s)
  show ?thesis
  proof (rule reg_invI)
    show "reg_chain (entries ?s) (list_head ?s) (map snd (registered ?s))" "distinct (map snd (registered ?s))"
      using d(1,2) reg_chain_other [OF new(1)] unfolding s by simp_all
    show "entries ?s b \<noteq> None \<longleftrightarrow> b < fresh_entry ?s" for b using d(3) [of b] unfolding s by auto
    have "own_entry (reg_pcs s t) = None" using RegIdle by simp
    then have "(\<exists>u. own_entry (reg_pcs ?s u) = Some b) \<longleftrightarrow> b = ?a \<or> (\<exists>u. own_entry (reg_pcs s u) = Some b)" for b
      unfolding pcs by (metis option.distinct(1) option.inject)
    then show "b < fresh_entry ?s \<longleftrightarrow> b \<in> set (map snd (registered ?s)) \<or> (\<exists>u. own_entry (reg_pcs ?s u) = Some b)" for b
      using d(4) [of b] unfolding s(2,4) by auto
    show "own_entry (reg_pcs ?s u) = Some b \<Longrightarrow> b \<notin> set (map snd (registered ?s))" for u b
      using d(5) [of u b] new(1) unfolding pcs s(4) by (auto split: if_splits)
    show "own_entry (reg_pcs ?s u) = Some b \<Longrightarrow> own_entry (reg_pcs ?s v) = Some b \<Longrightarrow> u = v" for u v b
      using d(6) [of u b v] new(2) unfolding pcs by (auto split: if_splits)
  qed
next
  case (RegLoad a)
  then show ?thesis using reg_keeps [OF inv, of t a "RegExchange a"] by (simp add: register_step_def)
next
  case (RegExchange a)
  note d = reg_invD [OF inv]
  have own: "own_entry (reg_pcs s t) = Some a" using RegExchange by simp
  have a: "a \<notin> set (map snd (registered s))" "a < fresh_entry s" using d(4,5) own by blast+
  show ?thesis
  proof (cases "entries s a = Some (list_head s) \<and> \<not> spurious")
    case False
    then show ?thesis using RegExchange reg_keeps [OF inv own, of "RegLoad a"] by (auto simp: register_step_def)
  next
    case True
    let ?s = "register_step spurious t s"
    have s: "entries ?s = entries s" "fresh_entry ?s = fresh_entry s" "list_head ?s = Some a"
      "registered ?s = (t, a) # registered s" "reg_pcs ?s = (reg_pcs s)(t := RegIdle)"
      using RegExchange True by (simp_all add: register_step_def set_reg_def)
    have pcs: "own_entry (reg_pcs ?s u) = (if u = t then None else own_entry (reg_pcs s u))" for u by (simp add: s)
    show ?thesis
    proof (rule reg_invI)
      show "reg_chain (entries ?s) (list_head ?s) (map snd (registered ?s))" "distinct (map snd (registered ?s))"
        using d(1,2) True a(1) unfolding s by auto
      show "entries ?s b \<noteq> None \<longleftrightarrow> b < fresh_entry ?s" for b using d(3) [of b] unfolding s by simp
      have "(\<exists>u. own_entry (reg_pcs s u) = Some b) \<longleftrightarrow> b = a \<or> (\<exists>u. own_entry (reg_pcs ?s u) = Some b)" for b
        using own d(6) unfolding pcs by (metis option.distinct(1) option.inject)
      then show "b < fresh_entry ?s \<longleftrightarrow> b \<in> set (map snd (registered ?s)) \<or> (\<exists>u. own_entry (reg_pcs ?s u) = Some b)" for b
        using d(4) [of b] unfolding s(2,4) by auto
      show "own_entry (reg_pcs ?s u) = Some b \<Longrightarrow> b \<notin> set (map snd (registered ?s))" for u b
        using d(5) [of u b] d(6) [of u b t] own unfolding pcs s(4) by (auto split: if_splits)
      show "own_entry (reg_pcs ?s u) = Some b \<Longrightarrow> own_entry (reg_pcs ?s v) = Some b \<Longrightarrow> u = v" for u v b
        using d(6) [of u b v] unfolding pcs by (auto split: if_splits)
    qed
  qed
qed

section \<open>Properties\<close>

text \<open>Steps of threads in any order.\<close>

fun register_run :: "(bool \<times> nat) list \<Rightarrow> reg_state \<Rightarrow> reg_state" where
  "register_run [] s = s"
| "register_run (x # xs) s = register_run xs (register_step (fst x) (snd x) s)"

lemma run_inv: "reg_inv s \<Longrightarrow> reg_inv (register_run xs s)"
  by (induction xs arbitrary: s) (simp_all add: register_inv)

text \<open>The destructor takes the chain apart, from the head on.\<close>

lemma destroy_chain:
  "reg_chain (entries s) h as \<Longrightarrow> distinct as \<Longrightarrow>
   \<exists>s'. reclaimer_destroy h s = Some s' \<and> (\<forall>a. entries s' a = (if a \<in> set as then None else entries s a))"
proof (induction as arbitrary: h s)
  case Nil
  then show ?case by (simp add: reclaimer_destroy.simps)
next
  case (Cons a as)
  then obtain n where n: "h = Some a" "entries s a = Some n" "reg_chain (entries s) n as" by auto
  let ?s = "s\<lparr>entries := (entries s)(a := None)\<rparr>"
  have "reg_chain (entries ?s) n as" using n(3) reg_chain_other [of a as "entries s" None n] Cons.prems(2) by simp
  from Cons.IH [OF this] Cons.prems(2) obtain s' where
    "reclaimer_destroy n ?s = Some s'" "\<forall>b. entries s' b = (if b \<in> set as then None else entries ?s b)" by auto
  then show ?case using n by (auto simp: reclaimer_destroy.simps)
qed

lemma reg_chain_unique: "reg_chain e h as \<Longrightarrow> reg_chain e h bs \<Longrightarrow> as = bs"
proof (induction as arbitrary: h bs)
  case Nil
  then show ?case by (cases bs) auto
next
  case (Cons a as)
  then show ?case by (cases bs) auto
qed

text \<open>
  C38: no registration of a thief is lost. However the steps of any number of registering threads interleave, and
  whichever exchanges fail, the list holds exactly the entries that \<open>register_thread\<close> has returned, the latest
  first, each once and each for one thread only. When no thread is registering, the destructor of the list
  frees every entry there is, without touching a freed one.
\<close>

theorem registrations_kept:
  "let s = register_run xs reclaimer_new in
     reg_chain (entries s) (list_head s) (map snd (registered s)) \<and> distinct (map snd (registered s)) \<and>
     (\<forall>t a. own_entry (reg_pcs s t) = Some a \<longrightarrow> a \<notin> set (map snd (registered s))) \<and>
     ((\<forall>t. reg_pcs s t = RegIdle) \<longrightarrow>
       (\<exists>s'. reclaimer_destroy (list_head s) s = Some s' \<and> (\<forall>a. entries s' a = None)))"
proof -
  let ?s = "register_run xs reclaimer_new"
  note d = reg_invD [OF run_inv [OF reg_new_inv, of xs]]
  from destroy_chain [OF d(1,2)] obtain s' where
    s': "reclaimer_destroy (list_head ?s) ?s = Some s'"
      "\<forall>a. entries s' a = (if a \<in> set (map snd (registered ?s)) then None else entries ?s a)" by blast
  have "\<forall>a. entries s' a = None" if "\<forall>t. reg_pcs ?s t = RegIdle"
  proof
    fix a
    have "a \<in> set (map snd (registered ?s)) \<or> entries ?s a = None" using d(3) [of a] d(4) [of a] that by auto
    then show "entries s' a = None" using s'(2) by auto
  qed
  then show ?thesis using d(1,2,5) s'(1) unfolding Let_def by blast
qed

text \<open>Thread 1 gets in between the load and the exchange of thread 0, which then needs a second round.\<close>

theorem registrations_kept_witness:
  "let s = register_run (map (Pair False) [0, 0, 1, 1, 1, 0, 0, 0]) reclaimer_new in
     registered s = [(0, 0), (1, 1)] \<and> (\<exists>s'. reclaimer_destroy (list_head s) s = Some s' \<and> (\<forall>a. entries s' a = None))"
proof -
  let ?s = "register_run (map (Pair False) [0, 0, 1, 1, 1, 0, 0, 0]) reclaimer_new"
  have "registered ?s = [(0, 0), (1, 1)]" "\<forall>t. reg_pcs ?s t = RegIdle"
    by (simp_all add: register_step_def set_reg_def reclaimer_new_def)
  with registrations_kept [of "map (Pair False) [0, 0, 1, 1, 1, 0, 0, 0]"] show ?thesis unfolding Let_def by blast
qed

end
