(* ===== verification/Windows_Threads.thy ===== *)
theory Windows_Threads
  imports Prelude
begin

text \<open>
  The Windows half of native/thread.hh: new threads, with or without a core, and events. The functions of the
  platform are parameters; \<open>windows_documented\<close> states what its documentation says of them, in terms of the
  threads it has made.
\<close>

section \<open>The functions of the platform\<close>

text \<open>A handle is \<open>None\<close> when it is null. \<open>w_begin\<close> is \<open>_beginthreadex\<close>, with the stack size and \<open>CREATE_SUSPENDED\<close>.\<close>

record 'w windows =
  w_begin :: "u32 \<Rightarrow> bool \<Rightarrow> 'w \<Rightarrow> nat option \<times> 'w"
  w_affinity :: "nat \<Rightarrow> usize \<Rightarrow> 'w \<Rightarrow> 'w"
  w_thread_id :: "nat \<Rightarrow> 'w \<Rightarrow> u32"
  w_resume :: "nat \<Rightarrow> 'w \<Rightarrow> 'w"
  w_enter :: "'w \<Rightarrow> 'w"
  w_leave :: "'w \<Rightarrow> 'w"
  w_sleep :: "u32 \<Rightarrow> 'w \<Rightarrow> bool \<times> 'w"
  w_last_error :: "'w \<Rightarrow> u32"

record win_thread =
  wt_handle :: "nat option"
  wt_id :: u32

definition error_timeout :: u32 where "error_timeout = 1460"

section \<open>Threads\<close>

definition win_create_thread ::
  "bool \<Rightarrow> 'w windows \<Rightarrow> usize \<Rightarrow> win_thread \<Rightarrow> 'w \<Rightarrow> failure + bool \<times> win_thread \<times> 'w" where
  "win_create_thread dbg W stack_size return_thread w =
     and_then (cc_assert dbg (stack_size \<le> ucast (- 1 :: u32)) ''stack_size <= unsigned(-1)'') (\<lambda>_.
       case w_begin W (ucast stack_size) False w of
         (handle, w1) \<Rightarrow>
           let rt = return_thread\<lparr>wt_handle := handle\<rparr>
           in Inr (handle \<noteq> None, (case handle of None \<Rightarrow> rt | Some h \<Rightarrow> rt\<lparr>wt_id := w_thread_id W h w1\<rparr>), w1))"

text \<open>The shift is undefined for a core of 64 or more, which is \<open>OutOfRange\<close> here.\<close>

definition win_create_pinned ::
  "bool \<Rightarrow> 'w windows \<Rightarrow> usize \<Rightarrow> usize \<Rightarrow> win_thread \<Rightarrow> 'w \<Rightarrow> failure + bool \<times> win_thread \<times> 'w" where
  "win_create_pinned dbg W stack_size core_affinity return_thread w =
     and_then (cc_assert dbg (stack_size \<le> ucast (- 1 :: u32)) ''stack_size <= unsigned(-1)'') (\<lambda>_.
       case w_begin W (ucast stack_size) True w of
         (None, w1) \<Rightarrow> Inr (False, return_thread, w1)
       | (Some h, w1) \<Rightarrow>
           if 64 \<le> core_affinity then Inl OutOfRange
           else let w2 = w_affinity W h (push_bit (unat core_affinity) 1) w1
                in Inr (True, return_thread\<lparr>wt_handle := Some h, wt_id := w_thread_id W h w2\<rparr>, w_resume W h w2))"

section \<open>Events\<close>

definition win_wait_for_event :: "bool \<Rightarrow> 'w windows \<Rightarrow> u32 \<Rightarrow> 'w \<Rightarrow> failure + bool \<times> 'w" where
  "win_wait_for_event dbg W milliseconds w =
     (case w_sleep W milliseconds (w_enter W w) of
        (retval, w1) \<Rightarrow>
          and_then (cc_assert dbg (if retval then True else w_last_error W w1 = error_timeout) ''Failed to wait on native CV'')
            (\<lambda>_. Inr (retval, w_leave W w1)))"

section \<open>What the documentation says\<close>

text \<open>A thread: its handle, its stack size, the cores it may run on if they were set, whether it has started.\<close>

record win_view_thread =
  vt_handle :: nat
  vt_stack :: u32
  vt_mask :: "usize option"
  vt_started :: bool

definition update_thread :: "nat \<Rightarrow> (win_view_thread \<Rightarrow> win_view_thread) \<Rightarrow> win_view_thread list \<Rightarrow> win_view_thread list" where
  "update_thread h f = map (\<lambda>x. if vt_handle x = h then f x else x)"

text \<open>
  \<open>T\<close> gives the threads made so far, \<open>D\<close> how often the calling thread is in the critical section. A new
  handle differs from the others. Waiting leaves the critical section and enters it again, also when it fails.
\<close>

definition windows_documented :: "'w windows \<Rightarrow> ('w \<Rightarrow> win_view_thread list) \<Rightarrow> ('w \<Rightarrow> nat) \<Rightarrow> bool" where
  "windows_documented W T D \<longleftrightarrow>
     (\<forall>n susp w w'. w_begin W n susp w = (None, w') \<longrightarrow> T w' = T w) \<and>
     (\<forall>n susp w h w'. w_begin W n susp w = (Some h, w') \<longrightarrow> h \<notin> vt_handle ` set (T w) \<and>
        T w' = T w @ [\<lparr>vt_handle = h, vt_stack = n, vt_mask = None, vt_started = \<not> susp\<rparr>]) \<and>
     (\<forall>h m w. T (w_affinity W h m w) = update_thread h (\<lambda>x. x\<lparr>vt_mask := Some m\<rparr>) (T w)) \<and>
     (\<forall>h w. T (w_resume W h w) = update_thread h (\<lambda>x. x\<lparr>vt_started := True\<rparr>) (T w)) \<and>
     (\<forall>w. D (w_enter W w) = Suc (D w)) \<and> (\<forall>w. D (w_leave W w) = D w - 1) \<and>
     (\<forall>ms w r w'. w_sleep W ms w = (r, w') \<longrightarrow> D w' = D w)"

lemma update_thread_append [simp]:
  "update_thread h f (xs @ [x]) = update_thread h f xs @ [if vt_handle x = h then f x else x]"
  by (simp add: update_thread_def)

lemma update_thread_other: "h \<notin> vt_handle ` set xs \<Longrightarrow> update_thread h f xs = xs"
  by (induction xs) (auto simp: update_thread_def)

text \<open>
  Both functions make one thread that runs when they return true, and none otherwise. A thread with a core
  starts only when its mask is set. Its stack has the wanted size up to 32 bits; a larger one fails the
  assertion, and without it loses its upper bits.
\<close>

lemma win_create_correct:
  assumes doc: "windows_documented W T D"
  shows "win_create_thread dbg W n rt w = Inr (ok, rt', w') \<Longrightarrow>
      if ok then \<exists>h. wt_handle rt' = Some h \<and> T w' = T w @ [\<lparr>vt_handle = h, vt_stack = ucast n, vt_mask = None, vt_started = True\<rparr>]
      else T w' = T w \<and> wt_handle rt' = None"
    and "win_create_pinned dbg W n core rt w = Inr (ok, rt', w') \<Longrightarrow>
      if ok then \<exists>h. wt_handle rt' = Some h \<and>
        T w' = T w @ [\<lparr>vt_handle = h, vt_stack = ucast n, vt_mask = Some (push_bit (unat core) 1), vt_started = True\<rparr>]
      else T w' = T w \<and> rt' = rt"
    and "win_create_thread dbg W n rt w = Inl e \<Longrightarrow> dbg \<and> 2 ^ 32 \<le> unat n"
    and "unat n < 2 ^ 32 \<Longrightarrow> unat (ucast n :: u32) = unat n"
proof -
  have d: "w_begin W n susp w = (None, w') \<Longrightarrow> T w' = T w"
    "w_begin W n susp w = (Some h, w') \<Longrightarrow> h \<notin> vt_handle ` set (T w) \<and>
        T w' = T w @ [\<lparr>vt_handle = h, vt_stack = n, vt_mask = None, vt_started = \<not> susp\<rparr>]"
    "T (w_affinity W h m w) = update_thread h (\<lambda>x. x\<lparr>vt_mask := Some m\<rparr>) (T w)"
    "T (w_resume W h w) = update_thread h (\<lambda>x. x\<lparr>vt_started := True\<rparr>) (T w)" for n susp w h w' m
    using doc unfolding windows_documented_def by blast+
  obtain r w1 where b: "w_begin W (ucast n) False w = (r, w1)" by fastforce
  show "win_create_thread dbg W n rt w = Inr (ok, rt', w') \<Longrightarrow>
      if ok then \<exists>h. wt_handle rt' = Some h \<and> T w' = T w @ [\<lparr>vt_handle = h, vt_stack = ucast n, vt_mask = None, vt_started = True\<rparr>]
      else T w' = T w \<and> wt_handle rt' = None"
    using b d(1,2) [of "ucast n" False w] by (cases r) (auto simp: win_create_thread_def and_then_eq_Inr Let_def)
  obtain r2 w2 where b2: "w_begin W (ucast n) True w = (r2, w2)" by fastforce
  show "win_create_pinned dbg W n core rt w = Inr (ok, rt', w') \<Longrightarrow>
      if ok then \<exists>h. wt_handle rt' = Some h \<and>
        T w' = T w @ [\<lparr>vt_handle = h, vt_stack = ucast n, vt_mask = Some (push_bit (unat core) 1), vt_started = True\<rparr>]
      else T w' = T w \<and> rt' = rt"
    using b2 d(1,2) [of "ucast n" True w] d(3,4) update_thread_other
    by (cases r2) (auto simp: win_create_pinned_def and_then_eq_Inr Let_def split: if_splits)
  have max32: "unat (ucast (- 1 :: u32) :: usize) = 2 ^ 32 - 1"
    by (simp add: unsigned_ucast_eq unsigned_minus_1_eq_mask mask_eq_exp_minus_1 take_bit_nat_eq_self)
  show "win_create_thread dbg W n rt w = Inl e \<Longrightarrow> dbg \<and> 2 ^ 32 \<le> unat n"
    using b max32 by (auto simp: win_create_thread_def cc_assert_def and_then_def word_le_nat_alt Let_def split: if_splits)
  show "unat n < 2 ^ 32 \<Longrightarrow> unat (ucast n :: u32) = unat n"
    by (simp add: unsigned_ucast_eq take_bit_nat_eq_self)
qed

text \<open>A wait says whether it was woken, and leaves the critical section on the way out.\<close>

lemma win_wait_correct:
  assumes doc: "windows_documented W T D" and call: "win_wait_for_event dbg W ms w = Inr (r, w')"
  shows "r = fst (w_sleep W ms (w_enter W w))" and "D w' = D w"
proof -
  obtain r1 w1 where s: "w_sleep W ms (w_enter W w) = (r1, w1)" by fastforce
  have d: "D (w_enter W w) = Suc (D w)" "D (w_leave W w1) = D w1 - 1" "D w1 = D (w_enter W w)"
    using doc s unfolding windows_documented_def by blast+
  show "r = fst (w_sleep W ms (w_enter W w))" "D w' = D w"
    using call s d by (auto simp: win_wait_for_event_def and_then_eq_Inr)
qed

end
