(* ===== verification/Deque_Handles.thy ===== *)
theory Deque_Handles
  imports Work_Stealing
begin

text \<open>
  The two ends of a work-stealing deque as objects (\<open>Worker\<close>, \<open>Stealer\<close>, \<open>make_spmc_queue\<close>,
  container/spmc_queue.hh): they share their deque through a \<open>std::shared_ptr\<close>, and every \<open>Stealer\<close> has an
  entry of its own in the list of thieves. Shown is that a deque is deleted with its last handle and used by
  none after that, and that no two stealers have the same entry, which the runs of \<open>Chase_Lev_Runs\<close> rely on.
\<close>

section \<open>Shared deques\<close>

text \<open>The variables hold handles; a moved-from, destroyed or default-constructed one has no deque.\<close>

datatype deque_handle = SharedPtr "nat option" | WorkerEnd "nat option" | StealerEnd "nat option" "nat option"

fun deq_of :: "deque_handle \<Rightarrow> nat option" where
  "deq_of (SharedPtr p) = p" | "deq_of (WorkerEnd p) = p" | "deq_of (StealerEnd p e) = p"

record 'a shared_deque =
  shared :: "'a deque"
  use_count :: nat

record 'a hstate =
  blocks :: "nat \<Rightarrow> 'a shared_deque option"
  fresh_block :: nat
  vars :: "nat \<Rightarrow> deque_handle"

definition handles_init :: "'a hstate" where
  "handles_init = \<lparr>blocks = Map.empty, fresh_block = 0, vars = (\<lambda>_. SharedPtr None)\<rparr>"

definition put_var :: "nat \<Rightarrow> deque_handle \<Rightarrow> 'a hstate \<Rightarrow> 'a hstate" where
  "put_var k x s = s\<lparr>vars := (vars s)(k := x)\<rparr>"

text \<open>
  A new reference, and the end of one: the last one deletes the deque. \<open>None\<close> when a deleted deque is used.
  The references of parameters and temporaries are counted as well, although no variable holds them.
\<close>

fun ptr_share :: "nat option \<Rightarrow> 'a hstate \<Rightarrow> 'a hstate option" where
  "ptr_share None s = Some s"
| "ptr_share (Some a) s =
     map_option (\<lambda>c. s\<lparr>blocks := (blocks s)(a \<mapsto> c\<lparr>use_count := Suc (use_count c)\<rparr>)\<rparr>) (blocks s a)"

fun ptr_release :: "nat option \<Rightarrow> 'a hstate \<Rightarrow> 'a hstate option" where
  "ptr_release None s = Some s"
| "ptr_release (Some a) s =
     (case blocks s a of
        None \<Rightarrow> None
      | Some c \<Rightarrow>
          if use_count c = 1
          then map_option (\<lambda>_. s\<lparr>blocks := (blocks s)(a := None)\<rparr>) (deque_destroy (shared c))
          else Some (s\<lparr>blocks := (blocks s)(a \<mapsto> c\<lparr>use_count := use_count c - 1\<rparr>)\<rparr>))"

text \<open>\<open>std::make_shared\<close>: the one reference is the result.\<close>

definition make_shared :: "'a \<Rightarrow> nat \<Rightarrow> 'a hstate \<Rightarrow> nat \<times> 'a hstate" where
  "make_shared d ls s =
     (fresh_block s, s\<lparr>blocks := (blocks s)(fresh_block s \<mapsto> \<lparr>shared = deque_new d ls, use_count = 1\<rparr>),
        fresh_block := Suc (fresh_block s)\<rparr>)"

text \<open>\<open>reclaimer.register_thread()\<close> of a deque: the number of the new entry, counted from the oldest.\<close>

fun deq_register :: "nat option \<Rightarrow> 'a hstate \<Rightarrow> (nat \<times> 'a hstate) option" where
  "deq_register None s = None"
| "deq_register (Some a) s =
     map_option (\<lambda>c. (length (id_list (shared c)),
         s\<lparr>blocks := (blocks s)(a \<mapsto> c\<lparr>shared := register_thread (shared c)\<rparr>)\<rparr>)) (blocks s a)"

section \<open>Construction, assignment and destruction\<close>

text \<open>The parameter \<open>d\<close> is moved into the member: its reference becomes that of the handle.\<close>

definition worker_init :: "nat \<Rightarrow> nat option \<Rightarrow> 'a hstate \<Rightarrow> 'a hstate option" where
  "worker_init k d s = Some (put_var k (WorkerEnd d) s)"

definition stealer_init :: "nat \<Rightarrow> nat option \<Rightarrow> 'a hstate \<Rightarrow> 'a hstate option" where
  "stealer_init k d s = map_option (\<lambda>(e, s'). put_var k (StealerEnd d (Some e)) s') (deq_register d s)"

definition worker_ctor :: "nat \<Rightarrow> nat option \<Rightarrow> 'a hstate \<Rightarrow> 'a hstate option" where
  "worker_ctor k d s = Option.bind (ptr_share d s) (worker_init k d)"

definition stealer_ctor :: "nat \<Rightarrow> nat option \<Rightarrow> 'a hstate \<Rightarrow> 'a hstate option" where
  "stealer_ctor k d s = Option.bind (ptr_share d s) (stealer_init k d)"

definition worker_default :: deque_handle where
  "worker_default = WorkerEnd None"

definition stealer_default :: deque_handle where
  "stealer_default = StealerEnd None None"

text \<open>The move assignment of the pointer gives up the deque the handle had; then a stealer registers.\<close>

definition worker_setDeque :: "nat \<Rightarrow> nat option \<Rightarrow> 'a hstate \<Rightarrow> 'a hstate option" where
  "worker_setDeque k d s =
     Option.bind (ptr_share d s) (\<lambda>s1.
     Option.bind (ptr_release (deq_of (vars s k)) (put_var k worker_default s1)) (worker_init k d))"

definition stealer_setDeque :: "nat \<Rightarrow> nat option \<Rightarrow> 'a hstate \<Rightarrow> 'a hstate option" where
  "stealer_setDeque k d s =
     Option.bind (ptr_share d s) (\<lambda>s1.
     Option.bind (ptr_release (deq_of (vars s k)) (put_var k stealer_default s1)) (stealer_init k d))"

text \<open>A copy of a stealer registers again; a move takes the entry along, of which the source keeps the address.\<close>

definition stealer_copy :: "nat \<Rightarrow> nat \<Rightarrow> 'a hstate \<Rightarrow> 'a hstate option" where
  "stealer_copy k j s = stealer_ctor k (deq_of (vars s j)) s"

definition worker_move :: "nat \<Rightarrow> nat \<Rightarrow> 'a hstate \<Rightarrow> 'a hstate option" where
  "worker_move k j s = Some (put_var k (WorkerEnd (deq_of (vars s j))) (put_var j (WorkerEnd None) s))"

fun entry_of :: "deque_handle \<Rightarrow> nat option" where
  "entry_of (StealerEnd p e) = e" | "entry_of h = None"

definition stealer_move :: "nat \<Rightarrow> nat \<Rightarrow> 'a hstate \<Rightarrow> 'a hstate option" where
  "stealer_move k j s =
     Some (put_var k (StealerEnd (deq_of (vars s j)) (entry_of (vars s j)))
       (put_var j (StealerEnd None (entry_of (vars s j))) s))"

definition handle_destroy :: "nat \<Rightarrow> 'a hstate \<Rightarrow> 'a hstate option" where
  "handle_destroy k s = ptr_release (deq_of (vars s k)) (put_var k (SharedPtr None) s)"

text \<open>The local pointer of \<open>make_spmc_queue\<close> ends with its call.\<close>

definition make_spmc_queue :: "'a \<Rightarrow> nat \<Rightarrow> nat \<Rightarrow> nat \<Rightarrow> 'a hstate \<Rightarrow> 'a hstate option" where
  "make_spmc_queue d ls w t s =
     (case make_shared d ls s of (a, s0) \<Rightarrow>
        Option.bind (worker_ctor w (Some a) s0) (\<lambda>s1.
        Option.bind (stealer_ctor t (Some a) s1) (ptr_release (Some a))))"

section \<open>Use\<close>

text \<open>An operation on the deque of a handle; \<open>None\<close> for a handle without one, and for a deleted deque.\<close>

definition on_deque :: "('a deque \<Rightarrow> ('r \<times> 'a deque) option) \<Rightarrow> nat option \<Rightarrow> 'a hstate \<Rightarrow> ('r \<times> 'a hstate) option" where
  "on_deque f p s =
     Option.bind p (\<lambda>a. Option.bind (blocks s a) (\<lambda>c.
       map_option (\<lambda>(r, q). (r, s\<lparr>blocks := (blocks s)(a \<mapsto> c\<lparr>shared := q\<rparr>)\<rparr>)) (f (shared c))))"

definition worker_push :: "'a \<Rightarrow> nat \<Rightarrow> 'a \<Rightarrow> 'a hstate \<Rightarrow> ('a option \<times> 'a hstate) option" where
  "worker_push d k x s = on_deque (\<lambda>q. map_option (Pair None) (push_bottom d x q)) (deq_of (vars s k)) s"

definition worker_pop :: "'a \<Rightarrow> nat \<Rightarrow> 'a hstate \<Rightarrow> ('a option \<times> 'a hstate) option" where
  "worker_pop d k s = on_deque (pop_bottom d) (deq_of (vars s k)) s"

definition stealer_op :: "nat \<Rightarrow> 'a hstate \<Rightarrow> ('a option \<times> 'a hstate) option" where
  "stealer_op k s = Option.bind (entry_of (vars s k)) (\<lambda>e. on_deque (entry_steal e) (deq_of (vars s k)) s)"

section \<open>Programs on handles\<close>

datatype 'a handle_op = DefaultWorker nat | DefaultStealer nat | MakeDeque nat nat | MakeQueue nat nat nat | NewWorker nat nat | NewStealer nat nat
  | SetWorker nat nat | SetStealer nat nat | CopyStealer nat nat | MoveWorker nat nat | MoveStealer nat nat
  | Destroy nat | PushOn nat 'a | PopOn nat | StealOn nat

text \<open>In \<open>MakeDeque\<close> a variable of the program, as in \<open>start\<close>, holds the pointer.\<close>

fun handle_step :: "'a \<Rightarrow> 'a handle_op \<Rightarrow> 'a hstate \<Rightarrow> ('a option \<times> 'a hstate) option" where
  "handle_step d (DefaultWorker k) s = Some (None, put_var k worker_default s)"
| "handle_step d (DefaultStealer k) s = Some (None, put_var k stealer_default s)"
| "handle_step d (MakeDeque ls k) s = (case make_shared d ls s of (a, s') \<Rightarrow> Some (None, put_var k (SharedPtr (Some a)) s'))"
| "handle_step d (MakeQueue ls w t) s = map_option (Pair None) (make_spmc_queue d ls w t s)"
| "handle_step d (NewWorker k p) s = map_option (Pair None) (worker_ctor k (deq_of (vars s p)) s)"
| "handle_step d (NewStealer k p) s = map_option (Pair None) (stealer_ctor k (deq_of (vars s p)) s)"
| "handle_step d (SetWorker k p) s = map_option (Pair None) (worker_setDeque k (deq_of (vars s p)) s)"
| "handle_step d (SetStealer k p) s = map_option (Pair None) (stealer_setDeque k (deq_of (vars s p)) s)"
| "handle_step d (CopyStealer k j) s = map_option (Pair None) (stealer_copy k j s)"
| "handle_step d (MoveWorker k j) s = map_option (Pair None) (worker_move k j s)"
| "handle_step d (MoveStealer k j) s = map_option (Pair None) (stealer_move k j s)"
| "handle_step d (Destroy k) s = map_option (Pair None) (handle_destroy k s)"
| "handle_step d (PushOn k x) s = worker_push d k x s"
| "handle_step d (PopOn k) s = worker_pop d k s"
| "handle_step d (StealOn k) s = stealer_op k s"

fun is_worker :: "deque_handle \<Rightarrow> bool" where
  "is_worker (WorkerEnd p) = True" | "is_worker h = False"

fun is_stealer :: "deque_handle \<Rightarrow> bool" where
  "is_stealer (StealerEnd p e) = True" | "is_stealer h = False"

fun is_ptr :: "deque_handle \<Rightarrow> bool" where
  "is_ptr (SharedPtr p) = True" | "is_ptr h = False"

text \<open>
  What a program has to respect: a variable that is initialised has no deque yet, handles have the type the
  operation is for, and only an end with a deque is used, or copied when it is a stealer.
\<close>

abbreviation free_var :: "nat \<Rightarrow> 'a hstate \<Rightarrow> bool" where
  "free_var k s \<equiv> deq_of (vars s k) = None"

fun op_fits :: "'a handle_op \<Rightarrow> 'a hstate \<Rightarrow> bool" where
  "op_fits (DefaultWorker k) s \<longleftrightarrow> free_var k s"
| "op_fits (DefaultStealer k) s \<longleftrightarrow> free_var k s"
| "op_fits (MakeDeque ls k) s \<longleftrightarrow> ls \<le> 30 \<and> free_var k s"
| "op_fits (MakeQueue ls w t) s \<longleftrightarrow> ls \<le> 30 \<and> w \<noteq> t \<and> free_var w s \<and> free_var t s"
| "op_fits (NewWorker k p) s \<longleftrightarrow> free_var k s \<and> is_ptr (vars s p)"
| "op_fits (NewStealer k p) s \<longleftrightarrow> free_var k s \<and> is_ptr (vars s p) \<and> \<not> free_var p s"
| "op_fits (SetWorker k p) s \<longleftrightarrow> is_worker (vars s k) \<and> is_ptr (vars s p)"
| "op_fits (SetStealer k p) s \<longleftrightarrow> is_stealer (vars s k) \<and> is_ptr (vars s p) \<and> \<not> free_var p s"
| "op_fits (CopyStealer k j) s \<longleftrightarrow> free_var k s \<and> is_stealer (vars s j) \<and> \<not> free_var j s"
| "op_fits (MoveWorker k j) s \<longleftrightarrow> free_var k s \<and> k \<noteq> j \<and> is_worker (vars s j)"
| "op_fits (MoveStealer k j) s \<longleftrightarrow> free_var k s \<and> k \<noteq> j \<and> is_stealer (vars s j)"
| "op_fits (Destroy k) s \<longleftrightarrow> True"
| "op_fits (PushOn k x) s \<longleftrightarrow> is_worker (vars s k) \<and> \<not> free_var k s"
| "op_fits (PopOn k) s \<longleftrightarrow> is_worker (vars s k) \<and> \<not> free_var k s"
| "op_fits (StealOn k) s \<longleftrightarrow> is_stealer (vars s k) \<and> \<not> free_var k s"

section \<open>Invariant\<close>

definition holders :: "'a hstate \<Rightarrow> nat \<Rightarrow> nat set" where
  "holders s a = {i. deq_of (vars s i) = Some a}"

text \<open>\<open>X\<close> are the references that no variable holds.\<close>

definition refs :: "nat option list \<Rightarrow> 'a hstate \<Rightarrow> nat \<Rightarrow> nat" where
  "refs X s a = card (holders s a) + count_list X (Some a)"

definition block_ok :: "nat \<Rightarrow> nat option list \<Rightarrow> 'a hstate \<Rightarrow> nat \<Rightarrow> bool" where
  "block_ok n X s a \<longleftrightarrow>
     (case blocks s a of
        None \<Rightarrow> refs X s a = 0
      | Some c \<Rightarrow> use_count c = refs X s a \<and> 0 < refs X s a \<and> deque_fit n (shared c))"

definition own_entries :: "'a hstate \<Rightarrow> bool" where
  "own_entries s \<longleftrightarrow>
     (\<forall>i a e. vars s i = StealerEnd (Some a) e \<longrightarrow>
        (\<exists>m c. e = Some m \<and> blocks s a = Some c \<and> m < length (id_list (shared c)))) \<and>
     (\<forall>i j a e. vars s i = StealerEnd (Some a) e \<longrightarrow> vars s j = StealerEnd (Some a) e \<longrightarrow> i = j)"

definition hinv :: "nat \<Rightarrow> nat option list \<Rightarrow> 'a hstate \<Rightarrow> bool" where
  "hinv n X s \<longleftrightarrow> finite {i. deq_of (vars s i) \<noteq> None} \<and> (\<forall>a \<ge> fresh_block s. blocks s a = None) \<and>
     (\<forall>a. block_ok n X s a) \<and> own_entries s"

lemma hinvD:
  assumes "hinv n X s"
  shows "finite {i. deq_of (vars s i) \<noteq> None}" "a \<ge> fresh_block s \<Longrightarrow> blocks s a = None" "block_ok n X s a" "own_entries s"
  using assms by (simp_all add: hinv_def)

lemma entriesD:
  assumes "own_entries s" and "vars s i = StealerEnd (Some a) e"
  shows "\<exists>m c. e = Some m \<and> blocks s a = Some c \<and> m < length (id_list (shared c))"
    and "vars s j = StealerEnd (Some a) e \<Longrightarrow> i = j"
  using assms unfolding own_entries_def by blast+

lemma finite_holders: "hinv n X s \<Longrightarrow> finite (holders s a)"
  unfolding holders_def by (rule finite_subset [OF _ hinvD(1)]) auto

lemma holders_put [simp]:
  "holders (put_var k x s) a = (if deq_of x = Some a then insert k (holders s a) else holders s a - {k})"
  by (auto simp: holders_def put_var_def)

lemma holders_cong [simp]: "holders (s\<lparr>blocks := b\<rparr>) a = holders s a" "holders (s\<lparr>fresh_block := f\<rparr>) a = holders s a"
  by (simp_all add: holders_def)

lemma put_var_simps [simp]:
  "blocks (put_var k x s) = blocks s" "fresh_block (put_var k x s) = fresh_block s"
  "vars (put_var k x s) i = (if i = k then x else vars s i)"
  by (simp_all add: put_var_def)

lemma finite_put: "finite {i. deq_of (vars s i) \<noteq> None} \<Longrightarrow> finite {i. deq_of (vars (put_var k x s) i) \<noteq> None}"
  by (rule finite_subset [of _ "insert k {i. deq_of (vars s i) \<noteq> None}"]) auto

text \<open>A reference is to a deque that is there.\<close>

lemma live_block:
  assumes "hinv n X s" and "Some a \<in> set X \<or> deq_of (vars s i) = Some a"
  shows "\<exists>c. blocks s a = Some c \<and> use_count c = refs X s a \<and> 0 < refs X s a \<and> deque_fit n (shared c)"
proof -
  have "0 < refs X s a"
    using assms finite_holders [OF assms(1), of a]
    by (auto simp: refs_def holders_def card_gt_0_iff count_list_0_iff)
  then show ?thesis using hinvD(3) [OF assms(1), of a] by (auto simp: block_ok_def split: option.splits)
qed

section \<open>References\<close>

lemma hinv_block:
  assumes inv: "hinv n X s" and c: "blocks s a = Some c" and others: "\<And>b. b \<noteq> a \<Longrightarrow> refs X' s b = refs X s b"
    and c': "use_count c' = refs X' s a" "0 < refs X' s a" "deque_fit n (shared c')"
    and len: "length (id_list (shared c)) \<le> length (id_list (shared c'))"
  shows "hinv n X' (s\<lparr>blocks := (blocks s)(a \<mapsto> c')\<rparr>)"
proof -
  let ?s = "s\<lparr>blocks := (blocks s)(a \<mapsto> c')\<rparr>"
  note d = hinvD [OF inv]
  have refs: "refs X' ?s b = refs X' s b" for b by (simp add: refs_def)
  have "block_ok n X' ?s b" for b
    using d(3) [of b] c' others [of b] by (cases "b = a") (simp_all add: block_ok_def refs cong: option.case_cong)
  moreover have "own_entries ?s" using d(4) c len unfolding own_entries_def by (fastforce intro: less_le_trans)
  moreover have "blocks ?s b = None" if "fresh_block ?s \<le> b" for b using d(2) [of b] c that by auto
  ultimately show ?thesis using d(1) by (auto simp: hinv_def)
qed

lemma hinv_dead:
  assumes inv: "hinv n X s" and others: "\<And>b. b \<noteq> a \<Longrightarrow> refs X' s b = refs X s b" and dead: "refs X' s a = 0"
  shows "hinv n X' (s\<lparr>blocks := (blocks s)(a := None)\<rparr>)"
proof -
  let ?s = "s\<lparr>blocks := (blocks s)(a := None)\<rparr>"
  note d = hinvD [OF inv]
  have refs: "refs X' ?s b = refs X' s b" for b by (simp add: refs_def)
  have "block_ok n X' ?s b" for b
    using d(3) [of b] dead others [of b] by (cases "b = a") (simp_all add: block_ok_def refs cong: option.case_cong)
  moreover have "vars s i \<noteq> StealerEnd (Some a) e" for i e
    using dead finite_holders [OF inv, of a] by (auto simp: refs_def holders_def dest: spec [of _ i])
  then have "own_entries ?s" using d(4) unfolding own_entries_def by auto
  ultimately show ?thesis using d(1,2) by (auto simp: hinv_def)
qed

lemma refs_None [simp]: "refs (None # X) = refs X"
  by (simp add: refs_def fun_eq_iff)

lemma hinv_None [simp]: "hinv n (None # X) s = hinv n X s"
  by (simp add: hinv_def block_ok_def cong: option.case_cong)

lemma refs_Cons: "refs (Some a # X) s b = refs X s b + (if a = b then 1 else 0)"
  by (simp add: refs_def)

lemma share_ok:
  assumes inv: "hinv n X s" and live: "\<And>a. p = Some a \<Longrightarrow> blocks s a \<noteq> None"
  shows "\<exists>s'. ptr_share p s = Some s' \<and> hinv n (p # X) s' \<and> vars s' = vars s"
proof (cases p)
  case None
  then show ?thesis using inv by simp
next
  case (Some a)
  then obtain c where c: "blocks s a = Some c" using live by auto
  then have "use_count c = refs X s a" "deque_fit n (shared c)" using hinvD(3) [OF inv, of a] by (simp_all add: block_ok_def)
  then have "hinv n (Some a # X) (s\<lparr>blocks := (blocks s)(a \<mapsto> c\<lparr>use_count := Suc (use_count c)\<rparr>)\<rparr>)"
    by (intro hinv_block [OF inv c]) (simp_all add: refs_Cons)
  then show ?thesis using Some c by simp
qed

lemma release_ok:
  assumes inv: "hinv n (p # X) s"
  shows "\<exists>s'. ptr_release p s = Some s' \<and> hinv n X s' \<and> vars s' = vars s"
proof (cases p)
  case None
  then show ?thesis using inv by simp
next
  case (Some a)
  obtain c where c: "blocks s a = Some c" "use_count c = refs (Some a # X) s a" "deque_fit n (shared c)"
    using live_block [OF inv] Some by auto
  have others: "b \<noteq> a \<Longrightarrow> refs X s b = refs (p # X) s b" for b using Some by (simp add: refs_Cons)
  show ?thesis
  proof (cases "use_count c = 1")
    case True
    have "chain_ok (shared c)" using c(3) by (simp add: deque_fit_def deque_ok_def)
    then obtain q where q: "deque_destroy (shared c) = Some q" using deque_destroy_ok by blast
    have "refs X s a = 0" using True c(2) by (simp add: refs_Cons)
    then have "hinv n X (s\<lparr>blocks := (blocks s)(a := None)\<rparr>)" by (intro hinv_dead [OF inv others])
    then show ?thesis using Some c(1) True q by simp
  next
    case False
    have "0 < refs X s a" "use_count c - 1 = refs X s a" using False c(2) by (simp_all add: refs_Cons)
    then have "hinv n X (s\<lparr>blocks := (blocks s)(a \<mapsto> c\<lparr>use_count := use_count c - 1\<rparr>)\<rparr>)"
      using c(3) by (intro hinv_block [OF inv c(1) others]) simp_all
    then show ?thesis using Some c(1) False by simp
  qed
qed

text \<open>A reference goes to a variable, and from one.\<close>

lemma put_refs:
  assumes "finite (holders s b)" and "deq_of (vars s k) = None"
  shows "refs X (put_var k x s) b = refs (deq_of x # X) s b"
proof -
  have "k \<notin> holders s b" using assms(2) by (simp add: holders_def)
  then show ?thesis using assms(1) by (auto simp: refs_def)
qed

lemma put_ok:
  assumes inv: "hinv n (deq_of x # X) s" and free: "free_var k s"
    and new: "\<And>a e. x = StealerEnd (Some a) e \<Longrightarrow>
      (\<exists>m c. e = Some m \<and> blocks s a = Some c \<and> m < length (id_list (shared c))) \<and> (\<forall>j. vars s j \<noteq> x)"
  shows "hinv n X (put_var k x s)"
proof -
  note d = hinvD [OF inv]
  have "block_ok n X (put_var k x s) b" for b
    using d(3) [of b] put_refs [OF finite_holders [OF inv] free, of X x b] by (simp add: block_ok_def cong: option.case_cong)
  moreover have "own_entries (put_var k x s)"
    unfolding own_entries_def
  proof (intro conjI allI impI)
    fix i a e
    assume i: "vars (put_var k x s) i = StealerEnd (Some a) e"
    show "\<exists>m c. e = Some m \<and> blocks (put_var k x s) a = Some c \<and> m < length (id_list (shared c))"
    proof (cases "i = k")
      case True
      then show ?thesis using i new [of a e] by simp
    next
      case False
      then show ?thesis using i entriesD(1) [OF d(4)] by simp
    qed
    fix j
    assume j: "vars (put_var k x s) j = StealerEnd (Some a) e"
    show "i = j"
      using i j entriesD(2) [OF d(4), of i a e j] new [of a e] by (simp split: if_splits)
  qed
  ultimately show ?thesis using d(2) finite_put [OF d(1)] by (simp add: hinv_def)
qed

lemma put_None:
  assumes "hinv n X s" and "free_var k s" and "deq_of x = None"
  shows "hinv n X (put_var k x s)"
  using assms by (intro put_ok) auto

lemma take_ok:
  assumes inv: "hinv n X s" and x: "deq_of x = None"
  shows "hinv n (deq_of (vars s k) # X) (put_var k x s)"
proof -
  note d = hinvD [OF inv]
  have "refs (deq_of (vars s k) # X) (put_var k x s) b = refs X s b" for b
  proof (cases "deq_of (vars s k) = Some b")
    case True
    then have "k \<in> holders s b" by (simp add: holders_def)
    then have "card (holders s b) = Suc (card (holders s b - {k}))"
      using finite_holders [OF inv] by (intro card.remove)
    then show ?thesis using True x by (simp add: refs_def)
  next
    case False
    then have "k \<notin> holders s b" by (simp add: holders_def)
    then have "holders s b - {k} = holders s b" by blast
    then show ?thesis using False x by (simp add: refs_def)
  qed
  then have "block_ok n (deq_of (vars s k) # X) (put_var k x s) b" for b
    using d(3) [of b] by (simp add: block_ok_def cong: option.case_cong)
  moreover have "own_entries (put_var k x s)" using d(4) x unfolding own_entries_def by (auto split: if_splits)
  ultimately show ?thesis using d(2) finite_put [OF d(1)] by (simp add: hinv_def)
qed

section \<open>The operations keep the invariant\<close>

declare ptr_share.simps [simp del] ptr_release.simps [simp del]

lemma register_ok:
  assumes inv: "hinv n X s" and c: "blocks s a = Some c"
  shows "\<exists>m s' c'. deq_register (Some a) s = Some (m, s') \<and> hinv n X s' \<and> vars s' = vars s \<and>
    blocks s' a = Some c' \<and> m < length (id_list (shared c')) \<and> (\<forall>j. vars s j \<noteq> StealerEnd (Some a) (Some m))"
proof -
  let ?c = "c\<lparr>shared := register_thread (shared c)\<rparr>"
  have "use_count c = refs X s a" "0 < refs X s a" "deque_fit n (shared c)"
    using hinvD(3) [OF inv, of a] c by (simp_all add: block_ok_def)
  then have "hinv n X (s\<lparr>blocks := (blocks s)(a \<mapsto> ?c)\<rparr>)"
    by (intro hinv_block [OF inv c]) (simp_all add: deque_fit_def)
  moreover have "vars s j \<noteq> StealerEnd (Some a) (Some (length (id_list (shared c))))" for j
    using entriesD(1) [OF hinvD(4) [OF inv], of j a] c by auto
  ultimately show ?thesis using c by simp
qed

declare deq_register.simps [simp del]

lemma worker_init_ok:
  assumes "hinv n (p # X) s" and "free_var k s"
  shows "\<exists>s'. worker_init k p s = Some s' \<and> hinv n X s' \<and> (\<forall>i. i \<noteq> k \<longrightarrow> vars s' i = vars s i)"
  using put_ok [of n "WorkerEnd p" X s k] assms by (simp add: worker_init_def)

lemma stealer_init_ok:
  assumes inv: "hinv n (Some a # X) s" and free: "free_var k s"
  shows "\<exists>s'. stealer_init k (Some a) s = Some s' \<and> hinv n X s' \<and> (\<forall>i. i \<noteq> k \<longrightarrow> vars s' i = vars s i)"
proof -
  obtain c where c: "blocks s a = Some c" using live_block [OF inv] by auto
  obtain m s' c' where r: "deq_register (Some a) s = Some (m, s')" "hinv n (Some a # X) s'" "vars s' = vars s"
    "blocks s' a = Some c'" "m < length (id_list (shared c'))" "\<forall>j. vars s j \<noteq> StealerEnd (Some a) (Some m)"
    using register_ok [OF inv c] by blast
  have "hinv n X (put_var k (StealerEnd (Some a) (Some m)) s')"
    using r free by (intro put_ok) auto
  then show ?thesis using r(1,3) by (simp add: stealer_init_def)
qed

lemma live_var: "hinv n X s \<Longrightarrow> deq_of (vars s i) = Some a \<Longrightarrow> blocks s a \<noteq> None"
  using live_block [of n X s a i] by auto

text \<open>The pointer that is passed may be null for a worker.\<close>

lemma worker_ctor_ok:
  assumes inv: "hinv n X s" and live: "\<And>a. p = Some a \<Longrightarrow> blocks s a \<noteq> None" and free: "free_var k s"
  shows "\<exists>s'. worker_ctor k p s = Some s' \<and> hinv n X s' \<and> (\<forall>i. i \<noteq> k \<longrightarrow> vars s' i = vars s i)"
proof -
  obtain s1 where s1: "ptr_share p s = Some s1" "hinv n (p # X) s1" "vars s1 = vars s" using share_ok [OF inv live] by blast
  then show ?thesis using worker_init_ok [OF s1(2), of k] free by (simp add: worker_ctor_def)
qed

lemma stealer_ctor_ok:
  assumes inv: "hinv n X s" and live: "blocks s a \<noteq> None" and free: "free_var k s"
  shows "\<exists>s'. stealer_ctor k (Some a) s = Some s' \<and> hinv n X s' \<and> (\<forall>i. i \<noteq> k \<longrightarrow> vars s' i = vars s i)"
proof -
  obtain s1 where s1: "ptr_share (Some a) s = Some s1" "hinv n (Some a # X) s1" "vars s1 = vars s"
    using share_ok [OF inv, of "Some a"] live by auto
  then show ?thesis using stealer_init_ok [OF s1(2), of k] free by (simp add: stealer_ctor_def)
qed

text \<open>An assignment: the new reference is taken before the old one is given up.\<close>

lemma assign_ok:
  assumes inv: "hinv n X s" and live: "\<And>a. p = Some a \<Longrightarrow> blocks s a \<noteq> None" and x: "deq_of x = None"
  shows "\<exists>s1 s2. ptr_share p s = Some s1 \<and> ptr_release (deq_of (vars s k)) (put_var k x s1) = Some s2 \<and>
    hinv n (p # X) s2 \<and> free_var k s2"
proof -
  obtain s1 where s1: "ptr_share p s = Some s1" "hinv n (p # X) s1" "vars s1 = vars s" using share_ok [OF inv live] by blast
  have "hinv n (deq_of (vars s k) # p # X) (put_var k x s1)" using take_ok [OF s1(2) x, of k] s1(3) by simp
  from release_ok [OF this] show ?thesis using s1(1) x by auto
qed

lemma worker_setDeque_ok:
  assumes "hinv n X s" and "\<And>a. p = Some a \<Longrightarrow> blocks s a \<noteq> None"
  shows "\<exists>s'. worker_setDeque k p s = Some s' \<and> hinv n X s'"
proof -
  obtain s1 s2 where s2: "ptr_share p s = Some s1" "ptr_release (deq_of (vars s k)) (put_var k worker_default s1) = Some s2"
    "hinv n (p # X) s2" "free_var k s2" using assign_ok [of n X s p worker_default k] assms by (auto simp: worker_default_def)
  then show ?thesis using worker_init_ok [OF s2(3,4)] by (auto simp: worker_setDeque_def)
qed

lemma stealer_setDeque_ok:
  assumes "hinv n X s" and "blocks s a \<noteq> None"
  shows "\<exists>s'. stealer_setDeque k (Some a) s = Some s' \<and> hinv n X s'"
proof -
  obtain s1 s2 where s2: "ptr_share (Some a) s = Some s1"
    "ptr_release (deq_of (vars s k)) (put_var k stealer_default s1) = Some s2" "hinv n (Some a # X) s2" "free_var k s2"
    using assign_ok [of n X s "Some a" stealer_default k] assms by (auto simp: stealer_default_def)
  then show ?thesis using stealer_init_ok [OF s2(3,4)] by (auto simp: stealer_setDeque_def)
qed

lemma make_shared_ok:
  assumes inv: "hinv n X s" and "ls \<le> 30" "n < 2 ^ 31"
  shows "\<exists>a s'. make_shared d ls s = (a, s') \<and> hinv n (Some a # X) s' \<and> vars s' = vars s"
proof -
  let ?a = "fresh_block s"
  let ?s = "snd (make_shared d ls s)"
  note inv' = hinvD [OF inv]
  have none: "blocks s ?a = None" using inv'(2) by simp
  then have zero: "refs X s ?a = 0" using inv'(3) [of ?a] by (simp add: block_ok_def)
  have refs: "refs (Some ?a # X) ?s b = refs (Some ?a # X) s b" for b by (simp add: make_shared_def refs_def)
  have "block_ok n (Some ?a # X) ?s b" for b
    using inv'(3) [of b] zero deque_new_fit [OF assms(2,3), of d] refs [of b]
    by (cases "b = ?a") (simp_all add: block_ok_def make_shared_def refs_Cons cong: option.case_cong)
  moreover have "vars s i \<noteq> StealerEnd (Some ?a) e" for i e
    using entriesD(1) [OF inv'(4), of i ?a e] none by auto
  moreover have "blocks ?s b = blocks s b" if "b \<noteq> ?a" for b using that by (simp add: make_shared_def)
  moreover have "vars ?s = vars s" by (simp add: make_shared_def)
  ultimately have "own_entries ?s" using inv'(4) unfolding own_entries_def by metis
  moreover have "block_ok n (Some ?a # X) ?s b" for b by fact
  ultimately have "hinv n (Some ?a # X) ?s" using inv'(1,2) by (auto simp: hinv_def make_shared_def)
  then show ?thesis by (simp add: make_shared_def)
qed

lemma make_spmc_queue_ok:
  assumes inv: "hinv n X s" and ls: "ls \<le> 30" "n < 2 ^ 31" and free: "w \<noteq> t" "free_var w s" "free_var t s"
  shows "\<exists>s'. make_spmc_queue d ls w t s = Some s' \<and> hinv n X s'"
proof -
  obtain a s0 where s0: "make_shared d ls s = (a, s0)" "hinv n (Some a # X) s0" "vars s0 = vars s"
    using make_shared_ok [OF inv ls] by blast
  obtain s1 where s1: "worker_ctor w (Some a) s0 = Some s1" "hinv n (Some a # X) s1" "\<forall>i. i \<noteq> w \<longrightarrow> vars s1 i = vars s0 i"
    using worker_ctor_ok [OF s0(2), of "Some a" w] live_block [OF s0(2), of a] s0(3) free by auto
  obtain s2 where s2: "stealer_ctor t (Some a) s1 = Some s2" "hinv n (Some a # X) s2"
    using stealer_ctor_ok [OF s1(2), of a t] live_block [OF s1(2), of a] s1(3) s0(3) free by auto
  show ?thesis using release_ok [OF s2(2)] s0(1) s1(1) s2(1) by (auto simp: make_spmc_queue_def)
qed

lemma destroy_ok: "hinv n X s \<Longrightarrow> \<exists>s'. handle_destroy k s = Some s' \<and> hinv n X s'"
  using release_ok [OF take_ok, of n X s "SharedPtr None" k] by (auto simp: handle_destroy_def)

lemma block_ok_weaken: "block_ok (Suc n) X s a \<Longrightarrow> block_ok n X s a"
  by (auto simp: block_ok_def split: option.splits intro: chase_lev.fit_less)

lemma hinv_weaken: "hinv (Suc n) X s \<Longrightarrow> hinv n X s"
  by (simp add: hinv_def block_ok_weaken)

text \<open>Operations on the deque keep its entries.\<close>

lemma on_deque_ok:
  assumes inv: "hinv (Suc n) X s" and p: "deq_of (vars s k) = Some a"
    and f: "\<And>q. deque_fit (Suc n) q \<Longrightarrow>
      \<exists>r q'. f q = Some (r, q') \<and> deque_fit n q' \<and> length (id_list q) \<le> length (id_list q')"
  shows "\<exists>r s'. on_deque f (deq_of (vars s k)) s = Some (r, s') \<and> hinv n X s'"
proof -
  obtain c where c: "blocks s a = Some c" "use_count c = refs X s a" "0 < refs X s a" "deque_fit (Suc n) (shared c)"
    using live_block [OF inv, of a k] p by auto
  obtain r q where q: "f (shared c) = Some (r, q)" "deque_fit n q" "length (id_list (shared c)) \<le> length (id_list q)"
    using f [OF c(4)] by blast
  have "hinv n X (s\<lparr>blocks := (blocks s)(a \<mapsto> c\<lparr>shared := q\<rparr>)\<rparr>)"
    using c q by (intro hinv_block [OF hinv_weaken [OF inv] c(1)]) simp_all
  then show ?thesis using p c(1) q(1) by (simp add: on_deque_def)
qed

lemma entry_steal_entries: "entry_steal e q = Some (r, q') \<Longrightarrow> length (id_list q') = length (id_list q)"
  by (auto simp: entry_steal_def stealer_steal_def steal_def steal_claim_def Let_def split: option.splits prod.splits if_splits)

lemma push_fit:
  assumes "deque_fit (Suc n) q"
  shows "\<exists>q'. push_bottom d x q = Some q' \<and> deque_fit n q' \<and> id_list q' = id_list q"
proof -
  obtain m where m: "deque_within m q" "m + Suc n < 2 ^ 31" "deque_ok q" using assms by (auto simp: deque_fit_def)
  then have "m < 2 ^ 31" "Suc m + n < 2 ^ 31" by simp_all
  with push_ok [OF m(3,1), of d x] show ?thesis unfolding deque_fit_def by blast
qed

lemma pop_fit:
  assumes "deque_fit (Suc n) q"
  shows "\<exists>r q'. pop_bottom d q = Some (r, q') \<and> deque_fit n q' \<and> id_list q' = id_list q"
proof -
  obtain m where m: "deque_within m q" "m + Suc n < 2 ^ 31" "deque_ok q" using assms by (auto simp: deque_fit_def)
  then have "m < 2 ^ 31" "Suc m + n < 2 ^ 31" by simp_all
  with pop_ok [OF m(3,1), of d] show ?thesis unfolding deque_fit_def by blast
qed

lemma worker_push_ok:
  "hinv (Suc n) X s \<Longrightarrow> deq_of (vars s k) = Some a \<Longrightarrow> \<exists>r s'. worker_push d k x s = Some (r, s') \<and> hinv n X s'"
  unfolding worker_push_def by (rule on_deque_ok) (auto dest: push_fit [where d = d and x = x])

lemma worker_pop_ok:
  "hinv (Suc n) X s \<Longrightarrow> deq_of (vars s k) = Some a \<Longrightarrow> \<exists>r s'. worker_pop d k s = Some (r, s') \<and> hinv n X s'"
  unfolding worker_pop_def by (rule on_deque_ok) (auto dest: pop_fit [where d = d])

lemma stealer_op_ok:
  assumes inv: "hinv (Suc n) X s" and k: "is_stealer (vars s k)" "deq_of (vars s k) = Some a"
  shows "\<exists>r s'. stealer_op k s = Some (r, s') \<and> hinv n X s'"
proof -
  obtain e where e: "vars s k = StealerEnd (Some a) e" using k by (cases "vars s k") auto
  then obtain m where m: "e = Some m" using entriesD(1) [OF hinvD(4) [OF inv]] by blast
  have "\<exists>r q'. entry_steal m q = Some (r, q') \<and> deque_fit n q' \<and> length (id_list q) \<le> length (id_list q')"
    if "deque_fit (Suc n) q" for q :: "'a deque"
    using entry_steal_law [OF chase_lev.fit_less [OF that], of m] entry_steal_entries [of m q] by force
  from on_deque_ok [OF inv k(2) this] show ?thesis using e m by (simp add: stealer_op_def)
qed

lemma worker_move_ok:
  assumes inv: "hinv n X s" and "free_var k s" "k \<noteq> j"
  shows "\<exists>s'. worker_move k j s = Some s' \<and> hinv n X s'"
  using put_ok [of n "WorkerEnd (deq_of (vars s j))" X "put_var j (WorkerEnd None) s" k]
    take_ok [OF inv, of "WorkerEnd None" j] assms(2,3) by (simp add: worker_move_def)

lemma stealer_move_ok:
  assumes inv: "hinv n X s" and k: "free_var k s" "k \<noteq> j" and j: "is_stealer (vars s j)"
  shows "\<exists>s'. stealer_move k j s = Some s' \<and> hinv n X s'"
proof -
  obtain p e where e: "vars s j = StealerEnd p e" using j by (cases "vars s j") auto
  let ?s = "put_var j (StealerEnd None e) s"
  have "hinv n X (put_var k (StealerEnd p e) ?s)"
  proof (rule put_ok)
    show "hinv n (deq_of (StealerEnd p e) # X) ?s" using take_ok [OF inv, of "StealerEnd None e" j] e by simp
    show "free_var k ?s" using k by simp
    fix a e'
    assume x: "StealerEnd p e = StealerEnd (Some a) e'"
    then have "vars ?s i \<noteq> StealerEnd p e" for i
      using entriesD(2) [OF hinvD(4) [OF inv], of j a e i] e by auto
    moreover have "\<exists>m c. e' = Some m \<and> blocks ?s a = Some c \<and> m < length (id_list (shared c))"
      using entriesD(1) [OF hinvD(4) [OF inv], of j a e] e x by simp
    ultimately show "(\<exists>m c. e' = Some m \<and> blocks ?s a = Some c \<and> m < length (id_list (shared c))) \<and>
        (\<forall>i. vars ?s i \<noteq> StealerEnd p e)" by blast
  qed
  then show ?thesis using e by (simp add: stealer_move_def)
qed

section \<open>Runs\<close>

lemma handle_step_ok:
  assumes inv: "hinv (Suc n) [] s" and fits: "op_fits op s" and n: "n < 2 ^ 31"
  shows "\<exists>r s'. handle_step d op s = Some (r, s') \<and> hinv n [] s'"
proof -
  note w = hinv_weaken [OF inv]
  have live: "\<And>p a. deq_of (vars s p) = Some a \<Longrightarrow> blocks s a \<noteq> None" using live_var [OF inv] .
  show ?thesis
  proof (cases op)
    case (DefaultWorker k)
    then show ?thesis using put_None [OF w, of k worker_default] fits by (simp add: worker_default_def)
  next
    case (DefaultStealer k)
    then show ?thesis using put_None [OF w, of k stealer_default] fits by (simp add: stealer_default_def)
  next
    case (MakeDeque ls k)
    obtain a s' where s': "make_shared d ls s = (a, s')" "hinv n [Some a] s'" "vars s' = vars s"
      using make_shared_ok [OF w, of ls d] MakeDeque fits n by auto
    then show ?thesis using put_ok [of n "SharedPtr (Some a)" "[]" s' k] MakeDeque fits by simp
  next
    case (MakeQueue ls w' t)
    then show ?thesis using make_spmc_queue_ok [OF w, of ls w' t d] fits n by auto
  next
    case (NewWorker k p)
    then show ?thesis using worker_ctor_ok [OF w, of "deq_of (vars s p)" k] live fits by auto
  next
    case (NewStealer k p)
    then obtain a where a: "deq_of (vars s p) = Some a" using fits by auto
    with NewStealer show ?thesis using stealer_ctor_ok [OF w live [OF a], of k] fits by auto
  next
    case (SetWorker k p)
    then show ?thesis using worker_setDeque_ok [OF w, of "deq_of (vars s p)" k] live by auto
  next
    case (SetStealer k p)
    then show ?thesis using stealer_setDeque_ok [OF w, of _ k] live fits by auto
  next
    case (CopyStealer k j)
    then obtain a where a: "deq_of (vars s j) = Some a" using fits by auto
    with CopyStealer show ?thesis using stealer_ctor_ok [OF w live [OF a], of k] fits by (auto simp: stealer_copy_def)
  next
    case (MoveWorker k j)
    then show ?thesis using worker_move_ok [OF w, of k j] fits by auto
  next
    case (MoveStealer k j)
    then show ?thesis using stealer_move_ok [OF w, of k j] fits by auto
  next
    case (Destroy k)
    then show ?thesis using destroy_ok [OF w, of k] by auto
  next
    case (PushOn k x)
    then show ?thesis using worker_push_ok [OF inv, of k _ d x] fits by auto
  next
    case (PopOn k)
    then show ?thesis using worker_pop_ok [OF inv, of k _ d] fits by auto
  next
    case (StealOn k)
    then show ?thesis using stealer_op_ok [OF inv, of k] fits by auto
  qed
qed

fun handle_run :: "'a \<Rightarrow> 'a handle_op list \<Rightarrow> 'a hstate \<Rightarrow> ('a option list \<times> 'a hstate) option" where
  "handle_run d [] s = Some ([], s)"
| "handle_run d (op # ops) s =
     Option.bind (handle_step d op s) (\<lambda>(r, s').
       map_option (\<lambda>(rs, s''). (r # rs, s'')) (handle_run d ops s'))"

fun run_fits :: "'a \<Rightarrow> 'a handle_op list \<Rightarrow> 'a hstate \<Rightarrow> bool" where
  "run_fits d [] s = True"
| "run_fits d (op # ops) s =
     (op_fits op s \<and> (case handle_step d op s of None \<Rightarrow> True | Some (r, s') \<Rightarrow> run_fits d ops s'))"

lemma handle_run_ok:
  "hinv (length ops + n) [] s \<Longrightarrow> run_fits d ops s \<Longrightarrow> length ops + n \<le> 2 ^ 31 \<Longrightarrow>
     \<exists>rs s'. handle_run d ops s = Some (rs, s') \<and> hinv n [] s'"
proof (induction ops arbitrary: s)
  case (Cons op ops)
  then obtain r s1 where s1: "handle_step d op s = Some (r, s1)" "hinv (length ops + n) [] s1"
    using handle_step_ok [of "length ops + n" s op d] by auto
  then show ?case using Cons.IH [OF s1(2)] Cons.prems(2,3) by fastforce
qed simp

lemma handles_init_ok: "hinv n [] handles_init"
  by (simp add: hinv_def handles_init_def block_ok_def refs_def holders_def own_entries_def)

text \<open>
  However ends of deques are made, copied, moved, reassigned and destroyed, a deque lives exactly as long as
  a handle refers to it, and two stealers of it have different entries.
\<close>

lemma handles_safe:
  assumes "run_fits d ops handles_init" and "length ops \<le> 2 ^ 31"
  shows "\<exists>rs s. handle_run d ops handles_init = Some (rs, s) \<and>
    (\<forall>a. blocks s a = None \<longleftrightarrow> (\<forall>i. deq_of (vars s i) \<noteq> Some a)) \<and> own_entries s"
proof -
  obtain rs s where s: "handle_run d ops handles_init = Some (rs, s)" "hinv 0 [] s"
    using handle_run_ok [of ops 0 handles_init d] handles_init_ok [of "length ops"] assms by auto
  have "blocks s a = None" if "\<forall>i. deq_of (vars s i) \<noteq> Some a" for a
    using hinvD(3) [OF s(2), of a] that by (auto simp: block_ok_def refs_def holders_def split: option.splits)
  then show ?thesis using s live_var [OF s(2)] hinvD(4) [OF s(2)] by blast
qed

text \<open>The copy of a stealer works after the other ends are gone; the last handle deletes the deque.\<close>

lemma handles_sample:
  "map_option (\<lambda>(rs, s). (rs, blocks s 0 = None)) (handle_run (0 :: nat)
     [MakeQueue 2 0 1, PushOn 0 7, CopyStealer 2 1, MoveStealer 3 2, Destroy 0, Destroy 1, StealOn 3, Destroy 3] handles_init) =
   Some ([None, None, None, None, None, None, Some 7, None], True)"
  by code_simp

end
