(* ===== verification/Thread_Info.thy ===== *)
theory Thread_Info
  imports Scheduler_Progress
begin

text \<open>
  What a thread knows about itself: the thread-local pointer to its scheduler and \<open>s_tls\<close> (scheduler.cc), set
  when a thread enters a scheduler, and the queries of the interface (scheduler.cc, td-lean.hh) that read them.
  Inside of a scheduler they give the indices of \<open>Scheduler\<close>; after \<open>start\<close> the main thread keeps those it had.
\<close>

section \<open>Thread-local variables\<close>

text \<open>Schedulers are addresses. The variables of a thread start with the values that \<open>reset\<close> gives.\<close>

record thread_locals =
  sCurrentScheduler :: "nat option"
  own_tls :: tls

definition locals_init :: thread_locals where
  "locals_init = \<lparr>sCurrentScheduler = None, own_tls = tls_reset\<rparr>"

text \<open>The main thread gets its index later than a worker, when the workers are launched.\<close>

definition main_enters :: "nat \<Rightarrow> thread_locals \<Rightarrow> thread_locals" where
  "main_enters self l = l\<lparr>own_tls := tls_reset, sCurrentScheduler := Some self\<rparr>"

definition main_numbered :: "thread_locals \<Rightarrow> thread_locals" where
  "main_numbered l = l\<lparr>own_tls := (own_tls l)\<lparr>thread_index := 0\<rparr>\<rparr>"

definition worker_enters :: "nat \<Rightarrow> thread_index_t \<Rightarrow> thread_locals \<Rightarrow> thread_locals" where
  "worker_enters self i l =
     (let l1 = l\<lparr>sCurrentScheduler := Some self\<rparr>; l2 = l1\<lparr>own_tls := tls_reset\<rparr>
      in l2\<lparr>own_tls := (own_tls l2)\<lparr>thread_index := i\<rparr>\<rparr>)"

definition main_leaves :: "thread_locals \<Rightarrow> thread_locals" where
  "main_leaves l = l\<lparr>sCurrentScheduler := None\<rparr>"

section \<open>Queries\<close>

definition IsInsideScheduler :: "thread_locals \<Rightarrow> bool" where
  "IsInsideScheduler l = (sCurrentScheduler l \<noteq> None)"

definition CurrentThreadIndex :: "thread_locals \<Rightarrow> u32" where
  "CurrentThreadIndex l = thread_index (own_tls l)"

definition CurrentFiberIndex :: "thread_locals \<Rightarrow> u32" where
  "CurrentFiberIndex l = current_fiber_index (own_tls l)"

text \<open>\<open>Current\<close> dereferences the pointer; \<open>None\<close> when it is null or no scheduler is there.\<close>

definition Current :: "(nat \<Rightarrow> 'h sched option) \<Rightarrow> thread_locals \<Rightarrow> 'h sched option" where
  "Current schedulers l = Option.bind (sCurrentScheduler l) schedulers"

definition getNumThreads :: "'h sched \<Rightarrow> u32" where
  "getNumThreads s = of_nat (length (mThreads s))"

definition is_scheduler_alive :: "thread_locals \<Rightarrow> bool" where
  "is_scheduler_alive l = IsInsideScheduler l"

definition get_current_num_threads :: "(nat \<Rightarrow> 'h sched option) \<Rightarrow> thread_locals \<Rightarrow> u32 option" where
  "get_current_num_threads schedulers l = map_option getNumThreads (Current schedulers l)"

definition current_thread_id :: "thread_locals \<Rightarrow> u32" where
  "current_thread_id l = CurrentThreadIndex l"

definition current_fiber_id :: "thread_locals \<Rightarrow> u32" where
  "current_fiber_id l = CurrentFiberIndex l"

lemmas query_defs = is_scheduler_alive_def IsInsideScheduler_def get_current_num_threads_def Current_def
  getNumThreads_def current_thread_id_def CurrentThreadIndex_def current_fiber_id_def CurrentFiberIndex_def

section \<open>Inside of a scheduler\<close>

text \<open>The variables of thread \<open>t\<close> of the scheduler at \<open>self\<close>.\<close>

definition locals_of :: "nat \<Rightarrow> nat \<Rightarrow> 'h sched \<Rightarrow> thread_locals" where
  "locals_of self t s = \<lparr>sCurrentScheduler = Some self, own_tls = s_tls s t\<rparr>"

text \<open>Whatever ran on the threads before, they begin as \<open>sched_start\<close> has it.\<close>

lemma threads_enter:
  assumes "sched_start threads fibers counters pool main s0 = Some a"
  shows "locals_of self 0 a = main_numbered (main_enters self l)"
    and "locals_of self t a = worker_enters self (of_nat t) l"
proof -
  have "s_tls a = s_tls (sched_arrays threads fibers counters pool main s0)"
    using assms by (auto simp: sched_start_def populate_def split: option.splits)
  then show "locals_of self 0 a = main_numbered (main_enters self l)"
    and "locals_of self t a = worker_enters self (of_nat t) l"
    by (simp_all add: locals_of_def main_numbered_def main_enters_def worker_enters_def sched_arrays_def)
qed

lemma typed_index:
  assumes "typed nT nF nC s" and "t < nT"
  shows "unat (thread_index (s_tls s t)) = t"
  using assms by (simp add: typed_def)

text \<open>
  On a fiber the queries give the index of the thread and of the fiber, within the bounds of the scheduler,
  and no two threads get the same ones.
\<close>

lemma queries_inside:
  assumes start: "at_rest fibers counters s0" "threads < 2 ^ 32" "fibers < 2 ^ 32 - 1"
      "sched_start threads fibers counters pool main s0 = Some a"
    and run: "(sched_step dbg P)\<^sup>*\<^sup>* a s"
    and t: "t < threads" "tmodes s t = OnFiber" and self: "schedulers self = Some s"
  shows "is_scheduler_alive (locals_of self t s) \<and>
    get_current_num_threads schedulers (locals_of self t s) = Some (of_nat threads) \<and>
    unat (current_thread_id (locals_of self t s)) = t \<and>
    unat (current_fiber_id (locals_of self t s)) < fibers \<and>
    (\<forall>u < threads. u \<noteq> t \<longrightarrow> tmodes s u = OnFiber \<longrightarrow>
       current_fiber_id (locals_of self u s) \<noteq> current_fiber_id (locals_of self t s))"
proof -
  have s: "sound threads fibers counters s" by (rule steps_sound [OF run start_sound [OF start]])
  note d = soundD [OF s]
  have t': "t < length (mThreads s)" "tmodes s t \<noteq> Starting" using t d(4) by simp_all
  note free = current_free [OF d(2) t']
  have "current_fiber_index (s_tls s u) \<noteq> current_fiber_index (s_tls s t)"
    if "u < threads" "u \<noteq> t" "tmodes s u = OnFiber" for u
    using free(4) [of u] that current_fiber [of s u] d(4) by (auto simp: current_def)
  then show ?thesis
    using free(1) d(4,5) typed_index [OF d(1) t(1)] self by (simp add: query_defs locals_of_def current_def)
qed

section \<open>After the end of a scheduler\<close>

text \<open>
  The main thread is outside again, but \<open>s_tls\<close> is only reset by the next start: the thread still has index
  zero, and the fiber it ran last, where the interface promises the largest index.
\<close>

lemma drain_tls: "drain_queues s = Some s' \<Longrightarrow> s_tls s' = s_tls s"
  by (auto simp: drain_queues_def split: option.splits)

lemma indices_after_end:
  assumes start: "at_rest fibers counters s0" "0 < threads" "threads < 2 ^ 32" "fibers < 2 ^ 32 - 1"
    and ret: "start_returns dbg P threads fibers counters s0 s'"
  shows "let l = main_leaves (locals_of self 0 s') in \<not> is_scheduler_alive l \<and> current_thread_id l = 0 \<and> current_fiber_id l \<noteq> invalid_fiber"
  using ret
proof cases
  case (start_call pool main a b)
  have s: "sound threads fibers counters b" by (rule steps_sound [OF start_call(2) start_sound [OF start(1,3,4) start_call(1)]])
  note d = soundD [OF s]
  have "tmodes b 0 = Returned" using start_call(3) start(2) d(4) by (simp add: joined_def)
  then have "current 0 b < fibers" using current_free(1) [OF d(2), of 0] start(2) d(4,5) by simp
  then have "current_fiber_index (s_tls b 0) \<noteq> invalid_fiber" using start(4) by (auto simp: current_def invalid_fiber_def unsigned_minus_1_eq_mask mask_eq_exp_minus_1)
  moreover have "thread_index (s_tls b 0) = 0" using typed_index [OF d(1) start(2)] by (simp add: unat_eq_0)
  ultimately show ?thesis
    using drain_tls [OF start_call(4)] by (simp add: Let_def main_leaves_def locals_of_def query_defs)
qed

end
