(* ===== verification/Chase_Lev_Actions.thy ===== *)
theory Chase_Lev_Actions
  imports Chase_Lev_Runs
begin

text \<open>
  The work-stealing deque (container/spmc_queue.hh) in single atomic actions: every load, store and exchange of
  its owner and of its thieves is a step, and the steps interleave in any order. Only what one thread does with
  data that no other writes meanwhile goes with the action before it, and the owner's walk over the entries of
  the thieves is one step. The steps that change the contents refine those of a list. A thief may use a deleted
  buffer in one place, behind the end of its protection, and a run shows that it does.
\<close>

section \<open>State\<close>

text \<open>Positions in the code, with the values of the local variables \<open>b\<close> (bottom), \<open>t\<close> (top) and \<open>a\<close> (buffer).\<close>

datatype 'a owner_pc =
    OReturned "'a option"
  | PushStart 'a | PushTop 'a usize | PushGrow 'a usize usize | PushReclaim 'a usize usize
  | PushPut 'a usize usize | PushStore 'a usize
  | PopStart | PopDec usize | PopTop usize | PopCas usize usize | PopRestore usize "'a option"
  | PopTake usize usize | PopReclaim 'a

datatype 'a thief_pc =
    TReturned "'a option"
  | TStart | TTop | TBottom usize | TBuffer usize | TCas usize nat | TRead usize nat
  | TDone "'a option" | TLoad "'a option" | TLast "'a option" nat

text \<open>
  The log has the actions that take effect on the contents, in their order. For a thief this is its
  exchange, with the element at its position then.
\<close>

datatype 'a cl_event = Pushed 'a | Popped 'a | PopEmpty | Stolen nat 'a

record 'a cl_state =
  cl_deque :: "'a deque"
  cl_owner :: "'a owner_pc"
  cl_thief :: "nat \<Rightarrow> 'a thief_pc"
  cl_log :: "'a cl_event list"

definition cl_init :: "'a \<Rightarrow> nat \<Rightarrow> nat \<Rightarrow> 'a cl_state" where
  "cl_init d ls k = \<lparr>cl_deque = deque_shared d ls k, cl_owner = OReturned None,
     cl_thief = (\<lambda>_. TReturned None), cl_log = []\<rparr>"

definition put_owner :: "'a owner_pc \<Rightarrow> 'a cl_state \<Rightarrow> 'a cl_state" where
  "put_owner p s = s\<lparr>cl_owner := p\<rparr>"

definition put_deque :: "'a deque \<Rightarrow> 'a cl_state \<Rightarrow> 'a cl_state" where
  "put_deque q s = s\<lparr>cl_deque := q\<rparr>"

definition put_thief :: "nat \<Rightarrow> 'a thief_pc \<Rightarrow> 'a cl_state \<Rightarrow> 'a cl_state" where
  "put_thief i p s = s\<lparr>cl_thief := (cl_thief s)(i := p)\<rparr>"

definition add_log :: "'a cl_event \<Rightarrow> 'a cl_state \<Rightarrow> 'a cl_state" where
  "add_log e s = s\<lparr>cl_log := cl_log s @ [e]\<rparr>"

lemma put_simps [simp]:
  "cl_deque (put_owner p s) = cl_deque s" "cl_owner (put_owner p s) = p" "cl_thief (put_owner p s) = cl_thief s"
  "cl_log (put_owner p s) = cl_log s"
  "cl_deque (put_deque q s) = q" "cl_owner (put_deque q s) = cl_owner s" "cl_thief (put_deque q s) = cl_thief s"
  "cl_log (put_deque q s) = cl_log s"
  "cl_deque (put_thief i u s) = cl_deque s" "cl_owner (put_thief i u s) = cl_owner s"
  "cl_thief (put_thief i u s) = (cl_thief s)(i := u)" "cl_log (put_thief i u s) = cl_log s"
  "cl_deque (add_log e s) = cl_deque s" "cl_owner (add_log e s) = cl_owner s" "cl_thief (add_log e s) = cl_thief s"
  "cl_log (add_log e s) = cl_log s @ [e]"
  by (simp_all add: put_owner_def put_deque_def put_thief_def add_log_def)

section \<open>Actions\<close>

text \<open>The current buffer, through the pointer of the owner. \<open>None\<close> when it has been deleted.\<close>

definition on_buffer :: "nat \<Rightarrow> 'a deque \<Rightarrow> ('a buffer \<Rightarrow> 'b option) \<Rightarrow> 'b option" where
  "on_buffer x q f = (case bufs q x of None \<Rightarrow> None | Some a \<Rightarrow> f a)"

fun owner_step :: "'a \<Rightarrow> 'a owner_pc \<Rightarrow> 'a cl_state \<Rightarrow> 'a cl_state option" where
  "owner_step d (OReturned r) s = Some s"
| "owner_step d (PushStart x) s = Some (put_owner (PushTop x (bottom (cl_deque s))) s)"
| "owner_step d (PushTop x b) s = Some (put_owner (PushGrow x b (top (cl_deque s))) s)"
| "owner_step d (PushGrow x b t) s =
     (let q = cl_deque s in on_buffer (deq_buffer q) q (\<lambda>a.
        Some (put_owner (PushReclaim x b t)
          (if b - t \<ge> buf_size a - 1 then put_deque (resize_to d b t (log_size a + 1) a q) s else s))))"
| "owner_step d (PushReclaim x b t) s =
     map_option (\<lambda>q. put_owner (PushPut x b t) (put_deque q s)) (reclaim_if_unlinked (cl_deque s))"
| "owner_step d (PushPut x b t) s =
     (let q = cl_deque s in on_buffer (deq_buffer q) q (\<lambda>a.
        Some (put_owner (PushStore x b) (put_deque (q\<lparr>bufs := (bufs q)(deq_buffer q \<mapsto> buf_put b x a)\<rparr>) s))))"
| "owner_step d (PushStore x b) s =
     Some (put_owner (OReturned None) (add_log (Pushed x) (put_deque ((cl_deque s)\<lparr>bottom := b + 1\<rparr>) s)))"
| "owner_step d PopStart s = Some (put_owner (PopDec (bottom (cl_deque s))) s)"
| "owner_step d (PopDec b) s = Some (put_owner (PopTop b) (put_deque ((cl_deque s)\<lparr>bottom := b - 1\<rparr>) s))"
| "owner_step d (PopTop b) s =
     (let t = top (cl_deque s); sz = b - t
      in Some (if sint sz \<le> 0 then put_owner (PopRestore b None) (add_log PopEmpty s)
               else if sz = 1 then put_owner (PopCas b t) s
               else put_owner (PopTake b t) s))"
| "owner_step d (PopCas b t) s =
     (let q = cl_deque s
      in if top q = t
         then on_buffer (deq_buffer q) q (\<lambda>a.
           Some (put_owner (PopRestore b (Some (buf_get a t))) (add_log (Popped (buf_get a t)) (put_deque (q\<lparr>top := t + 1\<rparr>) s))))
         else Some (put_owner (PopRestore b None) (add_log PopEmpty s)))"
| "owner_step d (PopRestore b r) s = Some (put_owner (OReturned r) (put_deque ((cl_deque s)\<lparr>bottom := b\<rparr>) s))"
| "owner_step d (PopTake b t) s =
     (let q = cl_deque s; sz = b - t in on_buffer (deq_buffer q) q (\<lambda>a.
        let x = buf_get a (b - 1);
            q' = (if sz \<le> buf_size a div 3 \<and> sint (push_bit (log_initial_size q) 1 :: cint) < sint sz
                  then resize_to d b t (log_size a - 1) a q else q)
        in Some (put_owner (PopReclaim x) (add_log (Popped x) (put_deque q' s)))))"
| "owner_step d (PopReclaim x) s =
     map_option (\<lambda>q. put_owner (OReturned (Some x)) (put_deque q s)) (reclaim_if_unlinked (cl_deque s))"

text \<open>\<open>i\<close> is the entry of the thief; the first action and those from \<open>TDone\<close> on are those of \<open>Stealer::steal\<close>, the others those of
  \<open>Deque::steal\<close>.\<close>

fun thief_step :: "nat \<Rightarrow> 'a thief_pc \<Rightarrow> 'a cl_state \<Rightarrow> 'a cl_state option" where
  "thief_step i (TReturned r) s = Some s"
| "thief_step i TStart s =
     (let q = cl_deque s
      in Some (put_thief i TTop (put_deque (set_tls_entry i ((id_list q ! i)\<lparr>was_idle := False\<rparr>) q) s)))"
| "thief_step i TTop s = Some (put_thief i (TBottom (top (cl_deque s))) s)"
| "thief_step i (TBottom t) s =
     Some (put_thief i (if 0 < sint (ucast (bottom (cl_deque s) - t) :: cint) then TBuffer t else TDone None) s)"
| "thief_step i (TBuffer t) s = Some (put_thief i (TCas t (deq_buffer (cl_deque s))) s)"
| "thief_step i (TCas t x) s =
     (let q = cl_deque s
      in if top q = t
         then on_buffer (deq_buffer q) q (\<lambda>a.
           Some (put_thief i (TRead t x) (add_log (Stolen i (buf_get a t)) (put_deque (q\<lparr>top := t + 1\<rparr>) s))))
         else Some (put_thief i (TDone None) s))"
| "thief_step i (TRead t x) s = on_buffer x (cl_deque s) (\<lambda>a. Some (put_thief i (TDone (Some (buf_get a t))) s))"
| "thief_step i (TDone r) s =
     (let q = cl_deque s
      in Some (put_thief i (TLoad r) (put_deque (set_tls_entry i ((id_list q ! i)\<lparr>was_idle := True\<rparr>) q) s)))"
| "thief_step i (TLoad r) s = Some (put_thief i (TLast r (deq_buffer (cl_deque s))) s)"
| "thief_step i (TLast r x) s =
     (let q = cl_deque s in on_buffer x q (\<lambda>a.
        Some (put_thief i (TReturned r) (put_deque (set_tls_entry i ((id_list q ! i)\<lparr>id_last_used := buf_id a\<rparr>) q) s))))"

text \<open>
  A thread that has returned may call again; an action that is not possible then changes nothing. \<open>None\<close> is
  the use of a deleted buffer.
\<close>

datatype 'a cl_action = CallPush 'a | CallPop | OwnerGoes | CallSteal nat | ThiefGoes nat

fun returned_owner :: "'a owner_pc \<Rightarrow> bool" where
  "returned_owner (OReturned r) = True" | "returned_owner p = False"

fun returned_thief :: "'a thief_pc \<Rightarrow> bool" where
  "returned_thief (TReturned r) = True" | "returned_thief p = False"

fun cl_act :: "'a \<Rightarrow> 'a cl_action \<Rightarrow> 'a cl_state \<Rightarrow> 'a cl_state option" where
  "cl_act d (CallPush x) s = Some (if returned_owner (cl_owner s) then put_owner (PushStart x) s else s)"
| "cl_act d CallPop s = Some (if returned_owner (cl_owner s) then put_owner PopStart s else s)"
| "cl_act d OwnerGoes s = owner_step d (cl_owner s) s"
| "cl_act d (CallSteal i) s =
     Some (if i < length (id_list (cl_deque s)) \<and> returned_thief (cl_thief s i) then put_thief i TStart s else s)"
| "cl_act d (ThiefGoes i) s = thief_step i (cl_thief s i) s"

fun cl_run :: "'a \<Rightarrow> 'a cl_action list \<Rightarrow> 'a cl_state \<Rightarrow> 'a cl_state option" where
  "cl_run d [] s = Some s"
| "cl_run d (x # xs) s = (case cl_act d x s of None \<Rightarrow> None | Some s' \<Rightarrow> cl_run d xs s')"

section \<open>The list\<close>

fun list_event :: "'a cl_event \<Rightarrow> 'a list \<Rightarrow> 'a list option" where
  "list_event (Pushed x) xs = Some (xs @ [x])"
| "list_event (Popped x) xs = (if xs \<noteq> [] \<and> last xs = x then Some (butlast xs) else None)"
| "list_event PopEmpty xs = (if xs = [] then Some xs else None)"
| "list_event (Stolen i x) xs = (if xs \<noteq> [] \<and> hd xs = x then Some (tl xs) else None)"

fun list_events :: "'a cl_event list \<Rightarrow> 'a list \<Rightarrow> 'a list option" where
  "list_events [] xs = Some xs"
| "list_events (e # es) xs = (case list_event e xs of None \<Rightarrow> None | Some ys \<Rightarrow> list_events es ys)"

lemma list_events_append:
  "list_events (es @ [e]) xs = (case list_events es xs of None \<Rightarrow> None | Some ys \<Rightarrow> list_event e ys)"
  by (induction es arbitrary: xs) (simp_all split: option.splits)

section \<open>Positions of the owner\<close>

text \<open>
  What a position of the owner says of the deque: the end \<open>eb\<close> of the contents, which \<open>bottom\<close> is below while
  the owner pops; the limit \<open>lim\<close> of what thieves may claim; and the range that the buffer has room for, from
  \<open>lo\<close>, the top the owner has seen, to \<open>hi\<close>.
\<close>

fun eb :: "'a owner_pc \<Rightarrow> 'a deque \<Rightarrow> nat" where
  "eb (PopTop b) q = unat b" | "eb (PopCas b t) q = unat b" | "eb (PopRestore b r) q = unat b"
| "eb (PopTake b t) q = unat b" | "eb p q = unat (bottom q)"

fun lim :: "'a owner_pc \<Rightarrow> 'a deque \<Rightarrow> nat" where
  "lim (PopTake b t) q = unat b - 1" | "lim p q = eb p q"

fun lo :: "'a owner_pc \<Rightarrow> 'a deque \<Rightarrow> nat" where
  "lo (PushGrow x b t) q = unat t" | "lo (PushReclaim x b t) q = unat t" | "lo (PushPut x b t) q = unat t"
| "lo (PopTake b t) q = unat t" | "lo p q = unat (top q)"

fun hi :: "'a owner_pc \<Rightarrow> 'a deque \<Rightarrow> nat" where
  "hi (PushReclaim x b t) q = Suc (unat b)" | "hi (PushPut x b t) q = Suc (unat b)"
| "hi (PushStore x b) q = Suc (unat b)" | "hi p q = eb p q"

fun at_pc :: "'a owner_pc \<Rightarrow> 'a deque \<Rightarrow> 'a buffer \<Rightarrow> bool" where
  "at_pc (PushTop x b) q a \<longleftrightarrow> b = bottom q"
| "at_pc (PushGrow x b t) q a \<longleftrightarrow> b = bottom q"
| "at_pc (PushReclaim x b t) q a \<longleftrightarrow> b = bottom q"
| "at_pc (PushPut x b t) q a \<longleftrightarrow> b = bottom q"
| "at_pc (PushStore x b) q a \<longleftrightarrow> b = bottom q \<and> segment a ! (unat b mod 2 ^ log_size a) = x"
| "at_pc (PopDec b) q a \<longleftrightarrow> b = bottom q"
| "at_pc (PopTop b) q a \<longleftrightarrow> bottom q = b - 1"
| "at_pc (PopCas b t) q a \<longleftrightarrow> bottom q = b - 1 \<and> unat b = unat t + 1 \<and> unat t \<le> unat (top q)"
| "at_pc (PopRestore b r) q a \<longleftrightarrow> bottom q = b - 1 \<and> unat (top q) = unat b"
| "at_pc (PopTake b t) q a \<longleftrightarrow> bottom q = b - 1 \<and> unat t + 2 \<le> unat b"
| "at_pc p q a \<longleftrightarrow> True"

definition core :: "'a deque \<Rightarrow> 'a buffer \<Rightarrow> bool" where
  "core q a \<longleftrightarrow> chain_ok q \<and> bufs q (deq_buffer q) = Some a \<and> length (segment a) = 2 ^ log_size a \<and>
     log_initial_size q \<le> log_size a \<and> log_size a \<le> 62 \<and> log_initial_size q \<le> 30"

definition owner_ok :: "nat \<Rightarrow> 'a owner_pc \<Rightarrow> 'a deque \<Rightarrow> 'a buffer \<Rightarrow> bool" where
  "owner_ok n p q a \<longleftrightarrow> core q a \<and> buf_within n q a \<and> hi p q \<le> n \<and> hi p q - lo p q < 2 ^ log_size a \<and>
     lo p q \<le> unat (top q) \<and> unat (top q) \<le> lim p q \<and> at_pc p q a"

definition contents :: "'a owner_pc \<Rightarrow> 'a deque \<Rightarrow> 'a buffer \<Rightarrow> 'a list" where
  "contents p q a = ring_items a (unat (top q)) (eb p q)"

text \<open>A step takes no effect on the contents, or that of the event it logs.\<close>

definition logs_effect :: "'a cl_event list \<Rightarrow> 'a list \<Rightarrow> 'a cl_event list \<Rightarrow> 'a list \<Rightarrow> bool" where
  "logs_effect es xs es' ys \<longleftrightarrow> es' = es \<and> ys = xs \<or> (\<exists>e. es' = es @ [e] \<and> list_event e xs = Some ys)"

definition owner_goes :: "nat \<Rightarrow> 'a cl_state \<Rightarrow> 'a buffer \<Rightarrow> 'a cl_state option \<Rightarrow> bool" where
  "owner_goes n s a r \<longleftrightarrow> (\<exists>s' a'. r = Some s' \<and> owner_ok n (cl_owner s') (cl_deque s') a' \<and>
     cl_thief s' = cl_thief s \<and> id_list (cl_deque s') = id_list (cl_deque s) \<and> keeps_hazards (cl_deque s) (cl_deque s') \<and>
     unat (top (cl_deque s)) \<le> unat (top (cl_deque s')) \<and>
     (top (cl_deque s') = top (cl_deque s) \<longrightarrow> unat (top (cl_deque s)) < lim (cl_owner s) (cl_deque s) \<longrightarrow>
        unat (top (cl_deque s)) < lim (cl_owner s') (cl_deque s')) \<and>
     logs_effect (cl_log s) (contents (cl_owner s) (cl_deque s) a) (cl_log s') (contents (cl_owner s') (cl_deque s') a'))"

lemma owner_goesI:
  assumes "owner_ok n (cl_owner s') (cl_deque s') a'" and "cl_thief s' = cl_thief s"
    and "id_list (cl_deque s') = id_list (cl_deque s)" and "keeps_hazards (cl_deque s) (cl_deque s')"
    and "unat (top (cl_deque s)) \<le> unat (top (cl_deque s'))"
    and "top (cl_deque s') = top (cl_deque s) \<Longrightarrow> unat (top (cl_deque s)) < lim (cl_owner s) (cl_deque s) \<Longrightarrow>
      unat (top (cl_deque s)) < lim (cl_owner s') (cl_deque s')"
    and "logs_effect (cl_log s) (contents (cl_owner s) (cl_deque s) a) (cl_log s') (contents (cl_owner s') (cl_deque s') a')"
  shows "owner_goes n s a (Some s')"
  using assms unfolding owner_goes_def by blast

lemma core_cong:
  "bufs q' = bufs q \<Longrightarrow> unlinked q' = unlinked q \<Longrightarrow> deq_buffer q' = deq_buffer q \<Longrightarrow> fresh_addr q' = fresh_addr q \<Longrightarrow>
   log_initial_size q' = log_initial_size q \<Longrightarrow> core q' a = core q a"
  using chain_ok_cong [of q' q] by (simp add: core_def)

lemma core_simps [simp]:
  "core (q\<lparr>top := t\<rparr>) a = core q a" "core (q\<lparr>bottom := b\<rparr>) a = core q a" "core (q\<lparr>id_list := l\<rparr>) a = core q a"
  by (rule core_cong; simp)+

lemma buf_within_simps [simp]:
  "buf_within n (q\<lparr>top := t\<rparr>) a = buf_within n q a" "buf_within n (q\<lparr>bottom := b\<rparr>) a = buf_within n q a"
  "buf_within n (q\<lparr>id_list := l\<rparr>) a = buf_within n q a" "buf_within n (q\<lparr>bufs := m\<rparr>) a = buf_within n q a"
  by (simp_all add: buf_within_def)

lemma buf_within_Suc: "buf_within n q a \<Longrightarrow> buf_within (Suc n) q a"
  by (auto simp: buf_within_def)

lemma on_current [simp]: "core q a \<Longrightarrow> on_buffer (deq_buffer q) q f = f a"
  by (simp add: on_buffer_def core_def)

lemma logs_nothing [simp]: "logs_effect es xs es xs"
  by (simp add: logs_effect_def)

lemma logs_event: "list_event e xs = Some ys \<Longrightarrow> logs_effect es xs (es @ [e]) ys"
  by (simp add: logs_effect_def)

lemma keeps_hazards_same [simp]:
  "keeps_hazards q q" "keeps_hazards q (q\<lparr>top := t\<rparr>)" "keeps_hazards q (q\<lparr>bottom := b\<rparr>)"
  by (simp_all add: keeps_hazards_def)

section \<open>The steps of the owner\<close>

lemma owner_window:
  assumes "owner_ok n p q a" and "n < 2 ^ 31"
  shows "core q a" "buf_within n q a" "buf_within (Suc n) q a" "hi p q \<le> n" "hi p q - lo p q < 2 ^ log_size a"
    "lo p q \<le> unat (top q)" "unat (top q) \<le> lim p q" "at_pc p q a" "log_size a < 62" "unat (buf_id a) < 2 ^ 62"
    "length (segment a) = 2 ^ log_size a" "log_initial_size q \<le> 30" "unat (bottom q + 1) = unat (bottom q) + 1 \<or> n < unat (bottom q)"
proof -
  show o: "core q a" "buf_within n q a" "hi p q \<le> n" "hi p q - lo p q < 2 ^ log_size a"
    "lo p q \<le> unat (top q)" "unat (top q) \<le> lim p q" "at_pc p q a" using assms(1) by (simp_all add: owner_ok_def)
  show "buf_within (Suc n) q a" using o(2) by (rule buf_within_Suc)
  show "length (segment a) = 2 ^ log_size a" "log_initial_size q \<le> 30" using o(1) by (simp_all add: core_def)
  then show "log_size a < 62" "unat (buf_id a) < 2 ^ 62" using buf_within_limits [OF o(2) assms(2)] by simp_all
  show "unat (bottom q + 1) = unat (bottom q) + 1 \<or> n < unat (bottom q)"
    using assms(2) position_next [of "bottom q" "2 ^ 63"] by auto
qed

lemma step_loads:
  assumes ok: "owner_ok n (cl_owner s) (cl_deque s) a" and n: "n < 2 ^ 31"
    and p: "cl_owner s = OReturned r \<or> cl_owner s = PushStart x \<or> cl_owner s = PushTop x b \<or> cl_owner s = PopStart \<or>
      cl_owner s = PopDec b \<or> cl_owner s = PopRestore b r"
  shows "owner_goes (Suc n) s a (owner_step d (cl_owner s) s)"
proof -
  note w = owner_window [OF ok n]
  from p show ?thesis
    by (elim disjE) (use w in \<open>simp, intro owner_goesI [of _ _ a]; simp add: owner_ok_def contents_def\<close>)+
qed

lemma step_store:
  assumes ok: "owner_ok n (cl_owner s) (cl_deque s) a" and n: "n < 2 ^ 31" and p: "cl_owner s = PushStore x b"
  shows "owner_goes (Suc n) s a (owner_step d (cl_owner s) s)"
proof -
  note w = owner_window [OF ok n, unfolded p, simplified]
  let ?q = "cl_deque s"
  have b: "unat (b + 1) = unat b + 1" "b = bottom ?q" using w by auto
  have "ring_items a (unat (top ?q)) (Suc (unat b)) = ring_items a (unat (top ?q)) (unat b) @ [x]"
    using ring_items_split(1) [of "unat (top ?q)" "Suc (unat b)" a] w by auto
  then have "logs_effect (cl_log s) (contents (PushStore x b) ?q a) (cl_log s @ [Pushed x]) (contents (OReturned None) (?q\<lparr>bottom := b + 1\<rparr>) a)"
    using b by (intro logs_event) (simp add: contents_def)
  then show ?thesis using w b p
    by (simp add: Let_def, intro owner_goesI [of _ _ a]) (simp_all add: owner_ok_def)
qed

lemma pop_sizes:
  fixes b t :: usize
  assumes "unat t \<le> unat b" and "unat b < 2 ^ 31"
  shows "sint (b - t) \<le> 0 \<longleftrightarrow> unat t = unat b" and "b - t = 1 \<longleftrightarrow> unat b = unat t + 1"
proof -
  have "unat b < 2 ^ 63" using assms(2) by simp
  note d = position_diff_int [OF assms(1) this] position_diff [OF assms(1)]
  show "sint (b - t) \<le> 0 \<longleftrightarrow> unat t = unat b" using d(1) assms(1) by linarith
  show "b - t = 1 \<longleftrightarrow> unat b = unat t + 1"
    using d(2) assms(1) by (metis le_add_diff_inverse unat_1 word_unat_eq_iff add_diff_cancel_left')
qed

lemma step_pop_top:
  assumes ok: "owner_ok n (cl_owner s) (cl_deque s) a" and n: "n < 2 ^ 31" and p: "cl_owner s = PopTop b"
  shows "owner_goes (Suc n) s a (owner_step d (cl_owner s) s)"
proof -
  note w = owner_window [OF ok n, unfolded p, simplified]
  let ?q = "cl_deque s" and ?t = "top (cl_deque s)"
  have t: "unat ?t \<le> unat b" "unat b < 2 ^ 31" using w n by auto
  note sz = pop_sizes [OF t]
  consider "unat ?t = unat b" | "unat b = unat ?t + 1" | "unat ?t + 2 \<le> unat b" using t by linarith
  then show ?thesis
  proof cases
    case 1
    then have "logs_effect (cl_log s) (contents (PopTop b) ?q a) (cl_log s @ [PopEmpty]) (contents (PopRestore b None) ?q a)"
      by (intro logs_event) (simp add: contents_def ring_items_def)
    then show ?thesis using w 1 sz p
      by (simp add: Let_def, intro owner_goesI [of _ _ a]) (simp_all add: owner_ok_def Let_def)
  next
    case 2
    then show ?thesis using w sz p
      by (simp add: Let_def, intro owner_goesI [of _ _ a]) (simp_all add: owner_ok_def Let_def contents_def)
  next
    case 3
    then show ?thesis using w sz p
      by (simp add: Let_def, intro owner_goesI [of _ _ a]) (simp_all add: owner_ok_def Let_def contents_def)
  qed
qed

lemma step_pop_cas:
  assumes ok: "owner_ok n (cl_owner s) (cl_deque s) a" and n: "n < 2 ^ 31" and p: "cl_owner s = PopCas b t"
  shows "owner_goes (Suc n) s a (owner_step d (cl_owner s) s)"
proof -
  note w = owner_window [OF ok n, unfolded p, simplified]
  let ?q = "cl_deque s"
  show ?thesis
  proof (cases "top ?q = t")
    case True
    have t1: "unat (t + 1) = unat t + 1" using w by (intro position_next [of _ b]) simp
    have "ring_items a (unat t) (unat b) = [buf_get a t]"
      using w by (simp add: ring_items_def buf_get_nat)
    then have "logs_effect (cl_log s) (contents (PopCas b t) ?q a) (cl_log s @ [Popped (buf_get a t)])
        (contents (PopRestore b (Some (buf_get a t))) (?q\<lparr>top := t + 1\<rparr>) a)"
      using True t1 w by (intro logs_event) (simp add: contents_def ring_items_def)
    then show ?thesis using w True t1 p
      by (simp add: Let_def, intro owner_goesI [of _ _ a]) (simp_all add: owner_ok_def)
  next
    case False
    then have "unat (top ?q) \<noteq> unat t" by (simp add: word_unat_eq_iff)
    then have t: "unat (top ?q) = unat b" using w by linarith
    then have "logs_effect (cl_log s) (contents (PopCas b t) ?q a) (cl_log s @ [PopEmpty]) (contents (PopRestore b None) ?q a)"
      by (intro logs_event) (simp add: contents_def ring_items_def)
    then show ?thesis using w False t p
      by (simp add: Let_def, intro owner_goesI [of _ _ a]) (simp_all add: owner_ok_def)
  qed
qed

lemma ring_items_sub: "ring_items x t b = ring_items y t b \<Longrightarrow> t \<le> t' \<Longrightarrow> ring_items x t' b = ring_items y t' b"
  by (auto simp: ring_items_def)

lemma resize_core:
  assumes q: "core q a" and small: "unat (buf_id a) < 2 ^ 62" and ls: "log_initial_size q \<le> ls" "ls \<le> 62"
    and b: "unat t \<le> unat b" "unat b < 2 ^ 63" "unat b - unat t \<le> 2 ^ ls"
  obtains a' where "core (resize_to d b t ls a q) a'" "keeps_hazards q (resize_to d b t ls a q)" "log_size a' = ls"
    "unat (buf_id a') = unat (buf_id a) + 1" "\<And>t'. unat t \<le> t' \<Longrightarrow> ring_items a' t' (unat b) = ring_items a t' (unat b)"
proof -
  let ?a = "buf_resized d a b t ls" and ?q = "resize_to d b t ls a q"
  have c: "chain_ok q" "bufs q (deq_buffer q) = Some a" "log_size a < 64" "ls < 64" using q ls(2) by (simp_all add: core_def)
  note f = buf_resized_fields [OF b(2,1) c(3,4), where d = d]
  have id: "unat (buf_id a + 1) = unat (buf_id a) + 1" using small by (intro position_next [of _ "2 ^ 63"]) simp
  then have less: "sint (buf_id a) < sint (buf_id ?a)" unfolding f(2) using small by (subst sint_less) simp_all
  have ring: "ring_items ?a (unat t) (unat b) = ring_items a (unat t) (unat b)"
    by (rule ring_items_resized [OF b(2,1) c(3,4) b(3)])
  have "core ?q ?a"
    using chain_ok_resize [OF c(1,2) less] f(1,3) ls q by (simp add: core_def resize_to_def)
  moreover have "keeps_hazards q ?q" using less by (intro keeps_hazards_resize c) simp
  ultimately show ?thesis
    using that [of ?a] f(1) id ring_items_sub [OF ring] by (simp add: f(2))
qed

lemma resize_to_fields [simp]:
  "top (resize_to d b t ls a q) = top q" "bottom (resize_to d b t ls a q) = bottom q"
  "id_list (resize_to d b t ls a q) = id_list q" "log_initial_size (resize_to d b t ls a q) = log_initial_size q"
  by (simp_all add: resize_to_def)

lemma buf_within_resized:
  assumes "unat (buf_id a') = unat (buf_id a) + 1" and "buf_within n q a"
    and "2 ^ log_size a' \<le> max (2 ^ log_size a) (2 * Suc n)" and "log_initial_size q' = log_initial_size q"
  shows "buf_within (Suc n) q' a'"
proof -
  have "2 ^ log_size a \<le> max (2 ^ log_initial_size q) (2 * Suc n)" using assms(2) by (auto simp: buf_within_def)
  then have "2 ^ log_size a' \<le> max (2 ^ log_initial_size q') (2 * Suc n)" using assms(3,4) by (metis le_max_iff_disj order_trans)
  then show ?thesis using assms(1,2) by (simp add: buf_within_def)
qed

lemma step_push_grow:
  assumes ok: "owner_ok n (cl_owner s) (cl_deque s) a" and n: "n < 2 ^ 31" and p: "cl_owner s = PushGrow x b t"
  shows "owner_goes (Suc n) s a (owner_step d (cl_owner s) s)"
proof -
  note w = owner_window [OF ok n, unfolded p, simplified]
  let ?q = "cl_deque s"
  have b: "b = bottom ?q" "unat t \<le> unat b" "unat b < 2 ^ 63" "unat b \<le> n" "unat b - unat t < 2 ^ log_size a" using w n by auto
  have sz: "unat (buf_size a) = 2 ^ log_size a" using buf_size_nat [of a] w by simp
  then have "1 \<le> unat (buf_size a)" by simp
  then have "unat (buf_size a - 1) = 2 ^ log_size a - 1" using sz by (simp add: unat_sub word_le_nat_alt)
  then have cond: "b - t \<ge> buf_size a - 1 \<longleftrightarrow> 2 ^ log_size a - 1 \<le> unat b - unat t"
    using position_diff [OF b(2)] by (simp add: word_le_nat_alt)
  show ?thesis
  proof (cases "b - t \<ge> buf_size a - 1")
    case True
    have ls: "log_initial_size ?q \<le> log_size a + 1" "log_size a + 1 \<le> 62" "unat b - unat t \<le> 2 ^ (log_size a + 1)"
      using w b(5) by (simp_all add: core_def)
    obtain a' where a': "core (resize_to d b t (log_size a + 1) a ?q) a'" "keeps_hazards ?q (resize_to d b t (log_size a + 1) a ?q)"
      "log_size a' = log_size a + 1" "unat (buf_id a') = unat (buf_id a) + 1"
      "\<And>t'. unat t \<le> t' \<Longrightarrow> ring_items a' t' (unat b) = ring_items a t' (unat b)"
      using resize_core [OF owner_window(1,10) [OF ok n] ls(1,2) b(2,3) ls(3)] by blast
    have "2 ^ log_size a' \<le> 2 * Suc n" using True cond a'(3) b(4) by simp
    then have "buf_within (Suc n) (resize_to d b t (log_size a + 1) a ?q) a'"
      by (intro buf_within_resized [OF a'(4) w(2)]) simp_all
    then show ?thesis using w True p a' b
      by (simp add: Let_def, intro owner_goesI [of _ _ a']) (simp_all add: owner_ok_def contents_def)
  next
    case False
    then have "Suc (unat b) - unat t < 2 ^ log_size a" using cond b(2) by simp
    then show ?thesis using w False p b
      by (simp add: Let_def, intro owner_goesI [of _ _ a]) (simp_all add: owner_ok_def contents_def)
  qed
qed

lemma reclaim_core:
  assumes "core q a" and "unat (top q) \<le> unat (bottom q)" "unat (bottom q) < 2 ^ 63"
  obtains q' where "reclaim_if_unlinked q = Some q'" "core q' a" "keeps_hazards q q'"
    "top q' = top q" "bottom q' = bottom q" "log_initial_size q' = log_initial_size q" "id_list q' = id_list q"
proof -
  have "chain_ok q" "window_ok q a" using assms by (simp_all add: core_def window_ok_def)
  then obtain q' where "reclaim_if_unlinked q = Some q'" "chain_ok q'" "window_ok q' a" "keeps_hazards q q'"
    "top q' = top q" "bottom q' = bottom q" "log_initial_size q' = log_initial_size q" "id_list q' = id_list q"
    by (rule reclaim_window)
  then show ?thesis using that [of q'] assms(1) by (simp add: core_def window_ok_def)
qed

lemma step_reclaim:
  assumes ok: "owner_ok n (cl_owner s) (cl_deque s) a" and n: "n < 2 ^ 31"
    and p: "cl_owner s = PushReclaim x b t \<or> cl_owner s = PopReclaim x"
  shows "owner_goes (Suc n) s a (owner_step d (cl_owner s) s)"
proof -
  note w = owner_window [OF ok n]
  let ?q = "cl_deque s"
  have "unat (top ?q) \<le> unat (bottom ?q)" "unat (bottom ?q) < 2 ^ 63" using w p n by auto
  then obtain q' where q': "reclaim_if_unlinked ?q = Some q'" "core q' a" "keeps_hazards ?q q'"
    "top q' = top ?q" "bottom q' = bottom ?q" "log_initial_size q' = log_initial_size ?q" "id_list q' = id_list ?q"
    using reclaim_core [OF w(1)] by blast
  have within: "buf_within (Suc n) q' a" using w(3) q'(6) by (simp add: buf_within_def)
  from p show ?thesis
    by (elim disjE) (use w q' within in \<open>simp, intro owner_goesI [of _ _ a]; simp add: owner_ok_def contents_def\<close>)+
qed

lemma core_put:
  assumes "core q a"
  shows "core (q\<lparr>bufs := (bufs q)(deq_buffer q \<mapsto> buf_put b x a)\<rparr>) (buf_put b x a)"
proof -
  have "chain_ok q" "bufs q (deq_buffer q) = Some a" using assms by (simp_all add: core_def)
  from chain_ok_put [OF this, where i = b and x = x and b = "bottom q"] have "chain_ok (q\<lparr>bufs := (bufs q)(deq_buffer q \<mapsto> buf_put b x a)\<rparr>)"
    by simp
  then show ?thesis using assms by (simp add: core_def buf_put_def)
qed

lemma step_push_put:
  assumes ok: "owner_ok n (cl_owner s) (cl_deque s) a" and n: "n < 2 ^ 31" and p: "cl_owner s = PushPut x b t"
  shows "owner_goes (Suc n) s a (owner_step d (cl_owner s) s)"
proof -
  note w = owner_window [OF ok n, unfolded p, simplified]
  let ?q = "cl_deque s" and ?a = "buf_put b x a"
  have b: "b = bottom ?q" "unat (top ?q) \<le> unat b" "unat b - unat (top ?q) < 2 ^ log_size a" using w by auto
  have put: "?a = a\<lparr>segment := (segment a)[unat b mod 2 ^ log_size a := x]\<rparr>" using w by (intro buf_put_nat) simp
  have "butlast (ring_items ?a (unat (top ?q)) (Suc (unat b))) = ring_items a (unat (top ?q)) (unat b)"
    using ring_items_put [OF b(2,3), of x] w unfolding put by simp
  moreover have "butlast (ring_items ?a (unat (top ?q)) (Suc (unat b))) = ring_items ?a (unat (top ?q)) (unat b)"
    using b(2) ring_items_split(1) [of "unat (top ?q)" "Suc (unat b)" ?a] by simp
  ultimately have ring: "ring_items ?a (unat (top ?q)) (unat b) = ring_items a (unat (top ?q)) (unat b)" by simp
  have "keeps_hazards ?q (?q\<lparr>bufs := (bufs ?q)(deq_buffer ?q \<mapsto> ?a)\<rparr>)"
    using keeps_hazards_put [of ?q a, where i = b and x = x and b = b] w by (simp add: core_def keeps_hazards_def)
  moreover have "buf_within (Suc n) ?q ?a" using w(3) by (simp add: buf_put_def buf_within_def)
  moreover have "segment ?a ! (unat b mod 2 ^ log_size ?a) = x" unfolding put using w by simp
  moreover have "log_size ?a = log_size a" by (simp add: put)
  ultimately show ?thesis using w p b ring core_put [OF w(1), of b x]
    by (simp add: Let_def, intro owner_goesI [of _ _ ?a]) (simp_all add: owner_ok_def contents_def)
qed

lemma step_pop_take:
  assumes ok: "owner_ok n (cl_owner s) (cl_deque s) a" and n: "n < 2 ^ 31" and p: "cl_owner s = PopTake b t"
  shows "owner_goes (Suc n) s a (owner_step d (cl_owner s) s)"
proof -
  note w = owner_window [OF ok n, unfolded p, simplified]
  let ?q = "cl_deque s" and ?x = "buf_get a (b - 1)"
  have b: "unat t \<le> unat (top ?q)" "unat (top ?q) \<le> unat b - 1" "unat t + 2 \<le> unat b" "unat b \<le> n" "unat b < 2 ^ 63"
    "unat b - unat t < 2 ^ log_size a" "bottom ?q = b - 1" using w n by auto
  have b1: "unat (b - 1) = unat b - 1" using position_diff [of 1 b] b(3) by simp
  have less: "unat (top ?q) < unat b" using b(2,3) by linarith
  have x: "?x = last (ring_items a (unat (top ?q)) (unat b))"
    using ring_items_split(1) [OF less, of a] b1 buf_get_nat [of a "b - 1"] w by simp
  have ring: "ring_items a' (unat (top ?q)) (unat b - 1) = butlast (ring_items a' (unat (top ?q)) (unat b))" for a' :: "'a buffer"
    using ring_items_split(1) [OF less, of a'] by simp
  have ne: "ring_items a (unat (top ?q)) (unat b) \<noteq> []" using less by (simp add: ring_items_def)
  have logs: "logs_effect (cl_log s) (contents (PopTake b t) ?q a) (cl_log s @ [Popped ?x]) (contents (PopReclaim ?x) q' a')"
    if "ring_items a' (unat (top ?q)) (unat b) = ring_items a (unat (top ?q)) (unat b)" "top q' = top ?q" "bottom q' = b - 1" for q' a'
    using that ring [of a'] ne x b1 by (intro logs_event) (simp add: contents_def)
  let ?shrinks = "b - t \<le> buf_size a div 3 \<and> sint (push_bit (log_initial_size ?q) 1 :: cint) < sint (b - t)"
  show ?thesis
  proof (cases ?shrinks)
    case True
    have le: "unat t \<le> unat b" using b(3) by simp
    have third: "unat b - unat t \<le> 2 ^ log_size a div 3"
      using True position_diff [OF le] buf_size_nat [of a] w by (simp add: word_le_nat_alt unat_div)
    then obtain l where l: "log_size a = Suc l" using b(3) by (cases "log_size a") auto
    have half: "unat b - unat t \<le> 2 ^ l" using third unfolding l by simp
    have "int (2 ^ log_initial_size ?q) < int (unat b - unat t)"
      using True initial_size_int [of "log_initial_size ?q"] position_diff_int [OF le b(5)] w by simp
    then have "2 ^ log_initial_size ?q < unat b - unat t" by (simp only: of_nat_less_iff)
    then have "(2 :: nat) ^ log_initial_size ?q < 2 ^ l" using half by linarith
    then have li: "log_initial_size ?q \<le> l" by (simp only: power_strict_increasing_iff)
    have l62: "l \<le> 62" using w l by simp
    obtain a' where a': "core (resize_to d b t l a ?q) a'" "keeps_hazards ?q (resize_to d b t l a ?q)"
      "log_size a' = l" "unat (buf_id a') = unat (buf_id a) + 1"
      "\<And>t'. unat t \<le> t' \<Longrightarrow> ring_items a' t' (unat b) = ring_items a t' (unat b)"
      using resize_core [OF owner_window(1,10) [OF ok n] li l62 le b(5) half] by blast
    have "(2 :: nat) ^ log_size a' \<le> 2 ^ log_size a" using a'(3) l by simp
    then have "buf_within (Suc n) (resize_to d b t l a ?q) a'"
      by (intro buf_within_resized [OF a'(4) w(2)]) (auto simp: le_max_iff_disj)
    moreover have "unat b - 1 - unat (top ?q) < 2 ^ l" using half b(1,3) by linarith
    ultimately show ?thesis using w True p a' b b1 l logs [of a' "resize_to d b t l a ?q"]
      by (simp add: Let_def, intro owner_goesI [of _ _ a']) (simp_all add: owner_ok_def)
  next
    case False
    then have "owner_step d (cl_owner s) s = Some (put_owner (PopReclaim ?x) (add_log (Popped ?x) (put_deque ?q s)))"
      using p w by (simp only: owner_step.simps Let_def if_False on_current)
    moreover have "unat b - 1 - unat (top ?q) < 2 ^ log_size a" using b(1,3,6) by linarith
    ultimately show ?thesis using w p b b1 logs [of a ?q]
      by (simp, intro owner_goesI [of _ _ a]) (simp_all add: owner_ok_def)
  qed
qed

lemma owner_step_ok:
  assumes "owner_ok n (cl_owner s) (cl_deque s) a" and "n < 2 ^ 31"
  shows "owner_goes (Suc n) s a (owner_step d (cl_owner s) s)"
proof (cases "cl_owner s")
  case (OReturned r)
  then show ?thesis by (intro step_loads [OF assms, of r]) simp
next
  case (PushStart x)
  then show ?thesis by (intro step_loads [OF assms, of _ x]) simp
next
  case (PushTop x b)
  then show ?thesis by (intro step_loads [OF assms, of _ x b]) simp
next
  case PopStart
  then show ?thesis by (intro step_loads [OF assms]) simp
next
  case (PopDec b)
  then show ?thesis by (intro step_loads [OF assms, of _ _ b]) simp
next
  case (PopRestore b r)
  then show ?thesis by (intro step_loads [OF assms, of r _ b]) simp
next
  case (PushReclaim x b t)
  then show ?thesis by (intro step_reclaim [OF assms, of x b t]) simp
next
  case (PopReclaim x)
  then show ?thesis by (intro step_reclaim [OF assms, of x]) simp
qed (rule step_store [OF assms] step_pop_top [OF assms] step_pop_cas [OF assms] step_push_grow [OF assms]
    step_push_put [OF assms] step_pop_take [OF assms], assumption)+

section \<open>The thieves\<close>

text \<open>
  What the position of a thief says: its entry is marked as busy while it may use a buffer, a buffer it has
  loaded is protected, and where it has seen an element at its position, that is still there unless \<open>top\<close> has
  moved on.
\<close>

definition seen :: "'a cl_state \<Rightarrow> usize \<Rightarrow> bool" where
  "seen s t \<longleftrightarrow> unat t \<le> unat (top (cl_deque s)) \<and>
     (top (cl_deque s) = t \<longrightarrow> unat t < lim (cl_owner s) (cl_deque s))"

definition busy :: "'a deque \<Rightarrow> nat \<Rightarrow> bool" where
  "busy q i \<longleftrightarrow> \<not> was_idle (id_list q ! i)"

definition protected :: "'a deque \<Rightarrow> nat \<Rightarrow> nat \<Rightarrow> bool" where
  "protected q i x \<longleftrightarrow> busy q i \<and> (\<exists>a. bufs q x = Some a \<and> sint (id_last_used (id_list q ! i)) \<le> sint (buf_id a))"

fun thief_at :: "'a cl_state \<Rightarrow> nat \<Rightarrow> 'a thief_pc \<Rightarrow> bool" where
  "thief_at s i TTop \<longleftrightarrow> busy (cl_deque s) i"
| "thief_at s i (TBottom t) \<longleftrightarrow> busy (cl_deque s) i \<and> unat t \<le> unat (top (cl_deque s))"
| "thief_at s i (TBuffer t) \<longleftrightarrow> busy (cl_deque s) i \<and> seen s t"
| "thief_at s i (TCas t x) \<longleftrightarrow> protected (cl_deque s) i x \<and> seen s t"
| "thief_at s i (TRead t x) \<longleftrightarrow> protected (cl_deque s) i x"
| "thief_at s i p \<longleftrightarrow> True"

definition cl_inv :: "nat \<Rightarrow> nat \<Rightarrow> 'a cl_state \<Rightarrow> bool" where
  "cl_inv n k s \<longleftrightarrow> length (id_list (cl_deque s)) = k \<and> last_used_ok (cl_deque s) \<and>
     (\<forall>i. thief_at s i (cl_thief s i) \<and> (k \<le> i \<longrightarrow> cl_thief s i = TReturned None)) \<and>
     (\<exists>a. owner_ok n (cl_owner s) (cl_deque s) a \<and> list_events (cl_log s) [] = Some (contents (cl_owner s) (cl_deque s) a))"

lemma owner_current: "owner_ok n p q a \<Longrightarrow> bufs q (deq_buffer q) = Some a"
  by (simp add: owner_ok_def core_def)

lemma owner_ok_Suc: "owner_ok n p q a \<Longrightarrow> owner_ok (Suc n) p q a"
  by (auto simp: owner_ok_def buf_within_Suc)

lemma hazards_protected:
  assumes "keeps_hazards q q'" and "id_list q' = id_list q" and "i < length (id_list q)" and "protected q i x"
  shows "protected q' i x"
proof -
  have "id_list q ! i \<in> set (id_list q)" using assms(3) by simp
  with assms show ?thesis unfolding protected_def busy_def keeps_hazards_def by metis
qed

text \<open>The owner leaves the thieves what they rely on.\<close>

lemma owner_keeps_thief:
  assumes s': "cl_thief s' = cl_thief s" "id_list (cl_deque s') = id_list (cl_deque s)" "keeps_hazards (cl_deque s) (cl_deque s')"
    "unat (top (cl_deque s)) \<le> unat (top (cl_deque s'))"
    "top (cl_deque s') = top (cl_deque s) \<longrightarrow> unat (top (cl_deque s)) < lim (cl_owner s) (cl_deque s) \<longrightarrow>
        unat (top (cl_deque s)) < lim (cl_owner s') (cl_deque s')"
    and i: "i < length (id_list (cl_deque s))" and at: "thief_at s i p"
  shows "thief_at s' i p"
proof -
  have busy: "busy (cl_deque s') i = busy (cl_deque s) i" using s'(2) by (simp add: busy_def)
  have seen: "seen s' t" if "seen s t" for t
  proof -
    have "top (cl_deque s) = t" if "top (cl_deque s') = t"
      using that \<open>seen s t\<close> s'(4) by (auto simp: seen_def word_unat_eq_iff)
    then show ?thesis using that s'(4,5) by (auto simp: seen_def)
  qed
  show ?thesis using at busy seen hazards_protected [OF s'(3,2) i] s'(4)
    by (cases p) auto
qed

lemma inv_owner:
  assumes inv: "cl_inv n k s" and n: "n < 2 ^ 31"
  obtains s' where "owner_step d (cl_owner s) s = Some s'" "cl_inv (Suc n) k s'"
proof -
  obtain a where a: "owner_ok n (cl_owner s) (cl_deque s) a"
    "list_events (cl_log s) [] = Some (contents (cl_owner s) (cl_deque s) a)" using inv by (auto simp: cl_inv_def)
  obtain s' a' where s': "owner_step d (cl_owner s) s = Some s'" "owner_ok (Suc n) (cl_owner s') (cl_deque s') a'"
    "cl_thief s' = cl_thief s" "id_list (cl_deque s') = id_list (cl_deque s)" "keeps_hazards (cl_deque s) (cl_deque s')"
    "unat (top (cl_deque s)) \<le> unat (top (cl_deque s'))"
    "top (cl_deque s') = top (cl_deque s) \<longrightarrow> unat (top (cl_deque s)) < lim (cl_owner s) (cl_deque s) \<longrightarrow>
        unat (top (cl_deque s)) < lim (cl_owner s') (cl_deque s')"
    "logs_effect (cl_log s) (contents (cl_owner s) (cl_deque s) a) (cl_log s') (contents (cl_owner s') (cl_deque s') a')"
    using owner_step_ok [OF a(1) n, of d] unfolding owner_goes_def by blast
  have "list_events (cl_log s') [] = Some (contents (cl_owner s') (cl_deque s') a')"
    using s'(8) a(2) by (auto simp: logs_effect_def list_events_append)
  moreover have "sint (buf_id a) \<le> sint (buf_id a')"
    using s'(5) owner_current [OF a(1)] owner_current [OF s'(2)] unfolding keeps_hazards_def by blast
  then have "last_used_ok (cl_deque s')"
    using inv owner_current [OF a(1)] owner_current [OF s'(2)] s'(4) by (fastforce simp: cl_inv_def last_used_ok_def)
  moreover have "thief_at s' i (cl_thief s' i)" for i
  proof (cases "i < k")
    case True
    then show ?thesis using owner_keeps_thief [OF s'(3-7), of i] inv s'(3) by (simp add: cl_inv_def)
  next
    case False
    then show ?thesis using inv s'(3) by (simp add: cl_inv_def)
  qed
  ultimately have "cl_inv (Suc n) k s'" using inv s'(2-4) by (auto simp: cl_inv_def)
  with s'(1) that show ?thesis by blast
qed

section \<open>The steps of a thief\<close>

text \<open>A change of the thief's own position and entry, where the owner's part stays.\<close>

lemma inv_thief:
  assumes inv: "cl_inv n k s" and i: "i < k" and q': "cl_deque s' = (cl_deque s)\<lparr>id_list := l\<rparr>"
    and l: "l = (id_list (cl_deque s))[i := e]"
    and s': "cl_owner s' = cl_owner s" "cl_log s' = cl_log s" "cl_thief s' = (cl_thief s)(i := p)"
    and e: "\<And>a. bufs (cl_deque s) (deq_buffer (cl_deque s)) = Some a \<Longrightarrow> sint (id_last_used e) \<le> sint (buf_id a)"
    and p: "thief_at s' i p"
  shows "cl_inv (Suc n) k s'"
proof -
  obtain a where a: "owner_ok n (cl_owner s) (cl_deque s) a"
    "list_events (cl_log s) [] = Some (contents (cl_owner s) (cl_deque s) a)" using inv by (auto simp: cl_inv_def)
  have pcs: "eb r (q\<lparr>id_list := m\<rparr>) = eb r q" "lim r (q\<lparr>id_list := m\<rparr>) = lim r q" "lo r (q\<lparr>id_list := m\<rparr>) = lo r q"
    "hi r (q\<lparr>id_list := m\<rparr>) = hi r q" "at_pc r (q\<lparr>id_list := m\<rparr>) b = at_pc r q b" for r m b and q :: "'a deque"
    by (cases r; simp)+
  have own: "owner_ok n (cl_owner s') (cl_deque s') a" using a(1) s'(1) q' pcs by (simp add: owner_ok_def)
  have con: "contents (cl_owner s') (cl_deque s') a = contents (cl_owner s) (cl_deque s) a"
    using s'(1) q' pcs by (simp add: contents_def)
  have last: "last_used_ok (cl_deque s')"
  proof (rule last_used_ok_update)
    show "last_used_ok (cl_deque s)" using inv by (simp add: cl_inv_def)
    show "set (id_list (cl_deque s')) \<subseteq> insert e (set (id_list (cl_deque s)))"
      unfolding q' l by (simp add: set_update_subset_insert)
  qed (use q' e in simp_all)
  have thieves: "thief_at s' j (cl_thief s' j)" for j
  proof (cases "j = i")
    case False
    then have "id_list (cl_deque s') ! j = id_list (cl_deque s) ! j" using q' l by simp
    then have "busy (cl_deque s') j = busy (cl_deque s) j" "\<And>x. protected (cl_deque s') j x = protected (cl_deque s) j x"
      "\<And>t. seen s' t = seen s t"
      using q' pcs s'(1) by (simp_all add: busy_def protected_def seen_def)
    then show ?thesis using False inv s'(3) q' by (cases "cl_thief s j") (auto simp: cl_inv_def dest: spec [of _ j])
  qed (use p s'(3) in simp)
  have "\<exists>a. owner_ok (Suc n) (cl_owner s') (cl_deque s') a \<and>
      list_events (cl_log s') [] = Some (contents (cl_owner s') (cl_deque s') a)"
    using own con a(2) s'(2) owner_ok_Suc by (intro exI [of _ a]) simp
  moreover have "length (id_list (cl_deque s')) = k" "\<forall>j. k \<le> j \<longrightarrow> cl_thief s' j = TReturned None"
    using inv i q' l s'(3) by (auto simp: cl_inv_def)
  ultimately show ?thesis using last thieves by (simp add: cl_inv_def)
qed

lemma thief_at_put [simp]: "thief_at (put_thief i p s) j r = thief_at s j r"
  by (cases r) (simp_all add: seen_def)

lemma inv_thief_pc:
  assumes inv: "cl_inv n k s" and i: "i < k" and p: "thief_at s i p"
  shows "cl_inv (Suc n) k (put_thief i p s)"
proof (rule inv_thief [OF inv i, of _ "id_list (cl_deque s)" "id_list (cl_deque s) ! i" p])
  have "i < length (id_list (cl_deque s))" using inv i by (simp add: cl_inv_def)
  then have e: "id_list (cl_deque s) ! i \<in> set (id_list (cl_deque s))" by simp
  show "sint (id_last_used (id_list (cl_deque s) ! i)) \<le> sint (buf_id a)"
    if "bufs (cl_deque s) (deq_buffer (cl_deque s)) = Some a" for a
    using inv e that by (simp add: cl_inv_def last_used_ok_def)
qed (use p in simp_all)

text \<open>A positive size means that there is an element, whatever the owner is about to do.\<close>

lemma size_seen:
  assumes ok: "owner_ok n p q a" and n: "n < 2 ^ 31" and t: "unat t \<le> unat (top q)"
    and size: "0 < sint (ucast (bottom q - t) :: cint)"
  shows "unat t < lim p q"
proof -
  note w = owner_window [OF ok n]
  have pos: "unat t < unat b" if "unat t \<le> unat b" "unat b \<le> n" "bottom q = b" for b
    using int_size [of b t] position_diff [OF that(1)] that n size by simp
  have pop: "unat t < unat b - 1" if "unat t \<le> unat b" "unat b \<le> n" "bottom q = b - 1" for b
  proof (cases "unat t = unat b")
    case True
    then have "t = b" by (simp add: word_unat_eq_iff)
    then have "bottom q - t = - 1" using that by simp
    moreover have "sint (ucast (- 1 :: usize) :: cint) = - 1" by code_simp
    ultimately show ?thesis using size by simp
  next
    case False
    then have "unat (b - 1) = unat b - 1" using that(1) position_diff [of 1 b] by simp
    then show ?thesis using pos [of "b - 1"] that False by simp
  qed
  show ?thesis using w t pos [of "bottom q"] pop by (cases p) fastforce+
qed

text \<open>A successful exchange takes the oldest element.\<close>

text \<open>A successful exchange takes the oldest element.\<close>

lemma owner_ok_top:
  assumes ok: "owner_ok n p q a" and n: "n < 2 ^ 31" and t: "top q = t" and limit: "unat t < lim p q"
  shows "owner_ok n p (q\<lparr>top := t + 1\<rparr>) a" and "unat (t + 1) = unat t + 1"
    and "contents p q a = buf_get a t # contents p (q\<lparr>top := t + 1\<rparr>) a"
    and "lim p (q\<lparr>top := t + 1\<rparr>) = lim p q"
proof -
  note w = owner_window [OF ok n]
  let ?q = "q\<lparr>top := t + 1\<rparr>"
  have le: "unat t < eb p q" "eb p q \<le> hi p q" using limit w(8) by (cases p; simp)+
  have "unat t < unat (2 ^ 31 :: usize)" using le w(4) n by simp
  then show t1: "unat (t + 1) = unat t + 1" by (rule position_next)
  show pcs: "lim p ?q = lim p q" by (cases p) simp_all
  have eb: "eb p ?q = eb p q" and hi: "hi p ?q = hi p q" by (cases p; simp)+
  have lo: "lo p q \<le> lo p ?q" "lo p ?q \<le> unat (top ?q)" using w(6) t t1 by (cases p; simp)+
  have at: "at_pc p ?q a" using w(8) limit t t1 by (cases p) simp_all
  have "unat (top ?q) \<le> lim p ?q" using limit t1 pcs by simp
  then show "owner_ok n p ?q a" using w(1,2,4,5) hi lo at by (simp add: owner_ok_def)
  show "contents p q a = buf_get a t # contents p ?q a"
    using ring_items_split(2) [OF le(1), of a] t1 t eb w(9,11) by (simp add: contents_def buf_get_nat)
qed

lemma inv_steal:
  assumes inv: "cl_inv n k s" and n: "n < 2 ^ 31" and i: "i < k"
    and p: "protected (cl_deque s) i x" and t: "top (cl_deque s) = t" and limit: "unat t < lim (cl_owner s) (cl_deque s)"
    and a: "bufs (cl_deque s) (deq_buffer (cl_deque s)) = Some a"
  shows "cl_inv (Suc n) k (put_thief i (TRead t x) (add_log (Stolen i (buf_get a t)) (put_deque ((cl_deque s)\<lparr>top := t + 1\<rparr>) s)))"
proof -
  let ?q = "cl_deque s" and ?o = "cl_owner s"
  let ?q' = "?q\<lparr>top := t + 1\<rparr>"
  let ?s = "put_thief i (TRead t x) (add_log (Stolen i (buf_get a t)) (put_deque ?q' s))"
  obtain c where c: "owner_ok n ?o ?q c" "list_events (cl_log s) [] = Some (contents ?o ?q c)" using inv by (auto simp: cl_inv_def)
  moreover have "c = a" using a owner_current [OF c(1)] by simp
  ultimately have ok: "owner_ok n ?o ?q a" "list_events (cl_log s) [] = Some (contents ?o ?q a)" by simp_all
  note top = owner_ok_top [OF ok(1) n t limit]
  have "list_events (cl_log ?s) [] = Some (contents ?o ?q' a)" using ok(2) top(3) by (simp add: list_events_append)
  then have "\<exists>a. owner_ok (Suc n) (cl_owner ?s) (cl_deque ?s) a \<and>
      list_events (cl_log ?s) [] = Some (contents (cl_owner ?s) (cl_deque ?s) a)"
    using owner_ok_Suc [OF top(1)] by (intro exI [of _ a]) simp
  moreover have "thief_at ?s j (cl_thief ?s j)" for j
  proof (cases "j = i")
    case True
    then show ?thesis using p by (simp add: protected_def busy_def)
  next
    case False
    have at: "thief_at s j (cl_thief s j)" using inv by (simp add: cl_inv_def)
    have "seen ?s u" if "seen s u" for u using that t top(2) by (auto simp: seen_def)
    moreover have "busy ?q' j = busy ?q j" "\<And>y. protected ?q' j y = protected ?q j y" by (simp_all add: busy_def protected_def)
    ultimately show ?thesis using False at t top(2) by (cases "cl_thief s j") simp_all
  qed
  moreover have "last_used_ok ?q'" using inv by (simp add: cl_inv_def last_used_ok_def)
  moreover have "length (id_list (cl_deque ?s)) = k" "\<forall>j. k \<le> j \<longrightarrow> cl_thief ?s j = TReturned None"
    using inv i by (auto simp: cl_inv_def)
  ultimately show ?thesis by (simp add: cl_inv_def)
qed

lemma chain_newest:
  "chain m us \<Longrightarrow> x \<in> set us \<Longrightarrow> m x = Some a \<Longrightarrow> m (last us) = Some b \<Longrightarrow> sint (buf_id a) \<le> sint (buf_id b)"
proof (induction m us arbitrary: x a rule: chain.induct)
  case (3 m u v us)
  obtain c e where c: "m u = Some c" "m v = Some e" "sint (buf_id c) < sint (buf_id e)" "chain m (v # us)"
    using "3.prems"(1) by (auto split: option.splits)
  have l: "m (last (v # us)) = Some b" using "3.prems"(4) by simp
  show ?case
  proof (cases "x \<in> set (v # us)")
    case True
    then show ?thesis using "3.IH" [OF c(4) True "3.prems"(3) l] by simp
  next
    case False
    then have "x = u" using "3.prems"(2) by simp
    moreover have "sint (buf_id e) \<le> sint (buf_id b)" using "3.IH" [OF c(4) _ c(2) l] by simp
    ultimately show ?thesis using c "3.prems"(3) by simp
  qed
qed auto

lemma newest_current:
  assumes "chain_ok q" and "bufs q x = Some a" and "bufs q (deq_buffer q) = Some b"
  shows "sint (buf_id a) \<le> sint (buf_id b)"
  using assms(1)
proof (rule chain_okE)
  fix us
  assume us: "chain (bufs q) us" "dom (bufs q) = set us" "last us = deq_buffer q"
  have "x \<in> set us" using us(2) assms(2) by blast
  then show ?thesis using chain_newest [OF us(1)] assms(2,3) us(3) by simp
qed

text \<open>A thief goes on, unless it is past the end of its protection and the buffer it has loaded is deleted.\<close>

definition late_use :: "'a cl_state \<Rightarrow> nat \<Rightarrow> bool" where
  "late_use s i \<longleftrightarrow> (\<exists>r x. cl_thief s i = TLast r x \<and> bufs (cl_deque s) x = None)"

lemma inv_thief_step:
  assumes inv: "cl_inv n k s" and n: "n < 2 ^ 31" and i: "i < k" and safe: "\<not> late_use s i"
  obtains s' where "thief_step i (cl_thief s i) s = Some s'" "cl_inv (Suc n) k s'"
proof -
  let ?q = "cl_deque s" and ?e = "id_list (cl_deque s) ! i"
  obtain a where a: "owner_ok n (cl_owner s) ?q a" using inv by (auto simp: cl_inv_def)
  have cur: "bufs ?q (deq_buffer ?q) = Some a" using owner_current [OF a] .
  have len: "i < length (id_list ?q)" using inv i by (simp add: cl_inv_def)
  then have used: "sint (id_last_used ?e) \<le> sint (buf_id a)" using inv cur by (simp add: cl_inv_def last_used_ok_def)
  have at: "thief_at s i (cl_thief s i)" using inv by (simp add: cl_inv_def)
  note pc = inv_thief_pc [OF inv i]
  have entry: "cl_inv (Suc n) k (put_thief i p (put_deque (set_tls_entry i e ?q) s))"
    if "sint (id_last_used e) \<le> sint (buf_id a)" "p = TTop \<and> \<not> was_idle e \<or> p = TReturned r \<or> p = TLoad r" for p e r
    using that cur len
    by (intro inv_thief [OF inv i, of _ "(id_list ?q)[i := e]" e p]) (auto simp: set_tls_entry_def busy_def)
  have "\<exists>s'. thief_step i (cl_thief s i) s = Some s' \<and> cl_inv (Suc n) k s'"
  proof (cases "cl_thief s i")
    case (TReturned r)
    then show ?thesis using pc [of "TReturned r"] by (simp add: put_thief_def fun_upd_idem)
  next
    case TStart
    then show ?thesis using entry [of "?e\<lparr>was_idle := False\<rparr>" TTop] used by (simp add: Let_def)
  next
    case TTop
    then show ?thesis using pc [of "TBottom (top ?q)"] at by simp
  next
    case (TBottom t)
    then have t: "busy ?q i" "unat t \<le> unat (top ?q)" using at by simp_all
    show ?thesis
    proof (cases "0 < sint (ucast (bottom ?q - t) :: cint)")
      case True
      then have "seen s t" using size_seen [OF a n t(2)] t(2) by (simp add: seen_def)
      then show ?thesis using pc [of "TBuffer t"] TBottom True t by simp
    next
      case False
      then show ?thesis using pc [of "TDone None"] TBottom by simp
    qed
  next
    case (TBuffer t)
    then show ?thesis using pc [of "TCas t (deq_buffer ?q)"] at cur used by (simp add: protected_def)
  next
    case (TCas t x)
    then have t: "protected ?q i x" "seen s t" using at by simp_all
    show ?thesis
    proof (cases "top ?q = t")
      case True
      then have "unat t < lim (cl_owner s) ?q" using t(2) by (simp add: seen_def)
      then show ?thesis using inv_steal [OF inv n i t(1) True _ cur] TCas True cur by (simp add: Let_def on_buffer_def)
    next
      case False
      then show ?thesis using pc [of "TDone None"] TCas by (simp add: Let_def)
    qed
  next
    case (TRead t x)
    then obtain c where "bufs ?q x = Some c" using at by (auto simp: protected_def)
    then show ?thesis using pc [of "TDone (Some (buf_get c t))"] TRead by (simp add: on_buffer_def)
  next
    case (TDone r)
    then show ?thesis using entry [of "?e\<lparr>was_idle := True\<rparr>" "TLoad r" r] used by (simp add: Let_def)
  next
    case (TLoad r)
    then show ?thesis using pc [of "TLast r (deq_buffer ?q)"] by simp
  next
    case (TLast r x)
    then obtain c where c: "bufs ?q x = Some c" using safe by (auto simp: late_use_def)
    have "chain_ok ?q" using a by (simp add: owner_ok_def core_def)
    then have "sint (buf_id c) \<le> sint (buf_id a)" using c cur by (rule newest_current)
    then show ?thesis using entry [of "?e\<lparr>id_last_used := buf_id c\<rparr>" "TReturned r" r] TLast c
      by (simp add: Let_def on_buffer_def)
  qed
  then show ?thesis using that by blast
qed

section \<open>Runs\<close>

lemma inv_idle_owner:
  assumes "cl_inv n k s" and "returned_owner (cl_owner s)" and "p = PopStart \<or> p = PushStart x"
  shows "cl_inv n k (put_owner p s)"
proof -
  obtain r where r: "cl_owner s = OReturned r" using assms(2) by (cases "cl_owner s") simp_all
  have "thief_at (put_owner p s) i u \<longleftrightarrow> thief_at s i u" for i u
    using assms(3) r by (cases u) (auto simp: seen_def)
  moreover have "owner_ok n p (cl_deque s) a = owner_ok n (OReturned r) (cl_deque s) a"
    "contents p (cl_deque s) a = contents (OReturned r) (cl_deque s) a" for a
    using assms(3) by (auto simp: owner_ok_def contents_def)
  ultimately show ?thesis using assms(1) r by (simp add: cl_inv_def)
qed

lemma cl_inv_Suc: "cl_inv n k s \<Longrightarrow> cl_inv (Suc n) k s"
  unfolding cl_inv_def using owner_ok_Suc by blast

fun late_action :: "'a cl_action \<Rightarrow> 'a cl_state \<Rightarrow> bool" where
  "late_action (ThiefGoes i) s = late_use s i"
| "late_action act s = False"

lemma cl_act_ok:
  assumes inv: "cl_inv n k s" and n: "n < 2 ^ 31" and safe: "\<not> late_action act s"
  obtains s' where "cl_act d act s = Some s'" "cl_inv (Suc n) k s'"
proof -
  have "\<exists>s'. cl_act d act s = Some s' \<and> cl_inv (Suc n) k s'"
  proof (cases act)
    case (CallPush x)
    then show ?thesis using inv_idle_owner [OF inv, of "PushStart x" x] inv by (simp add: cl_inv_Suc)
  next
    case CallPop
    then show ?thesis using inv_idle_owner [OF inv, of PopStart] inv by (simp add: cl_inv_Suc)
  next
    case OwnerGoes
    then show ?thesis using inv_owner [OF inv n] by (metis cl_act.simps(3))
  next
    case (CallSteal i)
    have "cl_inv (Suc n) k (put_thief i TStart s)" if "i < k" using inv_thief_pc [OF inv that, of TStart] by simp
    moreover have "length (id_list (cl_deque s)) = k" using inv by (simp add: cl_inv_def)
    ultimately show ?thesis using CallSteal cl_inv_Suc [OF inv] by simp
  next
    case (ThiefGoes i)
    show ?thesis
    proof (cases "i < k")
      case True
      then show ?thesis using inv_thief_step [OF inv n True] safe ThiefGoes by (metis cl_act.simps(5) late_action.simps(1))
    next
      case False
      then have "cl_thief s i = TReturned None" using inv by (simp add: cl_inv_def)
      then show ?thesis using ThiefGoes cl_inv_Suc [OF inv] by simp
    qed
  qed
  then show ?thesis using that by blast
qed

text \<open>What the last operation of the owner that took effect gives.\<close>

fun event_result :: "'a cl_event \<Rightarrow> 'a option \<Rightarrow> 'a option" where
  "event_result (Pushed x) r = None" | "event_result (Popped x) r = Some x" | "event_result PopEmpty r = None"
| "event_result (Stolen i x) r = r"

definition owner_result :: "'a cl_event list \<Rightarrow> 'a option" where
  "owner_result es = fold event_result es None"

lemma owner_result_append [simp]: "owner_result (es @ [e]) = event_result e (owner_result es)"
  by (simp add: owner_result_def)

fun gives_result :: "'a owner_pc \<Rightarrow> 'a option \<Rightarrow> bool" where
  "gives_result (OReturned r) u = (u = r)" | "gives_result (PopRestore b r) u = (u = r)"
| "gives_result (PopReclaim x) u = (u = Some x)" | "gives_result p u = True"

lemma owner_gives_result:
  "owner_step d p s = Some s' \<Longrightarrow> cl_owner s = p \<Longrightarrow> gives_result p (owner_result (cl_log s)) \<Longrightarrow>
   gives_result (cl_owner s') (owner_result (cl_log s'))"
  by (induction d p s rule: owner_step.induct) (auto simp: Let_def on_buffer_def split: option.splits if_splits)

lemma thief_gives_result:
  "thief_step i p s = Some s' \<Longrightarrow> cl_owner s' = cl_owner s \<and> owner_result (cl_log s') = owner_result (cl_log s)"
  by (induction i p s rule: thief_step.induct) (auto simp: Let_def on_buffer_def split: option.splits if_splits)

lemma act_gives_result:
  assumes "cl_act d act s = Some s'" and "gives_result (cl_owner s) (owner_result (cl_log s))"
  shows "gives_result (cl_owner s') (owner_result (cl_log s'))"
  using assms owner_gives_result [of d "cl_owner s" s s'] thief_gives_result [of _ _ s s']
  by (cases act) (auto split: if_splits)

lemma late_faults: "late_use s i \<Longrightarrow> thief_step i (cl_thief s i) s = None"
  by (auto simp: late_use_def on_buffer_def)

lemma cl_run_ok:
  assumes "cl_inv n k s" and "n + length acts \<le> 2 ^ 31" and "cl_run d acts s = Some s'"
    and "gives_result (cl_owner s) (owner_result (cl_log s))"
  shows "cl_inv (n + length acts) k s' \<and> gives_result (cl_owner s') (owner_result (cl_log s'))"
  using assms
proof (induction acts arbitrary: n s)
  case (Cons act acts)
  then obtain s1 where s1: "cl_act d act s = Some s1" "cl_run d acts s1 = Some s'" by (auto split: option.splits)
  have "\<not> late_action act s" using s1(1) late_faults [of s] by (cases act) auto
  moreover have "n < 2 ^ 31" using Cons.prems(2) by simp
  ultimately have "cl_inv (Suc n) k s1" using cl_act_ok [OF Cons.prems(1), of act d] s1(1) by (metis option.sel)
  moreover have "gives_result (cl_owner s1) (owner_result (cl_log s1))" using act_gives_result [OF s1(1) Cons.prems(4)] .
  ultimately show ?case using Cons.IH [of "Suc n" s1] Cons.prems(2) s1(2) by simp
qed simp

lemma cl_inv_init:
  assumes "ls \<le> 30"
  shows "cl_inv 0 k (cl_init d ls k)"
proof -
  let ?q = "deque_shared d ls k"
  have q: "deque_ok ?q" "deque_within 0 ?q" "length (id_list ?q) = k" "last_used_ok ?q" "deque_list ?q = []"
    using deque_shared_ok [OF assms, of k d] by (simp_all add: run_ok_def)
  obtain a where a: "chain_ok ?q" "window_ok ?q a" "log_initial_size ?q \<le> 30"
    "deque_list ?q = ring_items a (unat (top ?q)) (unat (bottom ?q))" using deque_okD [OF q(1)] by metis
  have "owner_ok 0 (OReturned None) ?q a"
    using a(1-3) q(1,2) by (auto simp: owner_ok_def core_def window_ok_def deque_within_def)
  moreover have "contents (OReturned None) ?q a = []" using a(4) q(5) by (simp add: contents_def)
  ultimately have "\<exists>a. owner_ok 0 (OReturned None) ?q a \<and> list_events [] [] = Some (contents (OReturned None) ?q a)"
    by (intro exI [of _ a]) simp
  then show ?thesis using q by (simp add: cl_inv_def cl_init_def)
qed

section \<open>One thread alone\<close>

text \<open>Without interference the actions of a call make up the operation on the whole deque.\<close>

lemma reclaim_loop_buffer: "reclaim_loop m q = Some q' \<Longrightarrow> deq_buffer q' = deq_buffer q"
  by (erule reclaim_loop.raw_induct [rotated]) (fastforce split: option.splits if_splits)

lemma reclaim_buffer: "reclaim_if_unlinked q = Some q' \<Longrightarrow> deq_buffer q' = deq_buffer q"
  using reclaim_loop_buffer by (fastforce simp: reclaim_if_unlinked_def reclaim_buffers_def split: if_splits option.splits)

lemma push_alone:
  "cl_owner s = OReturned r \<Longrightarrow> cl_run d (CallPush x # replicate 6 OwnerGoes) s =
    map_option (\<lambda>q. put_owner (OReturned None) (add_log (Pushed x) (put_deque q s))) (push_bottom d x (cl_deque s))"
  using reclaim_buffer
  by (simp add: numeral_eq_Suc push_bottom_def Let_def on_buffer_def put_owner_def put_deque_def add_log_def split: option.split)

lemma pop_alone:
  "cl_owner s = OReturned r \<Longrightarrow> map_option (\<lambda>s'. (cl_owner s', cl_deque s')) (cl_run d (CallPop # replicate 5 OwnerGoes) s) =
    map_option (\<lambda>(r, q). (OReturned r, q)) (pop_bottom d (cl_deque s))"
  by (simp add: numeral_eq_Suc pop_bottom_def Let_def on_buffer_def split: option.split)

lemma steal_alone:
  "cl_thief s i = TReturned r \<Longrightarrow> i < length (id_list (cl_deque s)) \<Longrightarrow>
   map_option (\<lambda>s'. (cl_thief s' i, cl_deque s')) (cl_run d (CallSteal i # replicate 9 (ThiefGoes i)) s) =
     map_option (\<lambda>(r, q). (TReturned r, q)) (stealer_steal i (cl_deque s))"
  by (simp add: numeral_eq_Suc stealer_steal_def steal_def steal_claim_def steal_read_def Let_def on_buffer_def set_tls_entry_def
      split: option.split)

section \<open>Properties\<close>

text \<open>
  C37: the deque refines a list, action by action. However the loads, stores and exchanges of the owner and of
  its thieves interleave, in fewer than \<open>2 ^ 31\<close> actions: what takes effect on the deque does so on the list (the
  owner takes the newest element, a thief claims the oldest, and the owner finds nothing only when there is
  nothing), the list is what the ring holds, the owner is returned what its operation took, the destructor
  then frees every buffer, and each once; and the only action that uses a deleted buffer is the last
  one of a thief, whose buffer was deleted since the thief is marked as idle.
\<close>

theorem actions_refine_list:
  assumes "ls \<le> 30" and "length acts < 2 ^ 31" and "cl_run d acts (cl_init d ls k) = Some s"
  shows "(\<exists>a. bufs (cl_deque s) (deq_buffer (cl_deque s)) = Some a \<and>
      list_events (cl_log s) [] = Some (ring_items a (unat (top (cl_deque s))) (eb (cl_owner s) (cl_deque s)))) \<and>
    (\<forall>r. cl_owner s = OReturned r \<longrightarrow> r = owner_result (cl_log s)) \<and>
    (\<exists>q. deque_destroy (cl_deque s) = Some q \<and> bufs q = Map.empty) \<and>
    (\<forall>act. cl_act d act s = None \<longleftrightarrow> late_action act s)"
proof -
  have "gives_result (cl_owner (cl_init d ls k)) (owner_result (cl_log (cl_init d ls k)))"
    by (simp add: cl_init_def owner_result_def)
  then have ok: "cl_inv (length acts) k s" "gives_result (cl_owner s) (owner_result (cl_log s))"
    using cl_run_ok [OF cl_inv_init [OF assms(1)] _ assms(3)] assms(2) by simp_all
  then obtain a where a: "owner_ok (length acts) (cl_owner s) (cl_deque s) a"
    "list_events (cl_log s) [] = Some (contents (cl_owner s) (cl_deque s) a)" by (auto simp: cl_inv_def)
  then have "\<exists>a. bufs (cl_deque s) (deq_buffer (cl_deque s)) = Some a \<and>
      list_events (cl_log s) [] = Some (ring_items a (unat (top (cl_deque s))) (eb (cl_owner s) (cl_deque s)))"
    using owner_current [OF a(1)] by (intro exI [of _ a]) (simp add: contents_def)
  moreover have "\<forall>r. cl_owner s = OReturned r \<longrightarrow> r = owner_result (cl_log s)" using ok(2) by auto
  moreover have "chain_ok (cl_deque s)" using a(1) by (simp add: owner_ok_def core_def)
  then have "\<exists>q. deque_destroy (cl_deque s) = Some q \<and> bufs q = Map.empty" by (rule deque_destroy_ok)
  moreover have "cl_act d act s = None \<longleftrightarrow> late_action act s" for act
  proof
    show "cl_act d act s = None" if "late_action act s" using that late_faults by (cases act) auto
    show "late_action act s" if "cl_act d act s = None" using that cl_act_ok [OF ok(1) assms(2), of act d] by (metis option.distinct(1))
  qed
  ultimately show ?thesis by blast
qed

theorem actions_refine_list_witness:
  "\<exists>s a. cl_run 0 ([CallPush (7 :: nat)] @ replicate 6 OwnerGoes @ [CallSteal 0] @ replicate 4 (ThiefGoes 0) @ [CallPop] @ replicate 3 OwnerGoes @
       replicate 4 (ThiefGoes 0) @ replicate 2 OwnerGoes) (cl_init 0 1 1) = Some s \<and>
     cl_log s = [Pushed 7, Stolen 0 7, PopEmpty] \<and> bufs (cl_deque s) (deq_buffer (cl_deque s)) = Some a \<and>
     Some (ring_items a (unat (top (cl_deque s))) (eb (cl_owner s) (cl_deque s))) = list_events [Pushed 7, Stolen 0 7, PopEmpty] []"
proof -
  let ?acts = "[CallPush (7 :: nat)] @ replicate 6 OwnerGoes @ [CallSteal 0] @ replicate 4 (ThiefGoes 0) @ [CallPop] @ replicate 3 OwnerGoes @
    replicate 4 (ThiefGoes 0) @ replicate 2 OwnerGoes"
  have "map_option cl_log (cl_run 0 ?acts (cl_init 0 1 1)) = Some [Pushed 7, Stolen 0 7, PopEmpty]" by code_simp
  then obtain s where s: "cl_run 0 ?acts (cl_init 0 1 1) = Some s" "cl_log s = [Pushed 7, Stolen 0 7, PopEmpty]" by auto
  have "\<exists>a. bufs (cl_deque s) (deq_buffer (cl_deque s)) = Some a \<and>
      list_events (cl_log s) [] = Some (ring_items a (unat (top (cl_deque s))) (eb (cl_owner s) (cl_deque s)))"
    using actions_refine_list [OF _ _ s(1)] by simp
  then show ?thesis using s by (intro exI [of _ s]) auto
qed


end
