(* ===== verification/Wait_Runs.thy ===== *)
theory Wait_Runs
  imports API_Runs Scheduler_Progress
begin

text \<open>
  A whole \<open>wait\<close> on one thread of the scheduler (scheduler.cc): the fiber that waits leaves the thread, another
  fiber executes the tasks the counter stands for, the last of them wakes the waiting fiber, and the thread
  goes back to it. The other threads do not take part, so the run is determined.
\<close>

section \<open>One thread alone\<close>

text \<open>
  A step of the thread, in the scheduler or as the return of a task it has just got, which is noted. User code
  that is back from a call is left alone.
\<close>

fun solo_step :: "bool \<Rightarrow> nat \<Rightarrow> 'h sched \<Rightarrow> (task option \<times> 'h sched) option" where
  "solo_step dbg t s =
     (case native (mFibers s ! current t s) of
        Running (WorkerTask tk) NoResult \<Rightarrow> map_option (Pair (Some tk)) (task_returns dbg t (WorkerTask tk) s)
      | pc \<Rightarrow> map_option (Pair None) (exec_pc dbg t pc s))"

inductive solo :: "bool \<Rightarrow> nat \<Rightarrow> 'h sched \<Rightarrow> task list \<Rightarrow> 'h sched \<Rightarrow> bool" for dbg t where
  solo_here: "solo dbg t s [] s"
| solo_goes: "failed s = None \<Longrightarrow> solo_step dbg t s = Some (x, s') \<Longrightarrow> solo dbg t s' xs s'' \<Longrightarrow>
    solo dbg t s (case x of None \<Rightarrow> xs | Some tk \<Rightarrow> tk # xs) s''"

lemma solo_trans: "solo dbg t s xs s' \<Longrightarrow> solo dbg t s' ys s'' \<Longrightarrow> solo dbg t s (xs @ ys) s''"
proof (induction rule: solo.induct)
  case (solo_goes s x s1 xs s2)
  then have "solo dbg t s (case x of None \<Rightarrow> xs @ ys | Some tk \<Rightarrow> tk # xs @ ys) s''" by (intro solo.solo_goes) simp_all
  then show ?case by (cases x) simp_all
qed simp

lemma solo_silent: "solo dbg t s [] s' \<Longrightarrow> solo dbg t s' ys s'' \<Longrightarrow> solo dbg t s ys s''"
  using solo_trans [of dbg t s "[]" s' ys s''] by simp

lemma solo_exec:
  assumes "failed s = None" and "current t s < length (mFibers s)" and "exec_pc dbg t pc (goto t pc s) = Some s'"
    and "solo dbg t s' xs s''"
  shows "solo dbg t (goto t pc s) xs s''"
proof -
  have "\<nexists>ctx r. pc = Running ctx r" using assms(3) by auto
  then have "solo_step dbg t (goto t pc s) = Some (None, s')"
    using native_goto [OF assms(2), of pc] assms(3) by (cases pc) (simp_all del: exec_pc.simps)
  then show ?thesis using solo_goes [of "goto t pc s" dbg t None] assms(1,4) by simp
qed

text \<open>The steps are steps of the scheduler.\<close>

definition keeps_mode :: "'h sched \<Rightarrow> 'h sched \<Rightarrow> bool" where
  "keeps_mode s s' \<longleftrightarrow> length (mThreads s') = length (mThreads s) \<and> tmodes s' = tmodes s \<and> mIsShuttingDown s' = mIsShuttingDown s \<and>
     length (mFibers s') = length (mFibers s) \<and> length (mCounters s') = length (mCounters s)"

lemma mode_goto [simp]: "keeps_mode s (goto t pc r) = keeps_mode s r"
  by (simp add: keeps_mode_def goto_def set_native_def)

lemma mode_yield: "yieldToFiber dbg t g d k r = Some s' \<Longrightarrow> keeps_mode s r \<Longrightarrow> keeps_mode s s'"
  by (auto simp: yieldToFiber_def Let_def keeps_mode_def set_tls_def fail_def goto_def set_native_def split: if_splits)

lemma mode_resume: "tryResumeFiber dbg t g k k' s = Some s' \<Longrightarrow> keeps_mode s s'"
  by (auto simp: tryResumeFiber_def fail_def split: if_splits elim!: mode_yield) (simp_all add: set_cleaned_up_def keeps_mode_def)

lemma mode_wake: "wake_fiber dbg w r = Some s' \<Longrightarrow> keeps_mode s r \<Longrightarrow> keeps_mode s s'"
  by (auto simp: wake_fiber_def fail_def set_pinned_def keeps_mode_def split: if_splits option.splits sum.splits prod.splits)

lemma mode_counter: "counter_action dbg t i c k s = Some s' \<Longrightarrow> keeps_mode s s'"
  by (cases "cpc_step c (mCounters s ! i)")
    (auto simp: counter_action_def Let_def split: option.splits elim!: mode_wake, simp_all add: keeps_mode_def)

lemma exec_mode:
  assumes "exec_pc dbg t pc s = Some s'" and "\<not> mIsShuttingDown s"
  shows "keeps_mode s s'"
proof (cases pc)
  case (Resumed k)
  then show ?thesis using assms
    by (auto simp: cleanUpPrevFiber_def Let_def set_tls_def set_cleaned_up_def keeps_mode_def
        goto_def set_native_def split: fiber_destination_e.splits option.splits)
next
  case (InCounter i c k)
  then show ?thesis using assms
    by (auto simp: fail_def split: if_splits sum.splits intro: mode_counter) (simp_all add: keeps_mode_def)
next
  case (WaitYield ctx v)
  then show ?thesis using assms
    by (auto simp: acquireFreeFiber_def split: option.splits elim!: mode_yield) (simp_all add: keeps_mode_def)
qed (use assms in \<open>auto simp: Let_def fail_def set_pinned_def set_tls_def keeps_mode_def goto_def set_native_def
      split: option.splits prod.splits sum.splits list.splits if_splits dest!: mode_resume\<close>)

lemma solo_step_goes:
  assumes "failed s = None" and "solo_step dbg t s = Some (x, s')" and "\<not> mIsShuttingDown s" and "t < length (mThreads s)"
    and "tmodes s t = OnFiber"
  shows "sched_step dbg P s s' \<and> keeps_mode s s'"
proof (cases "\<exists>tk. native (mFibers s ! current t s) = Running (WorkerTask tk) NoResult")
  case True
  then obtain tk where tk: "native (mFibers s ! current t s) = Running (WorkerTask tk) NoResult" by blast
  then have r: "task_returns dbg t (WorkerTask tk) s = Some s'" using assms(2) by simp
  then have "api_call dbg P t (WorkerTask tk) CallReturn s = Some s'" by simp
  moreover have "keeps_mode s s'" using r by (auto simp: keeps_mode_def goto_def set_native_def)
  ultimately show ?thesis using user_code [OF assms(1,4,5) tk] by blast
next
  case False
  then have "exec_pc dbg t (native (mFibers s ! current t s)) s = Some s'"
    using assms(2) by (auto split: fiber_pc.splits user_context.splits api_result.splits simp del: exec_pc.simps)
  then show ?thesis using run_fiber [OF assms(1,4,5)] exec_mode assms(3) by blast
qed

lemma solo_steps:
  assumes "solo dbg t s xs s'" and "\<not> mIsShuttingDown s" and "t < length (mThreads s)" and "tmodes s t = OnFiber"
  shows "(sched_step dbg P)\<^sup>*\<^sup>* s s' \<and> keeps_mode s s'"
  using assms
proof (induction rule: solo.induct)
  case (solo_goes s x s1 xs s2)
  then have "sched_step dbg P s s1 \<and> keeps_mode s s1" using solo_step_goes by blast
  then show ?case using solo_goes.IH solo_goes.prems by (auto simp: keeps_mode_def intro: converse_rtranclp_into_rtranclp)
qed (simp add: keeps_mode_def)

section \<open>Counters\<close>

lemma goto_same: "native (mFibers s ! current t s) = pc \<Longrightarrow> goto t pc s = s"
  by (auto simp: goto_def set_native_def)

lemma counters_same: "c = mCounters s ! i \<Longrightarrow> s\<lparr>mCounters := (mCounters s)[i := c]\<rparr> = s"
  by simp

lemma run_alone_SucE:
  assumes "run_alone (Suc n) pc c = (pc', c', ws)"
  obtains pc1 c1 where "cpc_step pc c = (pc1, c1, None)" "run_alone n pc1 c1 = (pc', c', ws)"
    | pc1 c1 w ws' where "cpc_step pc c = (pc1, c1, Some w)" "run_alone n pc1 c1 = (pc', c', ws')" "ws = w # ws'"
proof -
  obtain pc1 c1 w where st: "cpc_step pc c = (pc1, c1, w)" by (cases "cpc_step pc c")
  obtain pc2 c2 ws2 where r: "run_alone n pc1 c1 = (pc2, c2, ws2)" by (cases "run_alone n pc1 c1")
  show ?thesis using assms st r that by (cases w) simp_all
qed

lemma solo_counter:
  assumes "i < length (mCounters s)" and "failed s = None" and "current t s < length (mFibers s)"
    and "run_alone n pc (mCounters s ! i) = (pc', c', [])"
    and "solo dbg t (goto t (InCounter i pc' k) (s\<lparr>mCounters := (mCounters s)[i := c']\<rparr>)) xs s''"
  shows "solo dbg t (goto t (InCounter i pc k) s) xs s''"
  using assms
proof (induction n arbitrary: pc s)
  case 0
  then show ?case by (simp add: counters_same)
next
  case (Suc n)
  show ?case
  proof (cases "cpc_returned pc")
    case True
    then have "pc' = pc" "c' = mCounters s ! i" using Suc.prems(4) unfolding run_alone_returned [OF True] by simp_all
    then show ?thesis using Suc.prems(5) by (simp add: counters_same)
  next
    case False
    from Suc.prems(4) obtain pc1 c1 where st: "cpc_step pc (mCounters s ! i) = (pc1, c1, None)"
      and rest: "run_alone n pc1 c1 = (pc', c', [])" by (rule run_alone_SucE) auto
    let ?s = "s\<lparr>mCounters := (mCounters s)[i := c1]\<rparr>"
    have "exec_pc dbg t (InCounter i pc k) (goto t (InCounter i pc k) s) = Some (goto t (InCounter i pc1 k) ?s)"
      using False Suc.prems(1,3) st by (simp add: counter_action_def goto_updates goto_goto Let_def)
    moreover have "solo dbg t (goto t (InCounter i pc1 k) ?s) xs s''"
      by (rule Suc.IH) (use Suc.prems rest in simp_all)
    ultimately show ?thesis by (rule solo_exec [OF Suc.prems(2,3)])
  qed
qed

lemma wake_counters:
  "wake_fiber dbg w (s\<lparr>mCounters := cs\<rparr>) = map_option (\<lambda>r. r\<lparr>mCounters := cs\<rparr>) (wake_fiber dbg w s)"
  by (cases w) (simp add: wake_fiber_def fail_def set_pinned_def split: option.split sum.split)

lemma wake_goto: "wake_fiber dbg w (goto t pc s) = map_option (goto t pc) (wake_fiber dbg w s)"
  by (cases w) (simp add: wake_fiber_def fail_def goto_def set_native_def set_pinned_def current_def split: option.split sum.split)

lemma wake_keeps:
  "wake_fiber dbg w s = Some r \<Longrightarrow> mCounters r = mCounters s \<and> mFibers r = mFibers s \<and> s_tls r = s_tls s \<and> current t r = current t s"
  by (cases w) (auto simp: wake_fiber_def fail_def set_pinned_def current_def split: option.splits sum.splits if_splits)

lemma solo_counter_wakes:
  assumes "i < length (mCounters s)" and "failed s = None" and "current t s < length (mFibers s)"
    and "run_alone n pc (mCounters s ! i) = (pc', c', [w])" and "wake_fiber dbg w s = Some r" and "failed r = None"
    and "solo dbg t (goto t (InCounter i pc' k) (r\<lparr>mCounters := (mCounters r)[i := c']\<rparr>)) xs s''"
  shows "solo dbg t (goto t (InCounter i pc k) s) xs s''"
  using assms
proof (induction n arbitrary: pc s r)
  case 0
  then show ?case by simp
next
  case (Suc n)
  have ret: "\<not> cpc_returned pc" using Suc.prems(4) run_alone_returned [of pc "Suc n"] by auto
  note keep = wake_keeps [OF Suc.prems(5), of t]
  from Suc.prems(4) show ?case
  proof (rule run_alone_SucE)
    fix pc1 c1
    assume st: "cpc_step pc (mCounters s ! i) = (pc1, c1, None)" and rest: "run_alone n pc1 c1 = (pc', c', [w])"
    let ?s = "s\<lparr>mCounters := (mCounters s)[i := c1]\<rparr>" and ?r = "r\<lparr>mCounters := (mCounters s)[i := c1]\<rparr>"
    have wake: "wake_fiber dbg w ?s = Some ?r" using Suc.prems(5) by (simp add: wake_counters)
    have "solo dbg t (goto t (InCounter i pc' k) (?r\<lparr>mCounters := (mCounters ?r)[i := c']\<rparr>)) xs s''"
      using Suc.prems(7) keep by simp
    then have go: "solo dbg t (goto t (InCounter i pc1 k) ?s) xs s''"
      by (intro Suc.IH [where r = ?r and s = ?s, OF _ _ _ _ wake]) (use Suc.prems(1-3,6) rest in simp_all)
    have "exec_pc dbg t (InCounter i pc k) (goto t (InCounter i pc k) s) = Some (goto t (InCounter i pc1 k) ?s)"
      using ret Suc.prems(1,3) st by (simp add: counter_action_def goto_updates goto_goto Let_def)
    then show ?thesis by (rule solo_exec [OF Suc.prems(2,3) _ go])
  next
    fix pc1 c1 w1 ws
    assume st: "cpc_step pc (mCounters s ! i) = (pc1, c1, Some w1)" and run: "run_alone n pc1 c1 = (pc', c', ws)"
      and ws: "[w] = w1 # ws"
    let ?r = "r\<lparr>mCounters := (mCounters s)[i := c1]\<rparr>"
    have rest: "run_alone n pc1 c1 = (pc', c', [])" "w1 = w" using run ws by simp_all
    have "exec_pc dbg t (InCounter i pc k) (goto t (InCounter i pc k) s) = Some (goto t (InCounter i pc1 k) ?r)"
      using ret Suc.prems(1,3,5) st rest(2)
      by (simp add: counter_action_def goto_updates goto_goto Let_def wake_counters wake_goto)
    moreover have "solo dbg t (goto t (InCounter i pc1 k) ?r) xs s''"
      by (rule solo_counter [of i _ t n pc1 pc' c']) (use Suc.prems rest keep in simp_all)
    ultimately show ?thesis by (rule solo_exec [OF Suc.prems(2,3)])
  qed
qed

text \<open>The fibers that a count wakes, when one waits.\<close>

lemma woken_slots_waiters:
  "woken_slots v c = concat (map (\<lambda>i. case waiters c i of None \<Rightarrow> [] | Some (f, p, u) \<Rightarrow> if u = v then [(f, p)] else [])
     [0..<max_waiting])"
proof -
  have slot: "(case waiters c i of None \<Rightarrow> [] | Some (f, p, u) \<Rightarrow> if u = v then [(f, p)] else []) =
      (if wakes_slot v c i then [(fiber_index (waiting_fibers c ! i), pinned_thread_index (waiting_fibers c ! i))] else [])"
    if "i < max_waiting" for i
    using that by (auto simp: waiters_def wakes_slot_def Let_def)
  have "concat (map (\<lambda>i. if P i then [g i] else []) xs) = map g (filter P xs)" for P xs and g :: "nat \<Rightarrow> fiber_index_t \<times> thread_index_t"
    by (induction xs) simp_all
  moreover have "map (\<lambda>i. case waiters c i of None \<Rightarrow> [] | Some (f, p, u) \<Rightarrow> if u = v then [(f, p)] else []) [0..<max_waiting] =
      map (\<lambda>i. if wakes_slot v c i then [(fiber_index (waiting_fibers c ! i), pinned_thread_index (waiting_fibers c ! i))] else [])
        [0..<max_waiting]"
    by (rule map_cong [OF refl slot]) simp
  ultimately show ?thesis by (simp only: woken_slots_def)
qed

lemma one_waiter:
  assumes "waiters c = [i \<mapsto> (f, p, target)]" and "i < max_waiting"
  shows "woken_slots v c = (if v = target then [(f, p)] else [])"
proof -
  define g where "g = (\<lambda>j. case waiters c j of None \<Rightarrow> [] | Some (f, p, u) \<Rightarrow> if u = v then [(f, p)] else [])"
  have "[0..<max_waiting] = [0..<i] @ i # [Suc i..<max_waiting]"
    using assms(2) by (metis le0 less_imp_le_nat upt_add_eq_append upt_conv_Cons le_add_diff_inverse add_0)
  then have "concat (map g [0..<max_waiting]) = concat (map g [0..<i]) @ g i @ concat (map g [Suc i..<max_waiting])" by simp
  moreover have "concat (map g xs) = []" if "i \<notin> set xs" for xs
    using that by (induction xs) (auto simp: g_def assms(1))
  then have "concat (map g [0..<i]) = []" "concat (map g [Suc i..<max_waiting]) = []" by (metis atLeastLessThan_upt atLeastLessThan_iff less_irrefl Suc_n_not_le_n)+
  moreover have "g i = (if v = target then [(f, p)] else [])" by (auto simp: g_def assms(1))
  ultimately show ?thesis unfolding woken_slots_waiters g_def [symmetric] by simp
qed

lemma run_alone_shape: "counter_shape c \<Longrightarrow> run_alone n pc c = (pc', c', ws) \<Longrightarrow> counter_shape c'"
proof (induction n arbitrary: pc c ws)
  case (Suc n)
  from Suc.prems(2) show ?case
    by (rule run_alone_SucE) (use Suc cpc_step_shape [of c pc] in auto)
qed simp

section \<open>Getting and executing a task\<close>

definition pinned_queue :: "nat \<Rightarrow> 'h sched \<Rightarrow> fiber_index_t fifo" where
  "pinned_queue t s = pinned_resumable_fibers (mThreads s ! t)"

text \<open>What the thread relies on, whatever its position; and that it finds no fiber to resume.\<close>

definition ready :: "nat \<Rightarrow> 'h sched \<Rightarrow> bool" where
  "ready t s \<longleftrightarrow> failed s = None \<and> \<not> mIsShuttingDown s \<and> t < length (mThreads s) \<and> tmodes s t = OnFiber \<and>
     unat (thread_index (s_tls s t)) = t \<and> current t s < length (mFibers s) \<and> length (mFibers s) < 2 ^ 32 \<and>
     mpmc_ok (mTasks s) \<and> mpmc_ok (mResumableFibers s) \<and> mpmc_ok (mIdleFibers s) \<and> fifo_ok (pinned_queue t s)"

definition none_resumable :: "nat \<Rightarrow> 'h sched \<Rightarrow> bool" where
  "none_resumable t s \<longleftrightarrow> mpmc_list (mResumableFibers s) = [] \<and> fifo_list (pinned_queue t s) = []"

lemma readyD:
  "ready t s \<Longrightarrow> failed s = None" "ready t s \<Longrightarrow> \<not> mIsShuttingDown s" "ready t s \<Longrightarrow> t < length (mThreads s)"
  "ready t s \<Longrightarrow> unat (thread_index (s_tls s t)) = t" "ready t s \<Longrightarrow> current t s < length (mFibers s)"
  "ready t s \<Longrightarrow> length (mFibers s) < 2 ^ 32" "ready t s \<Longrightarrow> mpmc_ok (mTasks s)"
  "ready t s \<Longrightarrow> mpmc_ok (mResumableFibers s)" "ready t s \<Longrightarrow> mpmc_ok (mIdleFibers s)" "ready t s \<Longrightarrow> fifo_ok (pinned_queue t s)"
  by (simp_all add: ready_def)

lemma ready_updates [simp]:
  "ready t (s\<lparr>mCounters := cs\<rparr>) = ready t s" "pinned_queue t (s\<lparr>mCounters := cs\<rparr>) = pinned_queue t s"
  "none_resumable t (s\<lparr>mCounters := cs\<rparr>) = none_resumable t s" "none_resumable t (s\<lparr>mTasks := q\<rparr>) = none_resumable t s"
  "pinned_queue t (s\<lparr>mTasks := q\<rparr>) = pinned_queue t s"
  by (simp_all add: ready_def none_resumable_def pinned_queue_def current_def)

lemma ready_tasks: "ready t s \<Longrightarrow> mpmc_ok q \<Longrightarrow> ready t (s\<lparr>mTasks := q\<rparr>)"
  by (simp add: ready_def pinned_queue_def current_def)

lemma shutting_goto [simp]: "mIsShuttingDown (goto t pc s) = mIsShuttingDown s"
  by (simp add: goto_def set_native_def)

lemma empty_pinned:
  assumes "ready t s" and "fifo_list (pinned_queue t s) = []"
  shows "exec_pc dbg t (GetPinned bp) (goto t (GetPinned bp) s) = Some (goto t (GetGlobal bp) s)"
proof -
  have "fifo_dequeue (pinned_queue t s) = (None, pinned_queue t s)"
    using fifo_dequeue_none readyD(10) [OF assms(1)] assms(2) by auto
  moreover have "set_pinned t (pinned_queue t s) r = r" if "mThreads r = mThreads s" for r :: "'a sched"
    using that by (simp add: set_pinned_def pinned_queue_def flip: that)
  ultimately show ?thesis using readyD(4,5) [OF assms(1)] by (simp add: Let_def pinned_queue_def goto_goto)
qed

lemma empty_global:
  assumes "ready t s" and "none_resumable t s"
  shows "exec_pc dbg t (GetGlobal bp) (goto t (GetGlobal bp) s) = Some (goto t (GetTask bp) s)"
proof -
  have "mpmc_dequeue (mResumableFibers s) = Some (None, mResumableFibers s)"
    using mpmc.deq_none readyD(8) [OF assms(1)] assms(2) by (auto simp: none_resumable_def)
  then have "exec_pc dbg t (GetGlobal bp) (goto t (GetGlobal bp) s) =
      Some (goto t (GetTask bp) ((goto t (GetGlobal bp) s)\<lparr>mResumableFibers := mResumableFibers s\<rparr>))" by simp
  moreover have "(goto t (GetGlobal bp) s)\<lparr>mResumableFibers := mResumableFibers s\<rparr> = goto t (GetGlobal bp) s"
    by (simp add: goto_def set_native_def)
  ultimately show ?thesis by (simp only: goto_goto [OF readyD(5) [OF assms(1)]])
qed

text \<open>The positions between two tasks.\<close>

fun looking :: "fiber_pc \<Rightarrow> bool" where
  "looking (LoopTop bp) = True" | "looking (GetPinned bp) = True" | "looking (GetGlobal bp) = True"
| "looking (GetTask bp) = True" | "looking pc = False"

lemma gets_task:
  assumes s: "ready t s" "none_resumable t s" and pc: "looking pc" and ts: "mpmc_list (mTasks s) = tk # rest"
  obtains q where "mpmc_ok q" "mpmc_list q = rest"
    "\<And>xs s'. solo dbg t (goto t (Running (WorkerTask tk) NoResult) (s\<lparr>mTasks := q\<rparr>)) xs s' \<Longrightarrow> solo dbg t (goto t pc s) xs s'"
proof -
  obtain q where q: "mpmc_dequeue (mTasks s) = Some (Some tk, q)" "mpmc_ok q" "mpmc_list q = rest"
    using mpmc.deq_some [OF readyD(7) [OF s(1)] ts] by blast
  note go = solo_exec [OF readyD(1,5) [OF s(1)], of dbg]
  have task: "solo dbg t (goto t (GetTask bp) s) xs s'"
    if "solo dbg t (goto t (Running (WorkerTask tk) NoResult) (s\<lparr>mTasks := q\<rparr>)) xs s'" for xs s' bp
    using that q(1) readyD(5) [OF s(1)] by (intro go [of "GetTask bp"]) (simp_all add: goto_updates goto_goto)
  have global: "solo dbg t (goto t (GetGlobal bp) s) xs s'"
    if "solo dbg t (goto t (Running (WorkerTask tk) NoResult) (s\<lparr>mTasks := q\<rparr>)) xs s'" for xs s' bp
    by (rule go [OF empty_global [OF s]]) (rule task [OF that])
  have pinned: "solo dbg t (goto t (GetPinned bp) s) xs s'"
    if "solo dbg t (goto t (Running (WorkerTask tk) NoResult) (s\<lparr>mTasks := q\<rparr>)) xs s'" for xs s' bp
    by (rule go [OF empty_pinned [OF s(1)]]) (use s(2) global [OF that] in \<open>simp_all add: none_resumable_def\<close>)
  have top: "solo dbg t (goto t (LoopTop bp) s) xs s'"
    if "solo dbg t (goto t (Running (WorkerTask tk) NoResult) (s\<lparr>mTasks := q\<rparr>)) xs s'" for xs s' bp
    using pinned [OF that] readyD(2,5) [OF s(1)] by (intro go [of "LoopTop bp"]) (simp_all add: goto_goto)
  have "solo dbg t (goto t pc s) xs s'"
    if "solo dbg t (goto t (Running (WorkerTask tk) NoResult) (s\<lparr>mTasks := q\<rparr>)) xs s'" for xs s'
    using pc task [OF that] global [OF that] pinned [OF that] top [OF that] by (cases pc) simp_all
  with q that show ?thesis by blast
qed

lemma task_ends:
  assumes "ready t s" and "unat (get_metadata tk) = c"
    and "solo dbg t (goto t (InCounter c (counterIncrement dbg (- 1)) AfterTask) s) xs s'"
  shows "solo dbg t (goto t (Running (WorkerTask tk) NoResult) s) (tk # xs) s'"
proof -
  have "solo_step dbg t (goto t (Running (WorkerTask tk) NoResult) s) =
      Some (Some tk, goto t (InCounter c (counterIncrement dbg (- 1)) AfterTask) s)"
    using native_goto [OF readyD(5) [OF assms(1)], of "Running (WorkerTask tk) NoResult"] readyD(5) [OF assms(1)] assms(2)
    by (simp add: goto_goto)
  then show ?thesis using solo_goes [of "goto t (Running (WorkerTask tk) NoResult) s" dbg t "Some tk"] readyD(1) [OF assms(1)] assms(3)
    by simp
qed

text \<open>Executing a task whose end wakes nobody, and one whose end wakes the waiting fiber.\<close>

lemma executes_task:
  assumes s: "ready t s" "none_resumable t s" and pc: "looking pc" and ts: "mpmc_list (mTasks s) = tk # rest"
    and c: "unat (get_metadata tk) = c" "c < length (mCounters s)" "counter_shape (mCounters s ! c)"
    and w: "waiters (mCounters s ! c) = [i \<mapsto> (f, p, target)]" "i < max_waiting" "count (mCounters s ! c) - 1 \<noteq> target"
  obtains q a where "mpmc_ok q" "mpmc_list q = rest" "counter_shape a" "waiters a = [i \<mapsto> (f, p, target)]"
    "count a = count (mCounters s ! c) - 1"
    "\<And>xs s'. solo dbg t (goto t (LoopTop lc_min_backoff_pauses) (s\<lparr>mTasks := q, mCounters := (mCounters s)[c := a]\<rparr>)) xs s' \<Longrightarrow>
      solo dbg t (goto t pc s) (tk # xs) s'"
proof -
  obtain q where q: "mpmc_ok q" "mpmc_list q = rest"
    "\<And>xs s'. solo dbg t (goto t (Running (WorkerTask tk) NoResult) (s\<lparr>mTasks := q\<rparr>)) xs s' \<Longrightarrow> solo dbg t (goto t pc s) xs s'"
    using gets_task [OF s pc ts] by blast
  let ?c = "mCounters s ! c"
  have v: "count ?c + - 1 = count ?c - 1" by simp
  obtain n a where a: "run_alone n (counterIncrement dbg (- 1)) ?c = (IncDone (count ?c - 1), a, woken_slots (count ?c - 1) ?c)"
    "count a = count ?c - 1" "waiters a = (\<lambda>i. if \<exists>f p. waiters ?c i = Some (f, p, count ?c - 1) then None else waiters ?c i)"
    using increment_run [OF c(3), of "- 1" dbg] unfolding v by auto
  have run: "run_alone n (counterIncrement dbg (- 1)) ?c = (IncDone (count ?c - 1), a, [])"
    using a(1) one_waiter [OF w(1,2)] w(3) by simp
  have shape: "counter_shape a" using run_alone_shape [OF c(3) run] .
  have wa: "waiters a = [i \<mapsto> (f, p, target)]" unfolding a(3) w(1) using w(3) by (auto simp: fun_eq_iff)
  let ?s = "s\<lparr>mTasks := q\<rparr>"
  have r: "ready t ?s" using s(1) q(1) by (rule ready_tasks)
  let ?r = "?s\<lparr>mCounters := (mCounters s)[c := a]\<rparr>"
  have "solo dbg t (goto t pc s) (tk # xs) s'" if "solo dbg t (goto t (LoopTop lc_min_backoff_pauses) ?r) xs s'" for xs s'
  proof (rule q(3), rule task_ends [OF r c(1)], rule solo_counter [of c _ t n])
    have "solo dbg t (goto t (InCounter c (IncDone (count ?c - 1)) AfterTask) ?r) xs s'"
      by (rule solo_exec [where s = ?r, OF _ _ _ that]) (use readyD(1,5) [OF r] c(2) in \<open>simp_all add: goto_goto\<close>)
    then show "solo dbg t (goto t (InCounter c (IncDone (count ?c - 1)) AfterTask) (?s\<lparr>mCounters := (mCounters ?s)[c := a]\<rparr>)) xs s'"
      by simp
  qed (use c(2) readyD(1,5) [OF r] run in simp_all)
  with q(1,2) shape wa a(2) that show ?thesis by simp
qed

lemma executes_tasks:
  assumes "ready t s" "none_resumable t s" and "looking pc" and "mpmc_list (mTasks s) = ts @ rest"
    and "\<forall>tk \<in> set ts. unat (get_metadata tk) = c" "c < length (mCounters s)" "counter_shape (mCounters s ! c)"
    and "waiters (mCounters s ! c) = [i \<mapsto> (f, p, target)]" "i < max_waiting"
    and "count (mCounters s ! c) = target + of_nat (Suc (length ts))" "Suc (length ts) < 2 ^ 32"
  shows "\<exists>pc' q a. looking pc' \<and> mpmc_ok q \<and> mpmc_list q = rest \<and> counter_shape a \<and> waiters a = [i \<mapsto> (f, p, target)] \<and>
    count a = target + 1 \<and>
    (\<forall>xs s'. solo dbg t (goto t pc' (s\<lparr>mTasks := q, mCounters := (mCounters s)[c := a]\<rparr>)) xs s' \<longrightarrow>
      solo dbg t (goto t pc s) (ts @ xs) s')"
  using assms
proof (induction ts arbitrary: s pc)
  case Nil
  have "mpmc_ok (mTasks s)" using readyD(7) [OF Nil.prems(1)] .
  moreover have "s\<lparr>mTasks := mTasks s, mCounters := (mCounters s)[c := mCounters s ! c]\<rparr> = s" by simp
  ultimately show ?case using Nil.prems by (intro exI [of _ pc] exI [of _ "mTasks s"] exI [of _ "mCounters s ! c"]) simp
next
  case (Cons tk ts)
  let ?v = "of_nat (Suc (length ts)) :: cint"
  have v: "count (mCounters s ! c) - 1 = target + ?v" using Cons.prems(10) by simp
  have "unat ?v = Suc (length ts)" using Cons.prems(11) by (intro unat_of_nat_small) simp
  then have "?v \<noteq> 0" by fastforce
  then have ne: "count (mCounters s ! c) - 1 \<noteq> target" unfolding v by simp
  have tk: "unat (get_metadata tk) = c" "mpmc_list (mTasks s) = tk # (ts @ rest)" using Cons.prems(4,5) by simp_all
  obtain q a where q: "mpmc_ok q" "mpmc_list q = ts @ rest" "counter_shape a" "waiters a = [i \<mapsto> (f, p, target)]"
    "count a = count (mCounters s ! c) - 1"
    "\<And>xs s'. solo dbg t (goto t (LoopTop lc_min_backoff_pauses) (s\<lparr>mTasks := q, mCounters := (mCounters s)[c := a]\<rparr>)) xs s' \<Longrightarrow>
      solo dbg t (goto t pc s) (tk # xs) s'"
    using executes_task [OF Cons.prems(1,2,3) tk(2,1) Cons.prems(6,7,8,9) ne, of dbg] by blast
  let ?s = "s\<lparr>mTasks := q, mCounters := (mCounters s)[c := a]\<rparr>"
  have s: "ready t ?s" "none_resumable t ?s" using ready_tasks [OF Cons.prems(1) q(1)] Cons.prems(2) by simp_all
  have c: "c < length (mCounters ?s)" "mCounters ?s ! c = a" "mpmc_list (mTasks ?s) = ts @ rest"
    using Cons.prems(6) q(2) by simp_all
  have "\<forall>tk \<in> set ts. unat (get_metadata tk) = c" "Suc (length ts) < 2 ^ 32" using Cons.prems(5,11) by simp_all
  moreover have "count a = target + ?v" using q(5) v by simp
  ultimately obtain pc' q' a' where r: "looking pc'" "mpmc_ok q'" "mpmc_list q' = rest" "counter_shape a'"
    "waiters a' = [i \<mapsto> (f, p, target)]" "count a' = target + 1"
    "\<And>xs s'. solo dbg t (goto t pc' (?s\<lparr>mTasks := q', mCounters := (mCounters ?s)[c := a']\<rparr>)) xs s' \<Longrightarrow>
      solo dbg t (goto t (LoopTop lc_min_backoff_pauses) ?s) (ts @ xs) s'"
    using Cons.IH [OF s, of "LoopTop lc_min_backoff_pauses"] c Cons.prems(9) q(3,4) unfolding c(2) by (metis looking.simps(1))
  have "?s\<lparr>mTasks := q', mCounters := (mCounters ?s)[c := a']\<rparr> = s\<lparr>mTasks := q', mCounters := (mCounters s)[c := a']\<rparr>" by simp
  then have "solo dbg t (goto t pc s) ((tk # ts) @ xs) s'"
    if "solo dbg t (goto t pc' (s\<lparr>mTasks := q', mCounters := (mCounters s)[c := a']\<rparr>)) xs s'" for xs s'
    using q(6) [OF r(7)] that by simp
  then show ?case using r(1-6) by (intro exI [of _ pc'] exI [of _ q'] exI [of _ a']) simp
qed

section \<open>Going back to the waiting fiber\<close>

lemma not_invalid: "unat (x :: 32 word) < n \<Longrightarrow> n < 2 ^ 32 \<Longrightarrow> x \<noteq> - 1"
  by (auto simp: unsigned_minus_1_eq_mask mask_eq_exp_minus_1)

definition is_back :: "nat \<Rightarrow> user_context \<Rightarrow> cint \<Rightarrow> nat \<Rightarrow> 'h sched \<Rightarrow> 'h sched \<Rightarrow> bool" where
  "is_back t ctx v f s s' \<longleftrightarrow> failed s' = None \<and> current t s' = f \<and> native (mFibers s' ! f) = Running ctx (IntResult v) \<and>
     \<not> is_thread_waiting (s_tls s' t) \<and> mpmc_list (mIdleFibers s') = mpmc_list (mIdleFibers s) @ [current_fiber_index (s_tls s t)] \<and>
     mTasks s' = mTasks s \<and> mCounters s' = mCounters s \<and> mResumableFibers s' = mResumableFibers s \<and>
     mThreads s' = mThreads s \<and> mFreeCounters s' = mFreeCounters s \<and> mCounterHandles s' = mCounterHandles s"

lemma goes_back:
  assumes s: "failed s = None" "current t s < length (mFibers s)" "length (mFibers s) < 2 ^ 32" "mpmc_ok (mIdleFibers s)"
    and f: "unat fx < length (mFibers s)" "unat fx \<noteq> current t s" "is_waiting_cleaned_up (mFibers s ! unat fx)"
      "native (mFibers s ! unat fx) = Resumed (WaitOver ctx v)"
    and room: "length (mpmc_list (mIdleFibers s)) < length (mBuffer (mIdleFibers s))"
    and pc: "exec_pc dbg t pc (goto t pc s) = tryResumeFiber dbg t fx k k' (goto t pc s)"
  obtains s' where "solo dbg t (goto t pc s) [] s'" "is_back t ctx v (unat fx) s s'"
proof -
  let ?f = "unat fx" and ?l = "s_tls s t"
  define r where "r = set_tls t (?l\<lparr>previous_fiber_index := current_fiber_index ?l, previous_fiber_dest := dest_pool,
      current_fiber_index := fx\<rparr>) (goto t (Resumed k) (set_cleaned_up ?f False s))"
  have ok: "current_fiber_index ?l \<noteq> invalid_fiber" "fx \<noteq> invalid_fiber"
    using not_invalid [OF _ s(3)] s(2) f(1) by (simp_all add: current_def invalid_fiber_def)
  have "goto t (Resumed k) (set_cleaned_up ?f False (goto t pc s)) = goto t (Resumed k) (set_cleaned_up ?f False s)"
    using f(1,2) s(2) by (simp add: goto_def set_native_def set_cleaned_up_def current_def nth_list_update list_update_swap [of "unat fx"])
  then have "tryResumeFiber dbg t fx k k' (goto t pc s) = Some r"
    using f ok by (simp add: tryResumeFiber_def yieldToFiber_def Let_def r_def goto_def set_native_def set_cleaned_up_def current_def nth_list_update)
  then have go1: "exec_pc dbg t pc (goto t pc s) = Some r" using pc by simp
  have r: "failed r = None" "current t r = ?f" "length (mFibers r) = length (mFibers s)" "native (mFibers r ! ?f) = Resumed (WaitOver ctx v)"
    "mIdleFibers r = mIdleFibers s" "s_tls r t = ?l\<lparr>previous_fiber_index := current_fiber_index ?l, previous_fiber_dest := dest_pool,
      current_fiber_index := fx\<rparr>" "mTasks r = mTasks s" "mCounters r = mCounters s" "mResumableFibers r = mResumableFibers s"
     "mThreads r = mThreads s" "mFreeCounters r = mFreeCounters s" "mCounterHandles r = mCounterHandles s"
    using s f by (simp_all add: r_def set_tls_def goto_def set_native_def set_cleaned_up_def current_def nth_list_update)
  obtain q where q: "mpmc_enqueue (mIdleFibers s) (current_fiber_index ?l) = Some (True, q)"
    "mpmc_list q = mpmc_list (mIdleFibers s) @ [current_fiber_index ?l]"
    using mpmc.enq_room [OF s(4) room] by blast
  define r1 where "r1 = set_tls t ((s_tls r t)\<lparr>previous_fiber_index := invalid_fiber, previous_fiber_dest := dest_none\<rparr>) (r\<lparr>mIdleFibers := q\<rparr>)"
  define r2 where "r2 = set_tls t ((s_tls r1 t)\<lparr>is_thread_waiting := False\<rparr>) r1"
  have r1: "failed r1 = None" "current t r1 = ?f" "mFibers r1 = mFibers r" using r by (simp_all add: r1_def set_tls_def current_def)
  have go2: "exec_pc dbg t (Resumed (WaitOver ctx v)) (goto t (Resumed (WaitOver ctx v)) r) = Some (goto t (WaitOver ctx v) r1)"
    using r q(1) goto_same [of r t] by (simp add: cleanUpPrevFiber_def Let_def r1_def)
  have go3: "exec_pc dbg t (WaitOver ctx v) (goto t (WaitOver ctx v) r1) = Some (goto t (Running ctx (IntResult v)) r2)"
    using r1 r(3) f(1) by (simp add: r2_def goto_def set_tls_def set_native_def current_def)
  have over: "solo dbg t (goto t (WaitOver ctx v) r1) [] (goto t (Running ctx (IntResult v)) r2)"
    by (rule solo_exec [OF _ _ go3 solo_here]) (use r1 r(3) f(1) in simp_all)
  have "solo dbg t (goto t (Resumed (WaitOver ctx v)) r) [] (goto t (Running ctx (IntResult v)) r2)"
    by (rule solo_exec [OF _ _ go2 over]) (use r f(1) in simp_all)
  then have "solo dbg t r [] (goto t (Running ctx (IntResult v)) r2)" using r goto_same [of r t] by simp
  then have "solo dbg t (goto t pc s) [] (goto t (Running ctx (IntResult v)) r2)" by (rule solo_exec [OF s(1,2) go1])
  moreover have "is_back t ctx v ?f s (goto t (Running ctx (IntResult v)) r2)"
    using r r1 q(2) f(1) by (simp add: is_back_def r2_def r1_def set_tls_def goto_def set_native_def current_def)
  ultimately show ?thesis using that by blast
qed

lemma ready_resumable: "ready t s \<Longrightarrow> mpmc_ok q \<Longrightarrow> ready t (s\<lparr>mResumableFibers := q\<rparr>)"
  by (simp add: ready_def pinned_queue_def current_def)

lemma pinned_queue_set [simp]:
  "t < length (mThreads s) \<Longrightarrow> pinned_queue t (set_pinned t q s) = q" "pinned_queue t (s\<lparr>mResumableFibers := r\<rparr>) = pinned_queue t s"
  by (simp_all add: pinned_queue_def set_pinned_def)

lemma ready_pinned: "ready t s \<Longrightarrow> fifo_ok q \<Longrightarrow> ready t (set_pinned t q s)"
  using pinned_queue_set(1) [of t s q] by (simp add: ready_def set_pinned_def current_def)

lemma goto_pinned: "goto t pc (set_pinned i q s) = set_pinned i q (goto t pc s)"
  by (simp add: goto_def set_native_def set_pinned_def current_def)

lemma goto_resumable: "goto t pc (s\<lparr>mResumableFibers := q\<rparr>) = (goto t pc s)\<lparr>mResumableFibers := q\<rparr>"
  by (simp add: goto_def set_native_def current_def)

text \<open>From the loop the thread takes the fiber that has been woken, on either way.\<close>

definition parked_waiting :: "nat \<Rightarrow> user_context \<Rightarrow> cint \<Rightarrow> fiber_index_t \<Rightarrow> 'h sched \<Rightarrow> bool" where
  "parked_waiting t ctx v fx s \<longleftrightarrow> unat fx < length (mFibers s) \<and> unat fx \<noteq> current t s \<and>
     is_waiting_cleaned_up (mFibers s ! unat fx) \<and> native (mFibers s ! unat fx) = Resumed (WaitOver ctx v) \<and>
     length (mpmc_list (mIdleFibers s)) < length (mBuffer (mIdleFibers s))"

lemma takes_global:
  assumes s: "ready t s" "fifo_list (pinned_queue t s) = []" "mpmc_list (mResumableFibers s) = [fx]" and f: "parked_waiting t ctx v fx s"
  obtains q s' where "mpmc_list q = []" "solo dbg t (goto t (LoopTop bp) s) [] s'"
    "is_back t ctx v (unat fx) (s\<lparr>mResumableFibers := q\<rparr>) s'"
proof -
  note go = solo_exec [OF readyD(1,5) [OF s(1)], of dbg]
  obtain q where q: "mpmc_dequeue (mResumableFibers s) = Some (Some fx, q)" "mpmc_ok q" "mpmc_list q = []"
    using mpmc.deq_some [OF readyD(8) [OF s(1)] s(3)] by blast
  let ?s = "s\<lparr>mResumableFibers := q\<rparr>"
  have r: "ready t ?s" using ready_resumable [OF s(1) q(2)] .
  obtain s' where s': "solo dbg t (goto t (TryGlobal bp fx) ?s) [] s'" "is_back t ctx v (unat fx) ?s s'"
    by (rule goes_back [of ?s t fx ctx v dbg "TryGlobal bp fx" "GetTask bp" "BackGlobal bp fx"])
      (use readyD [OF r] f in \<open>simp_all add: parked_waiting_def current_def\<close>)
  have "solo dbg t (goto t (GetGlobal bp) s) [] s'"
    by (rule go [OF _ s'(1)]) (use q(1) readyD(5) [OF s(1)] in \<open>simp add: goto_resumable goto_goto flip: goto_resumable\<close>)
  then have "solo dbg t (goto t (GetPinned bp) s) [] s'" by (rule go [OF empty_pinned [OF s(1,2)]])
  then have "solo dbg t (goto t (LoopTop bp) s) [] s'"
    by (rule go [rotated]) (use readyD(2,5) [OF s(1)] in \<open>simp add: goto_goto\<close>)
  with q(3) s'(2) that show ?thesis by blast
qed

lemma takes_pinned:
  assumes s: "ready t s" "fifo_list (pinned_queue t s) = [fx]" and f: "parked_waiting t ctx v fx s"
  obtains q s' where "fifo_list q = []" "solo dbg t (goto t (LoopTop bp) s) [] s'"
    "is_back t ctx v (unat fx) (set_pinned t q s) s'"
proof -
  note go = solo_exec [OF readyD(1,5) [OF s(1)], of dbg]
  obtain q where q: "fifo_dequeue (pinned_queue t s) = (Some fx, q)" "fifo_ok q" "fifo_list q = []"
    using fifo.deq_some [OF readyD(10) [OF s(1)] s(2)] by auto
  let ?s = "set_pinned t q s"
  have r: "ready t ?s" using ready_pinned [OF s(1) q(2)] .
  obtain s' where s': "solo dbg t (goto t (TryPinned bp fx) ?s) [] s'" "is_back t ctx v (unat fx) ?s s'"
    by (rule goes_back [of ?s t fx ctx v dbg "TryPinned bp fx" "GetGlobal bp" "BackPinned bp fx"])
      (use readyD [OF r] f in \<open>simp_all add: parked_waiting_def current_def set_pinned_def\<close>)
  have "solo dbg t (goto t (GetPinned bp) s) [] s'"
    by (rule go [OF _ s'(1)])
      (use q(1) readyD(4,5) [OF s(1)] in \<open>simp add: Let_def goto_pinned goto_goto flip: pinned_queue_def goto_pinned\<close>)
  then have "solo dbg t (goto t (LoopTop bp) s) [] s'"
    by (rule go [rotated]) (use readyD(2,5) [OF s(1)] in \<open>simp add: goto_goto\<close>)
  with q(3) s'(2) that show ?thesis by blast
qed

definition came_back :: "nat \<Rightarrow> user_context \<Rightarrow> cint \<Rightarrow> nat \<Rightarrow> 'h sched \<Rightarrow> 'h sched \<Rightarrow> bool" where
  "came_back t ctx v f s s' \<longleftrightarrow> failed s' = None \<and> current t s' = f \<and> native (mFibers s' ! f) = Running ctx (IntResult v) \<and>
     \<not> is_thread_waiting (s_tls s' t) \<and> mpmc_list (mIdleFibers s') = mpmc_list (mIdleFibers s) @ [current_fiber_index (s_tls s t)] \<and>
     mTasks s' = mTasks s \<and> mCounters s' = mCounters s \<and> none_resumable t s' \<and>
     mFreeCounters s' = mFreeCounters s \<and> mCounterHandles s' = mCounterHandles s"

lemma parked_updates [simp]:
  "parked_waiting t ctx v fx (s\<lparr>mCounters := cs\<rparr>) = parked_waiting t ctx v fx s"
  "parked_waiting t ctx v fx (s\<lparr>mTasks := ts\<rparr>) = parked_waiting t ctx v fx s"
  "parked_waiting t ctx v fx (s\<lparr>mResumableFibers := q\<rparr>) = parked_waiting t ctx v fx s"
  "parked_waiting t ctx v fx (set_pinned i w s) = parked_waiting t ctx v fx s"
  by (simp_all add: parked_waiting_def current_def set_pinned_def)

lemma woken_comes_back:
  assumes s: "ready t s" "none_resumable t s" and f: "parked_waiting t ctx v fx s"
    and p: "p = invalid_thread \<or> p = thread_index (s_tls s t)"
  obtains r where "wake_fiber dbg (fx, p) s = Some r" "failed r = None" "mCounters r = mCounters s"
    "\<And>cs. \<exists>s'. solo dbg t (goto t (LoopTop bp) (r\<lparr>mCounters := cs\<rparr>)) [] s' \<and> came_back t ctx v (unat fx) (s\<lparr>mCounters := cs\<rparr>) s'"
proof (cases "p = invalid_thread")
  case True
  have "length (mpmc_list (mResumableFibers s)) < length (mBuffer (mResumableFibers s))"
    using s(2) mpmc_ok_nonempty [OF readyD(8) [OF s(1)]] by (simp add: none_resumable_def del: length_mpmc_list)
  then obtain q where q: "mpmc_enqueue (mResumableFibers s) fx = Some (True, q)" "mpmc_ok q" "mpmc_list q = [fx]"
    using mpmc.enq_room [OF readyD(8) [OF s(1)], of fx] s(2) by (auto simp: none_resumable_def)
  let ?r = "s\<lparr>mResumableFibers := q\<rparr>"
  have wake: "wake_fiber dbg (fx, p) s = Some ?r" using True q(1) by (simp add: wake_fiber_def fail_simps)
  have "\<exists>s'. solo dbg t (goto t (LoopTop bp) (?r\<lparr>mCounters := cs\<rparr>)) [] s' \<and> came_back t ctx v (unat fx) (s\<lparr>mCounters := cs\<rparr>) s'" for cs
  proof -
    let ?s = "?r\<lparr>mCounters := cs\<rparr>"
    have 1: "ready t ?s" "parked_waiting t ctx v fx ?s" using ready_resumable [OF s(1) q(2)] f by simp_all
    have 2: "fifo_list (pinned_queue t ?s) = []" "mpmc_list (mResumableFibers ?s) = [fx]" using s(2) q(3) by (simp_all add: none_resumable_def)
    obtain q' s' where b: "mpmc_list q' = []" "solo dbg t (goto t (LoopTop bp) ?s) [] s'" "is_back t ctx v (unat fx) (?s\<lparr>mResumableFibers := q'\<rparr>) s'"
      using takes_global [OF 1(1) 2 1(2)] by blast
    have "came_back t ctx v (unat fx) (s\<lparr>mCounters := cs\<rparr>) s'"
      using b(1,3) 2(1) by (simp add: is_back_def came_back_def none_resumable_def pinned_queue_def)
    with b(2) show ?thesis by blast
  qed
  then show ?thesis using that [OF wake] readyD(1) [OF s(1)] by simp
next
  case False
  then have p: "unat p = t" "t < length (mThreads s)" using p readyD(3,4) [OF s(1)] by simp_all
  have "length (fifo_list (pinned_queue t s)) < length (mData (pinned_queue t s))"
    using s(2) fifo_ok_sizes [OF readyD(10) [OF s(1)]] by (simp add: none_resumable_def del: length_fifo_list)
  then obtain q where q: "fifo_enqueue dbg (pinned_queue t s) fx = Inr q" "fifo_ok q" "fifo_list q = [fx]"
    using fifo_enqueue_correct [OF readyD(10) [OF s(1)], of dbg fx] s(2) by (auto simp: none_resumable_def)
  let ?r = "set_pinned t q s"
  have wake: "wake_fiber dbg (fx, p) s = Some ?r" using False p q(1) by (simp add: wake_fiber_def pinned_queue_def)
  have "\<exists>s'. solo dbg t (goto t (LoopTop bp) (?r\<lparr>mCounters := cs\<rparr>)) [] s' \<and> came_back t ctx v (unat fx) (s\<lparr>mCounters := cs\<rparr>) s'" for cs
  proof -
    let ?s = "?r\<lparr>mCounters := cs\<rparr>"
    have 1: "ready t ?s" "parked_waiting t ctx v fx ?s" using ready_pinned [OF s(1) q(2)] f by simp_all
    have 2: "fifo_list (pinned_queue t ?s) = [fx]" using p(2) q(3) by simp
    obtain q' s' where b: "fifo_list q' = []" "solo dbg t (goto t (LoopTop bp) ?s) [] s'" "is_back t ctx v (unat fx) (set_pinned t q' ?s) s'"
      using takes_pinned [OF 1(1) 2 1(2)] by blast
    have "came_back t ctx v (unat fx) (s\<lparr>mCounters := cs\<rparr>) s'"
      using b(1,3) p(2) s(2) by (simp add: is_back_def came_back_def none_resumable_def pinned_queue_def set_pinned_def)
    with b(2) show ?thesis by blast
  qed
  then show ?thesis using that [OF wake] readyD(1) [OF s(1)] by (simp add: set_pinned_def)
qed

text \<open>The last task that the counter stands for.\<close>

lemma last_task:
  assumes s: "ready t s" "none_resumable t s" and pc: "looking pc" and ts: "mpmc_list (mTasks s) = tk # rest"
    and c: "unat (get_metadata tk) = c" "c < length (mCounters s)" "counter_shape (mCounters s ! c)"
    and w: "waiters (mCounters s ! c) = [i \<mapsto> (fx, p, target)]" "i < max_waiting" "count (mCounters s ! c) = target + 1"
    and f: "parked_waiting t ctx v fx s" and p: "p = invalid_thread \<or> p = thread_index (s_tls s t)"
  obtains q a s' where "mpmc_list q = rest" "count a = target" "waiters a = Map.empty" "solo dbg t (goto t pc s) [tk] s'"
    "came_back t ctx v (unat fx) (s\<lparr>mTasks := q, mCounters := (mCounters s)[c := a]\<rparr>) s'"
proof -
  obtain q where q: "mpmc_ok q" "mpmc_list q = rest"
    "\<And>xs s'. solo dbg t (goto t (Running (WorkerTask tk) NoResult) (s\<lparr>mTasks := q\<rparr>)) xs s' \<Longrightarrow> solo dbg t (goto t pc s) xs s'"
    using gets_task [OF s pc ts] by blast
  let ?c = "mCounters s ! c" and ?s = "s\<lparr>mTasks := q\<rparr>"
  have v: "count ?c + - 1 = target" using w(3) by simp
  obtain n a where a: "run_alone n (counterIncrement dbg (- 1)) ?c = (IncDone target, a, woken_slots target ?c)" "count a = target"
    "waiters a = (\<lambda>i. if \<exists>f p. waiters ?c i = Some (f, p, target) then None else waiters ?c i)"
    using increment_run [OF c(3), of "- 1" dbg] unfolding v by auto
  have run: "run_alone n (counterIncrement dbg (- 1)) ?c = (IncDone target, a, [(fx, p)])"
    using a(1) one_waiter [OF w(1,2)] by simp
  have wa: "waiters a = Map.empty" unfolding a(3) w(1) by (auto simp: fun_eq_iff)
  have r: "ready t ?s" "none_resumable t ?s" "parked_waiting t ctx v fx ?s" "p = invalid_thread \<or> p = thread_index (s_tls ?s t)"
    using ready_tasks [OF s(1) q(1)] s(2) f p by simp_all
  obtain r where wake: "wake_fiber dbg (fx, p) ?s = Some r" "failed r = None" "mCounters r = mCounters ?s"
    and comes: "\<And>cs. \<exists>s'. solo dbg t (goto t (LoopTop lc_min_backoff_pauses) (r\<lparr>mCounters := cs\<rparr>)) [] s' \<and>
      came_back t ctx v (unat fx) (?s\<lparr>mCounters := cs\<rparr>) s'"
    using woken_comes_back [OF r] by blast
  let ?cs = "(mCounters s)[c := a]"
  obtain s' where s': "solo dbg t (goto t (LoopTop lc_min_backoff_pauses) (r\<lparr>mCounters := ?cs\<rparr>)) [] s'"
    "came_back t ctx v (unat fx) (?s\<lparr>mCounters := ?cs\<rparr>) s'" using comes by blast
  note keep = wake_keeps [OF wake(1), of t]
  have "solo dbg t (goto t (InCounter c (IncDone target) AfterTask) (r\<lparr>mCounters := ?cs\<rparr>)) [] s'"
    by (rule solo_exec [OF _ _ _ s'(1)]) (use readyD(5) [OF r(1)] wake(2) keep c(2) in \<open>simp_all add: goto_goto\<close>)
  then have "solo dbg t (goto t (InCounter c (counterIncrement dbg (- 1)) AfterTask) ?s) [] s'"
    by (intro solo_counter_wakes [OF _ _ _ _ wake(1,2), of c t n]) (use readyD(1,5) [OF r(1)] c(2) run wake(3) in simp_all)
  then have "solo dbg t (goto t pc s) [tk] s'" by (intro q(3) task_ends [OF r(1) c(1)])
  with q(2) a(2) wa s'(2) that show ?thesis by simp
qed

section \<open>Leaving for another fiber\<close>

definition left_for :: "nat \<Rightarrow> user_context \<Rightarrow> cint \<Rightarrow> fiber_index_t \<Rightarrow> nat \<Rightarrow> atomic_counter \<Rightarrow> 'h sched \<Rightarrow> 'h sched \<Rightarrow> bool" where
  "left_for t ctx v g c a s r \<longleftrightarrow> ready t r \<and> none_resumable t r \<and> parked_waiting t ctx v (current_fiber_index (s_tls s t)) r \<and>
     current_fiber_index (s_tls r t) = g \<and> thread_index (s_tls r t) = thread_index (s_tls s t) \<and> mTasks r = mTasks s \<and>
     mCounters r = (mCounters s)[c := a] \<and> mpmc_list (mIdleFibers r) = tl (mpmc_list (mIdleFibers s)) \<and>
     mFreeCounters r = mFreeCounters s \<and> mCounterHandles r = mCounterHandles s"

lemma wait_leaves:
  assumes s: "ready t s" "none_resumable t s"
    and g: "mpmc_list (mIdleFibers s) = g # idle" "unat g < length (mFibers s)" "unat g \<noteq> current t s"
      "native (mFibers s ! unat g) = Resumed k"
    and c: "c < length (mCounters s)" "run_alone n pc (mCounters s ! c) = (AddDone False v, a, [])"
  obtains r where "left_for t ctx v g c a s r"
    "\<And>xs s'. solo dbg t (goto t k r) xs s' \<Longrightarrow> solo dbg t (goto t (InCounter c pc (AfterWait ctx)) s) xs s'"
proof -
  let ?l = "s_tls s t" and ?f = "current t s"
  note len = readyD(5,6) [OF s(1)]
  have f: "unat (current_fiber_index ?l) = ?f" by (simp add: current_def)
  have ok: "current_fiber_index ?l \<noteq> invalid_fiber" "g \<noteq> invalid_fiber"
    using not_invalid [OF _ len(2)] len(1) g(2) by (simp_all add: current_def invalid_fiber_def)
  obtain q where q: "mpmc_dequeue (mIdleFibers s) = Some (Some g, q)" "mpmc_ok q" "mpmc_list q = idle"
    "length (mBuffer q) = length (mBuffer (mIdleFibers s))"
    using mpmc.deq_some [OF readyD(9) [OF s(1)] g(1)] by blast
  define s2 where "s2 = s\<lparr>mCounters := (mCounters s)[c := a]\<rparr>"
  define s3 where "s3 = set_tls t (?l\<lparr>previous_fiber_index := current_fiber_index ?l, previous_fiber_dest := dest_waiting,
      current_fiber_index := g\<rparr>) (goto t (Resumed (WaitOver ctx v)) (s2\<lparr>mIdleFibers := q\<rparr>))"
  define r where "r = set_tls t ((s_tls s3 t)\<lparr>previous_fiber_index := invalid_fiber, previous_fiber_dest := dest_none\<rparr>)
      (set_cleaned_up ?f True s3)"
  have s2: "failed s2 = None" "current t s2 = ?f" "mFibers s2 = mFibers s" "c < length (mCounters s2)"
    "mIdleFibers s2 = mIdleFibers s" "s_tls s2 = s_tls s"
    using readyD(1) [OF s(1)] c(1) by (simp_all add: s2_def)
  have s3: "failed s3 = None" "current t s3 = unat g" "length (mFibers s3) = length (mFibers s)" "native (mFibers s3 ! unat g) = Resumed k"
    "s_tls s3 t = ?l\<lparr>previous_fiber_index := current_fiber_index ?l, previous_fiber_dest := dest_waiting, current_fiber_index := g\<rparr>"
    using readyD(1) [OF s(1)] g(2-4) by (simp_all add: s3_def s2_def set_tls_def goto_def set_native_def current_def nth_list_update)
  have go1: "exec_pc dbg t (WaitYield ctx v) (goto t (WaitYield ctx v) s2) = Some s3"
    using s2 q(1) ok len(1)
    by (simp add: acquireFreeFiber_def yieldToFiber_def Let_def s3_def goto_def set_native_def set_tls_def current_def)
  have go2: "exec_pc dbg t (Resumed k) (goto t (Resumed k) s3) = Some (goto t k r)"
    using s3 goto_same [of s3 t] f by (simp add: cleanUpPrevFiber_def Let_def r_def)
  have room: "length idle < length (mBuffer (mIdleFibers s))"
    using mpmc.bounded [OF readyD(9) [OF s(1)]] g(1) by simp
  have r: "failed r = failed s" "mIsShuttingDown r = mIsShuttingDown s" "mThreads r = mThreads s" "tmodes r = tmodes s"
    "mTasks r = mTasks s" "mResumableFibers r = mResumableFibers s" "mIdleFibers r = q" "mCounters r = (mCounters s)[c := a]"
    "mFreeCounters r = mFreeCounters s" "mCounterHandles r = mCounterHandles s" "length (mFibers r) = length (mFibers s)"
    by (simp_all add: r_def s3_def s2_def set_tls_def set_cleaned_up_def goto_def set_native_def)
  have tls: "current_fiber_index (s_tls r t) = g" "thread_index (s_tls r t) = thread_index ?l"
    by (simp_all add: r_def s3_def set_tls_def)
  then have cur: "current t r = unat g" by (simp add: current_def)
  have fib: "native (mFibers r ! ?f) = Resumed (WaitOver ctx v)" "is_waiting_cleaned_up (mFibers r ! ?f)"
    using len(1) by (simp_all add: r_def s3_def s2_def set_tls_def set_cleaned_up_def goto_def set_native_def current_def)
  have "ready t r" using s(1) r tls cur g(2) q(2) by (simp add: ready_def pinned_queue_def)
  moreover have "none_resumable t r" using s(2) r by (simp add: none_resumable_def pinned_queue_def)
  moreover have "parked_waiting t ctx v (current_fiber_index ?l) r"
    unfolding parked_waiting_def f using r cur fib len(1) g(3) q(3,4) room by simp
  ultimately have "left_for t ctx v g c a s r"
    unfolding left_for_def using r tls g(1) q(3) by simp
  moreover have "solo dbg t (goto t (InCounter c pc (AfterWait ctx)) s) xs s'" if run: "solo dbg t (goto t k r) xs s'" for xs s'
  proof -
    have "solo dbg t (goto t (Resumed k) s3) xs s'"
      by (rule solo_exec [OF _ _ go2 run]) (use s3 g(2) in simp_all)
    then have "solo dbg t s3 xs s'" using s3 goto_same [of s3 t] by simp
    then have yields: "solo dbg t (goto t (WaitYield ctx v) s2) xs s'"
      by (intro solo_exec [OF _ _ go1]) (use s2 len in simp_all)
    have "solo dbg t (goto t (InCounter c (AddDone False v) (AfterWait ctx)) s2) xs s'"
      by (rule solo_exec [OF _ _ _ yields]) (use s2 len in \<open>simp_all add: goto_goto\<close>)
    then show ?thesis unfolding s2_def by (intro solo_counter [OF c(1) readyD(1) [OF s(1)] len(1) c(2)])
  qed
  ultimately show ?thesis using that by blast
qed

section \<open>The whole wait\<close>

lemma executes_all:
  assumes r: "ready t r" "none_resumable t r" "parked_waiting t ctx v fx r" "looking k"
    and c: "c < length (mCounters r)" "counter_shape (mCounters r ! c)" "waiters (mCounters r ! c) = [i \<mapsto> (fx, p, target)]"
      "i < max_waiting" "p = invalid_thread \<or> p = thread_index (s_tls r t)"
    and ts: "mpmc_list (mTasks r) = ts @ rest" "ts \<noteq> []" "length ts < 2 ^ 32" "\<forall>tk \<in> set ts. unat (get_metadata tk) = c"
      "count (mCounters r ! c) = target + of_nat (length ts)"
  obtains q d s' where "mpmc_list q = rest" "count d = target" "waiters d = Map.empty" "solo dbg t (goto t k r) ts s'"
    "came_back t ctx v (unat fx) (r\<lparr>mTasks := q, mCounters := (mCounters r)[c := d]\<rparr>) s'"
proof -
  obtain us tk where us: "ts = us @ [tk]" using ts(2) by (metis append_butlast_last_id)
  have "mpmc_list (mTasks r) = us @ (tk # rest)" "\<forall>tk \<in> set us. unat (get_metadata tk) = c"
    "count (mCounters r ! c) = target + of_nat (Suc (length us))" "Suc (length us) < 2 ^ 32"
    using ts us by simp_all
  from executes_tasks [OF r(1,2,4) this(1,2) c(1-4) this(3,4), of dbg]
  obtain k' q b where b: "looking k'" "mpmc_ok q" "mpmc_list q = tk # rest" "counter_shape b"
    "waiters b = [i \<mapsto> (fx, p, target)]" "count b = target + 1"
    "\<And>xs s'. solo dbg t (goto t k' (r\<lparr>mTasks := q, mCounters := (mCounters r)[c := b]\<rparr>)) xs s' \<Longrightarrow> solo dbg t (goto t k r) (us @ xs) s'"
    by blast
  define r1 where "r1 = r\<lparr>mTasks := q, mCounters := (mCounters r)[c := b]\<rparr>"
  have r1: "ready t r1" "none_resumable t r1" "mpmc_list (mTasks r1) = tk # rest" "unat (get_metadata tk) = c" "c < length (mCounters r1)"
    "counter_shape (mCounters r1 ! c)" "waiters (mCounters r1 ! c) = [i \<mapsto> (fx, p, target)]" "count (mCounters r1 ! c) = target + 1"
    "parked_waiting t ctx v fx r1" "p = invalid_thread \<or> p = thread_index (s_tls r1 t)"
    using ready_tasks [OF r(1) b(2)] r b c ts(4) us by (simp_all add: r1_def)
  obtain q' d s' where fin: "mpmc_list q' = rest" "count d = target" "waiters d = Map.empty" "solo dbg t (goto t k' r1) [tk] s'"
    "came_back t ctx v (unat fx) (r1\<lparr>mTasks := q', mCounters := (mCounters r1)[c := d]\<rparr>) s'"
    using last_task [OF r1(1,2) b(1) r1(3-7) c(4) r1(8-10), of dbg] by blast
  have "solo dbg t (goto t k r) ts s'" using b(7) [of "[tk]" s'] fin(4) us by (simp add: r1_def)
  moreover have "came_back t ctx v (unat fx) (r\<lparr>mTasks := q', mCounters := (mCounters r)[c := d]\<rparr>) s'"
    using fin(5) by (simp add: r1_def)
  ultimately show ?thesis using fin(1-3) that by blast
qed

lemma wait_registers:
  assumes "counter_shape c" and "waiters c = Map.empty" and "i < max_waiting" and "free_waiting_slots c ! i" and "target \<noteq> count c"
  obtains n a j where "run_alone n (counterAddWaitingFiber f p target) c = (AddDone False (count c), a, [])" "j < max_waiting"
    "count a = count c" "waiters a = [j \<mapsto> (f, p, target)]" "counter_shape a"
proof -
  have nf: "\<not> (\<forall>i < max_waiting. \<not> free_waiting_slots c ! i)" using assms(3,4) by blast
  from add_run [OF assms(1), of f p target] obtain n a j where
    r: "run_alone n (counterAddWaitingFiber f p target) c = (AddDone False (count c), a, [])" "j < max_waiting"
    "count a = count c" "waiters a = [j \<mapsto> (f, p, target)]"
    unfolding if_not_P [OF nf] if_not_P [OF assms(5)] using assms(2,5) by auto
  with run_alone_shape [OF assms(1) r(1)] that show ?thesis by blast
qed

lemma wait_call:
  assumes "0 \<le> sint target" and "pool_is_alive P (mCounterHandles s) h" and "handle_counter P h s = c"
  shows "api_call dbg P t ctx (CallWait h pinned target) s =
    Some (goto t (InCounter c (counterAddWaitingFiber (current_fiber_index (s_tls s t))
        (if pinned then thread_index (s_tls s t) else invalid_thread) target) (AfterWait ctx))
      (set_tls t ((s_tls s t)\<lparr>is_thread_waiting := True\<rparr>) (set_cleaned_up (current t s) False s)))"
  using assms by (simp add: sched_wait_def fail_simps Let_def)

lemma wait_executes:
  assumes s: "ready t s" "none_resumable t s"
    and g: "mpmc_list (mIdleFibers s) = g # idle" "unat g < length (mFibers s)" "unat g \<noteq> current t s"
      "native (mFibers s ! unat g) = Resumed k" "looking k"
    and h: "0 \<le> sint target" "pool_is_alive P (mCounterHandles s) h" "handle_counter P h s = c" "c < length (mCounters s)"
    and w: "counter_shape (mCounters s ! c)" "waiters (mCounters s ! c) = Map.empty" "i < max_waiting"
      "free_waiting_slots (mCounters s ! c) ! i"
    and ts: "mpmc_list (mTasks s) = ts @ rest" "ts \<noteq> []" "length ts < 2 ^ 32" "\<forall>tk \<in> set ts. unat (get_metadata tk) = c"
      "count (mCounters s ! c) = target + of_nat (length ts)"
  shows "\<exists>s1 s2. api_call dbg P t ctx (CallWait h pinned target) s = Some s1 \<and> solo dbg t s1 ts s2 \<and> keeps_mode s s1 \<and>
    failed s2 = None \<and> current t s2 = current t s \<and>
    native (mFibers s2 ! current t s) = Running ctx (IntResult (count (mCounters s ! c))) \<and> \<not> is_thread_waiting (s_tls s2 t) \<and>
    mpmc_list (mTasks s2) = rest \<and> count (mCounters s2 ! c) = target \<and> waiters (mCounters s2 ! c) = Map.empty \<and>
    (\<forall>j. j \<noteq> c \<longrightarrow> mCounters s2 ! j = mCounters s ! j) \<and> mpmc_list (mIdleFibers s2) = idle @ [g] \<and> none_resumable t s2 \<and>
    mFreeCounters s2 = mFreeCounters s \<and> mCounterHandles s2 = mCounterHandles s"
proof -
  let ?l = "s_tls s t" and ?f = "current t s" and ?v = "count (mCounters s ! c)"
  let ?p = "if pinned then thread_index ?l else invalid_thread" and ?fx = "current_fiber_index (s_tls s t)"
  define s0 where "s0 = set_tls t (?l\<lparr>is_thread_waiting := True\<rparr>) (set_cleaned_up ?f False s)"
  have s0: "ready t s0" "none_resumable t s0" "current t s0 = ?f" "s_tls s0 t = ?l\<lparr>is_thread_waiting := True\<rparr>"
    using s by (simp_all add: s0_def ready_def none_resumable_def pinned_queue_def set_tls_def set_cleaned_up_def current_def)
  have f0: "mCounters s0 = mCounters s" "mTasks s0 = mTasks s" "mIdleFibers s0 = mIdleFibers s" "mFreeCounters s0 = mFreeCounters s"
    "mCounterHandles s0 = mCounterHandles s" "length (mFibers s0) = length (mFibers s)" "native (mFibers s0 ! unat g) = Resumed k"
    using g(3,4) by (simp_all add: s0_def set_tls_def set_cleaned_up_def nth_list_update)
  let ?s1 = "goto t (InCounter c (counterAddWaitingFiber ?fx ?p target) (AfterWait ctx)) s0"
  have "unat (of_nat (length ts) :: cint) = length ts" using ts(3) by (intro unat_of_nat_small) simp
  then have "(of_nat (length ts) :: cint) \<noteq> 0" using ts(2) by fastforce
  then have "target \<noteq> ?v" using ts(5) by simp
  from wait_registers [OF w this] obtain n a j where add: "run_alone n (counterAddWaitingFiber ?fx ?p target) (mCounters s0 ! c) = (AddDone False ?v, a, [])"
    "j < max_waiting" "count a = ?v" "waiters a = [j \<mapsto> (?fx, ?p, target)]" "counter_shape a"
    unfolding f0 by blast
  obtain r where r: "left_for t ctx ?v g c a s0 r" and go: "\<And>xs s'. solo dbg t (goto t k r) xs s' \<Longrightarrow> solo dbg t ?s1 xs s'"
    using wait_leaves [OF s0(1,2) _ _ _ f0(7) _ add(1), where idle = idle and ctx = ctx and dbg = dbg] g(1-3) h(4) f0 s0(3) by auto
  have r': "ready t r" "none_resumable t r" "parked_waiting t ctx ?v ?fx r" "current_fiber_index (s_tls r t) = g"
    "mTasks r = mTasks s" "mCounters r = (mCounters s)[c := a]" "mpmc_list (mIdleFibers r) = idle" "mFreeCounters r = mFreeCounters s"
    "mCounterHandles r = mCounterHandles s" "?p = invalid_thread \<or> ?p = thread_index (s_tls r t)"
    using r s0(4) f0 g(1) by (simp_all add: left_for_def)
  obtain q d s2 where fin: "mpmc_list q = rest" "count d = target" "waiters d = Map.empty" "solo dbg t (goto t k r) ts s2"
    "came_back t ctx ?v (unat ?fx) (r\<lparr>mTasks := q, mCounters := (mCounters r)[c := d]\<rparr>) s2"
    using executes_all [OF r'(1-3) g(5) _ _ _ add(2) r'(10), where c = c and ts = ts and rest = rest and dbg = dbg and target = target] r'(5,6) add(3-5) ts h(4) by auto
  have home: "failed s2 = None" "current t s2 = ?f" "native (mFibers s2 ! ?f) = Running ctx (IntResult ?v)"
    "\<not> is_thread_waiting (s_tls s2 t)" "mpmc_list (mIdleFibers s2) = idle @ [g]" "mTasks s2 = q"
    "mCounters s2 = (mCounters s)[c := d]" "none_resumable t s2" "mFreeCounters s2 = mFreeCounters s" "mCounterHandles s2 = mCounterHandles s"
    using fin(5) r' by (simp_all add: came_back_def current_def)
  have "api_call dbg P t ctx (CallWait h pinned target) s = Some ?s1" using wait_call [OF h(1-3)] by (simp add: s0_def)
  moreover have "keeps_mode s ?s1" by (simp add: s0_def keeps_mode_def set_tls_def set_cleaned_up_def)
  ultimately show ?thesis using go [OF fin(4)] home fin(1-3) h(4) by (intro exI [of _ ?s1] exI [of _ s2]) simp
qed

section \<open>Properties\<close>

text \<open>
  C7: a \<open>wait\<close> on a counter that stands above its target by the number of the first tasks in the queue, which are
  on that counter, on a thread that the others do not disturb. The thread leaves the waiting fiber for an idle one,
  which executes exactly those tasks, in the order of the queue; the last of them wakes the waiting fiber, pinned or
  not, the thread goes back to it, and \<open>wait\<close> returns the value of the counter before the wait. The run ends there,
  the counter is on its target with no fiber waiting, and the fiber that has executed the tasks is idle again.
\<close>

theorem wait_executes_tasks:
  assumes s: "ready t s" "none_resumable t s"
    and g: "mpmc_list (mIdleFibers s) = g # idle" "unat g < length (mFibers s)" "unat g \<noteq> current t s"
      "native (mFibers s ! unat g) = Resumed k" "looking k"
    and h: "0 \<le> sint target" "pool_is_alive P (mCounterHandles s) h" "handle_counter P h s = c" "c < length (mCounters s)"
    and w: "counter_shape (mCounters s ! c)" "waiters (mCounters s ! c) = Map.empty" "i < max_waiting"
      "free_waiting_slots (mCounters s ! c) ! i"
    and ts: "mpmc_list (mTasks s) = ts @ rest" "ts \<noteq> []" "length ts < 2 ^ 32" "\<forall>tk \<in> set ts. unat (get_metadata tk) = c"
      "count (mCounters s ! c) = target + of_nat (length ts)"
  shows "\<exists>s1 s2. api_call dbg P t ctx (CallWait h pinned target) s = Some s1 \<and> solo dbg t s1 ts s2 \<and>
    (sched_step dbg P)\<^sup>*\<^sup>* s1 s2 \<and> failed s2 = None \<and> solo_step dbg t s2 = None \<and> current t s2 = current t s \<and>
    native (mFibers s2 ! current t s) = Running ctx (IntResult (count (mCounters s ! c))) \<and> \<not> is_thread_waiting (s_tls s2 t) \<and>
    mpmc_list (mTasks s2) = rest \<and> count (mCounters s2 ! c) = target \<and> waiters (mCounters s2 ! c) = Map.empty \<and>
    (\<forall>j. j \<noteq> c \<longrightarrow> mCounters s2 ! j = mCounters s ! j) \<and> mpmc_list (mIdleFibers s2) = idle @ [g] \<and> none_resumable t s2 \<and>
    mFreeCounters s2 = mFreeCounters s \<and> mCounterHandles s2 = mCounterHandles s"
proof -
  obtain s1 s2 where r: "api_call dbg P t ctx (CallWait h pinned target) s = Some s1" "solo dbg t s1 ts s2" "keeps_mode s s1"
    "current t s2 = current t s" "native (mFibers s2 ! current t s) = Running ctx (IntResult (count (mCounters s ! c)))"
    and fin: "failed s2 = None" "\<not> is_thread_waiting (s_tls s2 t)" "mpmc_list (mTasks s2) = rest" "count (mCounters s2 ! c) = target"
      "waiters (mCounters s2 ! c) = Map.empty" "\<forall>j. j \<noteq> c \<longrightarrow> mCounters s2 ! j = mCounters s ! j"
      "mpmc_list (mIdleFibers s2) = idle @ [g]" "none_resumable t s2" "mFreeCounters s2 = mFreeCounters s"
      "mCounterHandles s2 = mCounterHandles s"
    using wait_executes [OF assms, where dbg = dbg and ctx = ctx and pinned = pinned] by blast
  have "(sched_step dbg P)\<^sup>*\<^sup>* s1 s2" using solo_steps [OF r(2)] r(3) s(1) by (simp add: ready_def keeps_mode_def)
  moreover have "solo_step dbg t s2 = None" using r(4,5) by (cases ctx) simp_all
  ultimately show ?thesis using r fin by (intro exI [of _ s1] exI [of _ s2]) simp
qed

text \<open>The main thread in its task, one idle fiber and two pending tasks on counter 0.\<close>

definition wait_sample :: "task mpmc \<Rightarrow> fiber_index_t mpmc \<Rightarrow> counter_index_t list sched" where
  "wait_sample ts idle = sample_queues\<lparr>mThreads := [\<lparr>pinned_resumable_fibers = fifo_new (replicate 32 0)\<rparr>],
     mFibers := [\<lparr>native = Running (MainTask sample_task) NoResult, is_waiting_cleaned_up = False\<rparr>, fiber_created],
     mCounters := [(counter_reset counter_default)\<lparr>count := 2\<rparr>], mTasks := ts, mIdleFibers := idle, mCounterHandles := [0],
     s_tls := (\<lambda>_. tls_reset\<lparr>current_fiber_index := 0, thread_index := 0\<rparr>), tmodes := (\<lambda>_. OnFiber)\<rparr>"

lemma wait_sample_fields:
  "failed (wait_sample ts idle) = None" "\<not> mIsShuttingDown (wait_sample ts idle)" "length (mThreads (wait_sample ts idle)) = 1"
  "tmodes (wait_sample ts idle) t = OnFiber" "thread_index (s_tls (wait_sample ts idle) t) = 0" "current t (wait_sample ts idle) = 0"
  "length (mFibers (wait_sample ts idle)) = 2" "mTasks (wait_sample ts idle) = ts" "mIdleFibers (wait_sample ts idle) = idle"
  "mResumableFibers (wait_sample ts idle) = mpmc_init 0 4" "pinned_queue 0 (wait_sample ts idle) = fifo_new (replicate 32 0)"
  "mCounterHandles (wait_sample ts idle) = [0]" "length (mCounters (wait_sample ts idle)) = 1"
  "mCounters (wait_sample ts idle) ! 0 = (counter_reset counter_default)\<lparr>count := 2\<rparr>"
  "native (mFibers (wait_sample ts idle) ! 1) = Resumed (LoopTop lc_min_backoff_pauses)"
  by (simp_all add: wait_sample_def sample_queues_def current_def pinned_queue_def fiber_created_def)

lemma wait_sample_ready:
  assumes "mpmc_ok ts" and "mpmc_ok idle"
  shows "ready 0 (wait_sample ts idle)" and "none_resumable 0 (wait_sample ts idle)"
  using assms mpmc_init_ok [of 4 2 "0 :: fiber_index_t", simplified] fifo_new_ok [of "replicate 32 (0 :: fiber_index_t)"]
    wait_sample_fields [where ts = ts and idle = idle]
  by (simp_all add: ready_def none_resumable_def del: length_mpmc_list)

lemma wait_sample_idle:
  obtains idle where "mpmc_ok idle" "mpmc_list idle = [1 :: fiber_index_t]"
  using mpmc.enqueue_each_room [of "mpmc_init 0 4" "[1 :: fiber_index_t]"] mpmc_init_ok [of 4 2 "0 :: fiber_index_t", simplified]
  by (auto simp del: length_mpmc_list enqueue_each.simps)

theorem wait_executes_tasks_witness:
  "\<exists>s s1 s2. api_call True sample_pool 0 (MainTask sample_task) (CallWait 0 True 0) s = Some s1 \<and>
     solo True 0 s1 [sample_task, sample_task] s2 \<and>
     native (mFibers s2 ! 0) = Running (MainTask sample_task) (IntResult 2) \<and> count (mCounters s2 ! 0) = 0"
proof -
  note ini = mpmc_init_ok [of 4 2, simplified]
  obtain idle where idle: "mpmc_ok idle" "mpmc_list idle = [1 :: fiber_index_t]" by (rule wait_sample_idle)
  obtain ts where ts: "mpmc_ok ts" "mpmc_list ts = [sample_task, sample_task]"
    using mpmc.enqueue_each_room [of "mpmc_init sample_task 4" "[sample_task, sample_task]"] ini [of sample_task]
    by (auto simp del: length_mpmc_list enqueue_each.simps)
  let ?s = "wait_sample ts idle" and ?c = "(counter_reset counter_default)\<lparr>count := 2\<rparr>"
  note fs = wait_sample_fields [where ts = ts and idle = idle]
  have ok: "ready 0 ?s" "none_resumable 0 ?s" using wait_sample_ready ts(1) idle(1) by blast+
  have "mpmc_list (mIdleFibers ?s) = 1 # []" "unat (1 :: fiber_index_t) < length (mFibers ?s)" "unat (1 :: fiber_index_t) \<noteq> current 0 ?s"
    "native (mFibers ?s ! unat (1 :: fiber_index_t)) = Resumed (LoopTop lc_min_backoff_pauses)" "looking (LoopTop lc_min_backoff_pauses)"
    "0 \<le> sint (0 :: cint)" "pool_is_alive sample_pool (mCounterHandles ?s) 0" "handle_counter sample_pool 0 ?s = 0" "0 < length (mCounters ?s)"
    using idle fs by (simp_all add: sample_pool_def handle_counter_def)
  moreover have "counter_shape (mCounters ?s ! 0)" "waiters (mCounters ?s ! 0) = Map.empty" "0 < max_waiting"
    "free_waiting_slots (mCounters ?s ! 0) ! 0"
    using api_counter fs by (simp_all add: counter_shape_def waiters_def counter_reset_def counter_default_def max_waiting_def Let_def fun_eq_iff)
  moreover have "mpmc_list (mTasks ?s) = [sample_task, sample_task] @ []" "[sample_task, sample_task] \<noteq> []"
    "length [sample_task, sample_task] < 2 ^ 32" "\<forall>tk \<in> set [sample_task, sample_task]. unat (get_metadata tk) = 0"
    "count (mCounters ?s ! 0) = 0 + of_nat (length [sample_task, sample_task])"
    using ts fs by (simp_all add: sample_task_def get_metadata_def)
  ultimately have "\<exists>s1 s2. api_call True sample_pool 0 (MainTask sample_task) (CallWait 0 True 0) ?s = Some s1 \<and>
      solo True 0 s1 [sample_task, sample_task] s2 \<and>
      native (mFibers s2 ! current 0 ?s) = Running (MainTask sample_task) (IntResult (count (mCounters ?s ! 0))) \<and> count (mCounters s2 ! 0) = 0"
    using wait_executes_tasks [OF ok, of 1 "[]" "LoopTop lc_min_backoff_pauses" 0 sample_pool 0 0 0 "[sample_task, sample_task]" "[]" True
        "MainTask sample_task" True] by blast
  then show ?thesis using fs by auto
qed

end
