(* ===== verification/Submit_Wait.thy ===== *)
theory Submit_Wait
  imports Wait_Runs
begin

text \<open>
  A task that submits tasks and waits for them (td-lean.hh over scheduler.cc), from the first call to the last, on
  one thread of the scheduler. The other threads do not take part.
\<close>

section \<open>A program on one thread\<close>

text \<open>
  Each call of the program goes on with steps of the thread, also on other fibers, until user code has the result
  on its own fiber. The tasks that the thread executes in between are noted.
\<close>

inductive prog_solo ::
  "bool \<Rightarrow> 'h pool_ops \<Rightarrow> nat \<Rightarrow> user_context \<Rightarrow> 'a prog \<Rightarrow> 'h sched \<Rightarrow> task list \<Rightarrow> 'a \<Rightarrow> 'h sched \<Rightarrow> bool"
  for dbg P t ctx where
  prog_returns: "prog_solo dbg P t ctx (Return v) s [] v s"
| prog_calls: "failed s = None \<Longrightarrow> c \<noteq> CallReturn \<Longrightarrow> api_call dbg P t ctx c s = Some s1 \<Longrightarrow> solo dbg t s1 xs s2 \<Longrightarrow>
    failed s2 = None \<Longrightarrow> current t s2 = current t s \<Longrightarrow> native (mFibers s2 ! current t s) = Running ctx r \<Longrightarrow>
    prog_solo dbg P t ctx (k r) s2 ys v s3 \<Longrightarrow> prog_solo dbg P t ctx (Invoke c k) s (xs @ ys) v s3"

lemma mode_call:
  assumes "api_call dbg P t ctx c s = Some s'" and "c \<noteq> CallReturn"
  shows "keeps_mode s s'"
  using assms
  by (cases c) (auto simp: sched_wait_def submitTasks_def acquireCounterHandle_def releaseCounter_def free_counter_of_def
      releaseCounterIfOnTarget_def fail_def Let_def keeps_mode_def goto_def set_native_def set_tls_def set_cleaned_up_def
      split: option.splits sum.splits prod.splits if_splits)

text \<open>The run is one of the scheduler.\<close>

lemma prog_solo_steps:
  assumes "prog_solo dbg P t ctx p s xs v s'" and "\<not> mIsShuttingDown s" and "t < length (mThreads s)" and "tmodes s t = OnFiber"
    and "native (mFibers s ! current t s) = Running ctx r"
  shows "(sched_step dbg P)\<^sup>*\<^sup>* s s'"
  using assms
proof (induction arbitrary: r rule: prog_solo.induct)
  case (prog_calls s c s1 xs s2 r' k ys v s3)
  have m1: "keeps_mode s s1" using mode_call prog_calls.hyps(2,3) by blast
  have go: "(sched_step dbg P)\<^sup>*\<^sup>* s1 s2 \<and> keeps_mode s1 s2"
    using solo_steps [OF prog_calls.hyps(4)] m1 prog_calls.prems(1-3) by (simp add: keeps_mode_def)
  have "sched_step dbg P s s1" using user_code prog_calls.hyps(1,3) prog_calls.prems(2-4) by blast
  moreover have "(sched_step dbg P)\<^sup>*\<^sup>* s2 s3"
    using prog_calls.IH [of r'] m1 go prog_calls.prems(1-3) prog_calls.hyps(6,7) by (simp add: keeps_mode_def)
  ultimately show ?case using go by (meson converse_rtranclp_into_rtranclp rtranclp_trans)
qed simp

section \<open>What the calls leave as it is\<close>

lemma ready_goto [simp]: "ready t (goto t pc s) = ready t s" "none_resumable t (goto t pc s) = none_resumable t s"
  by (simp_all add: ready_def none_resumable_def pinned_queue_def goto_def set_native_def current_def)

lemma ready_counters [simp]:
  "ready t (s\<lparr>mFreeCounters := q\<rparr>) = ready t s" "none_resumable t (s\<lparr>mFreeCounters := q\<rparr>) = none_resumable t s"
  "ready t (s\<lparr>mCounterHandles := h\<rparr>) = ready t s" "none_resumable t (s\<lparr>mCounterHandles := h\<rparr>) = none_resumable t s"
  by (simp_all add: ready_def none_resumable_def pinned_queue_def current_def)

section \<open>Submitting\<close>

text \<open>\<open>counterIncrement\<close> on a counter that has just been reset: nobody waits, and every slot is free.\<close>

lemma increment_fresh:
  assumes "counter_shape c" and "amount \<noteq> 0"
  obtains n a where "run_alone n (counterIncrement dbg amount) (counter_reset c) = (IncDone amount, a, [])"
    "count a = amount" "waiters a = Map.empty" "counter_shape a" "free_waiting_slots a ! 0"
proof -
  let ?c = "(counter_reset c)\<lparr>count := amount\<rparr>"
  let ?a = "after_wake amount ?c max_waiting"
  have shape: "counter_shape ?c" using assms(1) by (simp add: counter_shape_def counter_reset_def)
  have none: "\<not> wakes_slot amount ?c i" if "i < max_waiting" for i
    using that by (simp add: wakes_slot_def counter_reset_def)
  obtain m where m: "run_alone m (ChkFree 0 amount) ?c = (IncDone amount, ?a, [])"
    using check_slots [of 0 amount ?c] after_wake_0 [OF shape] none by (auto simp: filter_empty_conv)
  have run: "run_alone (Suc m) (counterIncrement dbg amount) (counter_reset c) = (IncDone amount, ?a, [])"
    using m assms(2) by (simp add: counterIncrement_def fail_simps) (simp add: counter_reset_def)
  have w: "waiters (counter_reset c) = Map.empty" by (auto simp: waiters_def counter_reset_def Let_def fun_eq_iff)
  have "waiters ?a = Map.empty" by (simp add: waiters_after_wake w fun_eq_iff)
  moreover have "counter_shape ?a" by (simp add: counter_shape_def)
  moreover have "free_waiting_slots ?a ! 0" by (simp add: after_wake_def counter_reset_def max_waiting_def)
  ultimately show ?thesis using that [OF run] by simp
qed

text \<open>The tasks are appended one by one, with the counter as their metadata.\<close>

lemma solo_enqueues:
  assumes "ready t s" and "length (mpmc_list (mTasks s)) + length ts \<le> length (mBuffer (mTasks s))"
  shows "\<exists>q. solo dbg t (goto t (SubmitEnq ctx ts c True) s) [] (goto t (Running ctx NoResult) (s\<lparr>mTasks := q\<rparr>)) \<and>
    mpmc_ok q \<and> mpmc_list q = mpmc_list (mTasks s) @ map (set_metadata c) ts"
  using assms
proof (induction ts arbitrary: s)
  case Nil
  have "solo dbg t (goto t (SubmitEnq ctx [] c True) s) [] (goto t (Running ctx NoResult) s)"
    by (rule solo_exec [OF readyD(1,5) [OF Nil.prems(1)] _ solo_here]) (simp add: goto_goto [OF readyD(5) [OF Nil.prems(1)]])
  then show ?case using readyD(7) [OF Nil.prems(1)] by (intro exI [of _ "mTasks s"]) simp
next
  case (Cons tk ts)
  note s = readyD [OF Cons.prems(1)]
  obtain q where q: "mpmc_enqueue (mTasks s) (set_metadata c tk) = Some (True, q)" "mpmc_ok q"
    "mpmc_list q = mpmc_list (mTasks s) @ [set_metadata c tk]" "length (mBuffer q) = length (mBuffer (mTasks s))"
    using mpmc.enq_room [OF s(7), of "set_metadata c tk"] Cons.prems(2) by auto
  let ?s = "s\<lparr>mTasks := q\<rparr>"
  have "length (mpmc_list (mTasks ?s)) + length ts \<le> length (mBuffer (mTasks ?s))" using q(3,4) Cons.prems(2) by simp
  from Cons.IH [OF ready_tasks [OF Cons.prems(1) q(2)] this] obtain q' where
    r: "solo dbg t (goto t (SubmitEnq ctx ts c True) ?s) [] (goto t (Running ctx NoResult) (?s\<lparr>mTasks := q'\<rparr>))"
      "mpmc_ok q'" "mpmc_list q' = mpmc_list q @ map (set_metadata c) ts" by auto
  have "exec_pc dbg t (SubmitEnq ctx (tk # ts) c True) (goto t (SubmitEnq ctx (tk # ts) c True) s) =
      Some (goto t (SubmitEnq ctx ts c True) ?s)"
    using q(1) s(5) by (simp add: goto_updates goto_goto)
  then have "solo dbg t (goto t (SubmitEnq ctx (tk # ts) c True) s) [] (goto t (Running ctx NoResult) (s\<lparr>mTasks := q'\<rparr>))"
    by (rule solo_exec [OF s(1,5)]) (use r(1) in simp)
  with r q(3) show ?case by auto
qed

text \<open>\<open>submit_raw\<close> on a sync object without a handle, in front of what the program does next.\<close>

lemma submits:
  assumes s: "ready t s"
    and c: "mpmc_ok (mFreeCounters s)" "mpmc_list (mFreeCounters s) = c # free" "unat c < length (mCounters s)"
      "counter_shape (mCounters s ! unat c)"
    and P: "pool_acquire P (mCounterHandles s) = (h, hs)" "pool_index P (pool_set_index P hs h c) h = c"
    and ts: "length (mpmc_list (mTasks s)) + length ts \<le> length (mBuffer (mTasks s))" "ts \<noteq> []" "length ts < 2 ^ 32"
  obtains qf a q where "mpmc_ok qf" "mpmc_list qf = free" "length free < length (mBuffer qf)"
    "count a = of_nat (length ts)" "waiters a = Map.empty" "counter_shape a" "free_waiting_slots a ! 0"
    "mpmc_ok q" "mpmc_list q = mpmc_list (mTasks s) @ map (set_metadata c) ts"
    "\<And>f xs v s'. prog_solo dbg P t ctx (f \<lparr>sync_handle = h\<rparr>) (goto t (Running ctx NoResult)
        (s\<lparr>mFreeCounters := qf, mCounterHandles := pool_set_index P hs h c, mCounters := (mCounters s)[unat c := a], mTasks := q\<rparr>)) xs v s' \<Longrightarrow>
      prog_solo dbg P t ctx (prog_bind (submit_raw dbg True null_sync ts) f) s xs v s'"
proof -
  note rs = readyD [OF s]
  obtain qf where qf: "mpmc_dequeue (mFreeCounters s) = Some (Some c, qf)" "mpmc_ok qf" "mpmc_list qf = free"
    "length (mBuffer qf) = length (mBuffer (mFreeCounters s))"
    using mpmc.deq_some [OF c(1,2)] by blast
  have room: "length free < length (mBuffer qf)" using mpmc.bounded [OF c(1)] c(2) qf(4) by simp
  let ?amount = "of_nat (length ts) :: cint" and ?cr = "counter_reset (mCounters s ! unat c)"
  have "unat ?amount = length ts" using ts(3) by (intro unat_of_nat_small) simp
  then have "?amount \<noteq> 0" using ts(2) by fastforce
  from increment_fresh [OF c(4) this, of dbg] obtain n a where
    a: "run_alone n (counterIncrement dbg ?amount) ?cr = (IncDone ?amount, a, [])" "count a = ?amount" "waiters a = Map.empty"
      "counter_shape a" "free_waiting_slots a ! 0" by blast
  define s1 where "s1 = s\<lparr>mFreeCounters := qf, mCounters := (mCounters s)[unat c := ?cr], mCounterHandles := pool_set_index P hs h c\<rparr>"
  have r1: "ready t s1" using s by (simp add: s1_def ready_def pinned_queue_def current_def)
  have f1: "current t s1 = current t s" "mTasks s1 = mTasks s" "mCounters s1 = (mCounters s)[unat c := ?cr]"
    "pool_index P (mCounterHandles s1) h = c" using P(2) by (simp_all add: s1_def current_def)
  have acq: "api_call dbg P t ctx CallAcquire s = Some (goto t (Running ctx (HandleResult h)) s1)"
    using qf(1) c(3) P(1) by (simp add: acquireCounterHandle_def s1_def)
  let ?s2 = "s1\<lparr>mCounters := (mCounters s1)[unat c := a]\<rparr>" and ?start = "InCounter (unat c) (counterIncrement dbg ?amount) (AfterSubmit ctx ts c)"
  have r2: "ready t ?s2" using r1 by simp
  have "length (mpmc_list (mTasks ?s2)) + length ts \<le> length (mBuffer (mTasks ?s2))" using ts(1) f1(2) by simp
  from solo_enqueues [OF r2 this, of dbg ctx c] obtain q where
    q: "solo dbg t (goto t (SubmitEnq ctx ts c True) ?s2) [] (goto t (Running ctx NoResult) (?s2\<lparr>mTasks := q\<rparr>))" "mpmc_ok q"
      "mpmc_list q = mpmc_list (mTasks s) @ map (set_metadata c) ts" using f1(2) by auto
  let ?s3 = "goto t (Running ctx NoResult) (?s2\<lparr>mTasks := q\<rparr>)"
  have "solo dbg t (goto t (InCounter (unat c) (IncDone ?amount) (AfterSubmit ctx ts c)) ?s2) [] ?s3"
    by (rule solo_exec [OF readyD(1,5) [OF r2] _ q(1)]) (use readyD(5) [OF r2] f1(3) c(3) in \<open>simp add: goto_goto\<close>)
  then have run: "solo dbg t (goto t ?start s1) [] ?s3"
    by (intro solo_counter [OF _ readyD(1,5) [OF r1], of "unat c" n _ _ a]) (use f1(3) c(3) a(1) in simp_all)
  have sub: "api_call dbg P t ctx (CallSubmit ts h) (goto t (Running ctx (HandleResult h)) s1) = Some (goto t ?start s1)"
    using f1(4) readyD(5) [OF r1] by (simp add: submitTasks_def handle_counter_def goto_goto)
  have s3: "?s3 = goto t (Running ctx NoResult) (s\<lparr>mFreeCounters := qf, mCounterHandles := pool_set_index P hs h c,
      mCounters := (mCounters s)[unat c := a], mTasks := q\<rparr>)" by (simp add: s1_def)
  have "prog_solo dbg P t ctx (prog_bind (submit_raw dbg True null_sync ts) f) s xs v s'"
    if "prog_solo dbg P t ctx (f \<lparr>sync_handle = h\<rparr>) ?s3 xs v s'" for f xs v s'
  proof -
    let ?k = "\<lambda>x. prog_bind (Return \<lparr>sync_handle = h\<rparr>) f"
    have "prog_solo dbg P t ctx (Invoke (CallSubmit ts h) ?k) (goto t (Running ctx (HandleResult h)) s1) ([] @ xs) v s'"
      by (rule prog_calls [OF _ _ sub run, where r = NoResult]) (use r1 r2 f1(1) rs(1,5) that native_goto [of t "?s2\<lparr>mTasks := q\<rparr>"] readyD(5) [OF r1] in \<open>simp_all add: readyD(1)\<close>)
    then have "prog_solo dbg P t ctx (Invoke CallAcquire (\<lambda>r. Invoke (CallSubmit ts (handle_result r)) (\<lambda>_. prog_bind (Return \<lparr>sync_handle = handle_result r\<rparr>) f))) s ([] @ xs) v s'"
      by (intro prog_calls [OF _ _ acq solo_here, where r = "HandleResult h"]) (use rs(1) r1 f1(1) native_goto [OF readyD(5) [OF r1]] in \<open>simp_all add: readyD(1)\<close>)
    then show ?thesis by (simp add: submit_raw_def prog_assert_def fail_simps null_sync_def counter_is_valid_def)
  qed
  then show ?thesis unfolding s3 by (rule that [OF qf(2,3) room a(2-5) q(2,3)])
qed

section \<open>Waiting\<close>

text \<open>
  \<open>wait_for\<close> on the sync object of a counter whose pending tasks are at the front of the queue: they are executed,
  and the counter and the handle are given back.
\<close>

lemma waits:
  assumes s: "ready t s" "none_resumable t s" "native (mFibers s ! current t s) = Running ctx r"
    and g: "mpmc_list (mIdleFibers s) = g # idle" "unat g < length (mFibers s)" "unat g \<noteq> current t s"
      "native (mFibers s ! unat g) = Resumed k" "looking k"
    and h: "pool_is_alive P (mCounterHandles s) h" "pool_index P (mCounterHandles s) h = c" "h \<noteq> null_handle_value"
    and c: "unat c < length (mCounters s)" "counter_shape (mCounters s ! unat c)" "waiters (mCounters s ! unat c) = Map.empty"
      "free_waiting_slots (mCounters s ! unat c) ! 0" "count (mCounters s ! unat c) = of_nat (length ts)"
    and ts: "mpmc_list (mTasks s) = ts @ rest" "ts \<noteq> []" "length ts < 2 ^ 32" "\<forall>tk \<in> set ts. get_metadata tk = c"
    and free: "mpmc_ok (mFreeCounters s)" "length (mpmc_list (mFreeCounters s)) < length (mBuffer (mFreeCounters s))"
  obtains s' where
    "prog_solo dbg P t ctx (single_wait_for \<lparr>sync_handle = h\<rparr> pinned) s ts (of_nat (length ts), null_sync) s'"
    "failed s' = None" "current t s' = current t s" "native (mFibers s' ! current t s) = Running ctx (BoolResult True)"
    "\<not> is_thread_waiting (s_tls s' t)" "mpmc_list (mTasks s') = rest" "mpmc_list (mFreeCounters s') = mpmc_list (mFreeCounters s) @ [c]"
    "mCounterHandles s' = pool_release P (mCounterHandles s) h" "count (mCounters s' ! unat c) = 0" "waiters (mCounters s' ! unat c) = Map.empty"
    "\<forall>j. j \<noteq> unat c \<longrightarrow> mCounters s' ! j = mCounters s ! j" "mpmc_list (mIdleFibers s') = idle @ [g]" "none_resumable t s'"
proof -
  have hc: "handle_counter P h s = unat c" using h(2) by (simp add: handle_counter_def)
  have slot: "0 < max_waiting" by (simp add: max_waiting_def)
  have "\<forall>tk \<in> set ts. unat (get_metadata tk) = unat c" "count (mCounters s ! unat c) = 0 + of_nat (length ts)" "0 \<le> sint (0 :: cint)"
    using ts(4) c(5) by simp_all
  from wait_executes [OF s(1,2) g this(3) h(1) hc c(1-3) slot c(4) ts(1-3) this(1,2), where dbg = dbg and ctx = ctx and pinned = pinned]
  obtain s1 s2 where w: "api_call dbg P t ctx (CallWait h pinned 0) s = Some s1" "solo dbg t s1 ts s2" "failed s2 = None"
    "current t s2 = current t s" "native (mFibers s2 ! current t s) = Running ctx (IntResult (of_nat (length ts)))"
    and m: "keeps_mode s s1"
    and f2: "\<not> is_thread_waiting (s_tls s2 t)" "mpmc_list (mTasks s2) = rest" "count (mCounters s2 ! unat c) = 0"
      "waiters (mCounters s2 ! unat c) = Map.empty" "\<forall>j. j \<noteq> unat c \<longrightarrow> mCounters s2 ! j = mCounters s ! j"
      "mpmc_list (mIdleFibers s2) = idle @ [g]" "none_resumable t s2" "mFreeCounters s2 = mFreeCounters s" "mCounterHandles s2 = mCounterHandles s"
    unfolding c(5) by blast
  have "keeps_mode s1 s2" using solo_steps [OF w(2)] m s(1) by (simp add: ready_def keeps_mode_def)
  then have len: "unat c < length (mCounters s2)" "current t s < length (mFibers s2)"
    using m c(1) readyD(5) [OF s(1)] by (simp_all add: keeps_mode_def)
  obtain q where q: "mpmc_enqueue (mFreeCounters s) c = Some (True, q)" "mpmc_list q = mpmc_list (mFreeCounters s) @ [c]"
    using mpmc.enq_room [OF free, of c] by blast
  let ?s' = "goto t (Running ctx (BoolResult True)) (s2\<lparr>mCounterHandles := pool_release P (mCounterHandles s) h, mFreeCounters := q\<rparr>)"
  have rel: "api_call dbg P t ctx (CallReleaseIfOnTarget h 0) s2 = Some ?s'"
    using f2(3,8,9) len(1) h(2) q(1) by (simp add: releaseCounterIfOnTarget_def handle_counter_def free_counter_of_def)
  have cur: "current t ?s' = current t s" "native (mFibers ?s' ! current t s) = Running ctx (BoolResult True)"
    using w(4) len(2) by (simp_all add: goto_def set_native_def current_def)
  have released: "prog_solo dbg P t ctx (Invoke (CallReleaseIfOnTarget h 0) (\<lambda>b. Return (x, if bool_result b then z else y))) s2 ([] @ []) (x, z) ?s'" for x y z
    by (rule prog_calls [OF w(3) _ rel solo_here, where r = "BoolResult True"]) (use w(3,4) cur in \<open>simp_all add: prog_returns\<close>)
  have "prog_solo dbg P t ctx (Invoke (CallWait h pinned 0) (\<lambda>res. Invoke (CallReleaseIfOnTarget h 0)
      (\<lambda>b. Return (int_result res, if bool_result b then \<lparr>sync_handle = h\<rparr>\<lparr>sync_handle := null_handle_value\<rparr> else \<lparr>sync_handle = h\<rparr>))))
      s (ts @ []) (of_nat (length ts), null_sync) ?s'"
    by (rule prog_calls [OF readyD(1) [OF s(1)] _ w(1-5)])
      (use released [of "of_nat (length ts)" "\<lparr>sync_handle = h\<rparr>\<lparr>sync_handle := null_handle_value\<rparr>" "\<lparr>sync_handle = h\<rparr>"] in
        \<open>simp_all add: null_sync_def\<close>)
  then have "prog_solo dbg P t ctx (single_wait_for \<lparr>sync_handle = h\<rparr> pinned) s ts (of_nat (length ts), null_sync) ?s'"
    using h(3) by (simp add: single_wait_for_def counter_is_valid_def null_sync_def)
  from that [OF this] show ?thesis using w(3) cur f2 q(2) by simp
qed

section \<open>Properties\<close>

text \<open>
  C8: a task that submits tasks on a new sync object and waits for it, pinned or not, on a thread that has no other
  task pending and that the others do not disturb. The thread executes exactly the submitted tasks, in order, on an
  idle fiber while the submitter waits; then the wait returns their number on the fiber it was called on, the sync
  object is cleared, the counter is free again and on zero, the handle is given back, and the idle fiber is idle
  again. It is a run of the scheduler.
\<close>

theorem submit_and_wait:
  assumes s: "ready t s" "none_resumable t s" "native (mFibers s ! current t s) = Running ctx r"
    and g: "mpmc_list (mIdleFibers s) = g # idle" "unat g < length (mFibers s)" "unat g \<noteq> current t s"
      "native (mFibers s ! unat g) = Resumed k" "looking k"
    and c: "mpmc_ok (mFreeCounters s)" "mpmc_list (mFreeCounters s) = c # free" "unat c < length (mCounters s)"
      "counter_shape (mCounters s ! unat c)"
    and P: "pool_acquire P (mCounterHandles s) = (h, hs)" "pool_index P (pool_set_index P hs h c) h = c"
      "pool_is_alive P (pool_set_index P hs h c) h" "h \<noteq> null_handle_value"
    and ts: "mpmc_list (mTasks s) = []" "length ts \<le> length (mBuffer (mTasks s))" "ts \<noteq> []" "length ts < 2 ^ 32"
  shows "\<exists>s'. prog_solo dbg P t ctx (prog_bind (submit_raw dbg True null_sync ts) (\<lambda>sy. single_wait_for sy pinned)) s
      (map (set_metadata c) ts) (of_nat (length ts), null_sync) s' \<and> (sched_step dbg P)\<^sup>*\<^sup>* s s' \<and> failed s' = None \<and>
    current t s' = current t s \<and> native (mFibers s' ! current t s) = Running ctx (BoolResult True) \<and>
    \<not> is_thread_waiting (s_tls s' t) \<and> mpmc_list (mTasks s') = [] \<and> mpmc_list (mFreeCounters s') = free @ [c] \<and>
    mCounterHandles s' = pool_release P (pool_set_index P hs h c) h \<and> count (mCounters s' ! unat c) = 0 \<and>
    waiters (mCounters s' ! unat c) = Map.empty \<and> (\<forall>j. j \<noteq> unat c \<longrightarrow> mCounters s' ! j = mCounters s ! j) \<and>
    mpmc_list (mIdleFibers s') = idle @ [g] \<and> none_resumable t s'"
proof -
  have room: "length (mpmc_list (mTasks s)) + length ts \<le> length (mBuffer (mTasks s))" using ts(1,2) by simp
  obtain qf a q where qf: "mpmc_ok qf" "mpmc_list qf = free" "length free < length (mBuffer qf)"
    and a: "count a = of_nat (length ts)" "waiters a = Map.empty" "counter_shape a" "free_waiting_slots a ! 0"
    and q: "mpmc_ok q" "mpmc_list q = map (set_metadata c) ts"
    and go: "\<And>f xs v s'. prog_solo dbg P t ctx (f \<lparr>sync_handle = h\<rparr>) (goto t (Running ctx NoResult)
        (s\<lparr>mFreeCounters := qf, mCounterHandles := pool_set_index P hs h c, mCounters := (mCounters s)[unat c := a], mTasks := q\<rparr>)) xs v s' \<Longrightarrow>
      prog_solo dbg P t ctx (prog_bind (submit_raw dbg True null_sync ts) f) s xs (v :: cint \<times> sync) s'"
    by (rule submits [OF s(1) c P(1,2) room ts(3,4), where dbg = dbg and ctx = ctx and 'b = "cint \<times> sync"]) (use ts(1) in simp_all)
  let ?u = "s\<lparr>mFreeCounters := qf, mCounterHandles := pool_set_index P hs h c, mCounters := (mCounters s)[unat c := a], mTasks := q\<rparr>"
  let ?s = "goto t (Running ctx NoResult) ?u"
  have u: "ready t ?s" "none_resumable t ?s" using q(1) s(1,2) by (simp_all add: ready_tasks)
  have cur: "current t ?s = current t s" "native (mFibers ?s ! current t s) = Running ctx NoResult"
    "native (mFibers ?s ! unat g) = Resumed k" "length (mFibers ?s) = length (mFibers s)" "mIdleFibers ?s = mIdleFibers s"
    "mCounters ?s = (mCounters s)[unat c := a]" "mTasks ?s = q" "mFreeCounters ?s = qf" "mCounterHandles ?s = pool_set_index P hs h c"
    using readyD(5) [OF s(1)] g(3,4) by (simp_all add: goto_def set_native_def current_def)
  obtain s' where r: "prog_solo dbg P t ctx (single_wait_for \<lparr>sync_handle = h\<rparr> pinned) ?s (map (set_metadata c) ts)
      (of_nat (length (map (set_metadata c) ts)), null_sync) s'"
    and f: "failed s' = None" "current t s' = current t ?s" "native (mFibers s' ! current t ?s) = Running ctx (BoolResult True)"
    "\<not> is_thread_waiting (s_tls s' t)" "mpmc_list (mTasks s') = []" "mpmc_list (mFreeCounters s') = mpmc_list (mFreeCounters ?s) @ [c]"
    "mCounterHandles s' = pool_release P (mCounterHandles ?s) h" "count (mCounters s' ! unat c) = 0" "waiters (mCounters s' ! unat c) = Map.empty"
    "\<forall>j. j \<noteq> unat c \<longrightarrow> mCounters s' ! j = mCounters ?s ! j" "mpmc_list (mIdleFibers s') = idle @ [g]" "none_resumable t s'"
    by (rule waits [OF u, where r = NoResult and g = g and idle = idle and k = k and ts = "map (set_metadata c) ts" and rest = "[]" and P = P and h = h and c = c and dbg = dbg and pinned = pinned])
      (use cur g c(3) P a q qf ts(3,4) in \<open>simp_all add: get_metadata_def set_metadata_def del: length_mpmc_list\<close>)
  have run: "prog_solo dbg P t ctx (prog_bind (submit_raw dbg True null_sync ts) (\<lambda>sy. single_wait_for sy pinned)) s
      (map (set_metadata c) ts) (of_nat (length ts), null_sync) s'"
    using go [of "\<lambda>sy. single_wait_for sy pinned"] r by simp
  moreover have "(sched_step dbg P)\<^sup>*\<^sup>* s s'"
    using prog_solo_steps [OF run] s(1,3) by (simp add: ready_def)
  ultimately show ?thesis using f cur qf(2) by (intro exI [of _ s']) simp
qed

text \<open>The main thread in its task, one idle fiber, one free counter, no task pending; two tasks are submitted.\<close>

theorem submit_and_wait_witness:
  "\<exists>s s'. prog_solo True sample_pool 0 (MainTask sample_task)
      (prog_bind (submit_raw True True null_sync [sample_task, sample_task]) (\<lambda>sy. single_wait_for sy True)) s
      [set_metadata 0 sample_task, set_metadata 0 sample_task] (2, null_sync) s' \<and>
    mpmc_list (mTasks s') = [] \<and> mpmc_list (mFreeCounters s') = [0] \<and> mpmc_list (mIdleFibers s') = [1]"
proof -
  obtain idle where idle: "mpmc_ok idle" "mpmc_list idle = [1 :: fiber_index_t]" by (rule wait_sample_idle)
  obtain free :: "counter_index_t mpmc" where free: "mpmc_ok free" "mpmc_list free = [0]"
    by (rule api_free_counters [of "[0]"]) simp_all
  let ?s = "(wait_sample (mpmc_init sample_task 4) idle)\<lparr>mFreeCounters := free, mCounterHandles := []\<rparr>"
  note fs = wait_sample_fields [where ts = "mpmc_init sample_task 4" and idle = idle]
  have ok: "ready 0 ?s" "none_resumable 0 ?s" using wait_sample_ready [OF api_queues(1) idle(1)] by simp_all
  have "native (mFibers ?s ! current 0 ?s) = Running (MainTask sample_task) NoResult"
    by (simp add: wait_sample_def sample_queues_def current_def)
  moreover have "mpmc_list (mIdleFibers ?s) = 1 # []" "unat (1 :: fiber_index_t) < length (mFibers ?s)"
    "unat (1 :: fiber_index_t) \<noteq> current 0 ?s" "native (mFibers ?s ! unat (1 :: fiber_index_t)) = Resumed (LoopTop lc_min_backoff_pauses)"
    "looking (LoopTop lc_min_backoff_pauses)" using idle fs by simp_all
  moreover have "mpmc_ok (mFreeCounters ?s)" "mpmc_list (mFreeCounters ?s) = 0 # []" "unat (0 :: counter_index_t) < length (mCounters ?s)"
    "counter_shape (mCounters ?s ! unat (0 :: counter_index_t))"
    using free fs api_counter by (simp_all add: counter_shape_def)
  moreover have "pool_acquire sample_pool (mCounterHandles ?s) = (0, [0])" "pool_index sample_pool (pool_set_index sample_pool [0] 0 0) 0 = 0"
    "pool_is_alive sample_pool (pool_set_index sample_pool [0] 0 0) 0" "(0 :: handle_t) \<noteq> null_handle_value"
    by (simp_all add: sample_pool_def null_handle_value_def)
  moreover have "mpmc_list (mTasks ?s) = []" "length [sample_task, sample_task] \<le> length (mBuffer (mTasks ?s))"
    "[sample_task, sample_task] \<noteq> []" "length [sample_task, sample_task] < 2 ^ 32"
    using fs api_queues by simp_all
  ultimately show ?thesis
    using submit_and_wait [OF ok, of "MainTask sample_task" NoResult 1 "[]" "LoopTop lc_min_backoff_pauses" 0 "[]" sample_pool 0 "[0]"
        "[sample_task, sample_task]" True True] by (simp del: length_mpmc_list) blast
qed

end
