(* ===== verification/Windows_Fibers.thy ===== *)
theory Windows_Fibers
  imports Native_Fibers
begin

text \<open>
  The Windows half of native/fiber.hh, which hands every operation to the fibers of the platform. These are
  parameters; what their documentation says is stated in terms of the coroutines of \<open>Native_Fibers\<close>, so that
  both halves of the file implement one specification.
\<close>

section \<open>The functions of the platform\<close>

text \<open>
  A fiber is \<open>None\<close> when its pointer is null. \<open>t\<close> is the calling thread and \<open>u\<close> the position of the caller behind
  the call, which the processor keeps. \<open>f_create\<close> gets the stack size, the function and its argument.
\<close>

record ('u, 'w) win_fibers =
  f_convert :: "nat \<Rightarrow> 'u \<Rightarrow> 'w \<Rightarrow> nat option \<times> 'w"
  f_revert :: "nat \<Rightarrow> 'u \<Rightarrow> 'w \<Rightarrow> 'w"
  f_create :: "nat \<Rightarrow> 'u \<Rightarrow> usize \<Rightarrow> nat \<Rightarrow> nat \<Rightarrow> 'w \<Rightarrow> nat option \<times> 'w"
  f_delete :: "nat \<Rightarrow> 'u \<Rightarrow> nat \<Rightarrow> 'w \<Rightarrow> 'w"
  f_switch :: "nat \<Rightarrow> 'u \<Rightarrow> nat \<Rightarrow> 'w \<Rightarrow> 'w"

type_synonym win_fiber = "nat option"

section \<open>Operations\<close>

definition win_create_main_fiber ::
  "bool \<Rightarrow> ('u, 'w) win_fibers \<Rightarrow> nat \<Rightarrow> 'u \<Rightarrow> 'w \<Rightarrow> failure + win_fiber \<times> 'w" where
  "win_create_main_fiber dbg W t u w =
     (case f_convert W t u w of
        (fib, w') \<Rightarrow> and_then (cc_assert dbg (fib \<noteq> None) ''Thread to fiber conversion failed'') (\<lambda>_. Inr (fib, w')))"

definition win_delete_main_fiber :: "('u, 'w) win_fibers \<Rightarrow> nat \<Rightarrow> 'u \<Rightarrow> 'w \<Rightarrow> 'w" where
  "win_delete_main_fiber W t u w = f_revert W t u w"

definition win_create_fiber ::
  "bool \<Rightarrow> ('u, 'w) win_fibers \<Rightarrow> nat \<Rightarrow> 'u \<Rightarrow> nat \<Rightarrow> nat \<Rightarrow> usize \<Rightarrow> 'w \<Rightarrow> failure + win_fiber \<times> 'w" where
  "win_create_fiber dbg W t u fiber_proc ctx stack_size w =
     (case f_create W t u stack_size fiber_proc ctx w of
        (fib, w') \<Rightarrow> and_then (cc_assert dbg (fib \<noteq> None) ''Fiber creation failed'') (\<lambda>_. Inr (fib, w')))"

text \<open>The platform does not accept a null pointer here.\<close>

definition win_delete_fiber :: "('u, 'w) win_fibers \<Rightarrow> nat \<Rightarrow> 'u \<Rightarrow> win_fiber \<Rightarrow> 'w \<Rightarrow> 'w option" where
  "win_delete_fiber W t u fib w = map_option (\<lambda>f. f_delete W t u f w) fib"

definition win_switch_to_fiber :: "('u, 'w) win_fibers \<Rightarrow> nat \<Rightarrow> 'u \<Rightarrow> win_fiber \<Rightarrow> 'w \<Rightarrow> 'w option" where
  "win_switch_to_fiber W t u fib w = map_option (\<lambda>f. f_switch W t u f w) fib"

section \<open>What the documentation says\<close>

text \<open>
  \<open>A\<close> gives the coroutines there are. A thread that is converted goes on as a fiber, with the number the
  specification has for it from the start; a new fiber has a number that is not in use, and starts at its
  function when it is switched to; a switch leaves the running fiber at its position.
\<close>

definition fibers_documented ::
  "(nat \<Rightarrow> nat \<Rightarrow> 'u) \<Rightarrow> nat \<Rightarrow> ('u, 'w) win_fibers \<Rightarrow> ('w \<Rightarrow> 'u coroutines) \<Rightarrow> bool" where
  "fibers_documented entry n W A \<longleftrightarrow>
     (\<forall>t u w r w'. f_convert W t u w = (r, w') \<longrightarrow> A w' = c_starts t u ActWork (A w) \<and> (\<forall>h. r = Some h \<longrightarrow> h = c_run (A w) t)) \<and>
     (\<forall>t u w. A (f_revert W t u w) = c_starts t u ActWork (A w)) \<and>
     (\<forall>t u sz fnc c w r w'. f_create W t u sz fnc c w = (r, w') \<longrightarrow>
        (case r of None \<Rightarrow> A w' = c_starts t u ActWork (A w)
         | Some h \<Rightarrow> c_pos (A w) h = None \<and> c_free n (A w) h \<and>
             A w' = c_ends entry t (Creating h fnc c) (c_starts t u (ActCreate h fnc c sz) (A w)))) \<and>
     (\<forall>t u h w. c_allows n (A w) t (ActDelete h) \<longrightarrow> A (f_delete W t u h w) = c_starts t u (ActDelete h) (A w)) \<and>
     (\<forall>t u h w. c_allows n (A w) t (ActSwitch h (c_run (A w) t)) \<longrightarrow>
        A (f_switch W t u h w) = c_ends entry t (Switching h) (c_starts t u (ActSwitch h (c_run (A w) t)) (A w)))"

section \<open>Refinement\<close>

lemma co_whole_call:
  assumes "t < n" and "c_claim A t = NoClaim" and "c_allows n A t a" and "c_claim (c_starts t u a A) t \<noteq> NoClaim"
  shows "(co_step entry n)\<^sup>*\<^sup>* A (c_ends entry t (c_claim (c_starts t u a A) t) (c_starts t u a A))"
  using co_call [OF assms(1-3)] co_end [OF assms(1,4)] by (meson converse_rtranclp_into_rtranclp r_into_rtranclp)

text \<open>
  Each function that returns makes the step of the coroutines it stands for, whole calls at a time, when user
  code follows their rules; in a build with assertions a fiber that was returned is not null.
\<close>

lemma win_fibers_refine:
  assumes doc: "fibers_documented entry n W A" and t: "t < n" "c_claim (A w) t = NoClaim"
  shows "win_create_main_fiber dbg W t u w = Inr (fib, w') \<Longrightarrow>
      (co_step entry n)\<^sup>*\<^sup>* (A w) (A w') \<and> (dbg \<longrightarrow> fib = Some (c_run (A w) t))"
    and "(co_step entry n)\<^sup>*\<^sup>* (A w) (A (win_delete_main_fiber W t u w))"
    and "win_create_fiber dbg W t u fnc c sz w = Inr (fib, w') \<Longrightarrow> (co_step entry n)\<^sup>*\<^sup>* (A w) (A w') \<and>
      (case fib of None \<Rightarrow> \<not> dbg | Some h \<Rightarrow> c_pos (A w) h = None \<and> c_pos (A w') h = Some (entry fnc c))"
    and "c_allows n (A w) t (ActDelete h) \<Longrightarrow> \<exists>w'. win_delete_fiber W t u (Some h) w = Some w' \<and>
      (co_step entry n)\<^sup>*\<^sup>* (A w) (A w') \<and> c_pos (A w') h = None"
    and "c_allows n (A w) t (ActSwitch h (c_run (A w) t)) \<Longrightarrow> \<exists>w'. win_switch_to_fiber W t u (Some h) w = Some w' \<and>
      (co_step entry n)\<^sup>*\<^sup>* (A w) (A w') \<and> c_run (A w') t = h \<and> c_pos (A w') (c_run (A w) t) = Some u"
proof -
  note doc' = doc [unfolded fibers_documented_def]
  have d1: "f_convert W t u w = (r, w') \<Longrightarrow> A w' = c_starts t u ActWork (A w) \<and> (\<forall>h. r = Some h \<longrightarrow> h = c_run (A w) t)" for r w'
    using doc' by simp
  have d2: "A (f_revert W t u w) = c_starts t u ActWork (A w)" using doc' by simp
  have d3: "f_create W t u sz fnc c w = (r, w') \<Longrightarrow> (case r of None \<Rightarrow> A w' = c_starts t u ActWork (A w)
      | Some h \<Rightarrow> c_pos (A w) h = None \<and> c_free n (A w) h \<and>
          A w' = c_ends entry t (Creating h fnc c) (c_starts t u (ActCreate h fnc c sz) (A w)))" for r w'
    using conjunct1 [OF conjunct2 [OF conjunct2 [OF doc']]] by blast
  have d4: "c_allows n (A w) t (ActDelete h) \<Longrightarrow> A (f_delete W t u h w) = c_starts t u (ActDelete h) (A w)" for h
    using conjunct1 [OF conjunct2 [OF conjunct2 [OF conjunct2 [OF doc']]]] by blast
  have d5: "c_allows n (A w) t (ActSwitch h (c_run (A w) t)) \<Longrightarrow>
      A (f_switch W t u h w) = c_ends entry t (Switching h) (c_starts t u (ActSwitch h (c_run (A w) t)) (A w))" for h
    using conjunct2 [OF conjunct2 [OF conjunct2 [OF conjunct2 [OF doc']]]] by blast
  have work: "(co_step entry n)\<^sup>*\<^sup>* (A w) (c_starts t u ActWork (A w))"
    using co_call [OF t, of ActWork entry u] by (simp add: r_into_rtranclp)
  show "win_create_main_fiber dbg W t u w = Inr (fib, w') \<Longrightarrow>
      (co_step entry n)\<^sup>*\<^sup>* (A w) (A w') \<and> (dbg \<longrightarrow> fib = Some (c_run (A w) t))"
    using d1 work by (cases "f_convert W t u w") (auto simp: win_create_main_fiber_def and_then_eq_Inr cc_assert_def split: if_splits)
  show "(co_step entry n)\<^sup>*\<^sup>* (A w) (A (win_delete_main_fiber W t u w))"
    using d2 work by (simp add: win_delete_main_fiber_def)
  show "win_create_fiber dbg W t u fnc c sz w = Inr (fib, w') \<Longrightarrow> (co_step entry n)\<^sup>*\<^sup>* (A w) (A w') \<and>
      (case fib of None \<Rightarrow> \<not> dbg | Some h \<Rightarrow> c_pos (A w) h = None \<and> c_pos (A w') h = Some (entry fnc c))"
  proof -
    assume call: "win_create_fiber dbg W t u fnc c sz w = Inr (fib, w')"
    then have r: "f_create W t u sz fnc c w = (fib, w')" "fib = None \<Longrightarrow> \<not> dbg"
      by (cases "f_create W t u sz fnc c w"; auto simp: win_create_fiber_def and_then_eq_Inr cc_assert_def split: if_splits)+
    show ?thesis
    proof (cases fib)
      case None
      then show ?thesis using d3 [OF r(1)] r(2) work by simp
    next
      case (Some h)
      then have "c_pos (A w) h = None" "c_free n (A w) h"
        "A w' = c_ends entry t (Creating h fnc c) (c_starts t u (ActCreate h fnc c sz) (A w))" using d3 [OF r(1)] by simp_all
      then show ?thesis using Some co_whole_call [OF t, of "ActCreate h fnc c sz" u entry] by simp
    qed
  qed
  show "c_allows n (A w) t (ActDelete h) \<Longrightarrow> \<exists>w'. win_delete_fiber W t u (Some h) w = Some w' \<and>
      (co_step entry n)\<^sup>*\<^sup>* (A w) (A w') \<and> c_pos (A w') h = None"
    using d4 [of h] co_call [OF t, of "ActDelete h" entry u] t(1) by (auto simp: win_delete_fiber_def c_free_iff r_into_rtranclp)
  show "c_allows n (A w) t (ActSwitch h (c_run (A w) t)) \<Longrightarrow> \<exists>w'. win_switch_to_fiber W t u (Some h) w = Some w' \<and>
      (co_step entry n)\<^sup>*\<^sup>* (A w) (A w') \<and> c_run (A w') t = h \<and> c_pos (A w') (c_run (A w) t) = Some u"
    using d5 [of h] co_whole_call [OF t, of "ActSwitch h (c_run (A w) t)" u entry] by (auto simp: win_switch_to_fiber_def)
qed

text \<open>The documented behaviour is possible: the state is that of the coroutines, with room for one more fiber.\<close>

definition sample_fibers :: "(nat \<Rightarrow> nat \<Rightarrow> 'u) \<Rightarrow> nat \<Rightarrow> nat \<Rightarrow> ('u, 'u coroutines) win_fibers" where
  "sample_fibers entry n room = \<lparr>f_convert = (\<lambda>t u A. (Some (c_run A t), c_starts t u ActWork A)),
     f_revert = (\<lambda>t u A. c_starts t u ActWork A),
     f_create = (\<lambda>t u sz fnc c A. if c_pos A room = None \<and> c_free n A room
       then (Some room, c_ends entry t (Creating room fnc c) (c_starts t u (ActCreate room fnc c sz) A))
       else (None, c_starts t u ActWork A)),
     f_delete = (\<lambda>t u h A. c_starts t u (ActDelete h) A),
     f_switch = (\<lambda>t u h A. c_ends entry t (Switching h) (c_starts t u (ActSwitch h (c_run A t)) A))\<rparr>"

lemma sample_fibers_documented: "fibers_documented entry n (sample_fibers entry n room) (\<lambda>A. A)"
  by (simp add: fibers_documented_def sample_fibers_def)

end
