(* ===== verification/Thread_Wrappers.thy ===== *)
theory Thread_Wrappers
  imports Native_Threads Windows_Threads
begin

text \<open>
  The short functions of native/thread.hh on both systems: names of threads, their end and the wait for it, the
  cores of the calling thread, and the life of an event. The functions of the platform are parameters.
\<close>

section \<open>Names of threads\<close>

text \<open>The conversion \<open>%02d\<close> of \<open>snprintf\<close>, which pads to two characters with zeros, and its cut to the buffer.\<close>

definition digit_char :: "nat \<Rightarrow> char" where
  "digit_char d = char_of (48 + d)"

fun decimal :: "nat \<Rightarrow> string" where
  "decimal n = (if n < 10 then [digit_char n] else decimal (n div 10) @ [digit_char (n mod 10)])"

declare decimal.simps [simp del]

definition show_02d :: "cint \<Rightarrow> string" where
  "show_02d i = (if sint i < 0 then ''-'' @ decimal (nat (- sint i))
     else if sint i < 10 then ''0'' @ decimal (nat (sint i)) else decimal (nat (sint i)))"

definition snprintf :: "nat \<Rightarrow> string \<Rightarrow> string" where
  "snprintf n s = take (n - 1) s"

definition worker_thread_name :: "cint \<Rightarrow> string" where
  "worker_thread_name i = snprintf 256 (''td worker thread #'' @ show_02d i)"

text \<open>The record of the exception that carries a name to the debugger; \<open>- 1\<close> is the calling thread.\<close>

record thread_name_info =
  dwType :: u32
  szName :: string
  dwThreadID :: u32
  dwFlags :: u32

text \<open>Eight-byte packing: two words of 4 bytes around a pointer of 8, the first one filled up.\<close>

definition thread_name_info_size :: nat where
  "thread_name_info_size = 24"

section \<open>Windows\<close>

record 'w win_calls =
  wc_raise :: "u32 \<Rightarrow> u32 \<Rightarrow> u32 \<Rightarrow> thread_name_info \<Rightarrow> 'w \<Rightarrow> 'w"
  wc_end_thread :: "u32 \<Rightarrow> 'w \<Rightarrow> 'w"
  wc_wait_for_single_object :: "nat option \<Rightarrow> u32 \<Rightarrow> 'w \<Rightarrow> 'w"
  wc_current_thread :: "'w \<Rightarrow> nat option"
  wc_current_thread_id :: "'w \<Rightarrow> u32"
  wc_set_affinity :: "nat option \<Rightarrow> usize \<Rightarrow> 'w \<Rightarrow> 'w"
  wc_init_condition :: "'w \<Rightarrow> 'w"
  wc_init_section :: "'w \<Rightarrow> 'w"
  wc_delete_section :: "'w \<Rightarrow> 'w"
  wc_wake_all :: "'w \<Rightarrow> 'w"

definition win_infinite :: u32 where "win_infinite = - 1"

definition set_win32_thread_name :: "'w win_calls \<Rightarrow> u32 \<Rightarrow> string \<Rightarrow> 'w \<Rightarrow> 'w" where
  "set_win32_thread_name W thread_id name w =
     wc_raise W 0x406D1388 0 (of_nat (thread_name_info_size div 8))
       \<lparr>dwType = 0x1000, szName = name, dwThreadID = thread_id, dwFlags = 0\<rparr> w"

text \<open>Only in a build without \<open>NDEBUG\<close>.\<close>

definition win_set_current_thread_debug_name :: "bool \<Rightarrow> 'w win_calls \<Rightarrow> cint \<Rightarrow> 'w \<Rightarrow> 'w" where
  "win_set_current_thread_debug_name ndebug W i w =
     (if ndebug then w else set_win32_thread_name W (- 1) (worker_thread_name i) w)"

definition win_end_current_thread :: "'w win_calls \<Rightarrow> 'w \<Rightarrow> 'w" where
  "win_end_current_thread W w = wc_end_thread W 0 w"

definition win_join_thread :: "'w win_calls \<Rightarrow> win_thread \<Rightarrow> 'w \<Rightarrow> 'w" where
  "win_join_thread W thread w = wc_wait_for_single_object W (wt_handle thread) win_infinite w"

definition win_get_current_thread :: "'w win_calls \<Rightarrow> 'w \<Rightarrow> win_thread" where
  "win_get_current_thread W w = \<lparr>wt_handle = wc_current_thread W w, wt_id = wc_current_thread_id W w\<rparr>"

text \<open>The shift is undefined for a core of 64 or more, which is \<open>OutOfRange\<close> here.\<close>

definition win_set_current_thread_affinity :: "'w win_calls \<Rightarrow> usize \<Rightarrow> 'w \<Rightarrow> failure + 'w" where
  "win_set_current_thread_affinity W core w =
     (if 64 \<le> core then Inl OutOfRange else Inr (wc_set_affinity W (wc_current_thread W w) (push_bit (unat core) 1) w))"

definition win_create_event :: "'w win_calls \<Rightarrow> 'w \<Rightarrow> 'w" where
  "win_create_event W w = wc_init_section W (wc_init_condition W w)"

definition win_destroy_event :: "'w win_calls \<Rightarrow> 'w \<Rightarrow> 'w" where
  "win_destroy_event W w = wc_delete_section W w"

definition win_signal_event :: "'w win_calls \<Rightarrow> 'w \<Rightarrow> 'w" where
  "win_signal_event W w = wc_wake_all W w"

section \<open>POSIX\<close>

record ('t, 'cond, 'mutex, 'w) posix_calls =
  pc_exit :: "'w \<Rightarrow> 'w"
  pc_join :: "'t \<Rightarrow> 'w \<Rightarrow> 'w"
  pc_self :: "'w \<Rightarrow> 't"
  pc_setaffinity :: "'t \<Rightarrow> usize list \<Rightarrow> 'w \<Rightarrow> 'w"
  pc_cond_initializer :: 'cond
  pc_mutex_initializer :: 'mutex

definition end_current_thread :: "('t, 'cond, 'mutex, 'w) posix_calls \<Rightarrow> 'w \<Rightarrow> 'w" where
  "end_current_thread P w = pc_exit P w"

definition join_thread :: "('t, 'cond, 'mutex, 'w) posix_calls \<Rightarrow> 't \<Rightarrow> 'w \<Rightarrow> 'w" where
  "join_thread P thread w = pc_join P thread w"

definition get_current_thread :: "('t, 'cond, 'mutex, 'w) posix_calls \<Rightarrow> 'w \<Rightarrow> 't" where
  "get_current_thread P w = pc_self P w"

text \<open>On Linux only; the set has the one core.\<close>

definition set_current_thread_affinity :: "bool \<Rightarrow> ('t, 'cond, 'mutex, 'w) posix_calls \<Rightarrow> usize \<Rightarrow> 'w \<Rightarrow> 'w" where
  "set_current_thread_affinity linux P core w = (if linux then pc_setaffinity P (pc_self P w) [core] w else w)"

definition create_event :: "('t, 'cond, 'mutex, 'w) posix_calls \<Rightarrow> 'cond \<times> 'mutex" where
  "create_event P = (pc_cond_initializer P, pc_mutex_initializer P)"

section \<open>Names are distinct\<close>

text \<open>Reading a number back.\<close>

definition read_decimal :: "string \<Rightarrow> nat" where
  "read_decimal s = foldl (\<lambda>n c. 10 * n + (of_char c - 48)) 0 s"

lemma digit_value: "d < 10 \<Longrightarrow> of_char (digit_char d) - 48 = (d :: nat)"
  by (simp add: digit_char_def)

lemma digit_not: "d < 10 \<Longrightarrow> digit_char d \<noteq> CHR ''-''"
proof
  assume d: "d < 10" and eq: "digit_char d = CHR ''-''"
  have "of_char (digit_char d) = (48 + d :: nat)" using d by (simp add: digit_char_def)
  moreover have "of_char (CHR ''-'') = (45 :: nat)" by simp
  ultimately show False using eq by simp
qed

lemma read_decimal_decimal: "read_decimal (decimal n) = n"
proof (induction n rule: decimal.induct)
  case (1 n)
  show ?case
  proof (cases "n < 10")
    case True
    then show ?thesis by (subst decimal.simps) (simp add: read_decimal_def digit_value)
  next
    case False
    then have "read_decimal (decimal n) = 10 * read_decimal (decimal (n div 10)) + (of_char (digit_char (n mod 10)) - 48)"
      by (subst decimal.simps) (simp add: read_decimal_def)
    then show ?thesis using False 1 by (simp add: digit_value)
  qed
qed

lemma read_decimal_0: "read_decimal (CHR ''0'' # s) = read_decimal s"
  by (simp add: read_decimal_def)

lemma decimal_hd: "decimal n \<noteq> [] \<and> hd (decimal n) \<noteq> CHR ''-''"
proof (induction n rule: decimal.induct)
  case (1 n)
  show ?case
  proof (cases "n < 10")
    case True
    then show ?thesis by (subst (1 2) decimal.simps) (simp add: digit_not)
  next
    case False
    then show ?thesis using 1 by (subst (1 2) decimal.simps) simp
  qed
qed

lemma decimal_length: "0 < k \<Longrightarrow> n < 10 ^ k \<Longrightarrow> length (decimal n) \<le> k"
proof (induction k arbitrary: n)
  case (Suc k)
  show ?case
  proof (cases "n < 10")
    case True
    then show ?thesis by (subst decimal.simps) simp
  next
    case False
    then have "0 < k" "n div 10 < 10 ^ k" using Suc.prems(2) by (cases k; simp)+
    then show ?thesis using False Suc.IH by (subst decimal.simps) simp
  qed
qed simp

lemma show_02d_inject:
  assumes "show_02d i = show_02d j"
  shows "i = j"
proof -
  have nonneg: "hd (show_02d i) \<noteq> CHR ''-''" "read_decimal (show_02d i) = nat (sint i)" if "0 \<le> sint i" for i
    using that decimal_hd by (auto simp: show_02d_def read_decimal_0 read_decimal_decimal)
  have neg: "hd (show_02d i) = CHR ''-''" "read_decimal (tl (show_02d i)) = nat (- sint i)" if "sint i < 0" for i
    using that by (simp_all add: show_02d_def read_decimal_decimal)
  have "sint i = sint j"
  proof (cases "sint i < 0")
    case True
    then have "sint j < 0" using neg(1) [of i] nonneg(1) [of j] assms by force
    then show ?thesis using True neg(2) [of i] neg(2) [of j] assms by simp
  next
    case False
    then have "0 \<le> sint j" using neg(1) [of j] nonneg(1) [of i] assms by force
    then show ?thesis using False nonneg(2) [of i] nonneg(2) [of j] assms by simp
  qed
  then have "(word_of_int (sint i) :: cint) = word_of_int (sint j)" by (rule arg_cong)
  then show ?thesis by simp
qed

text \<open>The buffer is long enough for every index, and the names of two workers differ.\<close>

lemma worker_names:
  shows "worker_thread_name i = ''td worker thread #'' @ show_02d i"
    and "worker_thread_name i = worker_thread_name j \<Longrightarrow> i = j"
proof -
  have name: "worker_thread_name i = ''td worker thread #'' @ show_02d i" for i
  proof -
    have "- (2 ^ 31) \<le> sint i" "sint i < 2 ^ 31" using sint_ge [of i] sint_lt [of i] by simp_all
    then have "nat (sint i) < 10 ^ 10" "nat (- sint i) < 10 ^ 10" by simp_all
    then have "length (show_02d i) \<le> 11"
      using decimal_length [of 10 "nat (sint i)"] decimal_length [of 10 "nat (- sint i)"] by (simp add: show_02d_def)
    then show ?thesis by (simp add: worker_thread_name_def snprintf_def)
  qed
  then show "worker_thread_name i = ''td worker thread #'' @ show_02d i" .
  show "worker_thread_name i = worker_thread_name j \<Longrightarrow> i = j" using show_02d_inject by (simp add: name)
qed

end
