(* ===== verification/Spec2Isabelle.thy ===== *)
theory Spec2Isabelle
  imports Prelude Queue_Spec FIFO_Queue MPMC_Queue MPMC_Concurrent Counter Counter_Concurrent Task
    Scheduler Fiber_Ownership Scheduler_Limits Config Spin_Lock Version_Ring Task_API Batches API_Runs Chase_Lev Chase_Lev_Runs Work_Stealing
    Task_Conservation Scheduler_Sessions Futures Native_Threads Start_Lifecycle Math_Intrin Scheduler_Progress
    Native_Fibers System_Info Submit_Calls Reclaimer Windows_Threads Deque_Handles Thread_Info
    Chase_Lev_Actions Wait_Runs Submit_Wait Windows_Fibers Thread_Wrappers
begin

text \<open>
  A verification library for the task dispatcher, a fiber-based scheduler of tasks: user code submits tasks on
  sync objects (counters), waits for them inside of other tasks, and a fixed number of threads executes them on
  a fixed number of fibers, so that waiting never blocks a thread.

  \<^bold>\<open>The program and its theories.\<close> Paths are relative to src/task-dispatcher.

  \<^item> \<^bold>\<open>Containers.\<close> \<open>MPMC_Queue\<close> has container/mpmc_queue.hh, the bounded queue with a sequence number per cell:
    \<open>mpmc\<close> is the state, \<open>enq_probe\<close>, \<open>deq_probe\<close>, \<open>write_data\<close> and \<open>store_seq\<close> the atomic actions,
    \<open>mpmc_enqueue\<close> and \<open>mpmc_dequeue\<close> the retry loops of one thread. \<open>MPMC_Concurrent\<close> interleaves the actions
    of any number of threads and refines them to a bounded list. \<open>FIFO_Queue\<close> has \<open>FIFOQueue\<close> of
    container/mpsc_queue.hh with its \<open>int\<close> indices, \<open>Version_Ring\<close> container/version_ring.hh, \<open>Task\<close>
    container/task.hh at the level of bytes. \<open>Chase_Lev\<close>, \<open>Chase_Lev_Runs\<close>,
    \<open>Chase_Lev_Actions\<close>, \<open>Reclaimer\<close> and \<open>Deque_Handles\<close> have the work-stealing deque of container/spmc_queue.hh:
    its operations on a store of buffers, whole operations of its owner and thieves in any order, the interleaving of
    their single atomic actions with failing exchanges (\<open>owner_step\<close>, \<open>thief_step\<close>), the concurrent registration of
    thieves, and the objects \<open>Worker\<close> and \<open>Stealer\<close> that share it.
  \<^item> \<^bold>\<open>Common and native code.\<close> \<open>Spin_Lock\<close> has common/spin_lock.hh and the guarded use of the pinned queues,
    \<open>Math_Intrin\<close> common/math_intrin.hh, \<open>System_Info\<close> common/system_info.cc, \<open>Native_Threads\<close>,
    \<open>Windows_Threads\<close> and \<open>Thread_Wrappers\<close> the two halves of native/thread.hh, \<open>Native_Fibers\<close> and
    \<open>Windows_Fibers\<close> those of native/fiber.hh.
  \<^item> \<^bold>\<open>Scheduler.\<close> \<open>Counter\<close> has \<open>atomic_counter_t\<close> of scheduler.cc and its operations as sequences of
    atomic actions (\<open>cpc_step\<close>), \<open>Counter_Concurrent\<close> interleaves them. \<open>Scheduler\<close> has the scheduler itself:
    \<open>sched\<close> is the state of scheduler.hh together with the thread-local \<open>tls_t\<close> of all threads, \<open>fiber_pc\<close> the
    position of a fiber in \<open>fiber_func\<close>, in \<open>wait\<close>, in \<open>submitTasks\<close> or in user code, \<open>exec_pc\<close> one step of the
    code of the scheduler, \<open>api_call\<close> a call by user code, \<open>sched_step\<close> a step of any thread, \<open>sched_start\<close> and
    \<open>drain_queues\<close> the beginning and the end of \<open>start\<close>. \<open>Config\<close> has \<open>scheduler_config\<close>, its validation and
    the constructor, \<open>Start_Lifecycle\<close> the calls of the platform that \<open>start\<close> makes, \<open>Thread_Info\<close> the thread-local
    variables and the queries that read them, \<open>Work_Stealing\<close> the
    alternative way to get tasks that a constant of scheduler.cc switches off.
  \<^item> \<^bold>\<open>Interface.\<close> \<open>Task_API\<close> has sync.hh and td-lean.hh as programs over the calls of the scheduler,
    \<open>API_Runs\<close>, \<open>Wait_Runs\<close> and \<open>Submit_Wait\<close> run them, \<open>Batches\<close> has the batch functions of td.hh, \<open>Futures\<close> its futures, \<open>Submit_Calls\<close> its
    overloads of \<open>submit\<close> for calls with arguments.

  The components meet in \<open>Scheduler\<close>: it uses the bounded queues through the operations of \<open>MPMC_Queue\<close>, whose
  atomicity is the linearizability of \<open>MPMC_Concurrent\<close>; the pinned queues through \<open>FIFO_Queue\<close>, whose atomicity
  is that of \<open>Spin_Lock\<close>; the counters action by action; and a switch of fibers as one step, which
  \<open>Native_Fibers\<close> justifies: the fiber a thread leaves may be claimed by others only when the switch is over,
  which is when \<open>cleanUpPrevFiber\<close> hands it on.

  \<^bold>\<open>What is shown.\<close>

  \<^item> \<open>Fiber_Ownership\<close>: in every reachable state each fiber is in one place, runs on one thread at most and is
    entered only with a saved context; the queue of idle fibers never overflows. A run shows that \<open>wait\<close> can
    return early.
  \<^item> \<open>Task_Conservation\<close>: no task is lost or executed twice, and a counter is the number of its unfinished tasks.
  \<^item> \<open>Scheduler_Progress\<close>: typing of the state and progress. No thread gets stuck, and no index that the scheduler
    keeps is out of range. \<open>Scheduler_Sessions\<close>: \<open>start\<close> can be called again. \<open>Scheduler_Limits\<close>: with fewer
    fibers than threads a thread never starts.
  \<^item> \<open>Wait_Runs\<close>: a whole \<open>wait\<close> on one thread ends, after exactly the tasks of its counter were executed in order.
    \<open>Submit_Wait\<close>: so does a task that submits tasks and waits for them, and everything it took is given back.
  \<^item> \<open>Counter_Concurrent\<close>: no lost and no repeated wake-up while no slot is claimed twice, and the run that loses a
    waiter otherwise. \<open>Counter\<close>: the operations alone.
  \<^item> The queues: refinement of lists, alone and interleaved, the reasons of refusals, and the range of the signed
    differences. The work-stealing deque: refinement of a list action by action, through growth, shrinking and the
    deletion of buffers; no use of a deleted buffer but in the last action of a thief; an entry of its own for every
    thief; and the runs in which a delayed thief reads a later element and a deleted buffer.
  \<^item> The interface: what the programs leave behind on the scheduler, the partition of indices into batches with its
    boundary cases, the ownership of results, the effect of submitted calls.
  \<^item> The native layer: everything \<open>start\<close> acquires is released once; fibers refine coroutines; new threads have
    the wanted stack, core and signal mask; the timed wait never waits.

  The contracts between components are locales: \<open>queue_source\<close> and \<open>bounded_queue\<close> (\<open>Queue_Spec\<close>), interpreted on
  \<open>FIFO_Queue\<close> and \<open>MPMC_Queue\<close>, carry the population and draining loops of \<open>start\<close>; \<open>stealing\<close>
  (\<open>Work_Stealing\<close>) is interpreted on \<open>Chase_Lev\<close>. \<open>Prelude\<close> has the machine integers, failures and the lemmas on
  rings that all of them share.

  \<^bold>\<open>Conventions and bounds.\<close> Integers are words of their width and wrap; \<open>sint\<close> reads signed ones. A failed
  assertion is a value, and a flag \<open>dbg\<close> says whether \<open>CC_ASSERT\<close> is compiled in. A retry loop that need not end
  is a \<open>partial_function (option)\<close>, so that not returning is \<open>None\<close>; that loops return is then proved, from the
  invariant of the queue, and not assumed. The only fuel is the number of steps of
  \<open>run_alone\<close> in \<open>Counter\<close>, and the theorems give a number that is enough. Bounds are hypotheses: fewer than
  \<open>2 ^ 32 - 1\<close> fibers and \<open>2 ^ 32\<close> threads, since the largest index means none; queue sizes of powers of two between 2 and
  \<open>2 ^ 62\<close>; for the interleaved queue fewer tickets than the sign bit of a position.

  \<^bold>\<open>Parameters.\<close> What is not part of the repository is an argument of the definitions, with its documented meaning
  as a named hypothesis: the pool of counter handles (\<open>pool_ops\<close>), \<open>cc::is_pow2\<close>, \<open>cc::ceil_pow2\<close>,
  \<open>cc::mod_pow2\<close> and \<open>cc::int_div_ceil\<close>, pthreads and the Windows functions, the layout of compiled closures.

  \<^bold>\<open>Not modelled.\<close> Weak memory: the interleaving is sequentially consistent, and the orderings the code asks for are
  not examined. The export macros of common/api.hh and the priority of a thread. \<open>TD_ALLOW_HEAP_TASKS\<close>, which is
  off. Time: backoff pauses, event timeouts and \<open>rdtsc\<close> have no duration, and the heuristic warnings about
  deadlocks, which only print, are left out.
\<close>

end
